(* ===== verification/Prelude.thy ===== *)
theory Prelude
  imports Main "HOL-Library.List_Lexorder"
begin

text \<open>
  The prelude of the MJLsearch development: what every component shares.

  \<^item> Rust's \<open>Result\<close> is the sum type \<open>'e + 'a\<close> with \<open>Inl\<close> for \<open>Err\<close> and
    \<open>Inr\<close> for \<open>Ok\<close>; the \<open>?\<close> operator is \<open>and_then\<close>, and \<open>state_then\<close> for
    code that also mutates a state (the state survives the error, as the
    mutated \<open>&mut self\<close> of the code does).
  \<^item> Machine integers are \<open>nat\<close> and \<open>int\<close> with the width written out: the
    saturating operations of \<open>u64\<close> and \<open>i64\<close> the code calls.
  \<^item> \<open>u64::to_be_bytes\<close> and \<open>u32::to_le_bytes\<close> with their inverses.
  \<^item> The \<open>model_simps\<close> collection gathers the unfolding rules of small
    definitions and the facts that proofs of several components share.
\<close>

named_theorems model_simps \<open>definitions and facts the component proofs unfold by default\<close>

section \<open>Results and the question mark operator\<close>

definition and_then :: "'e + 'a \<Rightarrow> ('a \<Rightarrow> 'e + 'b) \<Rightarrow> 'e + 'b" where
  "and_then r k = (case r of Inl e \<Rightarrow> Inl e | Inr x \<Rightarrow> k x)"

definition state_then ::
    "('e + 'a) \<times> 's \<Rightarrow> ('a \<Rightarrow> 's \<Rightarrow> ('e + 'b) \<times> 's) \<Rightarrow> ('e + 'b) \<times> 's" where
  "state_then m k = (case m of (Inl e, s) \<Rightarrow> (Inl e, s) | (Inr x, s) \<Rightarrow> k x s)"

definition map_err :: "('e \<Rightarrow> 'f) \<Rightarrow> 'e + 'a \<Rightarrow> 'f + 'a" where
  "map_err f r = (case r of Inl e \<Rightarrow> Inl (f e) | Inr x \<Rightarrow> Inr x)"

definition ok_or :: "'e \<Rightarrow> 'a option \<Rightarrow> 'e + 'a" where
  "ok_or e x = (case x of None \<Rightarrow> Inl e | Some v \<Rightarrow> Inr v)"

lemma and_then_simps [simp]:
  "and_then (Inl e) k = Inl e" "and_then (Inr x) k = k x"
  by (simp_all add: and_then_def)

lemma and_then_Inr_iff:
  "and_then r k = Inr y \<longleftrightarrow> (\<exists>x. r = Inr x \<and> k x = Inr y)"
  by (cases r) simp_all

lemma state_then_simps [simp]:
  "state_then (Inl e, s) k = (Inl e, s)" "state_then (Inr x, s) k = k x s"
  by (simp_all add: state_then_def)

lemma state_then_Inr_iff:
  "state_then m k = (Inr y, s') \<longleftrightarrow> (\<exists>x s. m = (Inr x, s) \<and> k x s = (Inr y, s'))"
  by (cases m; cases "fst m") (auto simp: state_then_def)

lemma map_err_simps [simp]:
  "map_err f (Inl e) = Inl (f e)" "map_err f (Inr x) = Inr x"
  by (simp_all add: map_err_def)

lemma map_err_Inr_iff [simp]: "map_err f r = Inr x \<longleftrightarrow> r = Inr x"
  by (cases r) simp_all

lemma ok_or_simps [simp]: "ok_or e None = Inl e" "ok_or e (Some x) = Inr x"
  by (simp_all add: ok_or_def)

lemma ok_or_Inr_iff [simp]: "ok_or e v = Inr x \<longleftrightarrow> v = Some x"
  by (cases v) simp_all

text \<open>What the programs exit with.\<close>

datatype exit_code = SUCCESS | FAILURE

section \<open>Machine integers\<close>

definition u64_max :: nat where
  "u64_max = 18446744073709551615"

definition u32_max :: nat where
  "u32_max = 4294967295"

definition i64_max :: int where
  "i64_max = 9223372036854775807"

definition i64_min :: int where
  "i64_min = - 9223372036854775808"

definition sat_mul_u64 :: "nat \<Rightarrow> nat \<Rightarrow> nat" where
  "sat_mul_u64 a b = min (a * b) u64_max"

definition sat_add_i64 :: "int \<Rightarrow> int \<Rightarrow> int" where
  "sat_add_i64 a b = max i64_min (min i64_max (a + b))"

definition sat_sub_i64 :: "int \<Rightarrow> int \<Rightarrow> int" where
  "sat_sub_i64 a b = max i64_min (min i64_max (a - b))"

text \<open>The release profile leaves overflow checks off, so an unchecked \<open>u64\<close> addition wraps.\<close>

definition wrap_add_u64 :: "nat \<Rightarrow> nat \<Rightarrow> nat" where
  "wrap_add_u64 a b = (a + b) mod 2 ^ 64"

text \<open>\<open>n as i64\<close> keeps the bits of a \<open>u64\<close>.\<close>

definition as_i64 :: "nat \<Rightarrow> int" where
  "as_i64 n = (if n < 2 ^ 63 then int n else int n - 2 ^ 64)"

text \<open>Small operands are added without computing the modulus.\<close>

lemma wrap_add_u64_code [code]:
  "wrap_add_u64 a b = (if a < 64 \<and> b < 64 then a + b else (a + b) mod 2 ^ 64)"
  by (simp add: wrap_add_u64_def)

lemma u64_max_Suc: "Suc u64_max = 2 ^ 64"
  by (simp add: u64_max_def)

lemma u32_max_Suc: "Suc u32_max = 2 ^ 32"
  by (simp add: u32_max_def)

lemma sat_mul_u64_le: "sat_mul_u64 a b \<le> u64_max"
  by (simp add: sat_mul_u64_def)

lemma sat_mul_u64_mono: "a \<le> a' \<Longrightarrow> b \<le> b' \<Longrightarrow> sat_mul_u64 a b \<le> sat_mul_u64 a' b'"
  using mult_le_mono [of a a' b b'] by (auto simp: sat_mul_u64_def min_def)

lemma wrap_add_u64_small: "a + b < 2 ^ 64 \<Longrightarrow> wrap_add_u64 a b = a + b"
  by (simp add: wrap_add_u64_def)

section \<open>Integers as bytes\<close>

text \<open>Bytes are natural numbers below 256. \<open>be_bytes n x\<close> is \<open>x.to_be_bytes()\<close> of an
  \<open>n\<close>-byte integer, \<open>le_bytes n x\<close> is \<open>x.to_le_bytes()\<close>.\<close>

fun le_bytes :: "nat \<Rightarrow> nat \<Rightarrow> nat list" where
  "le_bytes 0 x = []"
| "le_bytes (Suc n) x = x mod 256 # le_bytes n (x div 256)"

fun of_le_bytes :: "nat list \<Rightarrow> nat" where
  "of_le_bytes [] = 0"
| "of_le_bytes (b # bs) = b + 256 * of_le_bytes bs"

definition be_bytes :: "nat \<Rightarrow> nat \<Rightarrow> nat list" where
  "be_bytes n x = rev (le_bytes n x)"

definition of_be_bytes :: "nat list \<Rightarrow> nat" where
  "of_be_bytes bs = of_le_bytes (rev bs)"

lemma length_le_bytes [simp]: "length (le_bytes n x) = n"
  by (induction n arbitrary: x) auto

lemma length_be_bytes [simp]: "length (be_bytes n x) = n"
  by (simp add: be_bytes_def)

lemma of_le_bytes_le_bytes: "x < 256 ^ n \<Longrightarrow> of_le_bytes (le_bytes n x) = x"
proof (induction n arbitrary: x)
  case 0
  then show ?case by simp
next
  case (Suc n)
  then have "x div 256 < 256 ^ n" by (simp add: less_mult_imp_div_less mult.commute)
  then show ?case by (simp add: Suc.IH mult_div_mod_eq [symmetric] del: mult_div_mod_eq)
qed

lemma of_be_bytes_be_bytes: "x < 256 ^ n \<Longrightarrow> of_be_bytes (be_bytes n x) = x"
  by (simp add: of_be_bytes_def be_bytes_def of_le_bytes_le_bytes)

lemma le_bytes_small: "b \<in> set (le_bytes n x) \<Longrightarrow> b < 256"
  by (induction n arbitrary: x) auto

lemma be_bytes_Suc: "be_bytes (Suc n) x = be_bytes n (x div 256) @ [x mod 256]"
  by (simp add: be_bytes_def)

lemma list_less_append_same: "(xs @ ys < xs @ zs) = (ys < (zs :: nat list))"
  by (induction xs) auto

lemma list_less_prefix_decided:
  "length xs = length ys \<Longrightarrow> xs < (ys :: nat list) \<Longrightarrow> xs @ as < ys @ bs"
  by (induction xs ys rule: list_induct2) auto

text \<open>Big-endian bytes of one width sort as the numbers do: the reason the frontier keys
  keep insertion order.\<close>

lemma be_bytes_less:
  "x < y \<Longrightarrow> y < 256 ^ n \<Longrightarrow> be_bytes n x < be_bytes n y"
proof (induction n arbitrary: x y)
  case 0
  then show ?case by simp
next
  case (Suc n)
  have y: "y div 256 < 256 ^ n"
    using Suc.prems(2) by (simp add: less_mult_imp_div_less mult.commute)
  show ?case
  proof (cases "x div 256 < y div 256")
    case True
    then have "be_bytes n (x div 256) < be_bytes n (y div 256)" using Suc.IH y by blast
    then show ?thesis by (simp add: be_bytes_Suc list_less_prefix_decided)
  next
    case False
    then have eq: "x div 256 = y div 256"
      using div_le_mono [of x y 256] Suc.prems(1) by simp
    have "x = 256 * (x div 256) + x mod 256" "y = 256 * (y div 256) + y mod 256" by simp_all
    then have "x mod 256 < y mod 256" using eq Suc.prems(1) by linarith
    then show ?thesis by (simp add: be_bytes_Suc eq list_less_append_same)
  qed
qed

section \<open>Lists and maps\<close>

lemma takeWhile_all_append: "\<forall>x \<in> set xs. P x \<Longrightarrow> takeWhile P (xs @ ys) = xs @ takeWhile P ys"
  by (induction xs) auto

lemma sorted_wrt_less_nth_min:
  "sorted_wrt (<) (x # xs) \<Longrightarrow> y \<in> set xs \<Longrightarrow> (x :: 'a :: order) < y"
  by simp

lemma card_dom_insert:
  "finite (dom m) \<Longrightarrow> m k = None \<Longrightarrow> card (dom (m(k \<mapsto> v))) = Suc (card (dom m))"
  by (simp add: card_insert_if domIff)

lemma card_dom_delete:
  "finite (dom m) \<Longrightarrow> m k \<noteq> None \<Longrightarrow> card (dom (m(k := None))) = card (dom m) - 1"
  by (simp add: dom_fun_upd card_Diff_singleton_if domIff)

lemma card_dom_update_same:
  "m k \<noteq> None \<Longrightarrow> card (dom (m(k \<mapsto> v))) = card (dom m)"
  by (simp add: insert_absorb domIff)

end
