(* ===== verification/Rstring.thy ===== *)
theory Rstring
  imports Prelude
begin

text \<open>
  Rust strings. A \<open>char\<close> is a Unicode scalar value, modelled by its code point, and a
  \<open>String\<close> or \<open>&str\<close> is the list of its characters: the program decodes character
  references to code points outside ASCII and tests Unicode white space, which a list of
  bytes would not show. \<open>str ''...''\<close> is an ASCII literal. Where the code counts or
  hashes bytes (\<open>len\<close>, \<open>as_bytes\<close>), the model goes through the UTF-8 encoding. Byte
  indices that the code only uses to slice the same string at a character boundary are
  modelled by the split they make.

  This theory holds the standard-library operations the source calls and their laws:
  prefixes and suffixes, search, \<open>split_once\<close>, \<open>lines\<close>, \<open>trim\<close>,
  \<open>to_ascii_lowercase\<close>, integer parsing and formatting, and UTF-8.
\<close>

type_synonym rchar = nat
type_synonym rstr = "rchar list"

abbreviation ch :: "char \<Rightarrow> rchar" where
  "ch c \<equiv> of_char c"

definition str :: "string \<Rightarrow> rstr" where
  "str s = map of_char s"

lemma str_simps [simp]: "str [] = []" "str (c # s) = ch c # str s"
  by (simp_all add: str_def)

lemma str_append [simp]: "str (s @ t) = str s @ str t"
  by (simp add: str_def)

section \<open>Characters\<close>

definition is_whitespace :: "rchar \<Rightarrow> bool" where
  "is_whitespace c \<longleftrightarrow> (9 \<le> c \<and> c \<le> 13) \<or> c = 32 \<or> c = 133 \<or> c = 160 \<or> c = 5760 \<or>
     (8192 \<le> c \<and> c \<le> 8202) \<or> c = 8232 \<or> c = 8233 \<or> c = 8239 \<or> c = 8287 \<or> c = 12288"

definition to_ascii_lower :: "rchar \<Rightarrow> rchar" where
  "to_ascii_lower c = (if 65 \<le> c \<and> c \<le> 90 then c + 32 else c)"

definition to_ascii_lowercase :: "rstr \<Rightarrow> rstr" where
  "to_ascii_lowercase s = map to_ascii_lower s"

definition eq_ignore_ascii_case :: "rchar \<Rightarrow> rchar \<Rightarrow> bool" where
  "eq_ignore_ascii_case a b \<longleftrightarrow> to_ascii_lower a = to_ascii_lower b"

lemma to_ascii_lower_idem [simp]: "to_ascii_lower (to_ascii_lower c) = to_ascii_lower c"
  by (simp add: to_ascii_lower_def)

lemma to_ascii_lowercase_idem [simp]:
  "to_ascii_lowercase (to_ascii_lowercase s) = to_ascii_lowercase s"
  by (simp add: to_ascii_lowercase_def)

lemma length_to_ascii_lowercase [simp]: "length (to_ascii_lowercase s) = length s"
  by (simp add: to_ascii_lowercase_def)

lemma to_ascii_lowercase_Nil [simp]: "to_ascii_lowercase [] = []"
  by (simp add: to_ascii_lowercase_def)

lemma to_ascii_lowercase_eq_Nil [simp]: "to_ascii_lowercase s = [] \<longleftrightarrow> s = []"
  by (simp add: to_ascii_lowercase_def)

section \<open>Prefixes, suffixes and search\<close>

fun strip_prefix :: "rstr \<Rightarrow> rstr \<Rightarrow> rstr option" where
  "strip_prefix [] s = Some s"
| "strip_prefix (p # ps) [] = None"
| "strip_prefix (p # ps) (c # s) = (if p = c then strip_prefix ps s else None)"

definition starts_with :: "rstr \<Rightarrow> rstr \<Rightarrow> bool" where
  "starts_with p s \<longleftrightarrow> strip_prefix p s \<noteq> None"

definition strip_suffix :: "rstr \<Rightarrow> rstr \<Rightarrow> rstr option" where
  "strip_suffix p s = map_option rev (strip_prefix (rev p) (rev s))"

definition ends_with :: "rstr \<Rightarrow> rstr \<Rightarrow> bool" where
  "ends_with p s \<longleftrightarrow> strip_suffix p s \<noteq> None"

text \<open>\<open>find_str needle hay\<close> is \<open>hay.find(needle)\<close>: the least position, in characters.\<close>

fun find_str :: "rstr \<Rightarrow> rstr \<Rightarrow> nat option" where
  "find_str n [] = (if n = [] then Some 0 else None)"
| "find_str n (c # s) = (if starts_with n (c # s) then Some 0 else map_option Suc (find_str n s))"

definition contains_str :: "rstr \<Rightarrow> rstr \<Rightarrow> bool" where
  "contains_str n s \<longleftrightarrow> find_str n s \<noteq> None"

text \<open>\<open>find_char P s\<close> is \<open>s.find(|c| P(c))\<close>.\<close>

fun find_char :: "(rchar \<Rightarrow> bool) \<Rightarrow> rstr \<Rightarrow> nat option" where
  "find_char P [] = None"
| "find_char P (c # s) = (if P c then Some 0 else map_option Suc (find_char P s))"

lemma strip_prefix_Some_iff: "strip_prefix p s = Some r \<longleftrightarrow> s = p @ r"
  by (induction p s rule: strip_prefix.induct) auto

lemma strip_prefix_append [simp]: "strip_prefix p (p @ r) = Some r"
  by (simp add: strip_prefix_Some_iff)

lemma starts_with_iff: "starts_with p s \<longleftrightarrow> (\<exists>r. s = p @ r)"
  by (simp add: starts_with_def strip_prefix_Some_iff)

lemma starts_with_Nil [simp]: "starts_with [] s"
  by (simp add: starts_with_def)

lemma starts_with_Cons [simp]:
  "starts_with (p # ps) [] = False"
  "starts_with (p # ps) (c # s) = (p = c \<and> starts_with ps s)"
  by (simp_all add: starts_with_def)

lemma starts_with_append [simp]: "starts_with p (p @ r)"
  by (auto simp: starts_with_iff)

lemma strip_suffix_Some_iff: "strip_suffix p s = Some r \<longleftrightarrow> s = r @ p"
proof -
  have "strip_suffix p s = Some r \<longleftrightarrow> strip_prefix (rev p) (rev s) = Some (rev r)"
    by (auto simp: strip_suffix_def)
  also have "\<dots> \<longleftrightarrow> s = r @ p"
    by (metis rev_append rev_rev_ident strip_prefix_Some_iff)
  finally show ?thesis .
qed

lemma strip_suffix_append [simp]: "strip_suffix p (r @ p) = Some r"
  by (simp add: strip_suffix_Some_iff)

lemma ends_with_iff: "ends_with p s \<longleftrightarrow> (\<exists>r. s = r @ p)"
  by (simp add: ends_with_def strip_suffix_Some_iff)

lemma ends_with_append [simp]: "ends_with p (r @ p)"
  by (auto simp: ends_with_iff)

lemma find_str_Some_split:
  "find_str n s = Some i \<Longrightarrow> i \<le> length s \<and> (\<exists>r. drop i s = n @ r)"
proof (induction n s arbitrary: i rule: find_str.induct)
  case (1 n)
  then show ?case by (auto split: if_splits)
next
  case (2 n c s)
  then show ?case by (auto simp: starts_with_iff split: if_splits)
qed

lemma find_str_None_iff: "find_str n s = None \<longleftrightarrow> (\<forall>a b. s \<noteq> a @ n @ b)"
proof (induction n s rule: find_str.induct)
  case (1 n)
  then show ?case by auto
next
  case (2 n c s)
  show ?case
  proof (cases "starts_with n (c # s)")
    case True
    then show ?thesis by (auto simp: starts_with_iff intro: exI [of _ "[]"])
  next
    case False
    then have "(\<forall>a b. c # s \<noteq> a @ n @ b) \<longleftrightarrow> (\<forall>a b. s \<noteq> a @ n @ b)"
      by (metis Cons_eq_append_conv append_Cons append_Nil starts_with_iff)
    with False show ?thesis using "2.IH" by simp
  qed
qed

lemma find_str_least: "find_str n s = Some i \<Longrightarrow> j < i \<Longrightarrow> \<not> starts_with n (drop j s)"
proof (induction n s arbitrary: i j rule: find_str.induct)
  case (1 n)
  then show ?case by (auto split: if_splits)
next
  case (2 n c s)
  then show ?case by (cases j) (auto split: if_splits)
qed

lemma contains_str_iff: "contains_str n s \<longleftrightarrow> (\<exists>a b. s = a @ n @ b)"
  by (simp add: contains_str_def find_str_None_iff)

lemma find_char_None_iff: "find_char P s = None \<longleftrightarrow> (\<forall>c \<in> set s. \<not> P c)"
  by (induction s) auto

lemma find_char_Some_iff:
  "find_char P s = Some i \<longleftrightarrow> i < length s \<and> P (s ! i) \<and> (\<forall>j < i. \<not> P (s ! j))"
proof (induction s arbitrary: i)
  case Nil
  then show ?case by simp
next
  case (Cons c s)
  then show ?case by (cases i) (auto simp: less_Suc_eq_0_disj)
qed

lemma find_char_skip:
  "\<forall>c \<in> set a. \<not> P c \<Longrightarrow> P x \<Longrightarrow> find_char P (a @ x # b) = Some (length a)"
  by (induction a) auto

section \<open>Splitting\<close>

text \<open>\<open>split_once c s\<close> splits at the first \<open>c\<close>, \<open>rsplit_once\<close> at the last.\<close>

fun split_once :: "rchar \<Rightarrow> rstr \<Rightarrow> (rstr \<times> rstr) option" where
  "split_once d [] = None"
| "split_once d (c # s) =
     (if c = d then Some ([], s) else map_option (\<lambda>(a, b). (c # a, b)) (split_once d s))"

definition rsplit_once :: "rchar \<Rightarrow> rstr \<Rightarrow> (rstr \<times> rstr) option" where
  "rsplit_once d s = map_option (\<lambda>(a, b). (rev b, rev a)) (split_once d (rev s))"

text \<open>\<open>s.split(P).next().unwrap_or("")\<close> and \<open>s.rsplit(c).next().unwrap_or("")\<close>.\<close>

definition before_first :: "(rchar \<Rightarrow> bool) \<Rightarrow> rstr \<Rightarrow> rstr" where
  "before_first P s = takeWhile (\<lambda>c. \<not> P c) s"

definition after_last :: "rchar \<Rightarrow> rstr \<Rightarrow> rstr" where
  "after_last d s = rev (takeWhile (\<lambda>c. c \<noteq> d) (rev s))"

text \<open>\<open>str::lines\<close>: split after each line feed, drop the line feed and one carriage return
  before it; the last piece counts only when it is not empty.\<close>

definition chomp_cr :: "rstr \<Rightarrow> rstr" where
  "chomp_cr l = (case strip_suffix [13] l of None \<Rightarrow> l | Some l' \<Rightarrow> l')"

fun lines_from :: "rstr \<Rightarrow> rstr \<Rightarrow> rstr list" where
  "lines_from acc [] = (if acc = [] then [] else [rev acc])"
| "lines_from acc (c # s) =
     (if c = 10 then chomp_cr (rev acc) # lines_from [] s else lines_from (c # acc) s)"

definition lines :: "rstr \<Rightarrow> rstr list" where
  "lines s = lines_from [] s"

fun split_whitespace_from :: "rstr \<Rightarrow> rstr \<Rightarrow> rstr list" where
  "split_whitespace_from acc [] = (if acc = [] then [] else [rev acc])"
| "split_whitespace_from acc (c # s) =
     (if is_whitespace c
      then (if acc = [] then split_whitespace_from [] s
            else rev acc # split_whitespace_from [] s)
      else split_whitespace_from (c # acc) s)"

definition split_whitespace :: "rstr \<Rightarrow> rstr list" where
  "split_whitespace s = split_whitespace_from [] s"

lemma split_once_Some_iff:
  "split_once d s = Some (a, b) \<longleftrightarrow> s = a @ d # b \<and> d \<notin> set a"
proof (induction s arbitrary: a b)
  case Nil
  then show ?case by simp
next
  case (Cons c s)
  then show ?case by (cases a) auto
qed

lemma split_once_None_iff: "split_once d s = None \<longleftrightarrow> d \<notin> set s"
  by (induction s) auto

lemma rsplit_once_Some_iff:
  "rsplit_once d s = Some (a, b) \<longleftrightarrow> s = a @ d # b \<and> d \<notin> set b"
proof -
  have "rsplit_once d s = Some (a, b) \<longleftrightarrow> split_once d (rev s) = Some (rev b, rev a)"
    by (auto simp: rsplit_once_def)
  also have "\<dots> \<longleftrightarrow> rev s = rev b @ d # rev a \<and> d \<notin> set b"
    by (simp add: split_once_Some_iff)
  also have "rev s = rev b @ d # rev a \<longleftrightarrow> s = a @ d # b"
    by (metis append.assoc append_Cons append_Nil rev.simps(2) rev_append rev_rev_ident)
  finally show ?thesis .
qed

lemma rsplit_once_None_iff: "rsplit_once d s = None \<longleftrightarrow> d \<notin> set s"
  by (simp add: rsplit_once_def split_once_None_iff)

lemma takeWhile_until: "d \<notin> set a \<Longrightarrow> takeWhile (\<lambda>c. c \<noteq> d) (a @ d # b) = a"
  by (induction a) auto

lemma takeWhile_without: "d \<notin> set a \<Longrightarrow> takeWhile (\<lambda>c. c \<noteq> d) a = a"
  by (induction a) auto

lemma after_last_append: "d \<notin> set b \<Longrightarrow> after_last d (a @ d # b) = b"
  using takeWhile_until [of d "rev b" "rev a"] by (simp add: after_last_def)

lemma after_last_none: "d \<notin> set s \<Longrightarrow> after_last d s = s"
  unfolding after_last_def by (subst takeWhile_without) auto

lemma after_last_no_sep: "d \<notin> set (after_last d s)"
  by (auto simp: after_last_def dest: set_takeWhileD)

lemma lines_from_line:
  "10 \<notin> set l \<Longrightarrow> lines_from acc (l @ 10 # s) = chomp_cr (rev acc @ l) # lines_from [] s"
  by (induction l arbitrary: acc) auto

lemma lines_line: "10 \<notin> set l \<Longrightarrow> lines (l @ 10 # s) = chomp_cr l # lines s"
  by (simp add: lines_def lines_from_line)

lemma chomp_cr_id [simp]: "13 \<notin> set l \<Longrightarrow> chomp_cr l = l"
  by (auto simp: chomp_cr_def strip_suffix_Some_iff split: option.splits)

lemma lines_concat:
  "\<forall>l \<in> set ls. 10 \<notin> set l \<and> 13 \<notin> set l \<Longrightarrow> lines (concat (map (\<lambda>l. l @ [10]) ls)) = ls"
proof (induction ls)
  case Nil
  then show ?case by (simp add: lines_def)
next
  case (Cons l ls)
  then show ?case by (simp add: lines_line)
qed

section \<open>Trimming\<close>

definition trim :: "rstr \<Rightarrow> rstr" where
  "trim s = rev (dropWhile is_whitespace (rev (dropWhile is_whitespace s)))"

text \<open>\<open>trim_matches([...])\<close>.\<close>

definition trim_matches :: "(rchar \<Rightarrow> bool) \<Rightarrow> rstr \<Rightarrow> rstr" where
  "trim_matches P s = rev (dropWhile P (rev (dropWhile P s)))"

lemma trim_id: "s = [] \<or> (\<not> is_whitespace (hd s) \<and> \<not> is_whitespace (last s)) \<Longrightarrow> trim s = s"
  by (auto simp: trim_def dropWhile_eq_self_iff [THEN iffD2] hd_rev)

lemma trim_set: "set (trim s) \<subseteq> set s"
  by (auto simp: trim_def dest!: set_dropWhileD)

section \<open>Integers as text\<close>

definition digit_of :: "nat \<Rightarrow> rchar \<Rightarrow> nat option" where
  "digit_of radix c =
     (let v = (if 48 \<le> c \<and> c \<le> 57 then Some (c - 48)
               else if 97 \<le> c \<and> c \<le> 122 then Some (c - 97 + 10)
               else if 65 \<le> c \<and> c \<le> 90 then Some (c - 65 + 10)
               else None)
      in case v of None \<Rightarrow> None | Some d \<Rightarrow> if d < radix then Some d else None)"

fun parse_digits :: "nat \<Rightarrow> nat \<Rightarrow> nat \<Rightarrow> rstr \<Rightarrow> nat option" where
  "parse_digits radix limit acc [] = Some acc"
| "parse_digits radix limit acc (c # s) =
     (case digit_of radix c of
        None \<Rightarrow> None
      | Some d \<Rightarrow> if acc * radix + d > limit then None
                   else parse_digits radix limit (acc * radix + d) s)"

text \<open>\<open>from_str_radix\<close> of an unsigned type whose greatest value is \<open>limit\<close>: one leading
  plus sign is allowed, an empty digit string is not.\<close>

fun parse_uint :: "nat \<Rightarrow> nat \<Rightarrow> rstr \<Rightarrow> nat option" where
  "parse_uint radix limit [] = None"
| "parse_uint radix limit (c # s) =
     (if c = 43 then (if s = [] then None else parse_digits radix limit 0 s)
      else parse_digits radix limit 0 (c # s))"

abbreviation parse_u64 :: "rstr \<Rightarrow> nat option" where
  "parse_u64 \<equiv> parse_uint 10 u64_max"

fun show_radix :: "nat \<Rightarrow> nat \<Rightarrow> rstr" where
  "show_radix radix n =
     (let digit = (\<lambda>d. if d < 10 then 48 + d else 87 + d)
      in if radix < 2 \<or> n < radix then [digit n]
         else show_radix radix (n div radix) @ [digit (n mod radix)])"

declare show_radix.simps [simp del]

abbreviation show_nat :: "nat \<Rightarrow> rstr" where
  "show_nat \<equiv> show_radix 10"

definition show_int :: "int \<Rightarrow> rstr" where
  "show_int i = (if i < 0 then 45 # show_nat (nat (- i)) else show_nat (nat i))"

definition pad_left :: "nat \<Rightarrow> rchar \<Rightarrow> rstr \<Rightarrow> rstr" where
  "pad_left w c s = replicate (w - length s) c @ s"

text \<open>\<open>{:0w}\<close> of a signed integer: the sign counts towards the width and stays in front.\<close>

definition pad_int :: "nat \<Rightarrow> int \<Rightarrow> rstr" where
  "pad_int w i = (if i < 0 then 45 # pad_left (w - 1) 48 (show_nat (nat (- i)))
                  else pad_left w 48 (show_nat (nat i)))"

lemma show_nat_small: "n < 10 \<Longrightarrow> show_nat n = [48 + n]"
  by (subst show_radix.simps) simp

lemma show_nat_step: "10 \<le> n \<Longrightarrow> show_nat n = show_nat (n div 10) @ [48 + n mod 10]"
  by (subst show_radix.simps) simp

lemma show_nat_induct [case_names small step]:
  assumes "\<And>n. n < 10 \<Longrightarrow> P n" and "\<And>n. 10 \<le> n \<Longrightarrow> P (n div 10) \<Longrightarrow> P n"
  shows "P (n :: nat)"
proof (induction n rule: less_induct)
  case (less n)
  show ?case
  proof (cases "n < 10")
    case False
    then have "n div 10 < n" by simp
    with less False assms(2) show ?thesis by simp
  qed (simp add: assms(1))
qed

lemma show_nat_not_Nil [simp]: "show_nat n \<noteq> []"
  by (cases "n < 10") (simp_all add: show_nat_small show_nat_step)

lemma show_nat_digits: "c \<in> set (show_nat n) \<Longrightarrow> 48 \<le> c \<and> c \<le> 57"
proof (induction n rule: show_nat_induct)
  case (step n)
  from step.hyps step.prems have "c \<in> set (show_nat (n div 10)) \<or> c = 48 + n mod 10"
    by (auto simp: show_nat_step)
  moreover have "n mod 10 < 10" by simp
  ultimately show ?case using step.IH by fastforce
qed (simp add: show_nat_small)

lemma digit_of_dec: "d < 10 \<Longrightarrow> digit_of 10 (48 + d) = Some d"
  by (simp add: digit_of_def)

lemma parse_digits_append:
  "parse_digits r l acc (s @ t) =
     (case parse_digits r l acc s of None \<Rightarrow> None | Some v \<Rightarrow> parse_digits r l v t)"
  by (induction s arbitrary: acc) (auto split: option.splits)

lemma parse_digits_show: "n \<le> l \<Longrightarrow> parse_digits 10 l 0 (show_nat n) = Some n"
proof (induction n rule: show_nat_induct)
  case (small n)
  then show ?case by (simp add: show_nat_small digit_of_dec)
next
  case (step n)
  have "parse_digits 10 l 0 (show_nat (n div 10)) = Some (n div 10)"
    using step by (meson div_le_dividend le_trans)
  moreover have "n div 10 * 10 + n mod 10 = n" by simp
  moreover have "digit_of 10 (48 + n mod 10) = Some (n mod 10)"
    by (rule digit_of_dec) simp
  ultimately show ?case using step.hyps step.prems
    by (simp add: show_nat_step parse_digits_append)
qed

lemma parse_digits_zeros:
  "parse_digits 10 l 0 (replicate k 48 @ s) = parse_digits 10 l 0 s"
  using digit_of_dec [of 0] by (induction k) auto

lemma parse_uint_no_plus: "s \<noteq> [] \<Longrightarrow> hd s \<noteq> 43 \<Longrightarrow> parse_uint r l s = parse_digits r l 0 s"
  by (cases s) auto

lemma parse_uint_padded: "n \<le> l \<Longrightarrow> parse_uint 10 l (pad_left w 48 (show_nat n)) = Some n"
proof -
  assume n: "n \<le> l"
  have "pad_left w 48 (show_nat n) \<noteq> []" by (simp add: pad_left_def)
  moreover from this have "hd (pad_left w 48 (show_nat n)) \<in> set (pad_left w 48 (show_nat n))"
    by simp
  then have "hd (pad_left w 48 (show_nat n)) \<noteq> 43"
    using show_nat_digits [of 43 n] by (auto simp: pad_left_def split: if_splits)
  ultimately show ?thesis
    using n by (simp add: parse_uint_no_plus pad_left_def parse_digits_zeros parse_digits_show)
qed

lemma parse_uint_show: "n \<le> l \<Longrightarrow> parse_uint 10 l (show_nat n) = Some n"
  using parse_uint_padded [of n l 0] by (simp add: pad_left_def)

lemma parse_digits_le: "acc \<le> l \<Longrightarrow> parse_digits r l acc s = Some v \<Longrightarrow> v \<le> l"
proof (induction s arbitrary: acc)
  case (Cons c s)
  then obtain d where "acc * r + d \<le> l" "parse_digits r l (acc * r + d) s = Some v"
    by (auto split: option.splits if_splits simp flip: not_less)
  then show ?case by (rule Cons.IH)
qed simp

lemma parse_uint_le: "parse_uint r l s = Some v \<Longrightarrow> v \<le> l"
  using parse_digits_le [of 0 l r] by (cases s) (auto simp del: parse_digits.simps split: if_splits)

section \<open>UTF-8\<close>

definition is_scalar :: "rchar \<Rightarrow> bool" where
  "is_scalar c \<longleftrightarrow> c < 55296 \<or> (57344 \<le> c \<and> c < 1114112)"

text \<open>\<open>char::from_u32\<close>.\<close>

definition char_from_u32 :: "nat \<Rightarrow> rchar option" where
  "char_from_u32 n = (if is_scalar n then Some n else None)"

definition utf8_char :: "rchar \<Rightarrow> nat list" where
  "utf8_char c =
     (if c < 128 then [c]
      else if c < 2048 then [192 + c div 64, 128 + c mod 64]
      else if c < 65536 then [224 + c div 4096, 128 + c div 64 mod 64, 128 + c mod 64]
      else [240 + c div 262144, 128 + c div 4096 mod 64, 128 + c div 64 mod 64, 128 + c mod 64])"

definition utf8 :: "rstr \<Rightarrow> nat list" where
  "utf8 s = concat (map utf8_char s)"

definition byte_len :: "rstr \<Rightarrow> nat" where
  "byte_len s = length (utf8 s)"

abbreviation is_cont :: "nat \<Rightarrow> bool" where
  "is_cont b \<equiv> 128 \<le> b \<and> b \<le> 191"

text \<open>\<open>String::from_utf8_lossy\<close>: each maximal ill-formed part becomes one replacement
  character.\<close>

fun utf8_lossy :: "nat list \<Rightarrow> rstr" where
  "utf8_lossy [] = []"
| "utf8_lossy (b # bs) =
     (if b < 128 then b # utf8_lossy bs
      else if 194 \<le> b \<and> b \<le> 223 then
        (case bs of
           c1 # r \<Rightarrow> if is_cont c1 then ((b - 192) * 64 + (c1 - 128)) # utf8_lossy r
                      else 65533 # utf8_lossy bs
         | [] \<Rightarrow> [65533])
      else if 224 \<le> b \<and> b \<le> 239 then
        (case bs of
           c1 # r \<Rightarrow>
             if (if b = 224 then 160 else 128) \<le> c1 \<and> c1 \<le> (if b = 237 then 159 else 191) then
               (case r of
                  c2 # r' \<Rightarrow> if is_cont c2
                              then ((b - 224) * 4096 + (c1 - 128) * 64 + (c2 - 128)) # utf8_lossy r'
                              else 65533 # utf8_lossy r
                | [] \<Rightarrow> [65533])
             else 65533 # utf8_lossy bs
         | [] \<Rightarrow> [65533])
      else if 240 \<le> b \<and> b \<le> 244 then
        (case bs of
           c1 # r \<Rightarrow>
             if (if b = 240 then 144 else 128) \<le> c1 \<and> c1 \<le> (if b = 244 then 143 else 191) then
               (case r of
                  c2 # r' \<Rightarrow>
                    if is_cont c2 then
                      (case r' of
                         c3 # r'' \<Rightarrow>
                           if is_cont c3
                           then ((b - 240) * 262144 + (c1 - 128) * 4096 + (c2 - 128) * 64 + (c3 - 128))
                                  # utf8_lossy r''
                           else 65533 # utf8_lossy r'
                       | [] \<Rightarrow> [65533])
                    else 65533 # utf8_lossy r
                | [] \<Rightarrow> [65533])
             else 65533 # utf8_lossy bs
         | [] \<Rightarrow> [65533])
      else 65533 # utf8_lossy bs)"

declare utf8_lossy.simps(2) [simp del]

lemma utf8_Nil [simp]: "utf8 [] = []"
  by (simp add: utf8_def)

lemma utf8_Cons: "utf8 (c # s) = utf8_char c @ utf8 s"
  by (simp add: utf8_def)

lemma utf8_append: "utf8 (s @ t) = utf8 s @ utf8 t"
  by (simp add: utf8_def)

lemma utf8_ascii: "\<forall>c \<in> set s. c < 128 \<Longrightarrow> utf8 s = s"
  by (induction s) (auto simp: utf8_Cons utf8_char_def)

lemma byte_len_ascii: "\<forall>c \<in> set s. c < 128 \<Longrightarrow> byte_len s = length s"
  by (simp add: byte_len_def utf8_ascii)

lemma byte_len_append: "byte_len (s @ t) = byte_len s + byte_len t"
  by (simp add: byte_len_def utf8_append)

lemma utf8_char_ascii_byte: "b \<in> set (utf8_char c) \<Longrightarrow> b < 128 \<Longrightarrow> c = b \<and> c < 128"
  by (auto simp: utf8_char_def split: if_splits)

text \<open>A NUL byte of the encoding is a NUL character, so a NUL-free host has a NUL-free key.\<close>

lemma zero_notin_utf8: "0 \<notin> set s \<Longrightarrow> 0 \<notin> set (utf8 s)"
  by (induction s) (auto simp: utf8_Cons dest: utf8_char_ascii_byte)

lemma div_mod_64_64: "c div 4096 * 4096 + c div 64 mod 64 * 64 + c mod 64 = (c :: nat)"
proof -
  have "c div 4096 = c div 64 div 64" by (simp add: div_mult2_eq [symmetric])
  moreover have "c div 64 div 64 * 64 + c div 64 mod 64 = c div 64" "c div 64 * 64 + c mod 64 = c"
    by simp_all
  ultimately show ?thesis by linarith
qed

lemma div_mod_64_64_64:
  "c div 262144 * 262144 + c div 4096 mod 64 * 4096 + c div 64 mod 64 * 64 + c mod 64 = (c :: nat)"
proof -
  have "c div 262144 = c div 4096 div 64" by (simp add: div_mult2_eq [symmetric])
  moreover have "c div 4096 div 64 * 64 + c div 4096 mod 64 = c div 4096" by simp
  ultimately show ?thesis using div_mod_64_64 [of c] by linarith
qed

lemma utf8_lossy_char:
  assumes "is_scalar c"
  shows "utf8_lossy (utf8_char c @ bs) = c # utf8_lossy bs"
proof -
  consider "c < 128" | "128 \<le> c" "c < 2048" | "2048 \<le> c" "c < 65536" | "65536 \<le> c" "c < 1114112"
    using assms by (fastforce simp: is_scalar_def)
  then show ?thesis
  proof cases
    case 1
    then show ?thesis by (simp add: utf8_char_def utf8_lossy.simps(2))
  next
    case 2
    then have "2 \<le> c div 64" "c div 64 \<le> 31" by (simp_all add: div_le_mono [of _ _ 64, simplified])
    with 2 show ?thesis by (simp add: utf8_char_def utf8_lossy.simps(2))
  next
    case 3
    define q r m where "q = c div 4096" and "r = c div 64 mod 64" and "m = c mod 64"
    note defs = q_def r_def m_def
    have c: "q * 4096 + r * 64 + m = c" unfolding defs by (rule div_mod_64_64)
    have b: "q \<le> 15" "r < 64" "m < 64" using 3 by (auto simp: defs)
    moreover have "q = 0 \<Longrightarrow> 32 \<le> r" "q = 13 \<Longrightarrow> r \<le> 31"
      using c 3 assms b by (auto simp: is_scalar_def)
    moreover have "utf8_char c = [224 + q, 128 + r, 128 + m]"
      using 3 by (simp add: utf8_char_def defs)
    ultimately show ?thesis by (simp add: utf8_lossy.simps(2) c)
  next
    case 4
    define q r t m where "q = c div 262144" and "r = c div 4096 mod 64"
      and "t = c div 64 mod 64" and "m = c mod 64"
    note defs = q_def r_def t_def m_def
    have c: "q * 262144 + r * 4096 + t * 64 + m = c" unfolding defs by (rule div_mod_64_64_64)
    have b: "q \<le> 4" "r < 64" "t < 64" "m < 64" using 4 by (auto simp: defs)
    moreover have "q = 0 \<Longrightarrow> 16 \<le> r" "q = 4 \<Longrightarrow> r \<le> 15"
      using c 4 b by auto
    moreover have "utf8_char c = [240 + q, 128 + r, 128 + t, 128 + m]"
      using 4 by (simp add: utf8_char_def defs)
    ultimately show ?thesis by (simp add: utf8_lossy.simps(2) c)
  qed
qed

lemma utf8_lossy_utf8: "\<forall>c \<in> set s. is_scalar c \<Longrightarrow> utf8_lossy (utf8 s) = s"
  by (induction s) (simp_all add: utf8_Cons utf8_lossy_char)

end
