(* ===== verification/Url.thy ===== *)
theory Url
  imports Rstring
begin

text \<open>
  The \<open>url\<close> and \<open>form_urlencoded\<close> crates, as the crawler uses them. They are third-party
  code, so they enter the model as a record of functions over an abstract URL type, and
  \<open>url_ok\<close> collects the documented behaviour the code relies on: a URL serialises to text
  that parses to itself, a setter changes its own component only, and an \<open>&\<close>-separated
  form that was parsed serialises to text that parses to the same pairs.

  \<open>mini_url\<close> is a small concrete URL implementation that satisfies \<open>url_ok\<close>; theorems
  with that hypothesis are applied to it in their witnesses.
\<close>

section \<open>The interface\<close>

record 'u url_api =
  url_parse :: "rstr \<Rightarrow> 'u option"
  url_join :: "'u \<Rightarrow> rstr \<Rightarrow> 'u option"
  url_scheme :: "'u \<Rightarrow> rstr"
  url_host_str :: "'u \<Rightarrow> rstr option"
  url_path :: "'u \<Rightarrow> rstr"
  url_query :: "'u \<Rightarrow> rstr option"
  url_fragment :: "'u \<Rightarrow> rstr option"
  url_set_path :: "rstr \<Rightarrow> 'u \<Rightarrow> 'u"
  url_set_query :: "rstr option \<Rightarrow> 'u \<Rightarrow> 'u"
  url_set_fragment :: "rstr option \<Rightarrow> 'u \<Rightarrow> 'u"
  url_to_string :: "'u \<Rightarrow> rstr"
  form_parse :: "nat list \<Rightarrow> (rstr \<times> rstr) list"
  form_serialize :: "(rstr \<times> rstr) list \<Rightarrow> rstr"

text \<open>A form that serialises some of the pairs of a parsed form.\<close>

definition parsed_form :: "'u url_api \<Rightarrow> (rstr \<times> rstr) list \<Rightarrow> bool" where
  "parsed_form U ps \<longleftrightarrow> (\<exists>bs P. ps = filter P (form_parse U bs))"

definition url_wf :: "'u url_api \<Rightarrow> ('u \<Rightarrow> bool) \<Rightarrow> bool" where
  "url_wf U good \<longleftrightarrow>
     (\<forall>s u. url_parse U s = Some u \<longrightarrow> good u) \<and>
     (\<forall>b s u. good b \<longrightarrow> url_join U b s = Some u \<longrightarrow> good u) \<and>
     (\<forall>u p. good u \<longrightarrow> good (url_set_path U p u)) \<and>
     (\<forall>u q. good u \<longrightarrow> good (url_set_query U q u)) \<and>
     (\<forall>u f. good u \<longrightarrow> good (url_set_fragment U f u)) \<and>
     (\<forall>u. good u \<longrightarrow> url_parse U (url_to_string U u) = Some u)"

definition fragment_laws :: "'u url_api \<Rightarrow> bool" where
  "fragment_laws U \<longleftrightarrow>
     (\<forall>u. url_fragment U (url_set_fragment U None u) = None) \<and>
     (\<forall>u f. url_scheme U (url_set_fragment U f u) = url_scheme U u \<and>
            url_host_str U (url_set_fragment U f u) = url_host_str U u \<and>
            url_path U (url_set_fragment U f u) = url_path U u \<and>
            url_query U (url_set_fragment U f u) = url_query U u) \<and>
     (\<forall>u. url_fragment U u = None \<longrightarrow> url_set_fragment U None u = u)"

definition query_laws :: "'u url_api \<Rightarrow> bool" where
  "query_laws U \<longleftrightarrow>
     (\<forall>u q. url_fragment U (url_set_query U q u) = url_fragment U u \<and>
            url_scheme U (url_set_query U q u) = url_scheme U u \<and>
            url_host_str U (url_set_query U q u) = url_host_str U u \<and>
            url_path U (url_set_query U q u) = url_path U u) \<and>
     (\<forall>u. url_query U (url_set_query U None u) = None) \<and>
     (\<forall>u ps. parsed_form U ps \<longrightarrow>
        url_query U (url_set_query U (Some (form_serialize U ps)) u) = Some (form_serialize U ps)) \<and>
     (\<forall>ps. parsed_form U ps \<longrightarrow> form_parse U (utf8 (form_serialize U ps)) = ps)"

definition url_ok :: "'u url_api \<Rightarrow> bool" where
  "url_ok U \<longleftrightarrow> (\<exists>good. url_wf U good) \<and> fragment_laws U \<and> query_laws U"

text \<open>A host is serialised in ASCII (a domain in punycode) and holds no NUL.\<close>

definition host_char :: "rchar \<Rightarrow> bool" where
  "host_char c \<longleftrightarrow> 0 < c \<and> c < 128"

definition host_laws :: "'u url_api \<Rightarrow> bool" where
  "host_laws U \<longleftrightarrow>
     (\<forall>s u h. url_parse U s = Some u \<longrightarrow> url_host_str U u = Some h \<longrightarrow> list_all host_char h)"

lemma host_char_lower [simp]: "host_char (to_ascii_lower c) = host_char c"
  by (auto simp: to_ascii_lower_def host_char_def)

text \<open>The URLs the program can hold: parsed, joined or changed by a setter.\<close>

inductive url_reach :: "'u url_api \<Rightarrow> 'u \<Rightarrow> bool" for U where
  parsed: "url_parse U s = Some u \<Longrightarrow> url_reach U u"
| joined: "url_reach U b \<Longrightarrow> url_join U b s = Some u \<Longrightarrow> url_reach U u"
| path_set: "url_reach U u \<Longrightarrow> url_reach U (url_set_path U p u)"
| query_set: "url_reach U u \<Longrightarrow> url_reach U (url_set_query U q u)"
| fragment_set: "url_reach U u \<Longrightarrow> url_reach U (url_set_fragment U f u)"

lemma url_ok_parse_to_string:
  assumes "url_ok U" "url_reach U u"
  shows "url_parse U (url_to_string U u) = Some u"
proof -
  obtain good where good: "url_wf U good" using assms(1) by (auto simp: url_ok_def)
  from assms(2) have "good u"
    by (induction rule: url_reach.induct) (use good in \<open>auto simp: url_wf_def\<close>)
  with good show ?thesis by (simp add: url_wf_def)
qed

lemma url_ok_to_string_inj:
  "url_ok U \<Longrightarrow> url_reach U u \<Longrightarrow> url_reach U v \<Longrightarrow> url_to_string U u = url_to_string U v \<Longrightarrow> u = v"
  by (metis option.inject url_ok_parse_to_string)

lemma url_ok_fragment:
  assumes "url_ok U"
  shows "url_fragment U (url_set_fragment U None u) = None"
    and "url_scheme U (url_set_fragment U f u) = url_scheme U u"
    and "url_host_str U (url_set_fragment U f u) = url_host_str U u"
    and "url_path U (url_set_fragment U f u) = url_path U u"
    and "url_query U (url_set_fragment U f u) = url_query U u"
    and "url_fragment U u = None \<Longrightarrow> url_set_fragment U None u = u"
  using assms by (auto simp: url_ok_def fragment_laws_def)

lemma url_ok_query:
  assumes "url_ok U"
  shows "url_fragment U (url_set_query U q u) = url_fragment U u"
    and "url_scheme U (url_set_query U q u) = url_scheme U u"
    and "url_host_str U (url_set_query U q u) = url_host_str U u"
    and "url_path U (url_set_query U q u) = url_path U u"
    and "url_query U (url_set_query U None u) = None"
    and "parsed_form U ps \<Longrightarrow>
      url_query U (url_set_query U (Some (form_serialize U ps)) u) = Some (form_serialize U ps)"
    and "parsed_form U ps \<Longrightarrow> form_parse U (utf8 (form_serialize U ps)) = ps"
  using assms by (auto simp: url_ok_def query_laws_def)

lemmas url_laws [model_simps] = url_ok_fragment(1-5) url_ok_query(1-5)

section \<open>A concrete instance\<close>

record muri =
  m_scheme :: rstr
  m_host :: rstr
  m_path :: rstr
  m_query :: "rstr option"
  m_fragment :: "rstr option"

definition http :: rstr where "http = str ''http''"
definition https :: rstr where "https = str ''https''"

definition is_stop :: "rchar \<Rightarrow> bool" where
  "is_stop c \<longleftrightarrow> c = 47 \<or> c = 63 \<or> c = 35"

definition is_qf :: "rchar \<Rightarrow> bool" where
  "is_qf c \<longleftrightarrow> c = 63 \<or> c = 35"

text \<open>\<open>mini_tail s\<close> reads the path, query and fragment.\<close>

definition mini_tail :: "rstr \<Rightarrow> rstr \<times> rstr option \<times> rstr option" where
  "mini_tail s =
     (let p = takeWhile (\<lambda>c. \<not> is_qf c) s; r = dropWhile (\<lambda>c. \<not> is_qf c) s
      in (if p = [] then [47] else p,
          (case r of c # q \<Rightarrow> if c = 63 then Some (takeWhile (\<lambda>c. c \<noteq> 35) q) else None | [] \<Rightarrow> None),
          (case dropWhile (\<lambda>c. c \<noteq> 35) r of c # f \<Rightarrow> Some f | [] \<Rightarrow> None)))"

definition mini_parse :: "rstr \<Rightarrow> muri option" where
  "mini_parse s =
     (case split_once 58 s of
        None \<Rightarrow> None
      | Some (sch, rest) \<Rightarrow>
          (case rest of
             a # b # r \<Rightarrow>
               let host = takeWhile (\<lambda>c. \<not> is_stop c) r; t = dropWhile (\<lambda>c. \<not> is_stop c) r
               in if a = 47 \<and> b = 47 \<and> sch \<noteq> [] \<and> host \<noteq> [] \<and> list_all host_char host
                  then (case mini_tail t of
                          (p, q, f) \<Rightarrow> Some \<lparr>m_scheme = sch, m_host = to_ascii_lowercase host,
                                             m_path = p, m_query = q, m_fragment = f\<rparr>)
                  else None
           | _ \<Rightarrow> None))"

definition mini_to_string :: "muri \<Rightarrow> rstr" where
  "mini_to_string u =
     m_scheme u @ [58, 47, 47] @ m_host u @ m_path u @
     (case m_query u of None \<Rightarrow> [] | Some q \<Rightarrow> 63 # q) @
     (case m_fragment u of None \<Rightarrow> [] | Some f \<Rightarrow> 35 # f)"

definition mini_clean_path :: "rstr \<Rightarrow> rstr" where
  "mini_clean_path p =
     (let p' = filter (\<lambda>c. \<not> is_qf c) p
      in if p' \<noteq> [] \<and> hd p' = 47 then p' else 47 # p')"

definition mini_join :: "muri \<Rightarrow> rstr \<Rightarrow> muri option" where
  "mini_join b s =
     (case mini_parse s of
        Some u \<Rightarrow> Some u
      | None \<Rightarrow>
          (if 58 \<in> set s then None
           else case mini_tail s of
                  (p, q, f) \<Rightarrow> Some (b\<lparr>m_path := mini_clean_path p, m_query := q, m_fragment := f\<rparr>)))"

text \<open>Forms over ASCII: pieces separated by ampersands, each split at its first equals sign.\<close>

fun mini_pieces :: "rstr \<Rightarrow> rstr \<Rightarrow> rstr list" where
  "mini_pieces acc [] = (if acc = [] then [] else [rev acc])"
| "mini_pieces acc (c # s) =
     (if c = 38 then (if acc = [] then mini_pieces [] s else rev acc # mini_pieces [] s)
      else mini_pieces (c # acc) s)"

definition mini_pair :: "rstr \<Rightarrow> rstr \<times> rstr" where
  "mini_pair s = (case split_once 61 s of None \<Rightarrow> (s, []) | Some kv \<Rightarrow> kv)"

definition mini_form_parse :: "nat list \<Rightarrow> (rstr \<times> rstr) list" where
  "mini_form_parse bs = map mini_pair (mini_pieces [] (filter (\<lambda>b. b < 128 \<and> b \<noteq> 35) bs))"

fun mini_form_serialize :: "(rstr \<times> rstr) list \<Rightarrow> rstr" where
  "mini_form_serialize [] = []"
| "mini_form_serialize [(k, v)] = k @ 61 # v"
| "mini_form_serialize ((k, v) # ps) = k @ 61 # v @ 38 # mini_form_serialize ps"

definition mini_url :: "muri url_api" where
  "mini_url =
     \<lparr>url_parse = mini_parse, url_join = mini_join, url_scheme = m_scheme,
      url_host_str = Some \<circ> m_host, url_path = m_path, url_query = m_query,
      url_fragment = m_fragment,
      url_set_path = (\<lambda>p u. u\<lparr>m_path := mini_clean_path p\<rparr>),
      url_set_query = (\<lambda>q u. u\<lparr>m_query := map_option (filter (\<lambda>c. c \<noteq> 35)) q\<rparr>),
      url_set_fragment = (\<lambda>f u. u\<lparr>m_fragment := f\<rparr>),
      url_to_string = mini_to_string, form_parse = mini_form_parse,
      form_serialize = mini_form_serialize\<rparr>"

lemma mini_url_sel [simp]:
  "url_parse mini_url = mini_parse" "url_join mini_url = mini_join"
  "url_scheme mini_url = m_scheme" "url_host_str mini_url u = Some (m_host u)"
  "url_path mini_url = m_path" "url_query mini_url = m_query" "url_fragment mini_url = m_fragment"
  "url_set_path mini_url p u = u\<lparr>m_path := mini_clean_path p\<rparr>"
  "url_set_query mini_url q u = u\<lparr>m_query := map_option (filter (\<lambda>c. c \<noteq> 35)) q\<rparr>"
  "url_set_fragment mini_url f u = u\<lparr>m_fragment := f\<rparr>"
  "url_to_string mini_url = mini_to_string" "form_parse mini_url = mini_form_parse"
  "form_serialize mini_url = mini_form_serialize"
  by (simp_all add: mini_url_def)

definition mini_wf :: "muri \<Rightarrow> bool" where
  "mini_wf u \<longleftrightarrow>
     m_scheme u \<noteq> [] \<and> 58 \<notin> set (m_scheme u) \<and> m_host u \<noteq> [] \<and> (\<forall>c \<in> set (m_host u). \<not> is_stop c) \<and>
     to_ascii_lowercase (m_host u) = m_host u \<and> list_all host_char (m_host u) \<and>
     (\<exists>p. m_path u = 47 # p) \<and> (\<forall>c \<in> set (m_path u). \<not> is_qf c) \<and>
     (\<forall>q. m_query u = Some q \<longrightarrow> 35 \<notin> set q)"

lemma takeWhile_stop:
  assumes "\<forall>c \<in> set a. P c" and "b = [] \<or> \<not> P (hd b)"
  shows "takeWhile P (a @ b) = a" and "dropWhile P (a @ b) = b"
  using assms by (induction a) (cases b; auto)+

lemma mini_tail_render:
  assumes "p \<noteq> []" "\<forall>c \<in> set p. \<not> is_qf c" "\<forall>q'. q = Some q' \<longrightarrow> 35 \<notin> set q'"
  shows "mini_tail (p @ (case q of None \<Rightarrow> [] | Some q \<Rightarrow> 63 # q) @
      (case f of None \<Rightarrow> [] | Some f \<Rightarrow> 35 # f)) = (p, q, f)"
proof -
  let ?f = "case f of None \<Rightarrow> [] | Some f \<Rightarrow> 35 # f"
  let ?r = "(case q of None \<Rightarrow> [] | Some q \<Rightarrow> 63 # q) @ ?f"
  have r: "?r = [] \<or> \<not> \<not> is_qf (hd ?r)" by (auto simp: is_qf_def split: option.splits)
  note p = takeWhile_stop [of p "\<lambda>c. \<not> is_qf c", OF assms(2) r]
  have d: "dropWhile (\<lambda>c. c \<noteq> 35) ?f = ?f" by (auto split: option.splits)
  show ?thesis
  proof (cases q)
    case None
    have "takeWhile (\<lambda>c. \<not> is_qf c) p = p" "dropWhile (\<lambda>c. \<not> is_qf c) p = []"
      using takeWhile_stop [of p "\<lambda>c. \<not> is_qf c" "[]"] assms(2) by simp_all
    with p d None assms(1) show ?thesis
      by (cases f) (simp_all add: mini_tail_def Let_def del: takeWhile_eq_all_conv dropWhile_eq_Nil_conv)
  next
    case (Some q')
    then have nq: "\<forall>c \<in> set q'. c \<noteq> 35" using assms(3) by auto
    have p': "takeWhile (\<lambda>c. \<not> is_qf c) (p @ 63 # z) = p" "dropWhile (\<lambda>c. \<not> is_qf c) (p @ 63 # z) = 63 # z" for z
      using takeWhile_stop [of p "\<lambda>c. \<not> is_qf c" "63 # z"] assms(2) by (simp_all add: is_qf_def)
    have q': "takeWhile (\<lambda>c. c \<noteq> 35) (q' @ 35 # z) = q'" "dropWhile (\<lambda>c. c \<noteq> 35) (q' @ 35 # z) = 35 # z"
      "takeWhile (\<lambda>c. c \<noteq> 35) q' = q'" "dropWhile (\<lambda>c. c \<noteq> 35) q' = []" for z
      using takeWhile_stop [of q' "\<lambda>c. c \<noteq> 35" "35 # z"] takeWhile_stop [of q' "\<lambda>c. c \<noteq> 35" "[]"] nq
      by simp_all
    show ?thesis
      using Some assms(1) by (cases f) (simp_all add: mini_tail_def Let_def p' q'
          del: takeWhile_eq_all_conv dropWhile_eq_Nil_conv)
  qed
qed

lemma mini_parse_to_string: "mini_wf u \<Longrightarrow> mini_parse (mini_to_string u) = Some u"
proof -
  assume g: "mini_wf u"
  let ?t = "m_path u @ (case m_query u of None \<Rightarrow> [] | Some q \<Rightarrow> 63 # q) @
     (case m_fragment u of None \<Rightarrow> [] | Some f \<Rightarrow> 35 # f)"
  have s: "split_once 58 (mini_to_string u) = Some (m_scheme u, 47 # 47 # m_host u @ ?t)"
    using g by (simp add: split_once_Some_iff mini_to_string_def mini_wf_def)
  have host: "\<forall>c \<in> set (m_host u). \<not> is_stop c" and t: "?t = [] \<or> \<not> \<not> is_stop (hd ?t)"
    using g by (auto simp: mini_wf_def is_stop_def)
  note h = takeWhile_stop [of "m_host u" "\<lambda>c. \<not> is_stop c", OF host t]
  have "mini_tail ?t = (m_path u, m_query u, m_fragment u)"
    by (rule mini_tail_render) (use g in \<open>auto simp: mini_wf_def\<close>)
  then show ?thesis using g by (simp add: mini_parse_def s h Let_def) (simp add: mini_wf_def)
qed

lemma mini_tail_good:
  "mini_tail s = (p, q, f) \<Longrightarrow> p \<noteq> [] \<and> (\<forall>c \<in> set p. \<not> is_qf c) \<and>
   (\<forall>q'. q = Some q' \<longrightarrow> 35 \<notin> set q')"
proof -
  assume a: "mini_tail s = (p, q, f)"
  let ?p = "takeWhile (\<lambda>c. \<not> is_qf c) s" and ?r = "dropWhile (\<lambda>c. \<not> is_qf c) s"
  have "p = (if ?p = [] then [47] else ?p)"
    and q: "q = (case ?r of c # q \<Rightarrow> if c = 63 then Some (takeWhile (\<lambda>c. c \<noteq> 35) q) else None | [] \<Rightarrow> None)"
    using a by (simp_all add: mini_tail_def Let_def)
  moreover have "\<forall>c \<in> set ?p. \<not> is_qf c" "\<not> is_qf 47" by (auto simp: is_qf_def dest: set_takeWhileD)
  moreover have "35 \<notin> set q'" if "q = Some q'" for q'
    using q that by (cases ?r) (auto split: if_splits dest: set_takeWhileD)
  ultimately show ?thesis by (simp split: if_splits)
qed

lemma mini_tail_slash:
  assumes "mini_tail s = (p, q, f)" and "s = [] \<or> is_stop (hd s)"
  shows "\<exists>p'. p = 47 # p'"
  using assms by (cases s) (auto simp: mini_tail_def Let_def is_stop_def is_qf_def split: if_splits)

lemma is_stop_lower: "is_stop (to_ascii_lower c) = is_stop c"
  by (auto simp: to_ascii_lower_def is_stop_def)

lemma mini_parse_good: "mini_parse s = Some u \<Longrightarrow> mini_wf u"
proof -
  assume a: "mini_parse s = Some u"
  then obtain sch r where r: "split_once 58 s = Some (sch, 47 # 47 # r)" "sch \<noteq> []"
    "takeWhile (\<lambda>c. \<not> is_stop c) r \<noteq> []" "list_all host_char (takeWhile (\<lambda>c. \<not> is_stop c) r)"
    "u = (case mini_tail (dropWhile (\<lambda>c. \<not> is_stop c) r) of (p, q, f) \<Rightarrow>
       \<lparr>m_scheme = sch, m_host = to_ascii_lowercase (takeWhile (\<lambda>c. \<not> is_stop c) r),
        m_path = p, m_query = q, m_fragment = f\<rparr>)"
    by (auto simp: mini_parse_def Let_def split: option.splits list.splits if_splits prod.splits)
  obtain p q f where t: "mini_tail (dropWhile (\<lambda>c. \<not> is_stop c) r) = (p, q, f)"
    by (metis prod_cases3)
  have "dropWhile (\<lambda>c. \<not> is_stop c) r = [] \<or> is_stop (hd (dropWhile (\<lambda>c. \<not> is_stop c) r))"
    using hd_dropWhile [of "\<lambda>c. \<not> is_stop c" r] by blast
  with t have "\<exists>p'. p = 47 # p'" by (rule mini_tail_slash)
  moreover have "\<forall>c \<in> set (to_ascii_lowercase (takeWhile (\<lambda>c. \<not> is_stop c) r)). \<not> is_stop c"
    by (auto simp: to_ascii_lowercase_def is_stop_lower dest: set_takeWhileD)
  ultimately show ?thesis
    using r t mini_tail_good [OF t]
    by (auto simp: mini_wf_def split_once_Some_iff to_ascii_lowercase_def list_all_iff comp_def)
qed

lemma mini_clean_path_good: "(\<exists>p'. mini_clean_path p = 47 # p') \<and> (\<forall>c \<in> set (mini_clean_path p). \<not> is_qf c)"
proof -
  have "\<forall>c \<in> set (filter (\<lambda>c. \<not> is_qf c) p). \<not> is_qf c" "\<not> is_qf 47" by (auto simp: is_qf_def)
  moreover have "\<exists>p'. xs = 47 # p'" if "xs \<noteq> []" "hd xs = 47" for xs :: rstr
    using that by (cases xs) auto
  ultimately show ?thesis by (simp add: mini_clean_path_def Let_def)
qed

lemma mini_join_good:
  assumes "mini_wf b" "mini_join b s = Some u"
  shows "mini_wf u"
proof (cases "mini_parse s")
  case None
  obtain p q f where t: "mini_tail s = (p, q, f)" by (metis prod_cases3)
  with None assms(2) have "u = b\<lparr>m_path := mini_clean_path p, m_query := q, m_fragment := f\<rparr>"
    by (auto simp: mini_join_def split: if_splits)
  then show ?thesis
    using assms(1) mini_clean_path_good [of p] mini_tail_good [OF t] by (simp add: mini_wf_def)
next
  case (Some v)
  with assms(2) show ?thesis by (auto simp: mini_join_def intro: mini_parse_good)
qed

lemma mini_url_good: "url_wf mini_url mini_wf"
proof -
  have "mini_wf (u\<lparr>m_query := map_option (filter (\<lambda>c. c \<noteq> 35)) q\<rparr>)" if "mini_wf u" for u q
    using that by (auto simp: mini_wf_def)
  moreover have "mini_wf (u\<lparr>m_path := mini_clean_path p\<rparr>)" if "mini_wf u" for u p
    using that mini_clean_path_good [of p] by (auto simp: mini_wf_def)
  moreover have "mini_wf (u\<lparr>m_fragment := f\<rparr>)" if "mini_wf u" for u f
    using that by (auto simp: mini_wf_def)
  ultimately show ?thesis
    by (simp add: url_wf_def mini_parse_good mini_join_good mini_parse_to_string)
qed

definition plain :: "rchar \<Rightarrow> bool" where
  "plain c \<longleftrightarrow> c < 128 \<and> c \<noteq> 35 \<and> c \<noteq> 38"

definition mini_form_ok :: "(rstr \<times> rstr) list \<Rightarrow> bool" where
  "mini_form_ok ps \<longleftrightarrow> (\<forall>(k, v) \<in> set ps. 61 \<notin> set k \<and> (\<forall>c \<in> set k \<union> set v. plain c))"

lemma mini_pieces_set:
  "x \<in> set (mini_pieces acc s) \<Longrightarrow> c \<in> set x \<Longrightarrow> 38 \<notin> set acc \<Longrightarrow> c \<noteq> 38 \<and> (c \<in> set acc \<or> c \<in> set s)"
  by (induction acc s rule: mini_pieces.induct) (auto split: if_splits)

lemma mini_pair_set:
  "61 \<notin> set (fst (mini_pair x)) \<and> set (fst (mini_pair x)) \<union> set (snd (mini_pair x)) \<subseteq> set x"
proof (cases "split_once 61 x")
  case None
  then have "61 \<notin> set x" by (simp add: split_once_None_iff)
  with None show ?thesis by (simp add: mini_pair_def)
next
  case (Some kv)
  then have "mini_pair x = kv" "x = fst kv @ 61 # snd kv" "61 \<notin> set (fst kv)"
    using split_once_Some_iff [of 61 x "fst kv" "snd kv"] by (simp_all add: mini_pair_def)
  then show ?thesis by auto
qed

lemma mini_form_parse_ok: "mini_form_ok (mini_form_parse bs)"
proof -
  let ?P = "mini_pieces [] (filter (\<lambda>b. b < 128 \<and> b \<noteq> 35) bs)"
  have "plain c" if "x \<in> set ?P" "c \<in> set x" for x c
    using mini_pieces_set [OF that] by (auto simp: plain_def)
  then have "61 \<notin> set (fst (mini_pair x)) \<and> (\<forall>c \<in> set (fst (mini_pair x)) \<union> set (snd (mini_pair x)). plain c)"
    if "x \<in> set ?P" for x using that mini_pair_set [of x] by blast
  then show ?thesis by (simp add: mini_form_ok_def mini_form_parse_def split_beta)
qed

lemma parsed_form_mini: "parsed_form mini_url ps \<Longrightarrow> mini_form_ok ps"
proof -
  assume "parsed_form mini_url ps"
  then obtain bs P where "ps = filter P (mini_form_parse bs)" by (auto simp: parsed_form_def)
  with mini_form_parse_ok [of bs] show ?thesis by (auto simp: mini_form_ok_def)
qed

lemma mini_pieces_skip:
  "38 \<notin> set a \<Longrightarrow> mini_pieces acc (a @ s) = mini_pieces (rev a @ acc) s"
  by (induction a arbitrary: acc) auto

lemma mini_pair_render: "61 \<notin> set k \<Longrightarrow> mini_pair (k @ 61 # v) = (k, v)"
  using split_once_Some_iff [of 61 "k @ 61 # v" k v] by (simp add: mini_pair_def)

lemma mini_form_ok_Cons:
  "mini_form_ok ((k, v) # ps) \<longleftrightarrow> 61 \<notin> set k \<and> (\<forall>c \<in> set k. plain c) \<and> (\<forall>c \<in> set v. plain c) \<and> mini_form_ok ps"
  by (auto simp: mini_form_ok_def)

lemma plain_piece:
  "\<forall>c \<in> set k. plain c \<Longrightarrow> \<forall>c \<in> set v. plain c \<Longrightarrow> 38 \<notin> set (k @ 61 # v)"
  by (auto simp: plain_def)

lemma mini_form_round:
  "mini_form_ok ps \<Longrightarrow> map mini_pair (mini_pieces [] (mini_form_serialize ps)) = ps \<and>
   (\<forall>c \<in> set (mini_form_serialize ps). c < 128 \<and> c \<noteq> 35)"
proof (induction ps rule: mini_form_serialize.induct)
  case 1
  then show ?case by simp
next
  case (2 k v)
  then have "mini_pieces [] (k @ 61 # v) = [k @ 61 # v]"
    using mini_pieces_skip [of "k @ 61 # v" "[]" "[]"] plain_piece [of k v]
    by (simp add: mini_form_ok_Cons)
  then show ?case using 2 by (auto simp: mini_pair_render mini_form_ok_Cons plain_def)
next
  case (3 k v p ps)
  let ?s = "mini_form_serialize (p # ps)"
  have "mini_pieces [] (k @ 61 # v @ 38 # ?s) = (k @ 61 # v) # mini_pieces [] ?s"
    using 3 mini_pieces_skip [of "k @ 61 # v" "[]" "38 # ?s"] plain_piece [of k v]
    by (simp add: mini_form_ok_Cons)
  then show ?case using 3 by (auto simp: mini_pair_render mini_form_ok_Cons plain_def)
qed

lemma mini_query_laws: "query_laws mini_url"
proof -
  have id: "filter (\<lambda>c. c \<noteq> 35) (mini_form_serialize ps) = mini_form_serialize ps"
    if "parsed_form mini_url ps" for ps
    using mini_form_round [OF parsed_form_mini [OF that]] by (simp add: filter_id_conv)
  have rt: "mini_form_parse (utf8 (mini_form_serialize ps)) = ps"
    if "parsed_form mini_url ps" for ps
    using mini_form_round [OF parsed_form_mini [OF that]]
    by (simp add: utf8_ascii mini_form_parse_def filter_id_conv)
  show ?thesis by (simp add: query_laws_def id rt)
qed

lemma mini_host_laws: "host_laws mini_url"
  using mini_parse_good by (auto simp: host_laws_def mini_wf_def)

lemma mini_url_ok: "url_ok mini_url"
  using mini_url_good mini_query_laws by (auto simp: url_ok_def fragment_laws_def)

end
