(* ===== verification/Policy.thy ===== *)
theory Policy
  imports Url
begin

text \<open>
  The crawl policy (\<open>crawler/src/policy.rs\<close>, with \<open>host_of\<close> of \<open>frontier.rs\<close>): which
  parameters mark a campaign, the canonical form of a URL, which URLs are worth a request,
  and the scope that keeps a crawl on its hosts. The lemmas show that canonical URLs are a
  fixed point of canonicalisation, that stripping removes the tracking parameters and
  nothing else, and which hosts a scope admits.
\<close>

section \<open>Hosts\<close>

definition host_of :: "'u url_api \<Rightarrow> rstr \<Rightarrow> rstr option" where
  "host_of U url =
     (case url_parse U url of
        None \<Rightarrow> None
      | Some parsed \<Rightarrow> map_option to_ascii_lowercase (url_host_str U parsed))"

section \<open>Tracking parameters\<close>

definition tracking_params :: "rstr list" where
  "tracking_params =
    [str ''fbclid'', str ''gclid'', str ''gclsrc'', str ''dclid'', str ''msclkid'',
      str ''yclid'', str ''twclid'', str ''igshid'', str ''mc_cid'', str ''mc_eid'',
      str ''s_kwcid'', str ''vero_conv'', str ''vero_id'', str ''wickedid'', str ''_openstat'',
      str ''_ga'', str ''_gl'', str ''ef_id'', str ''spm'', str ''scm'', str ''ucbcb'',
      str ''ucpp'', str ''primecampaignid'', str ''gsc'']"

definition tracking_prefixes :: "rstr list" where
  "tracking_prefixes =
    [str ''utm_'', str ''pk_'', str ''mtm_'', str ''hsa_'', str ''ref_'', str ''pf_rd_'',
      str ''pd_rd_'', str ''_gac_'']"

definition non_page_extensions :: "rstr list" where
  "non_page_extensions =
    [str ''jpg'', str ''jpeg'', str ''png'', str ''gif'', str ''webp'', str ''svg'',
      str ''ico'', str ''bmp'', str ''tif'', str ''tiff'', str ''avif'', str ''heic'',
      str ''css'', str ''js'', str ''mjs'', str ''map'', str ''wasm'', str ''woff'',
      str ''woff2'', str ''ttf'', str ''otf'', str ''eot'', str ''mp3'', str ''mp4'',
      str ''m4a'', str ''m4v'', str ''wav'', str ''ogg'', str ''oga'', str ''ogv'',
      str ''webm'', str ''avi'', str ''mov'', str ''mkv'', str ''flv'', str ''zip'',
      str ''tar'', str ''rar'', str ''7z'', str ''bz2'', str ''xz'', str ''exe'', str ''dmg'',
      str ''deb'', str ''rpm'', str ''apk'', str ''iso'', str ''bin'', str ''pdf'', str ''ps'',
      str ''eps'', str ''csv'', str ''tsv'', str ''xls'', str ''xlsx'', str ''doc'',
      str ''docx'', str ''ppt'', str ''pptx'', str ''odt'', str ''ods'']"

definition is_tracking_param :: "rstr \<Rightarrow> bool" where
  "is_tracking_param name =
     (let lowered = to_ascii_lowercase name
      in List.member tracking_params lowered \<or>
         list_ex (\<lambda>prefix. starts_with prefix lowered) tracking_prefixes)"

lemma is_tracking_param_lower [simp]:
  "is_tracking_param (to_ascii_lowercase name) = is_tracking_param name"
  by (simp add: is_tracking_param_def)

section \<open>Canonical URLs\<close>

definition is_web_scheme :: "rstr \<Rightarrow> bool" where
  "is_web_scheme s \<longleftrightarrow> s = str ''http'' \<or> s = str ''https''"

definition strip_tracking_params :: "'u url_api \<Rightarrow> 'u \<Rightarrow> 'u" where
  "strip_tracking_params U parsed =
     (case url_query U parsed of
        None \<Rightarrow> parsed
      | Some query \<Rightarrow>
          (let pairs = form_parse U (utf8 query);
               kept = filter (\<lambda>(key, _). \<not> is_tracking_param key) pairs
           in if length kept = length pairs then parsed
              else if kept = [] then url_set_query U None parsed
              else url_set_query U (Some (form_serialize U kept)) parsed))"

definition canonical_url :: "'u url_api \<Rightarrow> rstr \<Rightarrow> rstr option" where
  "canonical_url U raw =
     (case url_parse U raw of
        None \<Rightarrow> None
      | Some parsed \<Rightarrow>
          if \<not> is_web_scheme (url_scheme U parsed) then None
          else Some (url_to_string U (strip_tracking_params U (url_set_fragment U None parsed))))"

section \<open>Pages, sitemaps and content types\<close>

definition is_probably_page :: "'u url_api \<Rightarrow> rstr \<Rightarrow> bool" where
  "is_probably_page U url =
     (case url_parse U url of
        None \<Rightarrow> False
      | Some parsed \<Rightarrow>
          (let seg = to_ascii_lowercase (after_last 47 (url_path U parsed));
               segment = (case strip_suffix (str ''.gz'') seg of None \<Rightarrow> seg | Some s \<Rightarrow> s)
           in case rsplit_once 46 segment of
                Some (stem, extension) \<Rightarrow>
                  if stem \<noteq> [] then \<not> List.member non_page_extensions extension else True
              | None \<Rightarrow> True))"

definition is_sitemap_url :: "'u url_api \<Rightarrow> rstr \<Rightarrow> bool" where
  "is_sitemap_url U url =
     (case url_parse U url of
        None \<Rightarrow> False
      | Some parsed \<Rightarrow>
          (let path = to_ascii_lowercase (url_path U parsed)
           in ends_with (str ''sitemap.xml'') path \<or> ends_with (str ''.xml'') path \<or>
              ends_with (str ''.xml.gz'') path))"

definition is_xml_content_type :: "rstr option \<Rightarrow> bool" where
  "is_xml_content_type content_type =
     (case content_type of
        None \<Rightarrow> False
      | Some value \<Rightarrow>
          (let value = to_ascii_lowercase value
           in contains_str (str ''xml'') value \<and> \<not> contains_str (str ''html'') value))"

section \<open>The crawl scope\<close>

record crawl_scope =
  scope_hosts :: "rstr set"
  scope_restricted :: bool

definition scope_unrestricted :: crawl_scope where
  "scope_unrestricted = \<lparr>scope_hosts = {}, scope_restricted = False\<rparr>"

fun insert_seed_hosts :: "'u url_api \<Rightarrow> rstr list \<Rightarrow> rstr set \<Rightarrow> rstr set" where
  "insert_seed_hosts U [] hosts = hosts"
| "insert_seed_hosts U (seed # seeds) hosts =
     insert_seed_hosts U seeds
       (case host_of U seed of Some host \<Rightarrow> insert host hosts | None \<Rightarrow> hosts)"

fun insert_allowed_hosts :: "rstr list \<Rightarrow> rstr set \<Rightarrow> rstr set" where
  "insert_allowed_hosts [] hosts = hosts"
| "insert_allowed_hosts (host # hs) hosts =
     insert_allowed_hosts hs (insert (to_ascii_lowercase (trim host)) hosts)"

definition crawl_scope_new :: "'u url_api \<Rightarrow> bool \<Rightarrow> rstr list \<Rightarrow> rstr list \<Rightarrow> crawl_scope" where
  "crawl_scope_new U restricted seeds allowed_hosts =
     (let hosts = insert_allowed_hosts allowed_hosts (insert_seed_hosts U seeds {})
      in \<lparr>scope_hosts = hosts, scope_restricted = restricted \<or> hosts \<noteq> {}\<rparr>)"

definition scope_sorted_hosts :: "crawl_scope \<Rightarrow> rstr list" where
  "scope_sorted_hosts scope = sorted_list_of_set (scope_hosts scope)"

definition scope_allows :: "'u url_api \<Rightarrow> crawl_scope \<Rightarrow> rstr \<Rightarrow> bool" where
  "scope_allows U scope url =
     (if \<not> scope_restricted scope then True
      else case host_of U url of Some host \<Rightarrow> host \<in> scope_hosts scope | None \<Rightarrow> False)"

section \<open>Lemmas\<close>

lemma web_schemes [simp]: "is_web_scheme (str ''http'')" "is_web_scheme (str ''https'')"
  by (simp_all add: is_web_scheme_def del: str_simps)

lemma strip_no_query [simp]: "url_query U u = None \<Longrightarrow> strip_tracking_params U u = u"
  by (simp add: strip_tracking_params_def)

text \<open>What is left of the query after stripping, as pairs.\<close>

definition query_pairs :: "'u url_api \<Rightarrow> 'u \<Rightarrow> (rstr \<times> rstr) list" where
  "query_pairs U u = (case url_query U u of None \<Rightarrow> [] | Some q \<Rightarrow> form_parse U (utf8 q))"

lemma filter_len_id: "length (filter P xs) = length xs \<longleftrightarrow> filter P xs = xs"
  by (metis filter_id_conv length_filter_less less_irrefl)

lemma strip_query_pairs:
  assumes "url_ok U"
  shows "query_pairs U (strip_tracking_params U u) =
    filter (\<lambda>(key, _). \<not> is_tracking_param key) (query_pairs U u)"
proof (cases "url_query U u")
  case None
  then show ?thesis by (simp add: query_pairs_def)
next
  case (Some q)
  let ?pairs = "form_parse U (utf8 q)"
  let ?kept = "filter (\<lambda>(key, _). \<not> is_tracking_param key) ?pairs"
  have "parsed_form U ?kept" by (auto simp: parsed_form_def)
  then show ?thesis
    using Some assms
    by (auto simp: query_pairs_def strip_tracking_params_def Let_def filter_len_id url_ok_query)
qed

lemma strip_tracking_idem:
  assumes "url_ok U"
  shows "strip_tracking_params U (strip_tracking_params U u) = strip_tracking_params U u"
proof -
  have "filter (\<lambda>(key, _). \<not> is_tracking_param key) (query_pairs U (strip_tracking_params U u)) =
      query_pairs U (strip_tracking_params U u)"
    by (simp add: strip_query_pairs [OF assms])
  then show ?thesis
    by (cases "url_query U (strip_tracking_params U u)")
      (simp_all add: strip_tracking_params_def [of U "strip_tracking_params U u"] query_pairs_def)
qed

lemma strip_other_components:
  assumes "url_ok U"
  shows "url_scheme U (strip_tracking_params U u) = url_scheme U u"
    and "url_host_str U (strip_tracking_params U u) = url_host_str U u"
    and "url_path U (strip_tracking_params U u) = url_path U u"
    and "url_fragment U (strip_tracking_params U u) = url_fragment U u"
  using assms by (auto simp: strip_tracking_params_def Let_def url_ok_query split: option.splits)

lemma strip_reach: "url_reach U u \<Longrightarrow> url_reach U (strip_tracking_params U u)"
  by (auto simp: strip_tracking_params_def Let_def split: option.splits intro: url_reach.query_set)

text \<open>What \<open>canonical_url\<close> returns, and what its argument was.\<close>

lemma canonical_url_Some:
  assumes "url_ok U" "canonical_url U raw = Some s"
  obtains u v where "url_parse U raw = Some u" "is_web_scheme (url_scheme U u)"
    "v = strip_tracking_params U (url_set_fragment U None u)" "s = url_to_string U v"
    "url_reach U v" "url_parse U s = Some v"
proof -
  obtain u where u: "url_parse U raw = Some u" "is_web_scheme (url_scheme U u)"
      "s = url_to_string U (strip_tracking_params U (url_set_fragment U None u))"
    using assms(2) by (auto simp: canonical_url_def split: option.splits if_splits)
  moreover have "url_reach U (strip_tracking_params U (url_set_fragment U None u))"
    by (intro strip_reach url_reach.fragment_set) (use u in \<open>auto intro: url_reach.parsed\<close>)
  ultimately show ?thesis
    using that url_ok_parse_to_string [OF assms(1)] by blast
qed

lemma insert_seed_hosts_eq:
  "insert_seed_hosts U seeds hosts = hosts \<union> {h. \<exists>s \<in> set seeds. host_of U s = Some h}"
  by (induction seeds arbitrary: hosts) (auto split: option.splits)

lemma insert_allowed_hosts_eq:
  "insert_allowed_hosts hs hosts = hosts \<union> (\<lambda>h. to_ascii_lowercase (trim h)) ` set hs"
  by (induction hs arbitrary: hosts) auto

lemma scope_new_hosts:
  "scope_hosts (crawl_scope_new U r seeds allowed) =
     {h. \<exists>s \<in> set seeds. host_of U s = Some h} \<union> (\<lambda>h. to_ascii_lowercase (trim h)) ` set allowed"
  by (simp add: crawl_scope_new_def insert_seed_hosts_eq insert_allowed_hosts_eq)

lemma scope_new_restricted:
  "scope_restricted (crawl_scope_new U r seeds allowed) \<longleftrightarrow>
     r \<or> allowed \<noteq> [] \<or> (\<exists>s \<in> set seeds. host_of U s \<noteq> None)"
  by (auto simp: crawl_scope_new_def insert_seed_hosts_eq insert_allowed_hosts_eq)

lemma host_of_lower: "host_of U url = Some h \<Longrightarrow> to_ascii_lowercase h = h"
  by (auto simp: host_of_def split: option.splits)

lemma canonical_url_fixed:
  assumes "url_ok U" and "canonical_url U raw = Some s"
  shows "canonical_url U s = Some s"
proof -
  obtain u v where uv: "is_web_scheme (url_scheme U u)"
    "v = strip_tracking_params U (url_set_fragment U None u)" "s = url_to_string U v"
    "url_parse U s = Some v"
    using canonical_url_Some [OF assms] by metis
  have "url_set_fragment U None v = v"
    using uv(2) url_ok_fragment(6) [OF assms(1)]
    by (simp add: strip_other_components [OF assms(1)] url_ok_fragment(1) [OF assms(1)])
  moreover have "strip_tracking_params U v = v"
    using uv(2) strip_tracking_idem [OF assms(1)] by simp
  moreover have "is_web_scheme (url_scheme U v)"
    using uv(1,2) by (simp add: strip_other_components [OF assms(1)] url_ok_fragment [OF assms(1)])
  ultimately show ?thesis using uv(3,4) by (simp add: canonical_url_def)
qed

section \<open>Properties\<close>



text \<open>A canonical URL has a web scheme, no fragment and no tracking parameter; it keeps the
  host, the path and every other parameter of the raw URL in order, and a query that carries
  no tracking parameter is kept byte for byte.\<close>

theorem canonical_url_components:
  assumes "url_ok U" and "canonical_url U raw = Some s"
  shows "\<exists>u v. url_parse U raw = Some u \<and> url_parse U s = Some v \<and>
    is_web_scheme (url_scheme U v) \<and> url_scheme U v = url_scheme U u \<and>
    url_fragment U v = None \<and> url_host_str U v = url_host_str U u \<and> url_path U v = url_path U u \<and>
    query_pairs U v = filter (\<lambda>(key, _). \<not> is_tracking_param key) (query_pairs U u) \<and>
    (query_pairs U v = query_pairs U u \<longrightarrow> url_query U v = url_query U u)"
proof -
  note laws = strip_other_components [OF assms(1)] url_ok_fragment [OF assms(1)]
  obtain u v where uv: "url_parse U raw = Some u" "is_web_scheme (url_scheme U u)"
    "v = strip_tracking_params U (url_set_fragment U None u)" "url_parse U s = Some v"
    using canonical_url_Some [OF assms] by metis
  have pairs: "query_pairs U (url_set_fragment U None u) = query_pairs U u"
    by (simp add: query_pairs_def laws)
  then have v: "query_pairs U v = filter (\<lambda>(key, _). \<not> is_tracking_param key) (query_pairs U u)"
    using uv(3) strip_query_pairs [OF assms(1)] by simp
  have "url_query U v = url_query U u" if eq: "query_pairs U v = query_pairs U u"
  proof (cases "url_query U u")
    case None
    then show ?thesis using uv(3) by (simp add: laws)
  next
    case (Some q)
    then have "filter (\<lambda>(key, _). \<not> is_tracking_param key) (form_parse U (utf8 q)) = form_parse U (utf8 q)"
      using eq v by (simp add: query_pairs_def)
    then show ?thesis using Some uv(3) by (simp add: strip_tracking_params_def laws)
  qed
  with uv v show ?thesis by (intro exI [of _ u] exI [of _ v]) (simp add: laws)
qed

theorem canonical_url_components_witness:
  "\<exists>u v. url_parse mini_url (str ''http://a.b/p?utm_x=1&q=2#f'') = Some u \<and>
    url_parse mini_url (str ''http://a.b/p?q=2'') = Some v \<and> url_fragment mini_url v = None \<and>
    query_pairs mini_url v = filter (\<lambda>(key, _). \<not> is_tracking_param key) (query_pairs mini_url u)"
proof -
  have h: "canonical_url mini_url (str ''http://a.b/p?utm_x=1&q=2#f'') = Some (str ''http://a.b/p?q=2'')"
    by code_simp
  show ?thesis using canonical_url_components [OF mini_url_ok h] by blast
qed

lemma lower_append: "to_ascii_lowercase (a @ b) = to_ascii_lowercase a @ to_ascii_lowercase b"
  by (simp add: to_ascii_lowercase_def)

lemma lower_keeps_sep: "d < 65 \<Longrightarrow> d \<in> set (to_ascii_lowercase s) \<longleftrightarrow> d \<in> set s"
  by (force simp: to_ascii_lowercase_def to_ascii_lower_def image_iff)

text \<open>A URL whose last path segment has a stem and an extension (not \<open>gz\<close>) counts as a
  page unless the extension is one of the listed data formats; the test folds case, a name
  that is only an extension is a page, and so is a compressed sitemap.\<close>

theorem is_probably_page_extension:
  assumes "url_parse U url = Some u" and "url_path U u = dir @ str ''/'' @ stem @ str ''.'' @ ext"
    and "47 \<notin> set stem" "47 \<notin> set ext" "46 \<notin> set ext" "to_ascii_lowercase ext \<noteq> str ''gz''"
  shows "is_probably_page U url \<longleftrightarrow>
    stem = [] \<or> to_ascii_lowercase ext \<notin> set non_page_extensions"
proof -
  let ?s = "to_ascii_lowercase stem" and ?e = "to_ascii_lowercase ext"
  have e: "46 \<notin> set ?e" using assms(5) by (simp add: lower_keeps_sep)
  have "after_last 47 (url_path U u) = stem @ 46 # ext"
    using assms(2-4) after_last_append [of 47 "stem @ 46 # ext" dir] by simp
  then have seg: "to_ascii_lowercase (after_last 47 (url_path U u)) = ?s @ 46 # ?e"
    by (simp add: lower_append) (simp add: to_ascii_lowercase_def to_ascii_lower_def)
  have pieces: "rsplit_once 46 (?s @ 46 # ?e) = Some (?s, ?e)"
    using e by (simp add: rsplit_once_Some_iff)
  have "strip_suffix (str ''.gz'') (?s @ 46 # ?e) \<noteq> Some r" for r
  proof
    assume "strip_suffix (str ''.gz'') (?s @ 46 # ?e) = Some r"
    then have "rsplit_once 46 (?s @ 46 # ?e) = Some (r, str ''gz'')"
      by (simp add: strip_suffix_Some_iff rsplit_once_Some_iff)
    with pieces assms(6) show False by simp
  qed
  then have "strip_suffix (str ''.gz'') (?s @ 46 # ?e) = None" by blast
  then show ?thesis
    using assms(1) by (simp add: is_probably_page_def Let_def seg pieces del: str_simps)
qed

theorem is_probably_page_extension_witness:
  "is_probably_page mini_url (str ''http://a.b/x/y.PDF'') = False"
proof -
  have p: "url_parse mini_url (str ''http://a.b/x/y.PDF'') =
      Some \<lparr>m_scheme = str ''http'', m_host = str ''a.b'', m_path = str ''/x/y.PDF'',
            m_query = None, m_fragment = None\<rparr>" by code_simp
  show ?thesis
    by (subst is_probably_page_extension [OF p, of "str ''/x''" "str ''y''" "str ''PDF''"]) code_simp+
qed

text \<open>The scope admits a URL exactly when it is not restricted, or the URL's host is the
  host of a seed or one of the allowed hosts; it is restricted as soon as the flag is set, an
  allowed host is named, or any seed has a host.\<close>

theorem scope_allows_iff:
  "scope_allows U (crawl_scope_new U restricted seeds allowed) url \<longleftrightarrow>
     (\<not> restricted \<and> allowed = [] \<and> list_all (\<lambda>s. host_of U s = None) seeds) \<or>
     (\<exists>h. host_of U url = Some h \<and>
        (Some h \<in> host_of U ` set seeds \<or> h \<in> (\<lambda>a. to_ascii_lowercase (trim a)) ` set allowed))"
proof -
  have "(\<exists>s \<in> set seeds. host_of U s = Some h) \<longleftrightarrow> Some h \<in> host_of U ` set seeds" for h
    by (metis image_iff)
  then show ?thesis
    by (auto simp: scope_allows_def scope_new_hosts scope_new_restricted list_all_iff
        split: option.splits)
qed

text \<open>C28: with any seed that has a host, the scope is the same with and without the operator's
  \<open>--stay-on-site\<close>: the flag has no effect, and the crawl is confined to the seeds' hosts.\<close>

theorem scope_ignores_stay_on_site:
  assumes "seed \<in> set seeds" and "host_of U seed = Some h"
  shows "crawl_scope_new U False seeds allowed = crawl_scope_new U True seeds allowed \<and>
    scope_restricted (crawl_scope_new U False seeds allowed)"
proof -
  have "insert_allowed_hosts allowed (insert_seed_hosts U seeds {}) \<noteq> {}"
    using assms by (auto simp: insert_seed_hosts_eq insert_allowed_hosts_eq)
  then show ?thesis by (simp add: crawl_scope_new_def Let_def)
qed

theorem scope_ignores_stay_on_site_witness:
  "crawl_scope_new mini_url False [str ''http://a.b/''] [] =
     crawl_scope_new mini_url True [str ''http://a.b/''] [] \<and>
   scope_restricted (crawl_scope_new mini_url False [str ''http://a.b/''] [])"
proof -
  have h: "host_of mini_url (str ''http://a.b/'') = Some (str ''a.b'')" by code_simp
  show ?thesis by (rule scope_ignores_stay_on_site [OF _ h]) simp
qed

end
