(* ===== verification/Float_Text.thy ===== *)
theory Float_Text
  imports Rstring
begin

text \<open>
  \<open>str::parse::<f64>()\<close> followed by \<open>ceil() as u64\<close>, which the robots.txt parser applies to
  a \<open>Crawl-delay\<close>. The decimal is read exactly, rounded to the nearest binary64 (ties to
  even, as IEEE 754 and Rust do), tested for finiteness and sign, and only then rounded up
  and saturated at \<open>u64::MAX\<close>.
\<close>

datatype parsed_f64 = NotANumber | Infinite bool | Decimal bool nat int

abbreviation is_digit :: "rchar \<Rightarrow> bool" where
  "is_digit c \<equiv> 48 \<le> c \<and> c \<le> 57"

definition digits_value :: "rstr \<Rightarrow> nat" where
  "digits_value s = foldl (\<lambda>acc c. acc * 10 + (c - 48)) 0 s"

text \<open>A sign and the rest.\<close>

definition split_sign :: "rstr \<Rightarrow> bool \<times> rstr" where
  "split_sign s =
     (case s of [] \<Rightarrow> (False, [])
      | c # r \<Rightarrow> if c = 45 then (True, r) else if c = 43 then (False, r) else (False, s))"

definition parse_exponent :: "rstr \<Rightarrow> int option" where
  "parse_exponent s =
     (case s of
        [] \<Rightarrow> Some 0
      | c # r \<Rightarrow>
          if c = 101 \<or> c = 69 then
            (case split_sign r of
               (neg, ds) \<Rightarrow>
                 if ds \<noteq> [] \<and> list_all is_digit ds
                 then Some (if neg then - int (digits_value ds) else int (digits_value ds))
                 else None)
          else None)"

definition parse_f64 :: "rstr \<Rightarrow> parsed_f64 option" where
  "parse_f64 s =
     (case split_sign s of
        (neg, body) \<Rightarrow>
          (let low = to_ascii_lowercase body;
               whole = takeWhile is_digit body; r = dropWhile is_digit body;
               dot = (r \<noteq> [] \<and> hd r = 46);
               frac = (if dot then takeWhile is_digit (tl r) else []);
               rest = (if dot then dropWhile is_digit (tl r) else r)
           in if low = str ''inf'' \<or> low = str ''infinity'' then Some (Infinite neg)
              else if low = str ''nan'' then Some NotANumber
              else if whole = [] \<and> frac = [] then None
              else (case parse_exponent rest of
                      None \<Rightarrow> None
                    | Some e \<Rightarrow> Some (Decimal neg (digits_value (whole @ frac)) (e - int (length frac))))))"

fun bit_length :: "nat \<Rightarrow> nat" where
  "bit_length n = (if n = 0 then 0 else Suc (bit_length (n div 2)))"

declare bit_length.simps [simp del]

definition round_half_even :: "nat \<Rightarrow> nat \<Rightarrow> nat" where
  "round_half_even a b =
     (let q = a div b; r = a mod b
      in if 2 * r < b then q else if 2 * r > b then Suc q else if even q then q else Suc q)"

text \<open>\<open>round_f64 num den\<close> is the significand and exponent of the binary64 nearest to
  \<open>num / den\<close>, before the test for overflow.\<close>

definition round_f64 :: "nat \<Rightarrow> nat \<Rightarrow> nat \<times> int" where
  "round_f64 num den =
     (let scaled = (\<lambda>k::int. if 0 \<le> k then (num, den * 2 ^ nat k) else (num * 2 ^ nat (- k), den));
          k0 = int (bit_length num) - int (bit_length den) - 53;
          k1 = (case scaled k0 of (a, b) \<Rightarrow> if 2 ^ 53 * b \<le> a then k0 + 1 else k0);
          k = max k1 (- 1074)
      in case scaled k of (a, b) \<Rightarrow> (round_half_even a b, k))"

definition f64_overflows :: "nat \<times> int \<Rightarrow> bool" where
  "f64_overflows x = (case x of (q, k) \<Rightarrow> 0 \<le> k \<and> 2 ^ 1024 \<le> q * 2 ^ nat k)"

definition f64_ceil :: "nat \<times> int \<Rightarrow> nat" where
  "f64_ceil x =
     (case x of (q, k) \<Rightarrow>
        if 0 \<le> k then q * 2 ^ nat k else (q + 2 ^ nat (- k) - 1) div 2 ^ nat (- k))"

text \<open>The value as \<open>u64\<close> seconds, when it is a finite number that is not below zero. A
  negative decimal that rounds to minus zero is not below zero.\<close>

definition parse_f64_ceil_u64 :: "rstr \<Rightarrow> nat option" where
  "parse_f64_ceil_u64 s =
     (case parse_f64 s of
        Some (Decimal neg m e) \<Rightarrow>
          (let x = (if 0 \<le> e then round_f64 (m * 10 ^ nat e) 1 else round_f64 m (10 ^ nat (- e)))
           in if f64_overflows x \<or> (neg \<and> fst x \<noteq> 0) then None
              else Some (min (f64_ceil x) u64_max))
      | _ \<Rightarrow> None)"

end
