(* ===== verification/Robots.thy ===== *)
theory Robots
  imports Url Float_Text
begin

text \<open>
  \<open>crates/crawler/src/robots.rs\<close> without its cache: the rules of a robots.txt file, the glob
  matcher, the parser and the choice of a group. The cache over the crawler's database is in
  \<open>Robots_Cache\<close>.

  The matcher is the loop of the code, a \<open>function\<close> with its termination proof, and is
  compared with the declarative reading of a pattern, \<open>glob_spec\<close>.
\<close>

definition cache_ttl_ms :: int where
  "cache_ttl_ms = 24 * 60 * 60 * 1000"

definition unavailable_ttl_ms :: int where
  "unavailable_ttl_ms = 5 * 60 * 1000"

record robots_rules =
  crawl_delay_s :: "nat option"
  disallow :: "rstr list"
  allow :: "rstr list"
  sitemaps :: "rstr list"

definition allow_all :: robots_rules where
  "allow_all = \<lparr> crawl_delay_s = None, disallow = [], allow = [], sitemaps = [] \<rparr>"

definition disallow_all :: robots_rules where
  "disallow_all = allow_all \<lparr> disallow := [str ''/''] \<rparr>"

section \<open>Matching a path\<close>

function glob_loop ::
    "bool \<Rightarrow> rstr \<Rightarrow> rstr \<Rightarrow> nat option \<Rightarrow> nat \<Rightarrow> nat \<Rightarrow> nat \<Rightarrow> bool" where
  "glob_loop anchored p t star_at resume_at pattern_at text_at =
     (if pattern_at < length p \<and> p ! pattern_at = ch CHR ''*'' then
        glob_loop anchored p t (Some pattern_at) text_at (pattern_at + 1) text_at
      else if pattern_at < length p \<and> text_at < length t \<and> p ! pattern_at = t ! text_at then
        glob_loop anchored p t star_at resume_at (pattern_at + 1) (text_at + 1)
      else if pattern_at = length p then
        \<not> anchored \<or> text_at = length t
      else
        (case star_at of
           Some star \<Rightarrow>
             if length t < resume_at + 1 then False
             else glob_loop anchored p t star_at (resume_at + 1) (star + 1) (resume_at + 1)
         | None \<Rightarrow> False))"
  by pat_completeness auto

text \<open>Each turn of the loop finds a later star, restarts later after the same star, or consumes
  a character of the pattern. The first component only covers states no run reaches.\<close>

termination
  by (relation "measures
        [\<lambda>(_, p, t, star, res, pa, ta). case star of Some s \<Rightarrow> if pa \<le> s then 1 else 0 | None \<Rightarrow> 0,
         \<lambda>(_, p, t, star, res, pa, ta). case star of Some s \<Rightarrow> length p - s | None \<Rightarrow> Suc (length p),
         \<lambda>(_, p, t, star, res, pa, ta). length t - res,
         \<lambda>(_, p, t, star, res, pa, ta). length p - pa]")
    (auto split: option.splits)

declare glob_loop.simps [simp del]

definition glob_matches :: "rstr \<Rightarrow> rstr \<Rightarrow> bool \<Rightarrow> bool" where
  "glob_matches p t anchored = glob_loop anchored p t None 0 0 0"

definition match_path :: "rstr \<Rightarrow> rstr \<Rightarrow> nat option" where
  "match_path pattern path =
     (case (case strip_suffix [ch CHR ''$''] pattern of
              Some stripped \<Rightarrow> (stripped, True)
            | None \<Rightarrow> (pattern, False)) of
        (pat, anchored) \<Rightarrow> if glob_matches pat path anchored then Some (byte_len pat) else None)"

definition consider_rule :: "(nat \<times> bool) option \<Rightarrow> nat \<Rightarrow> bool \<Rightarrow> (nat \<times> bool) option" where
  "consider_rule best specificity allowed =
     (case best of
        None \<Rightarrow> Some (specificity, allowed)
      | Some (current, _) \<Rightarrow> if current < specificity then Some (specificity, allowed) else best)"

definition consider_all ::
    "rstr \<Rightarrow> bool \<Rightarrow> rstr list \<Rightarrow> (nat \<times> bool) option \<Rightarrow> (nat \<times> bool) option" where
  "consider_all path allowed patterns best =
     foldl (\<lambda>b pattern. case match_path pattern path of
              Some specificity \<Rightarrow> consider_rule b specificity allowed
            | None \<Rightarrow> b) best patterns"

definition robots_allows :: "robots_rules \<Rightarrow> rstr \<Rightarrow> bool" where
  "robots_allows rules path =
     (case consider_all path True (allow rules) (consider_all path False (disallow rules) None) of
        Some (_, allowed) \<Rightarrow> allowed
      | None \<Rightarrow> True)"

section \<open>What a pattern means\<close>

fun glob_spec :: "bool \<Rightarrow> rstr \<Rightarrow> rstr \<Rightarrow> bool" where
  "glob_spec anchored [] t = (\<not> anchored \<or> t = [])"
| "glob_spec anchored (c # p) t =
     (if c = ch CHR ''*'' then \<exists>k \<le> length t. glob_spec anchored p (drop k t)
      else t \<noteq> [] \<and> c = hd t \<and> glob_spec anchored p (tl t))"

lemma glob_spec_star:
  assumes "pa < length p" "p ! pa = ch CHR ''*''"
  shows "glob_spec anch (drop pa p) (drop ta t) \<longleftrightarrow>
    (\<exists>k \<le> length t - ta. glob_spec anch (drop (Suc pa) p) (drop (ta + k) t))"
  using assms by (simp add: Cons_nth_drop_Suc [symmetric] add.commute)

lemma glob_spec_lit:
  assumes "pa < length p" "p ! pa \<noteq> ch CHR ''*''"
  shows "glob_spec anch (drop pa p) (drop ta t) \<longleftrightarrow>
    ta < length t \<and> p ! pa = t ! ta \<and> glob_spec anch (drop (Suc pa) p) (drop (Suc ta) t)"
  using assms by (auto simp: Cons_nth_drop_Suc [symmetric] hd_drop_conv_nth drop_Suc tl_drop)

lemma glob_spec_star_shift:
  assumes "pa < length p" "p ! pa = ch CHR ''*''" "ta \<le> k" "k \<le> length t"
    and "glob_spec anch (drop pa p) (drop k t)"
  shows "glob_spec anch (drop pa p) (drop ta t)"
proof -
  obtain j where "j \<le> length t - k" "glob_spec anch (drop (Suc pa) p) (drop (k + j) t)"
    using assms glob_spec_star by blast
  moreover have "k + j = ta + (k - ta + j)" using assms(3) by simp
  ultimately show ?thesis
    using assms(1-4) glob_spec_star [of pa p anch ta t]
    by (metis (no_types, lifting) Nat.add_diff_assoc2 add_le_cancel_left diff_le_mono le_add_diff_inverse
        add.commute add_leD2 nat_add_left_cancel_le le_diff_conv)
qed

lemma glob_spec_run:
  assumes "\<forall>i < n. p ! (a + i) \<noteq> ch CHR ''*''" "a + n \<le> length p" "k \<le> length t"
    and "glob_spec anch (drop a p) (drop k t)"
  shows "k + n \<le> length t \<and> glob_spec anch (drop (a + n) p) (drop (k + n) t)"
  using assms
proof (induction n)
  case 0
  then show ?case by simp
next
  case (Suc n)
  then have IH: "k + n \<le> length t" "glob_spec anch (drop (a + n) p) (drop (k + n) t)" by auto
  have "a + n < length p" "p ! (a + n) \<noteq> ch CHR ''*''" using Suc.prems by auto
  from glob_spec_lit [OF this] IH(2) show ?case by simp
qed

section \<open>The loop against the meaning\<close>

text \<open>What holds whenever the loop is entered: the text from \<open>resume_at\<close> to \<open>text_at\<close> was
  matched by the characters after the last star, none of which is a star.\<close>

definition glob_inv ::
    "rstr \<Rightarrow> rstr \<Rightarrow> nat option \<Rightarrow> nat \<Rightarrow> nat \<Rightarrow> nat \<Rightarrow> bool" where
  "glob_inv p t star res pa ta \<longleftrightarrow>
     pa \<le> length p \<and> ta \<le> length t \<and>
     (\<forall>s. star = Some s \<longrightarrow>
        s < pa \<and> res \<le> ta \<and> ta - res = pa - Suc s \<and>
        (\<forall>i < pa - Suc s. p ! (Suc s + i) \<noteq> ch CHR ''*''))"

definition glob_alt ::
    "bool \<Rightarrow> rstr \<Rightarrow> rstr \<Rightarrow> nat option \<Rightarrow> nat \<Rightarrow> bool" where
  "glob_alt anch p t star res \<longleftrightarrow>
     (\<exists>s k. star = Some s \<and> res < k \<and> k \<le> length t \<and> glob_spec anch (drop (Suc s) p) (drop k t))"

text \<open>A star found later makes the choices left for an earlier one redundant.\<close>

lemma glob_alt_star:
  assumes inv: "glob_inv p t star res pa ta" and pa: "pa < length p" "p ! pa = ch CHR ''*''"
    and alt: "glob_alt anch p t star res"
  shows "glob_spec anch (drop pa p) (drop ta t)"
proof -
  obtain s k where s: "star = Some s" "res < k" "k \<le> length t"
    "glob_spec anch (drop (Suc s) p) (drop k t)"
    using alt by (auto simp: glob_alt_def)
  have i: "s < pa" "res \<le> ta" "ta - res = pa - Suc s" "\<forall>i < pa - Suc s. p ! (Suc s + i) \<noteq> ch CHR ''*''"
    using inv s(1) by (auto simp: glob_inv_def)
  have "k + (pa - Suc s) \<le> length t"
    "glob_spec anch (drop (Suc s + (pa - Suc s)) p) (drop (k + (pa - Suc s)) t)"
    using glob_spec_run [OF i(4) _ s(3,4)] i(1) pa(1) by auto
  moreover have "ta \<le> k + (pa - Suc s)" using i(2,3) s(2) by simp
  ultimately show ?thesis
    using glob_spec_star_shift [OF pa] i(1) by fastforce
qed

lemma glob_star_step:
  assumes "glob_inv p t star res pa ta" "pa < length p" "p ! pa = ch CHR ''*''"
  shows "glob_inv p t (Some pa) ta (Suc pa) ta"
    and "glob_spec anch (drop pa p) (drop ta t) \<or> glob_alt anch p t star res \<longleftrightarrow>
      glob_spec anch (drop (Suc pa) p) (drop ta t) \<or> glob_alt anch p t (Some pa) ta"
proof -
  show "glob_inv p t (Some pa) ta (Suc pa) ta" using assms by (auto simp: glob_inv_def)
  have ta: "ta \<le> length t" using assms(1) by (simp add: glob_inv_def)
  have "glob_spec anch (drop pa p) (drop ta t) \<longleftrightarrow>
    (\<exists>k. ta \<le> k \<and> k \<le> length t \<and> glob_spec anch (drop (Suc pa) p) (drop k t))"
    using glob_spec_star [OF assms(2,3)] ta
    by (metis le_add1 le_add_diff_inverse nat_add_left_cancel_le)
  also have "\<dots> \<longleftrightarrow> glob_spec anch (drop (Suc pa) p) (drop ta t) \<or> glob_alt anch p t (Some pa) ta"
    using ta by (auto simp: glob_alt_def le_less)
  finally show "glob_spec anch (drop pa p) (drop ta t) \<or> glob_alt anch p t star res \<longleftrightarrow>
      glob_spec anch (drop (Suc pa) p) (drop ta t) \<or> glob_alt anch p t (Some pa) ta"
    using glob_alt_star [OF assms] by blast
qed

lemma glob_lit_step:
  assumes "glob_inv p t star res pa ta" "pa < length p" "ta < length t" "p ! pa \<noteq> ch CHR ''*''"
  shows "glob_inv p t star res (Suc pa) (Suc ta)"
proof -
  have "p ! (Suc s + i) \<noteq> ch CHR ''*''" if "star = Some s" "i < Suc pa - Suc s" for s i
  proof (cases "i < pa - Suc s")
    case True
    then show ?thesis using assms(1) that(1) by (simp add: glob_inv_def)
  next
    case False
    moreover have "s < pa" using assms(1) that(1) by (simp add: glob_inv_def)
    ultimately have "Suc s + i = pa" using that(2) by simp
    then show ?thesis using assms(4) by simp
  qed
  then show ?thesis using assms(1-3) by (auto simp: glob_inv_def)
qed

lemma glob_back_step:
  assumes "glob_inv p t (Some s) res pa ta" "Suc res \<le> length t"
  shows "glob_inv p t (Some s) (Suc res) (Suc s) (Suc res)"
    and "glob_alt anch p t (Some s) res \<longleftrightarrow>
      glob_spec anch (drop (Suc s) p) (drop (Suc res) t) \<or> glob_alt anch p t (Some s) (Suc res)"
proof -
  show "glob_inv p t (Some s) (Suc res) (Suc s) (Suc res)"
    using assms by (auto simp: glob_inv_def)
  have "(res < k \<and> k \<le> length t) = (k = Suc res \<or> (Suc res < k \<and> k \<le> length t))" for k
    using assms(2) by auto
  then show "glob_alt anch p t (Some s) res \<longleftrightarrow>
      glob_spec anch (drop (Suc s) p) (drop (Suc res) t) \<or> glob_alt anch p t (Some s) (Suc res)"
    unfolding glob_alt_def by (simp del: not_less) metis
qed

lemma glob_alt_end: "length t \<le> res \<Longrightarrow> \<not> glob_alt anch p t star res"
  by (simp add: glob_alt_def)

text \<open>One turn that neither sees a star nor a matching character nor the end of the pattern.\<close>

lemma glob_mismatch:
  assumes "glob_inv p t star res pa ta" "\<not> (pa < length p \<and> p ! pa = ch CHR ''*'')"
    "\<not> (pa < length p \<and> ta < length t \<and> p ! pa = t ! ta)" "pa \<noteq> length p"
  shows "\<not> glob_spec anch (drop pa p) (drop ta t)"
proof -
  have "pa < length p" using assms(1,4) by (simp add: glob_inv_def)
  then show ?thesis using assms(2,3) glob_spec_lit by blast
qed

lemma glob_loop_sound:
  assumes "glob_inv p t star res pa ta" "glob_loop anch p t star res pa ta"
  shows "glob_spec anch (drop pa p) (drop ta t) \<or> glob_alt anch p t star res"
  using assms
proof (induction anch p t star res pa ta rule: glob_loop.induct)
  case (1 anch p t star res pa ta)
  note inv = 1(4) and run = 1(5)
  consider (star) "pa < length p" "p ! pa = ch CHR ''*''"
    | (lit) "\<not> (pa < length p \<and> p ! pa = ch CHR ''*'')" "pa < length p" "ta < length t" "p ! pa = t ! ta"
    | (fin) "pa = length p"
    | (again) "\<not> (pa < length p \<and> p ! pa = ch CHR ''*'')"
        "\<not> (pa < length p \<and> ta < length t \<and> p ! pa = t ! ta)" "pa \<noteq> length p"
    by blast
  then show ?case
  proof cases
    case star
    then have "glob_loop anch p t (Some pa) ta (pa + 1) ta" using run by (simp add: glob_loop.simps)
    then show ?thesis using 1(1) star glob_star_step [OF inv star] by simp
  next
    case lit
    then have "glob_loop anch p t star res (pa + 1) (ta + 1)"
      using run by (subst (asm) glob_loop.simps) simp
    then show ?thesis
      using 1(2) lit glob_lit_step [OF inv lit(2,3)] glob_spec_lit [of pa p anch ta t] by auto
  next
    case fin
    then have "\<not> anch \<or> ta = length t" using run by (subst (asm) glob_loop.simps) simp
    then show ?thesis using fin by auto
  next
    case again
    obtain s where s: "star = Some s" "Suc res \<le> length t"
      "glob_loop anch p t star (res + 1) (s + 1) (res + 1)"
      using run again by (subst (asm) glob_loop.simps) (auto split: option.splits if_splits)
    then show ?thesis
      using 1(3) [OF again s(1)] glob_back_step [of p t s res pa ta] inv by auto
  qed
qed

lemma glob_loop_complete:
  assumes "glob_inv p t star res pa ta"
    and "glob_spec False (drop pa p) (drop ta t) \<or> glob_alt False p t star res"
  shows "glob_loop False p t star res pa ta"
  using assms
proof (induction False p t star res pa ta rule: glob_loop.induct)
  case (1 p t star res pa ta)
  note inv = 1(4) and goal = 1(5)
  consider (star) "pa < length p" "p ! pa = ch CHR ''*''"
    | (lit) "\<not> (pa < length p \<and> p ! pa = ch CHR ''*'')" "pa < length p" "ta < length t" "p ! pa = t ! ta"
    | (fin) "pa = length p"
    | (again) "\<not> (pa < length p \<and> p ! pa = ch CHR ''*'')"
        "\<not> (pa < length p \<and> ta < length t \<and> p ! pa = t ! ta)" "pa \<noteq> length p"
    by blast
  then show ?case
  proof cases
    case star
    then have "glob_loop False p t (Some pa) ta (pa + 1) ta"
      using 1(1) goal glob_star_step [OF inv star] by simp
    then show ?thesis using star by (subst glob_loop.simps) simp
  next
    case lit
    then have "glob_loop False p t star res (pa + 1) (ta + 1)"
      using 1(2) goal glob_lit_step [OF inv lit(2,3)] glob_spec_lit [of pa p False ta t] by auto
    then show ?thesis using lit by (subst glob_loop.simps) simp
  next
    case fin
    then show ?thesis by (subst glob_loop.simps) simp
  next
    case again
    then have alt: "glob_alt False p t star res" using goal glob_mismatch [OF inv again] by blast
    then obtain s where s: "star = Some s" "Suc res \<le> length t" by (auto simp: glob_alt_def)
    then have "glob_loop False p t star (res + 1) (s + 1) (res + 1)"
      using 1(3) [OF again s(1)] glob_back_step [of p t s res pa ta] inv alt s by auto
    then show ?thesis using again s by (subst glob_loop.simps) auto
  qed
qed

lemma glob_inv_start: "glob_inv p t None 0 0 0"
  by (simp add: glob_inv_def)

lemma glob_alt_none [simp]: "\<not> glob_alt anch p t None res"
  by (simp add: glob_alt_def)

text \<open>C24: a pattern without the end anchor matches a path exactly when some reading of its
  stars makes it a prefix of the path: the greedy loop, which only ever backtracks to the last
  star, loses no match.\<close>

theorem glob_matches_prefix:
  "glob_matches p t False \<longleftrightarrow> glob_spec False p t"
  using glob_loop_sound [OF glob_inv_start, of False p t]
    glob_loop_complete [OF glob_inv_start, of p t]
  by (auto simp: glob_matches_def)

text \<open>A pattern with the end anchor is only matched by paths it covers to the last
  character.\<close>

theorem glob_matches_anchored_sound:
  assumes "glob_matches p t True"
  shows "glob_spec True p t"
  using glob_loop_sound [OF glob_inv_start, of True p t] assms by (simp add: glob_matches_def)

theorem glob_matches_anchored_sound_witness:
  "glob_spec True (str ''/*.php'') (str ''/a/b.php'')"
  by (rule glob_matches_anchored_sound) code_simp

text \<open>The converse fails, since an anchored pattern that ends before the path does is not
  tried again after its last star: the pattern of \<open>Disallow: /*.php$\<close> covers
  \<open>/a.php/b.php\<close>, and the matcher lets it through.\<close>

theorem glob_matches_anchored_incomplete:
  "glob_spec True (str ''/*.php'') (str ''/a.php/b.php'') \<and>
   \<not> glob_matches (str ''/*.php'') (str ''/a.php/b.php'') True \<and>
   robots_allows (disallow_all \<lparr> disallow := [str ''/*.php$''] \<rparr>) (str ''/a.php/b.php'')"
  by code_simp

section \<open>Longest match\<close>

lemma consider_all_Nil [simp]: "consider_all path a [] b = b"
  by (simp add: consider_all_def)

lemma consider_all_Cons [simp]:
  "consider_all path a (p # ps) b =
     consider_all path a ps
       (case match_path p path of Some k \<Rightarrow> consider_rule b k a | None \<Rightarrow> b)"
  by (simp add: consider_all_def)

definition path_matches :: "rstr \<Rightarrow> rstr list \<Rightarrow> nat \<Rightarrow> bool" where
  "path_matches path ps k \<longleftrightarrow> (\<exists>p \<in> set ps. match_path p path = Some k)"

lemma path_matches_simps [simp]:
  "\<not> path_matches path [] k"
  "path_matches path (p # ps) k \<longleftrightarrow> match_path p path = Some k \<or> path_matches path ps k"
  by (auto simp: path_matches_def)

lemma consider_all_Some:
  "\<exists>m y. consider_all path a ps (Some (n, x)) = Some (m, y) \<and> n \<le> m \<and>
     (\<forall>k. path_matches path ps k \<longrightarrow> k \<le> m) \<and>
     (m = n \<and> y = x \<or> n < m \<and> y = a \<and> path_matches path ps m)"
proof (induction ps arbitrary: n x)
  case Nil
  then show ?case by simp
next
  case (Cons p ps)
  show ?case
  proof (cases "\<exists>k. match_path p path = Some k \<and> n < k")
    case True
    then obtain k where "match_path p path = Some k" "n < k" by blast
    then show ?thesis using Cons.IH [of k a] by (fastforce simp: consider_rule_def)
  next
    case False
    then have "consider_all path a (p # ps) (Some (n, x)) = consider_all path a ps (Some (n, x))"
      by (auto simp: consider_rule_def split: option.splits)
    moreover have "k \<le> n" if "match_path p path = Some k" for k using False that by auto
    ultimately show ?thesis using Cons.IH [of n x] by fastforce
  qed
qed

lemma consider_all_None:
  "(consider_all path a ps None = None \<and> (\<forall>k. \<not> path_matches path ps k)) \<or>
   (\<exists>m. consider_all path a ps None = Some (m, a) \<and> path_matches path ps m \<and>
     (\<forall>k. path_matches path ps k \<longrightarrow> k \<le> m))"
proof (induction ps)
  case Nil
  then show ?case by simp
next
  case (Cons p ps)
  show ?case
  proof (cases "match_path p path")
    case None
    then show ?thesis using Cons.IH by simp
  next
    case (Some k)
    then show ?thesis using consider_all_Some [of path a ps k a] by (auto simp: consider_rule_def)
  qed
qed

lemma robots_allows_default: "(\<And>k. \<not> path_matches path (disallow r) k) \<Longrightarrow> robots_allows r path"
  using consider_all_None [of path False "disallow r"] consider_all_None [of path True "allow r"]
  by (auto simp: robots_allows_def)

text \<open>C23: a path may be fetched exactly when every \<open>Disallow\<close> pattern that matches it is
  beaten by a strictly longer matching \<open>Allow\<close> pattern: the longest match wins, \<open>Disallow\<close>
  wins a tie, and a path no rule matches is free.\<close>

theorem robots_allows_iff:
  "robots_allows rules path \<longleftrightarrow>
     (\<forall>d \<in> set (disallow rules). \<forall>k. match_path d path = Some k \<longrightarrow>
        (\<exists>a \<in> set (allow rules). \<exists>m > k. match_path a path = Some m))"
proof -
  have "robots_allows rules path \<longleftrightarrow>
    (\<forall>k. path_matches path (disallow rules) k \<longrightarrow> (\<exists>m > k. path_matches path (allow rules) m))"
  proof (cases "\<exists>k. path_matches path (disallow rules) k")
    case False
    then show ?thesis using robots_allows_default [of path rules] by blast
  next
    case True
    then obtain n where n: "consider_all path False (disallow rules) None = Some (n, False)"
      "path_matches path (disallow rules) n" "\<forall>k. path_matches path (disallow rules) k \<longrightarrow> k \<le> n"
      using consider_all_None [of path False "disallow rules"] by blast
    obtain m y where m: "consider_all path True (allow rules) (Some (n, False)) = Some (m, y)"
      "n \<le> m" "\<forall>k. path_matches path (allow rules) k \<longrightarrow> k \<le> m"
      "m = n \<and> \<not> y \<or> n < m \<and> y \<and> path_matches path (allow rules) m"
      using consider_all_Some [of path True "allow rules" n False] by auto
    have "robots_allows rules path = y" using n m by (simp add: robots_allows_def)
    then show ?thesis using n m by (metis leD le_less_trans)
  qed
  then show ?thesis unfolding path_matches_def by metis
qed

theorem robots_allows_iff_witness:
  "robots_allows (disallow_all \<lparr> allow := [str ''/a/*''] \<rparr>) (str ''/a/b'') \<and>
   \<not> robots_allows (disallow_all \<lparr> allow := [str ''/''] \<rparr>) (str ''/a/b'')"
proof -
  have "match_path (str ''/'') (str ''/a/b'') = Some 1" "match_path (str ''/a/*'') (str ''/a/b'') = Some 4"
    by code_simp+
  then show ?thesis
    unfolding robots_allows_iff disallow_all_def allow_all_def by (simp del: str_simps)
qed

section \<open>Parsing\<close>

definition robots_url :: "'u url_api \<Rightarrow> rstr \<Rightarrow> rstr option" where
  "robots_url U page_url =
     map_option (\<lambda>u. url_to_string U (url_set_fragment U None (url_set_query U None
         (url_set_path U (str ''/robots.txt'') u))))
       (url_parse U page_url)"

record robots_parse_state =
  rp_groups :: "(rstr list \<times> robots_rules) list"
  rp_agents :: "rstr list"
  rp_rules :: robots_rules
  rp_group_has_rules :: bool
  rp_sitemaps :: "rstr list"

definition robots_start :: robots_parse_state where
  "robots_start = \<lparr> rp_groups = [], rp_agents = [], rp_rules = allow_all,
     rp_group_has_rules = False, rp_sitemaps = [] \<rparr>"

text \<open>The field and the value of a line, when it has them.\<close>

definition robots_field :: "rstr \<Rightarrow> (rstr \<times> rstr) option" where
  "robots_field line =
     (let line = trim (before_first (\<lambda>c. c = ch CHR ''#'') line)
      in if line = [] then None
         else map_option (\<lambda>(field, value). (to_ascii_lowercase (trim field), trim value))
                (split_once (ch CHR '':'') line))"

definition robots_user_agent :: "rstr \<Rightarrow> robots_parse_state \<Rightarrow> robots_parse_state" where
  "robots_user_agent value st =
     (let st = (if rp_group_has_rules st
                then st \<lparr> rp_groups := rp_groups st @ [(rp_agents st, rp_rules st)],
                          rp_agents := [], rp_rules := allow_all, rp_group_has_rules := False \<rparr>
                else st)
      in st \<lparr> rp_agents := rp_agents st @ [to_ascii_lowercase value] \<rparr>)"

definition robots_directive :: "rstr \<Rightarrow> rstr \<Rightarrow> robots_parse_state \<Rightarrow> robots_parse_state" where
  "robots_directive field value st =
     (let r = rp_rules st
      in if field = str ''user-agent'' then robots_user_agent value st
         else if field = str ''disallow'' then
           st \<lparr> rp_group_has_rules := True,
                rp_rules := (if value = [] then r else r \<lparr> disallow := disallow r @ [value] \<rparr>) \<rparr>
         else if field = str ''allow'' then
           st \<lparr> rp_group_has_rules := True,
                rp_rules := (if value = [] then r else r \<lparr> allow := allow r @ [value] \<rparr>) \<rparr>
         else if field = str ''crawl-delay'' then
           st \<lparr> rp_group_has_rules := True,
                rp_rules := (case parse_f64_ceil_u64 value of
                               None \<Rightarrow> r
                             | Some seconds \<Rightarrow> r \<lparr> crawl_delay_s := Some seconds \<rparr>) \<rparr>
         else if field = str ''sitemap'' \<and> value \<noteq> [] then
           st \<lparr> rp_sitemaps := rp_sitemaps st @ [value] \<rparr>
         else st)"

definition robots_line :: "robots_parse_state \<Rightarrow> rstr \<Rightarrow> robots_parse_state" where
  "robots_line st line =
     (case robots_field line of
        None \<Rightarrow> st
      | Some (field, value) \<Rightarrow> robots_directive field value st)"

definition agent_specificity :: "rstr \<Rightarrow> rstr \<Rightarrow> nat option" where
  "agent_specificity user_agent agent =
     (if agent = str ''*'' then Some 0
      else if contains_str agent user_agent then Some (byte_len agent)
      else None)"

definition select_group :: "(rstr list \<times> robots_rules) list \<Rightarrow> rstr \<Rightarrow> robots_rules option" where
  "select_group groups user_agent =
     (let user_agent = to_ascii_lowercase user_agent
      in map_option fst (foldl (\<lambda>best (agents, rules).
           foldl (\<lambda>best agent.
             case agent_specificity user_agent agent of
               None \<Rightarrow> best
             | Some s \<Rightarrow> (case best of
                            None \<Rightarrow> Some (rules, s)
                          | Some (_, current) \<Rightarrow> if current < s then Some (rules, s) else best))
             best agents) None groups))"

definition robots_groups :: "robots_parse_state \<Rightarrow> (rstr list \<times> robots_rules) list" where
  "robots_groups st =
     (if rp_group_has_rules st \<and> rp_agents st \<noteq> []
      then rp_groups st @ [(rp_agents st, rp_rules st)] else rp_groups st)"

definition robots_parse :: "rstr \<Rightarrow> rstr \<Rightarrow> robots_rules" where
  "robots_parse body user_agent =
     (let st = foldl robots_line robots_start (lines body)
      in (case select_group (robots_groups st) user_agent of None \<Rightarrow> allow_all | Some r \<Rightarrow> r)
           \<lparr> sitemaps := rp_sitemaps st \<rparr>)"

section \<open>The file's sitemaps and the selected group\<close>

definition sitemap_of_line :: "rstr \<Rightarrow> rstr option" where
  "sitemap_of_line line =
     (case robots_field line of
        Some (field, value) \<Rightarrow> if field = str ''sitemap'' \<and> value \<noteq> [] then Some value else None
      | None \<Rightarrow> None)"

lemma field_names_distinct:
  "str ''sitemap'' \<noteq> str ''user-agent''" "str ''sitemap'' \<noteq> str ''disallow''"
  "str ''sitemap'' \<noteq> str ''allow''" "str ''sitemap'' \<noteq> str ''crawl-delay''"
  "str ''disallow'' \<noteq> str ''user-agent''" "str ''allow'' \<noteq> str ''user-agent''"
  "str ''allow'' \<noteq> str ''disallow''"
  by code_simp+

lemma robots_line_sitemaps:
  "rp_sitemaps (robots_line st l) =
     rp_sitemaps st @ (case sitemap_of_line l of None \<Rightarrow> [] | Some v \<Rightarrow> [v])"
  using field_names_distinct
  by (auto simp: robots_line_def sitemap_of_line_def robots_directive_def robots_user_agent_def Let_def
      simp del: str_simps split: option.split prod.split)

lemma robots_lines_sitemaps:
  "rp_sitemaps (foldl robots_line st ls) = rp_sitemaps st @ List.map_filter sitemap_of_line ls"
  by (induction ls arbitrary: st)
    (auto simp: robots_line_sitemaps List.map_filter_simps split: option.split)

text \<open>The sitemaps of a parsed file are the non-empty values of all its \<open>Sitemap\<close> lines, in
  their order, whatever group they stand in and whichever user agent asks.\<close>

theorem robots_parse_sitemaps:
  "sitemaps (robots_parse body user_agent) = List.map_filter sitemap_of_line (lines body)"
  by (simp add: robots_parse_def robots_lines_sitemaps robots_start_def Let_def)

definition pick_agent ::
    "rstr \<Rightarrow> robots_rules \<Rightarrow> (robots_rules \<times> nat) option \<Rightarrow> rstr \<Rightarrow> (robots_rules \<times> nat) option" where
  "pick_agent ua rules best agent =
     (case agent_specificity ua agent of
        None \<Rightarrow> best
      | Some s \<Rightarrow> (case best of
                     None \<Rightarrow> Some (rules, s)
                   | Some (_, current) \<Rightarrow> if current < s then Some (rules, s) else best))"

lemma select_group_pick:
  "select_group groups ua = map_option fst (foldl (\<lambda>best (agents, rules).
     foldl (pick_agent (to_ascii_lowercase ua) rules) best agents) None groups)"
  unfolding select_group_def pick_agent_def Let_def by simp

text \<open>The agents of the groups in order, each with the rules of its group: choosing over the
  groups is one fold over this list.\<close>

definition agent_rules :: "(rstr list \<times> robots_rules) list \<Rightarrow> (rstr \<times> robots_rules) list" where
  "agent_rules groups = concat (map (\<lambda>(agents, rules). map (\<lambda>a. (a, rules)) agents) groups)"

lemma pick_flat:
  "foldl (\<lambda>best (agents, rules). foldl (pick_agent ua rules) best agents) b groups =
   foldl (\<lambda>best (a, r). pick_agent ua r best a) b (agent_rules groups)"
  by (induction groups arbitrary: b) (auto simp: agent_rules_def foldl_map)

lemma pick_fold:
  "case foldl (\<lambda>best (a, r). pick_agent ua r best a) None ps of
     None \<Rightarrow> (\<forall>(a, r) \<in> set ps. agent_specificity ua a = None)
   | Some (r, s) \<Rightarrow> (\<exists>a. (a, r) \<in> set ps \<and> agent_specificity ua a = Some s) \<and>
       (\<forall>(a, r) \<in> set ps. \<forall>s'. agent_specificity ua a = Some s' \<longrightarrow> s' \<le> s)"
proof (induction ps rule: rev_induct)
  case Nil
  then show ?case by simp
next
  case (snoc p ps)
  obtain a r where p: "p = (a, r)" by (cases p)
  show ?case
  proof (cases "agent_specificity ua a")
    case None
    then show ?thesis using snoc.IH by (fastforce simp: p pick_agent_def split: option.splits)
  next
    case (Some s)
    then show ?thesis
      using snoc.IH by (fastforce simp: p pick_agent_def not_less split: option.splits)
  qed
qed

text \<open>The chosen group names an agent that matches the crawler at least as specifically as
  every agent of every group, where \<open>*\<close> matches with specificity zero; no group is chosen only
  if no agent matches.\<close>

theorem select_group_most_specific:
  "case select_group groups ua of
     None \<Rightarrow> (\<forall>(a, r) \<in> set (agent_rules groups). agent_specificity (to_ascii_lowercase ua) a = None)
   | Some r \<Rightarrow> (\<exists>a s. (a, r) \<in> set (agent_rules groups) \<and>
       agent_specificity (to_ascii_lowercase ua) a = Some s \<and>
       (\<forall>(a', r') \<in> set (agent_rules groups). \<forall>s'.
          agent_specificity (to_ascii_lowercase ua) a' = Some s' \<longrightarrow> s' \<le> s))"
proof -
  let ?ua = "to_ascii_lowercase ua"
  let ?b = "foldl (\<lambda>best (a, r). pick_agent ?ua r best a) None (agent_rules groups)"
  have sel: "select_group groups ua = map_option fst ?b"
    by (simp add: select_group_pick pick_flat)
  show ?thesis
    using pick_fold [where ua = ?ua and ps = "agent_rules groups"] unfolding sel by (cases ?b) auto
qed

theorem select_group_most_specific_witness:
  "select_group [([str ''*''], disallow_all), ([str ''mjl''], allow_all)] (str ''MJLSearchBot'') = Some allow_all \<and>
   (\<exists>a s. (a, allow_all) \<in> set (agent_rules [([str ''*''], disallow_all), ([str ''mjl''], allow_all)]) \<and>
      agent_specificity (to_ascii_lowercase (str ''MJLSearchBot'')) a = Some s)"
proof -
  let ?gs = "[([str ''*''], disallow_all), ([str ''mjl''], allow_all)]"
  have "select_group ?gs (str ''MJLSearchBot'') = Some allow_all" by code_simp
  then show ?thesis
    using select_group_most_specific [where groups = ?gs and ua = "str ''MJLSearchBot''"] by (auto simp del: str_simps)
qed


section \<open>Reading back a written file\<close>

definition clean_value :: "rstr \<Rightarrow> bool" where
  "clean_value v \<longleftrightarrow>
     v \<noteq> [] \<and> \<not> is_whitespace (hd v) \<and> \<not> is_whitespace (last v) \<and>
     ch CHR ''#'' \<notin> set v \<and> 10 \<notin> set v \<and> 13 \<notin> set v"

definition group_ok :: "rstr list \<times> robots_rules \<Rightarrow> bool" where
  "group_ok g \<longleftrightarrow>
     (case g of (agents, rules) \<Rightarrow>
        agents \<noteq> [] \<and> disallow rules @ allow rules \<noteq> [] \<and>
        list_all clean_value (agents @ disallow rules @ allow rules) \<and>
        list_all (\<lambda>a. to_ascii_lowercase a = a) agents \<and>
        crawl_delay_s rules = None \<and> sitemaps rules = [])"

definition group_lines :: "rstr list \<times> robots_rules \<Rightarrow> rstr list" where
  "group_lines g =
     (case g of (agents, rules) \<Rightarrow>
        map (\<lambda>a. str ''User-agent: '' @ a) agents @
        map (\<lambda>p. str ''Disallow: '' @ p) (disallow rules) @
        map (\<lambda>p. str ''Allow: '' @ p) (allow rules))"

definition robots_text :: "(rstr list \<times> robots_rules) list \<Rightarrow> rstr" where
  "robots_text groups = concat (map (\<lambda>l. l @ [10]) (concat (map group_lines groups)))"

lemma trim_space_clean: "clean_value v \<Longrightarrow> trim (32 # v) = v"
proof -
  assume "clean_value v"
  then have "trim v = v" by (intro trim_id) (simp add: clean_value_def)
  moreover have "is_whitespace 32" by (simp add: is_whitespace_def)
  ultimately show ?thesis by (simp add: trim_def)
qed

lemma robots_field_clean:
  assumes v: "clean_value v" and name: "name \<noteq> []" "\<not> is_whitespace (hd name)" "trim name = name"
    "ch CHR ''#'' \<notin> set name" "ch CHR '':'' \<notin> set name"
  shows "robots_field (name @ ch CHR '':'' # 32 # v) = Some (to_ascii_lowercase name, v)"
proof -
  let ?l = "name @ ch CHR '':'' # 32 # v"
  have "ch CHR ''#'' \<notin> set ?l" using v name(4) by (auto simp: clean_value_def)
  then have "before_first (\<lambda>c. c = ch CHR ''#'') ?l = ?l"
    unfolding before_first_def by (rule takeWhile_without)
  moreover have "trim ?l = ?l" using v name(1,2) by (intro trim_id) (auto simp: clean_value_def)
  moreover have "split_once (ch CHR '':'') ?l = Some (name, 32 # v)"
    using name(5) by (simp add: split_once_Some_iff)
  ultimately show ?thesis using name(3) trim_space_clean [OF v] by (simp add: robots_field_def Let_def)
qed

lemma robots_field_names:
  assumes "clean_value v"
  shows "robots_field (str ''User-agent: '' @ v) = Some (str ''user-agent'', v)"
    and "robots_field (str ''Disallow: '' @ v) = Some (str ''disallow'', v)"
    and "robots_field (str ''Allow: '' @ v) = Some (str ''allow'', v)"
proof -
  have names: "trim (str ''User-agent'') = str ''User-agent''" "trim (str ''Disallow'') = str ''Disallow''"
    "trim (str ''Allow'') = str ''Allow''" "\<not> is_whitespace 85" "\<not> is_whitespace 68" "\<not> is_whitespace 65"
    "to_ascii_lowercase (str ''User-agent'') = str ''user-agent''"
    "to_ascii_lowercase (str ''Disallow'') = str ''disallow''"
    "to_ascii_lowercase (str ''Allow'') = str ''allow''"
    by (simp_all add: trim_def is_whitespace_def to_ascii_lowercase_def to_ascii_lower_def)
  show "robots_field (str ''User-agent: '' @ v) = Some (str ''user-agent'', v)"
    using robots_field_clean [OF assms, of "str ''User-agent''"] names by simp
  show "robots_field (str ''Disallow: '' @ v) = Some (str ''disallow'', v)"
    using robots_field_clean [OF assms, of "str ''Disallow''"] names by simp
  show "robots_field (str ''Allow: '' @ v) = Some (str ''allow'', v)"
    using robots_field_clean [OF assms, of "str ''Allow''"] names by simp
qed

lemma robots_line_rule:
  assumes "clean_value v"
  shows "robots_line st (str ''Disallow: '' @ v) =
      st \<lparr> rp_group_has_rules := True, rp_rules := rp_rules st \<lparr> disallow := disallow (rp_rules st) @ [v] \<rparr> \<rparr>"
    and "robots_line st (str ''Allow: '' @ v) =
      st \<lparr> rp_group_has_rules := True, rp_rules := rp_rules st \<lparr> allow := allow (rp_rules st) @ [v] \<rparr> \<rparr>"
    and "robots_line st (str ''User-agent: '' @ v) = robots_user_agent v st"
  unfolding robots_line_def robots_field_names [OF assms] robots_directive_def Let_def
  using assms
  by (simp_all add: field_names_distinct clean_value_def del: str_simps)

declare str_simps [simp del] str_append [simp del]

lemma robots_disallow_lines:
  "list_all clean_value ds \<Longrightarrow>
   foldl robots_line st (map (\<lambda>p. str ''Disallow: '' @ p) ds) =
     st \<lparr> rp_group_has_rules := rp_group_has_rules st \<or> ds \<noteq> [],
          rp_rules := rp_rules st \<lparr> disallow := disallow (rp_rules st) @ ds \<rparr> \<rparr>"
  by (induction ds arbitrary: st) (simp_all add: robots_line_rule)

lemma robots_allow_lines:
  "list_all clean_value ps \<Longrightarrow>
   foldl robots_line st (map (\<lambda>p. str ''Allow: '' @ p) ps) =
     st \<lparr> rp_group_has_rules := rp_group_has_rules st \<or> ps \<noteq> [],
          rp_rules := rp_rules st \<lparr> allow := allow (rp_rules st) @ ps \<rparr> \<rparr>"
  by (induction ps arbitrary: st) (simp_all add: robots_line_rule)

lemma robots_agent_lines:
  "list_all clean_value as \<Longrightarrow> list_all (\<lambda>a. to_ascii_lowercase a = a) as \<Longrightarrow> \<not> rp_group_has_rules st \<Longrightarrow>
   foldl robots_line st (map (\<lambda>a. str ''User-agent: '' @ a) as) = st \<lparr> rp_agents := rp_agents st @ as \<rparr>"
  by (induction as arbitrary: st)
    (simp_all add: robots_line_rule robots_user_agent_def Let_def)

text \<open>Between two groups the parser either has read nothing or holds a complete group.\<close>

definition robots_settled :: "robots_parse_state \<Rightarrow> bool" where
  "robots_settled st \<longleftrightarrow>
     (if rp_group_has_rules st then rp_agents st \<noteq> [] else rp_agents st = [] \<and> rp_rules st = allow_all)"

lemma robots_group_lines:
  assumes "robots_settled st" "group_ok g"
  shows "robots_settled (foldl robots_line st (group_lines g))"
    and "robots_groups (foldl robots_line st (group_lines g)) = robots_groups st @ [g]"
proof -
  obtain a as r where g: "g = (a # as, r)" "list_all clean_value (a # as)"
    "list_all (\<lambda>a. to_ascii_lowercase a = a) (a # as)" "list_all clean_value (disallow r)"
    "list_all clean_value (allow r)" "disallow r @ allow r \<noteq> []" "crawl_delay_s r = None" "sitemaps r = []"
    using assms(2) by (cases g; cases "fst g") (auto simp: group_ok_def)
  let ?st = "robots_line st (str ''User-agent: '' @ a)"
  have st: "?st = \<lparr> rp_groups = robots_groups st, rp_agents = [a], rp_rules = allow_all,
      rp_group_has_rules = False, rp_sitemaps = rp_sitemaps st \<rparr>"
    using assms(1) g(2,3)
    by (cases st)
      (auto simp: robots_line_rule robots_user_agent_def robots_settled_def robots_groups_def Let_def)
  have r: "allow_all \<lparr> disallow := disallow r, allow := allow r \<rparr> = r"
    using g(7,8) by (cases r) (simp add: allow_all_def)
  have "foldl robots_line st (group_lines g) =
    \<lparr> rp_groups = robots_groups st, rp_agents = a # as, rp_rules = r,
      rp_group_has_rules = True, rp_sitemaps = rp_sitemaps st \<rparr>"
    using g(2-6) r
    by (simp add: g(1) group_lines_def st robots_agent_lines robots_disallow_lines robots_allow_lines
        allow_all_def)
  then show "robots_settled (foldl robots_line st (group_lines g))"
    and "robots_groups (foldl robots_line st (group_lines g)) = robots_groups st @ [g]"
    by (simp_all add: robots_settled_def robots_groups_def g(1))
qed

lemma robots_all_lines:
  "robots_settled st \<Longrightarrow> \<forall>g \<in> set gs. group_ok g \<Longrightarrow>
   robots_groups (foldl robots_line st (concat (map group_lines gs))) = robots_groups st @ gs"
  by (induction gs arbitrary: st) (simp_all add: robots_group_lines)

lemma group_line_cases:
  assumes "group_ok g" "l \<in> set (group_lines g)"
  obtains v where "clean_value v"
    "l = str ''User-agent: '' @ v \<or> l = str ''Disallow: '' @ v \<or> l = str ''Allow: '' @ v"
  using assms by (cases g) (auto simp: group_ok_def group_lines_def list_all_iff)

lemma group_lines_no_newline:
  assumes "group_ok g" "l \<in> set (group_lines g)"
  shows "10 \<notin> set l \<and> 13 \<notin> set l"
  using assms by (rule group_line_cases) (auto simp: clean_value_def str_simps)

lemma group_lines_no_sitemap:
  assumes "group_ok g" "l \<in> set (group_lines g)"
  shows "sitemap_of_line l = None"
  using assms
proof (rule group_line_cases)
  fix v assume "clean_value v"
    "l = str ''User-agent: '' @ v \<or> l = str ''Disallow: '' @ v \<or> l = str ''Allow: '' @ v"
  then show ?thesis
    using robots_field_names [of v] field_names_distinct by (auto simp: sitemap_of_line_def)
qed

text \<open>C25: reading back a robots.txt written from groups of rules yields the rules of the group
  the agents select, and permissive rules when no group is selected: the parser puts every rule
  into the group of the agents above it.\<close>

theorem robots_parse_text:
  assumes "\<forall>g \<in> set gs. group_ok g"
  shows "robots_parse (robots_text gs) ua =
    (case select_group gs ua of None \<Rightarrow> allow_all | Some r \<Rightarrow> r) \<lparr> sitemaps := [] \<rparr>"
proof -
  let ?ls = "concat (map group_lines gs)"
  have ls: "lines (robots_text gs) = ?ls"
    unfolding robots_text_def using assms group_lines_no_newline by (intro lines_concat) auto
  have start: "robots_settled robots_start" "robots_groups robots_start = []"
    by (simp_all add: robots_settled_def robots_groups_def robots_start_def)
  have "robots_groups (foldl robots_line robots_start ?ls) = gs"
    using robots_all_lines [OF start(1) assms] start(2) by simp
  moreover have "sitemap_of_line l = None" if "l \<in> set ?ls" for l
    using that assms group_lines_no_sitemap by auto
  then have "rp_sitemaps (foldl robots_line robots_start ?ls) = []"
    by (simp add: robots_lines_sitemaps robots_start_def List.map_filter_def)
  ultimately show ?thesis by (simp add: robots_parse_def ls)
qed

theorem robots_parse_text_witness:
  "robots_parse (robots_text
     [([str ''*''], disallow_all), ([str ''mjl'', str ''b''], allow_all \<lparr> disallow := [str ''/x''], allow := [str ''/x/y''] \<rparr>)])
     (str ''MJL/1.0'') = allow_all \<lparr> disallow := [str ''/x''], allow := [str ''/x/y''] \<rparr>"
proof -
  let ?g2 = "([str ''mjl'', str ''b''], allow_all \<lparr> disallow := [str ''/x''], allow := [str ''/x/y''] \<rparr>)"
  let ?gs = "[([str ''*''], disallow_all), ?g2]"
  have "\<forall>g \<in> set ?gs. group_ok g"
    by (simp add: group_ok_def clean_value_def is_whitespace_def to_ascii_lowercase_def
        to_ascii_lower_def disallow_all_def allow_all_def str_simps)
  moreover have "select_group ?gs (str ''MJL/1.0'') = Some (snd ?g2)" by code_simp
  ultimately show ?thesis by (simp add: robots_parse_text allow_all_def)
qed
end
