(* ===== verification/Documents.thy ===== *)
theory Documents
  imports Rstring
begin

text \<open>
  The \<open>common\<close> crate: the document record with its content hash (\<open>document.rs\<close>) and the
  spool format the crawler hands documents over in (\<open>spool.rs\<close>): frontier keys, segment
  names, length-prefixed frames.

  xxh3 and postcard are third-party code: the hash is the parameter \<open>H\<close> (a function of the
  bytes), the codec the parameter \<open>C\<close>, and \<open>codec_ok C\<close> is its documented round trip. A
  \<open>Write\<close> sink and a \<open>Read\<close> source are records of the bytes and of the answers the
  operating system will give: short reads, interrupts, failures.
\<close>

section \<open>Documents\<close>

record document =
  doc_url :: rstr
  doc_title :: rstr
  doc_body :: rstr
  doc_fetched_at :: int
  doc_content_hash :: nat
  doc_outlinks :: "rstr list"

definition content_hash :: "(nat list \<Rightarrow> nat) \<Rightarrow> rstr \<Rightarrow> nat" where
  "content_hash H body = H (utf8 body)"

definition document_new ::
    "(nat list \<Rightarrow> nat) \<Rightarrow> rstr \<Rightarrow> rstr \<Rightarrow> rstr \<Rightarrow> int \<Rightarrow> rstr list \<Rightarrow> document" where
  "document_new H url title body fetched_at outlinks =
     \<lparr>doc_url = url, doc_title = title, doc_body = body, doc_fetched_at = fetched_at,
      doc_content_hash = content_hash H body, doc_outlinks = outlinks\<rparr>"

definition refresh_content_hash :: "(nat list \<Rightarrow> nat) \<Rightarrow> document \<Rightarrow> document" where
  "refresh_content_hash H d = d\<lparr>doc_content_hash := content_hash H (doc_body d)\<rparr>"

definition hash_consistent :: "(nat list \<Rightarrow> nat) \<Rightarrow> document \<Rightarrow> bool" where
  "hash_consistent H d \<longleftrightarrow> doc_content_hash d = content_hash H (doc_body d)"

lemma document_new_sel [simp]:
  "doc_url (document_new H u t b f ls) = u" "doc_title (document_new H u t b f ls) = t"
  "doc_body (document_new H u t b f ls) = b" "doc_fetched_at (document_new H u t b f ls) = f"
  "doc_outlinks (document_new H u t b f ls) = ls"
  "doc_content_hash (document_new H u t b f ls) = content_hash H b"
  by (simp_all add: document_new_def)

lemma document_new_consistent: "hash_consistent H (document_new H u t b f ls)"
  by (simp add: hash_consistent_def)

lemma refresh_consistent: "hash_consistent H (refresh_content_hash H d)"
  by (simp add: hash_consistent_def refresh_content_hash_def)

section \<open>The frontier's keys\<close>

record crawl_job =
  job_url :: rstr
  job_depth :: nat

definition frontier_key :: "rstr \<Rightarrow> nat \<Rightarrow> nat list" where
  "frontier_key host sequence = utf8 host @ [0] @ be_bytes 8 sequence"

definition frontier_key_host :: "nat list \<Rightarrow> nat list option" where
  "frontier_key_host key = map_option fst (split_once 0 key)"

lemma frontier_key_host_key:
  "0 \<notin> set host \<Longrightarrow> frontier_key_host (frontier_key host s) = Some (utf8 host)"
proof -
  assume "0 \<notin> set host"
  then have "split_once 0 (frontier_key host s) = Some (utf8 host, be_bytes 8 s)"
    by (simp add: split_once_Some_iff frontier_key_def zero_notin_utf8)
  then show ?thesis by (simp add: frontier_key_host_def)
qed

lemma frontier_key_host_prefix:
  "frontier_key_host key = Some h \<Longrightarrow> \<exists>rest. key = h @ 0 # rest \<and> 0 \<notin> set h"
  by (auto simp: frontier_key_host_def split_once_Some_iff)

lemma frontier_key_same_host:
  "s < t \<Longrightarrow> t < 2 ^ 64 \<Longrightarrow> frontier_key host s < frontier_key host t"
  using be_bytes_less [of s t 8] by (simp add: frontier_key_def list_less_append_same)

lemma frontier_key_inj:
  assumes "frontier_key h s = frontier_key h' t" and "0 \<notin> set h" "0 \<notin> set h'"
    and "s < 2 ^ 64" "t < 2 ^ 64"
  shows "utf8 h = utf8 h' \<and> s = t"
proof -
  have "Some (utf8 h) = Some (utf8 h')"
    using assms frontier_key_host_key by metis
  then have u: "utf8 h = utf8 h'" by simp
  with assms(1) have "be_bytes 8 s = be_bytes 8 t" by (simp add: frontier_key_def)
  then have "of_be_bytes (be_bytes 8 s) = of_be_bytes (be_bytes 8 t)" by simp
  with u show ?thesis using assms(4,5) by (simp add: of_be_bytes_be_bytes)
qed

text \<open>Two keys whose hosts differ sort as the hosts do, when the lesser one ends or differs
  first: the NUL byte sorts below every byte of a host.\<close>

lemma less_append_zero:
  "0 \<notin> set a \<Longrightarrow> 0 \<notin> set b \<Longrightarrow> a < (b :: nat list) \<Longrightarrow> a @ 0 # x < b @ 0 # y"
proof (induction a arbitrary: b)
  case Nil
  then show ?case by (cases b) auto
next
  case (Cons c a)
  then show ?case by (cases b) auto
qed

lemma frontier_key_host_order:
  "0 \<notin> set h \<Longrightarrow> 0 \<notin> set h' \<Longrightarrow> utf8 h < utf8 h' \<Longrightarrow> frontier_key h s < frontier_key h' t"
  by (simp add: frontier_key_def less_append_zero zero_notin_utf8)

section \<open>Segment names\<close>

definition frame_header_bytes :: nat where
  "frame_header_bytes = 4"

definition default_segment_bytes :: nat where
  "default_segment_bytes = 8 * 1024 * 1024"

definition open_suffix :: rstr where
  "open_suffix = str ''.open''"

definition sealed_suffix :: rstr where
  "sealed_suffix = str ''.pdoc''"

definition open_segment_name :: "nat \<Rightarrow> rstr" where
  "open_segment_name sequence =
     str ''segment-'' @ pad_left 12 48 (show_nat sequence) @ open_suffix"

definition sealed_segment_name :: "nat \<Rightarrow> rstr" where
  "sealed_segment_name sequence =
     str ''segment-'' @ pad_left 12 48 (show_nat sequence) @ sealed_suffix"

definition is_sealed :: "rstr \<Rightarrow> bool" where
  "is_sealed name = ends_with sealed_suffix name"

definition parse_segment_sequence :: "rstr \<Rightarrow> nat option" where
  "parse_segment_sequence name =
     Option.bind (case strip_suffix sealed_suffix name of
                    Some stem \<Rightarrow> Some stem
                  | None \<Rightarrow> strip_suffix open_suffix name)
       (\<lambda>stem. Option.bind (strip_prefix (str ''segment-'') stem) parse_u64)"

lemma suffixes_differ: "strip_suffix sealed_suffix (xs @ open_suffix) = None"
proof -
  have "xs @ open_suffix \<noteq> r @ sealed_suffix" for r
    by (auto simp: open_suffix_def sealed_suffix_def append_eq_append_conv2 append_eq_Cons_conv)
  then show ?thesis by (metis not_None_eq strip_suffix_Some_iff)
qed

lemma parse_sealed_segment_name:
  assumes "n \<le> u64_max"
  shows "parse_segment_sequence (sealed_segment_name n) = Some n"
proof -
  have "strip_suffix sealed_suffix (sealed_segment_name n) =
      Some (str ''segment-'' @ pad_left 12 48 (show_nat n))"
    by (simp add: strip_suffix_Some_iff sealed_segment_name_def)
  then show ?thesis
    using assms by (simp add: parse_segment_sequence_def parse_uint_padded del: str_simps)
qed

lemma parse_open_segment_name:
  assumes "n \<le> u64_max"
  shows "parse_segment_sequence (open_segment_name n) = Some n"
proof -
  have "strip_suffix open_suffix (open_segment_name n) =
      Some (str ''segment-'' @ pad_left 12 48 (show_nat n))"
    by (simp add: strip_suffix_Some_iff open_segment_name_def)
  moreover have "strip_suffix sealed_suffix (open_segment_name n) = None"
    using suffixes_differ by (metis append.assoc open_segment_name_def)
  ultimately show ?thesis
    using assms by (simp add: parse_segment_sequence_def parse_uint_padded del: str_simps)
qed

lemma is_sealed_sealed [simp]: "is_sealed (sealed_segment_name n)"
  by (metis append.assoc ends_with_append is_sealed_def sealed_segment_name_def)

lemma not_is_sealed_open [simp]: "\<not> is_sealed (open_segment_name n)"
  using suffixes_differ by (metis append.assoc ends_with_def is_sealed_def open_segment_name_def)

lemma sealed_segment_name_inj:
  "sealed_segment_name m = sealed_segment_name n \<Longrightarrow> m \<le> u64_max \<Longrightarrow> n \<le> u64_max \<Longrightarrow> m = n"
  by (metis option.inject parse_sealed_segment_name)

lemma open_segment_name_inj:
  "open_segment_name m = open_segment_name n \<Longrightarrow> m \<le> u64_max \<Longrightarrow> n \<le> u64_max \<Longrightarrow> m = n"
  by (metis option.inject parse_open_segment_name)

lemma open_ne_sealed [simp]: "open_segment_name m \<noteq> sealed_segment_name n"
  by (metis is_sealed_sealed not_is_sealed_open)

text \<open>Zero-padded decimal names of one width sort as the numbers do.\<close>

fun dec_digits :: "nat \<Rightarrow> nat \<Rightarrow> rstr" where
  "dec_digits 0 n = []"
| "dec_digits (Suc w) n = dec_digits w (n div 10) @ [48 + n mod 10]"

lemma length_dec_digits [simp]: "length (dec_digits w n) = w"
  by (induction w arbitrary: n) auto

lemma dec_digits_zero: "dec_digits w 0 = replicate w 48"
  by (induction w) (auto simp: replicate_append_same)

lemma dec_digits_show:
  "n < 10 ^ w \<Longrightarrow> 0 < w \<Longrightarrow> length (show_nat n) \<le> w \<and> pad_left w 48 (show_nat n) = dec_digits w n"
proof (induction w arbitrary: n)
  case 0
  then show ?case by simp
next
  case (Suc w)
  show ?case
  proof (cases "n < 10")
    case True
    then show ?thesis by (simp add: show_nat_small pad_left_def dec_digits_zero)
  next
    case False
    with Suc.prems have "n div 10 < 10 ^ w" "0 < w"
      by (auto simp: less_mult_imp_div_less mult.commute intro: gr0I)
    with Suc.IH have "length (show_nat (n div 10)) \<le> w"
      "pad_left w 48 (show_nat (n div 10)) = dec_digits w (n div 10)" by auto
    with False show ?thesis by (simp add: show_nat_step pad_left_def)
  qed
qed

lemma dec_digits_less: "m < n \<Longrightarrow> n < 10 ^ w \<Longrightarrow> dec_digits w m < dec_digits w n"
proof (induction w arbitrary: m n)
  case 0
  then show ?case by simp
next
  case (Suc w)
  have n: "n div 10 < 10 ^ w"
    using Suc.prems(2) by (simp add: less_mult_imp_div_less mult.commute)
  show ?case
  proof (cases "m div 10 < n div 10")
    case True
    then show ?thesis using Suc.IH n by (simp add: list_less_prefix_decided)
  next
    case False
    then have eq: "m div 10 = n div 10"
      using div_le_mono [of m n 10] Suc.prems(1) by simp
    have "m = 10 * (m div 10) + m mod 10" "n = 10 * (n div 10) + n mod 10" by simp_all
    then have "m mod 10 < n mod 10" using eq Suc.prems(1) by linarith
    then show ?thesis by (simp add: eq list_less_append_same)
  qed
qed

lemma sealed_segment_name_less:
  assumes "m < n" and "n < 10 ^ 12"
  shows "sealed_segment_name m < sealed_segment_name n"
proof -
  have "pad_left 12 48 (show_nat m) = dec_digits 12 m" "pad_left 12 48 (show_nat n) = dec_digits 12 n"
    using assms dec_digits_show [of m 12] dec_digits_show [of n 12] by simp_all
  then show ?thesis
    using dec_digits_less [OF assms]
    by (simp add: sealed_segment_name_def list_less_append_same list_less_prefix_decided del: str_simps)
qed

end
