(* ===== verification/Frames.thy ===== *)
theory Frames
  imports Documents
begin

text \<open>
  The spool's frame format (\<open>common/src/spool.rs\<close>): a little-endian \<open>u32\<close> length and that
  many bytes of postcard. Writing goes to a sink that may fail part way through a
  \<open>write_all\<close>; reading comes from a source that may return fewer bytes than asked for, be
  interrupted, or fail. The lemmas show that the frames of a segment read back in order
  whatever the short reads are, and that a torn frame is an error, never a clean end.
\<close>

section \<open>Errors, sinks and sources\<close>

datatype io_error = IoError string

datatype spool_error =
  SpoolIo io_error
| SpoolEncode string
| SpoolDecode string
| Truncated nat nat

record 'a codec =
  encode :: "'a \<Rightarrow> string + nat list"
  decode :: "nat list \<Rightarrow> string + 'a"

definition codec_ok :: "'a codec \<Rightarrow> bool" where
  "codec_ok C \<longleftrightarrow> (\<forall>x bs. encode C x = Inr bs \<longrightarrow> decode C bs = Inr x)"

text \<open>A sink: the bytes it holds, and for each coming \<open>write_all\<close> whether it fails, after
  how many bytes. An empty list of faults is a sink that works.\<close>

record sink =
  written :: "nat list"
  faults :: "nat option list"

fun write_all :: "nat list \<Rightarrow> sink \<Rightarrow> (io_error + unit) \<times> sink" where
  "write_all bs w =
     (case faults w of
        [] \<Rightarrow> (Inr (), w\<lparr>written := written w @ bs\<rparr>)
      | None # fs \<Rightarrow> (Inr (), w\<lparr>written := written w @ bs, faults := fs\<rparr>)
      | Some k # fs \<Rightarrow> (Inl (IoError ''write''), w\<lparr>written := written w @ take k bs, faults := fs\<rparr>))"

text \<open>A source: the bytes still to come, and for each coming \<open>read\<close> what the operating
  system does. \<open>Gives k\<close> delivers at most \<open>k + 1\<close> bytes; with no more answers a read
  delivers all that was asked for. At the end of the bytes a read delivers none.\<close>

datatype read_answer = Gives nat | Interrupts | Fails io_error

record source =
  unread :: "nat list"
  answers :: "read_answer list"

datatype read_result = Got "nat list" | GotInterrupted | GotError io_error

fun read_some :: "nat \<Rightarrow> source \<Rightarrow> read_result \<times> source" where
  "read_some want r =
     (case answers r of
        [] \<Rightarrow> (Got (take want (unread r)), r\<lparr>unread := drop want (unread r)\<rparr>)
      | Gives k # as \<Rightarrow>
          (let n = min want (Suc k)
           in (Got (take n (unread r)), r\<lparr>unread := drop n (unread r), answers := as\<rparr>))
      | Interrupts # as \<Rightarrow> (GotInterrupted, r\<lparr>answers := as\<rparr>)
      | Fails e # as \<Rightarrow> (GotError e, r\<lparr>answers := as\<rparr>))"

section \<open>Writing and reading one frame\<close>

definition write_frame ::
    "'a codec \<Rightarrow> 'a \<Rightarrow> sink \<Rightarrow> (spool_error + nat) \<times> sink" where
  "write_frame C d w =
     (case encode C d of
        Inl e \<Rightarrow> (Inl (SpoolEncode e), w)
      | Inr payload \<Rightarrow>
          if length payload > u32_max then (Inl (Truncated u32_max (length payload)), w)
          else (case write_all (le_bytes 4 (length payload)) w of
                  (Inl e, w') \<Rightarrow> (Inl (SpoolIo e), w')
                | (Inr _, w') \<Rightarrow>
                    (case write_all payload w' of
                       (Inl e, w'') \<Rightarrow> (Inl (SpoolIo e), w'')
                     | (Inr _, w'') \<Rightarrow> (Inr (frame_header_bytes + length payload), w''))))"

text \<open>\<open>read_exact_or_eof\<close>: the filled buffer, or \<open>None\<close> where the code returns
  \<open>false\<close>. Every turn of the loop uses up an answer or fills the buffer further.\<close>

function read_exact_or_eof ::
    "nat \<Rightarrow> nat list \<Rightarrow> source \<Rightarrow> (spool_error + nat list option) \<times> source" where
  "read_exact_or_eof need filled r =
     (if length filled < need then
        (case read_some (need - length filled) r of
           (Got bs, r') \<Rightarrow>
             if bs = [] then
               (if filled = [] then (Inr None, r')
                else (Inl (Truncated need (length filled)), r'))
             else read_exact_or_eof need (filled @ bs) r'
         | (GotInterrupted, r') \<Rightarrow> read_exact_or_eof need filled r'
         | (GotError e, r') \<Rightarrow> (Inl (SpoolIo e), r'))
      else (Inr (Some filled), r))"
  by pat_completeness auto
termination
  by (relation "measure (\<lambda>(need, filled, r). length (answers r) + (need - length filled))")
    (auto simp: Let_def min_def simp flip: length_greater_0_conv split: list.splits read_answer.splits)

declare read_exact_or_eof.simps [simp del]

definition read_frame :: "'a codec \<Rightarrow> source \<Rightarrow> (spool_error + 'a option) \<times> source" where
  "read_frame C r =
     (case read_exact_or_eof frame_header_bytes [] r of
        (Inl e, r') \<Rightarrow> (Inl e, r')
      | (Inr None, r') \<Rightarrow> (Inr None, r')
      | (Inr (Some header), r') \<Rightarrow>
          (let len = of_le_bytes header
           in case read_exact_or_eof len [] r' of
                (Inl e, r'') \<Rightarrow> (Inl e, r'')
              | (Inr None, r'') \<Rightarrow> (Inl (Truncated len 0), r'')
              | (Inr (Some payload), r'') \<Rightarrow>
                  (case decode C payload of
                     Inl e \<Rightarrow> (Inl (SpoolDecode e), r'')
                   | Inr d \<Rightarrow> (Inr (Some d), r''))))"

section \<open>What a read delivers\<close>

definition no_fail :: "source \<Rightarrow> bool" where
  "no_fail r \<longleftrightarrow> (\<forall>e. Fails e \<notin> set (answers r))"

lemma read_some_no_fail:
  assumes "no_fail r" "0 < want"
  shows "(\<exists>r'. read_some want r = (GotInterrupted, r') \<and> no_fail r' \<and> unread r' = unread r) \<or>
    (\<exists>n r'. read_some want r = (Got (take n (unread r)), r') \<and> no_fail r' \<and> 0 < n \<and> n \<le> want \<and>
       unread r' = drop n (unread r))"
proof (cases "answers r")
  case Nil
  with assms show ?thesis by (force simp: no_fail_def)
next
  case (Cons a as)
  show ?thesis
  proof (cases a)
    case (Gives k)
    have "0 < min want (Suc k)" "min want (Suc k) \<le> want" using assms(2) by auto
    moreover have "read_some want r = (Got (take (min want (Suc k)) (unread r)),
        r\<lparr>unread := drop (min want (Suc k)) (unread r), answers := as\<rparr>)"
      using Cons Gives by (simp add: Let_def)
    ultimately show ?thesis using assms(1) Cons by (fastforce simp: no_fail_def)
  next
    case Interrupts
    with Cons assms(1) show ?thesis by (auto simp: no_fail_def)
  next
    case (Fails e)
    with Cons assms(1) show ?thesis by (auto simp: no_fail_def)
  qed
qed

definition read_outcome :: "nat \<Rightarrow> nat list \<Rightarrow> nat list \<Rightarrow> spool_error + nat list option" where
  "read_outcome need filled rest =
     (if need \<le> length filled + length rest then Inr (Some (take need (filled @ rest)))
      else if filled @ rest = [] then Inr None
      else Inl (Truncated need (length filled + length rest)))"

text \<open>Whatever the short reads and interrupts are, the loop delivers the same bytes.\<close>

lemma read_exact_or_eof_no_fail:
  "no_fail r \<Longrightarrow> length filled \<le> need \<Longrightarrow>
   \<exists>r'. read_exact_or_eof need filled r = (read_outcome need filled (unread r), r') \<and> no_fail r' \<and>
        unread r' = drop (need - length filled) (unread r)"
proof (induction need filled r rule: read_exact_or_eof.induct)
  case (1 need filled r)
  show ?case
  proof (cases "length filled < need")
    case False
    with "1.prems" show ?thesis
      by (auto simp: read_exact_or_eof.simps [of need] read_outcome_def)
  next
    case True
    note unfold = read_exact_or_eof.simps [of need filled r]
    from read_some_no_fail [OF "1.prems"(1), of "need - length filled"] True
    consider (intr) r' where "read_some (need - length filled) r = (GotInterrupted, r')"
        "no_fail r'" "unread r' = unread r"
      | (got) n r' where "read_some (need - length filled) r = (Got (take n (unread r)), r')"
        "no_fail r'" "0 < n" "n \<le> need - length filled" "unread r' = drop n (unread r)"
      by (auto simp del: read_some.simps)
    then show ?thesis
    proof cases
      case intr
      with "1.IH"(2) [OF True intr(1) [symmetric] refl] "1.prems" True
      show ?thesis by (auto simp: unfold simp del: read_some.simps)
    next
      case got
      show ?thesis
      proof (cases "unread r = []")
        case True
        with got \<open>length filled < need\<close> show ?thesis
          by (auto simp: unfold read_outcome_def simp del: read_some.simps)
      next
        case False
        let ?bs = "take n (unread r)"
        from False got have ne: "?bs \<noteq> []" by simp
        have le: "length (filled @ ?bs) \<le> need" using got(4) "1.prems"(2) by auto
        from "1.IH"(1) [OF True got(1) [symmetric] refl ne got(2) le]
        obtain r'' where r'': "read_exact_or_eof need (filled @ ?bs) r' =
            (read_outcome need (filled @ ?bs) (unread r'), r'')" "no_fail r''"
            "unread r'' = drop (need - length (filled @ ?bs)) (unread r')" by blast
        have "read_outcome need (filled @ ?bs) (unread r') = read_outcome need filled (unread r)"
          using got by (auto simp: read_outcome_def)
        moreover have "unread r'' = drop (need - length filled) (unread r)"
        proof (cases "n \<le> length (unread r)")
          case True
          have "need - (length filled + n) + n = need - length filled" using got(4) by simp
          then show ?thesis using r''(3) got(5) True by (simp add: min_absorb2)
        next
          case False
          then show ?thesis using r''(3) got(4,5) by simp
        qed
        ultimately show ?thesis
          using True got(1) ne r'' by (simp add: unfold del: read_some.simps)
      qed
    qed
  qed
qed

text \<open>The bytes of one frame and of a sequence of frames, where every payload encodes and
  fits a \<open>u32\<close> length.\<close>

definition frame_of :: "'a codec \<Rightarrow> 'a \<Rightarrow> nat list option" where
  "frame_of C d =
     (case encode C d of
        Inl e \<Rightarrow> None
      | Inr p \<Rightarrow> if length p \<le> u32_max then Some (le_bytes 4 (length p) @ p) else None)"

fun frames_of :: "'a codec \<Rightarrow> 'a list \<Rightarrow> nat list option" where
  "frames_of C [] = Some []"
| "frames_of C (d # ds) =
     (case frame_of C d of
        None \<Rightarrow> None
      | Some f \<Rightarrow> map_option (\<lambda>fs. f @ fs) (frames_of C ds))"

lemma frame_of_Some_iff:
  "frame_of C d = Some f \<longleftrightarrow>
     (\<exists>p. encode C d = Inr p \<and> length p \<le> u32_max \<and> f = le_bytes 4 (length p) @ p)"
  by (auto simp: frame_of_def split: sum.splits if_splits)

lemma frame_of_not_Nil: "frame_of C d = Some f \<Longrightarrow> 4 \<le> length f"
  by (auto simp: frame_of_Some_iff)

lemma frames_of_append:
  "frames_of C xs = Some a \<Longrightarrow> frames_of C ys = Some b \<Longrightarrow> frames_of C (xs @ ys) = Some (a @ b)"
  by (induction xs arbitrary: a) (auto split: option.splits)

lemma frames_of_snoc:
  "frames_of C xs = Some a \<Longrightarrow> frame_of C d = Some f \<Longrightarrow> frames_of C (xs @ [d]) = Some (a @ f)"
  using frames_of_append [of C xs a "[d]" f] by simp

lemma read_frame_empty:
  "no_fail r \<Longrightarrow> unread r = [] \<Longrightarrow> \<exists>r'. read_frame C r = (Inr None, r')"
  using read_exact_or_eof_no_fail [of r "[]" frame_header_bytes]
  by (auto simp: read_frame_def read_outcome_def frame_header_bytes_def)

lemma of_le_bytes_4: "n \<le> u32_max \<Longrightarrow> of_le_bytes (le_bytes 4 n) = n"
  by (rule of_le_bytes_le_bytes) (simp add: u32_max_def)

lemma read_header:
  assumes "no_fail r" "unread r = le_bytes 4 n @ rest"
  shows "\<exists>r'. read_exact_or_eof frame_header_bytes [] r = (Inr (Some (le_bytes 4 n)), r') \<and>
    no_fail r' \<and> unread r' = rest"
  using read_exact_or_eof_no_fail [of r "[]" frame_header_bytes] assms
  by (simp add: read_outcome_def frame_header_bytes_def)

text \<open>One frame in front of anything reads back as its document.\<close>

lemma read_frame_written:
  assumes "codec_ok C" "encode C d = Inr p" "length p \<le> u32_max" "no_fail r"
    and "unread r = le_bytes 4 (length p) @ p @ rest"
  shows "\<exists>r'. read_frame C r = (Inr (Some d), r') \<and> no_fail r' \<and> unread r' = rest"
proof -
  obtain r1 where r1: "read_exact_or_eof frame_header_bytes [] r =
      (Inr (Some (le_bytes 4 (length p))), r1)" "no_fail r1" "unread r1 = p @ rest"
    using read_header [OF assms(4,5)] by blast
  obtain r2 where r2: "read_exact_or_eof (length p) [] r1 = (Inr (Some p), r2)"
      "no_fail r2" "unread r2 = rest"
    using read_exact_or_eof_no_fail [of r1 "[]" "length p"] r1 by (auto simp: read_outcome_def)
  have "decode C p = Inr d" using assms(1,2) by (auto simp: codec_ok_def)
  then show ?thesis
    using r1 r2 assms(3) by (simp add: read_frame_def of_le_bytes_4)
qed

text \<open>A frame cut short is an error whose numbers say what was promised and what arrived.\<close>

lemma read_frame_torn:
  assumes "encode C d = Inr p" "length p \<le> u32_max" "no_fail r"
    and "unread r = take k (le_bytes 4 (length p) @ p)" "0 < k" "k < 4 + length p"
  shows "fst (read_frame C r) =
    Inl (if k < 4 then Truncated 4 k else Truncated (length p) (k - 4))"
proof (cases "k < 4")
  case True
  have ne: "le_bytes 4 (length p) \<noteq> []" by (metis length_le_bytes list.size(3) numeral_neq_zero)
  from True have "length (unread r) = k" "unread r \<noteq> []" using assms(4,5,6) ne by auto
  then show ?thesis
    using True read_exact_or_eof_no_fail [of r "[]" frame_header_bytes] assms(3)
    by (auto simp: read_frame_def read_outcome_def frame_header_bytes_def)
next
  case False
  then have "unread r = le_bytes 4 (length p) @ take (k - 4) p" using assms(4) by simp
  then obtain r1 where r1: "read_exact_or_eof frame_header_bytes [] r =
      (Inr (Some (le_bytes 4 (length p))), r1)" "no_fail r1" "unread r1 = take (k - 4) p"
    using read_header [OF assms(3)] by blast
  obtain r2 where "read_exact_or_eof (length p) [] r1 = (read_outcome (length p) [] (take (k - 4) p), r2)"
    using read_exact_or_eof_no_fail [of r1 "[]" "length p"] r1 by auto
  moreover have "read_outcome (length p) [] (take (k - 4) p) =
      (if k = 4 then Inr None else Inl (Truncated (length p) (k - 4)))"
    using assms(6) False by (auto simp: read_outcome_def)
  ultimately show ?thesis
    using r1 assms(2) False by (cases "k = 4") (simp_all add: read_frame_def of_le_bytes_4 Let_def)
qed

lemma write_frame_Inr:
  assumes "write_frame C d w = (Inr n, w')"
  shows "\<exists>f. frame_of C d = Some f \<and> n = length f \<and> written w' = written w @ f"
  using assms
  by (auto simp: write_frame_def frame_of_def frame_header_bytes_def
      split: sum.splits if_splits prod.splits list.splits option.splits)

lemma write_frame_works:
  "faults w = [] \<Longrightarrow> frame_of C d = Some f \<Longrightarrow>
   write_frame C d w = (Inr (length f), w\<lparr>written := written w @ f\<rparr>)"
  by (auto simp: write_frame_def frame_of_Some_iff frame_header_bytes_def)

text \<open>Whether it succeeds or fails, a write only appends.\<close>

lemma write_frame_appends: "\<exists>bs. written (snd (write_frame C d w)) = written w @ bs"
  by (auto simp: write_frame_def split: sum.splits prod.splits list.splits option.splits)

section \<open>The segment format as an interface\<close>

text \<open>
  What the crawler's archive and the indexer's reader rely on: a successful \<open>put\<close> appends
  one frame, \<open>get\<close> on a frame returns its document and moves past it, and \<open>get\<close> at the
  end of the bytes says so. The laws that need the codec to round trip carry \<open>valid c\<close>.
\<close>

locale segment_format =
  fixes valid :: "'c \<Rightarrow> bool"
    and frame :: "'c \<Rightarrow> 'a \<Rightarrow> nat list option"
    and put :: "'c \<Rightarrow> 'a \<Rightarrow> sink \<Rightarrow> (spool_error + nat) \<times> sink"
    and get :: "'c \<Rightarrow> source \<Rightarrow> (spool_error + 'a option) \<times> source"
  assumes put_frame: "put c d w = (Inr n, w') \<Longrightarrow>
      \<exists>f. frame c d = Some f \<and> n = length f \<and> written w' = written w @ f"
    and get_frame: "valid c \<Longrightarrow> frame c d = Some f \<Longrightarrow> no_fail r \<Longrightarrow> unread r = f @ rest \<Longrightarrow>
      \<exists>r'. get c r = (Inr (Some d), r') \<and> no_fail r' \<and> unread r' = rest"
    and get_end: "no_fail r \<Longrightarrow> unread r = [] \<Longrightarrow> \<exists>r'. get c r = (Inr None, r')"
begin

text \<open>A segment holds \<open>ds\<close> when its bytes are their frames in order.\<close>

fun holds :: "'c \<Rightarrow> 'a list \<Rightarrow> nat list \<Rightarrow> bool" where
  "holds c [] bs = (bs = [])"
| "holds c (d # ds) bs = (\<exists>f rest. frame c d = Some f \<and> bs = f @ rest \<and> holds c ds rest)"

text \<open>Calling \<open>get\<close> until it says \<open>None\<close> gives \<open>ds\<close>.\<close>

fun yields :: "'c \<Rightarrow> source \<Rightarrow> 'a list \<Rightarrow> bool" where
  "yields c r [] = (\<exists>r'. get c r = (Inr None, r'))"
| "yields c r (d # ds) = (\<exists>r'. get c r = (Inr (Some d), r') \<and> yields c r' ds)"

lemma holds_snoc:
  "holds c ds bs \<Longrightarrow> frame c d = Some f \<Longrightarrow> holds c (ds @ [d]) (bs @ f)"
  by (induction ds arbitrary: bs) fastforce+

lemma put_extends:
  "holds c ds (written w) \<Longrightarrow> put c d w = (Inr n, w') \<Longrightarrow>
   holds c (ds @ [d]) (written w') \<and> length (written w') = length (written w) + n"
  using put_frame [of c d w n w'] holds_snoc by fastforce

lemma holds_yields:
  "valid c \<Longrightarrow> no_fail r \<Longrightarrow> holds c ds (unread r) \<Longrightarrow> yields c r ds"
proof (induction ds arbitrary: r)
  case Nil
  then show ?case using get_end by simp
next
  case (Cons d ds)
  then obtain f rest where f: "frame c d = Some f" "unread r = f @ rest" "holds c ds rest"
    by auto
  then obtain r' where "get c r = (Inr (Some d), r')" "no_fail r'" "unread r' = rest"
    using get_frame [OF Cons.prems(1) f(1) Cons.prems(2) f(2)] by blast
  with Cons f show ?case by auto
qed

lemma yields_unique: "yields c r ds \<Longrightarrow> yields c r ds' \<Longrightarrow> ds = ds'"
proof (induction ds arbitrary: r ds')
  case Nil
  then show ?case by (cases ds') auto
next
  case (Cons d ds)
  then show ?case by (cases ds') auto
qed

text \<open>The bytes determine the documents.\<close>

lemma holds_unique:
  "valid c \<Longrightarrow> no_fail r \<Longrightarrow> holds c ds (unread r) \<Longrightarrow> holds c ds' (unread r) \<Longrightarrow> ds = ds'"
  by (rule yields_unique [OF holds_yields holds_yields])

end

interpretation seg: segment_format codec_ok frame_of write_frame read_frame
proof
  fix C :: "'a codec" and d :: 'a and f rest :: "nat list" and r :: source
  assume "codec_ok C" "frame_of C d = Some f" "no_fail r" "unread r = f @ rest"
  then show "\<exists>r'. read_frame C r = (Inr (Some d), r') \<and> no_fail r' \<and> unread r' = rest"
    using read_frame_written [of C d] by (auto simp: frame_of_Some_iff)
qed (auto intro: write_frame_Inr read_frame_empty)

lemma seg_holds_iff: "seg.holds C ds bs \<longleftrightarrow> frames_of C ds = Some bs"
  by (induction ds arbitrary: bs) (auto split: option.splits)

lemma frames_of_inj: "codec_ok C \<Longrightarrow> frames_of C ds = Some bs \<Longrightarrow> frames_of C ds' = Some bs \<Longrightarrow> ds = ds'"
  using seg.holds_unique [of C "\<lparr> unread = bs, answers = [] \<rparr>" ds ds'] by (simp add: seg_holds_iff no_fail_def)

text \<open>Reading makes progress: a document uses up at least its header.\<close>

lemma read_some_shrinks: "read_some n r = (res, r') \<Longrightarrow> length (unread r') \<le> length (unread r)"
  by (auto simp: Let_def split: list.splits read_answer.splits)

lemma read_exact_or_eof_shrinks:
  "read_exact_or_eof need filled r = (res, r') \<Longrightarrow>
   length (unread r') \<le> length (unread r) \<and>
   (\<forall>bs. res = Inr (Some bs) \<longrightarrow> length filled \<le> need \<longrightarrow>
      length (unread r') + (need - length filled) \<le> length (unread r))"
proof (induction need filled r arbitrary: res r' rule: read_exact_or_eof.induct)
  case (1 need filled r)
  show ?case
  proof (cases "length filled < need")
    case False
    with "1.prems" show ?thesis by (auto simp: read_exact_or_eof.simps [of need])
  next
    case True
    obtain q r1 where q: "read_some (need - length filled) r = (q, r1)" by fastforce
    note shrink = read_some_shrinks [OF q]
    show ?thesis
    proof (cases q)
      case (Got bs)
      show ?thesis
      proof (cases "bs = []")
        case True
        with Got q shrink "1.prems" \<open>length filled < need\<close> show ?thesis
          by (auto simp: read_exact_or_eof.simps [of need filled] simp del: read_some.simps split: if_splits)
      next
        case False
        have l: "length bs + length (unread r1) = length (unread r)" "length bs \<le> need - length filled"
          using q Got by (auto simp: Let_def min_def split: list.splits read_answer.splits)
        have "read_exact_or_eof need (filled @ bs) r1 = (res, r')"
          using "1.prems" True q Got False
          by (simp add: read_exact_or_eof.simps [of need filled] del: read_some.simps)
        from "1.IH"(1) [OF True _ refl False this] q Got l show ?thesis by auto
      qed
    next
      case GotInterrupted
      have "read_exact_or_eof need filled r1 = (res, r')"
        using "1.prems" True q GotInterrupted
        by (simp add: read_exact_or_eof.simps [of need filled] del: read_some.simps)
      from "1.IH"(2) [OF True _ refl this] q GotInterrupted shrink show ?thesis by auto
    next
      case (GotError e)
      with q "1.prems" True shrink show ?thesis
        by (auto simp: read_exact_or_eof.simps [of need filled] simp del: read_some.simps)
    qed
  qed
qed

lemma read_frame_shrinks:
  assumes "read_frame C r = (Inr (Some d), r')"
  shows "length (unread r') < length (unread r)"
proof -
  obtain h r1 where h: "read_exact_or_eof frame_header_bytes [] r = (Inr (Some h), r1)"
    using assms by (auto simp: read_frame_def split: prod.splits sum.splits option.splits)
  then have "length (unread r1) + 4 \<le> length (unread r)"
    using read_exact_or_eof_shrinks [OF h] by (simp add: frame_header_bytes_def)
  moreover obtain res where "read_exact_or_eof (of_le_bytes h) [] r1 = (res, r')"
    using assms h by (auto simp: read_frame_def Let_def split: prod.splits sum.splits option.splits)
  then have "length (unread r') \<le> length (unread r1)"
    using read_exact_or_eof_shrinks by blast
  ultimately show ?thesis by simp
qed

end
