(* ===== verification/Crawl_Error.thy ===== *)
theory Crawl_Error
  imports Frames
begin

text \<open>
  \<open>crates/crawler/src/lib.rs\<close>: the errors of the crawler, one constructor per variant of the
  code, and the conversions the \<open>?\<close> operator applies.
\<close>

datatype column_family = CfFrontierPending | CfFrontierHosts | CfRobots | CfMeta

datatype crawl_error =
  Http rstr
| Backend string
| Io io_error
| Spool spool_error
| InvalidUrl rstr string
| UnsupportedContent rstr
| DisallowedByRobots
| InvalidHeader string rstr
| ParseFailed rstr
| BodyTooLarge nat
| HttpStatus nat
| MissingColumnFamily column_family
| CacheDecode string
| CacheEncode string
| NotImplemented string

text \<open>\<open>CrawlError::http\<close>: the message of a transport error followed by those of its causes.\<close>

definition http_error :: "rstr \<Rightarrow> rstr list \<Rightarrow> crawl_error" where
  "http_error message causes = Http (foldl (\<lambda>m cause. m @ str '': '' @ cause) message causes)"

end
