(* ===== verification/Db.thy ===== *)
theory Db
  imports Crawl_Error
begin

text \<open>
  \<open>crates/crawler/src/db.rs\<close>: the crawler's RocksDB handle and its counters.

  RocksDB is third-party code. It enters as a record of the calls the crawler makes, over an
  abstract database state, and \<open>kv_ok K V\<close> states what the crawler relies on: \<open>V\<close> gives the
  contents of each column family, a read that answers tells the truth, an iterator delivers
  the entries in key order until it ends or reports an error, and a write that succeeds takes
  effect as a whole while one that fails changes nothing.
\<close>

type_synonym bytes = "nat list"

datatype batch_op = PutCf column_family bytes bytes | DeleteCf column_family bytes

record 'd kv_api =
  kv_cf_handle :: "'d \<Rightarrow> column_family \<Rightarrow> bool"
  kv_get :: "'d \<Rightarrow> column_family \<Rightarrow> bytes \<Rightarrow> string + bytes option"
  kv_put :: "'d \<Rightarrow> column_family \<Rightarrow> bytes \<Rightarrow> bytes \<Rightarrow> (string + unit) \<times> 'd"
  kv_write :: "'d \<Rightarrow> batch_op list \<Rightarrow> (string + unit) \<times> 'd"
  kv_iter_start :: "'d \<Rightarrow> column_family \<Rightarrow> (string + bytes \<times> bytes) list"
  kv_iter_from :: "'d \<Rightarrow> column_family \<Rightarrow> bytes \<Rightarrow> (string + bytes \<times> bytes) list"
  kv_estimate :: "'d \<Rightarrow> column_family \<Rightarrow> string + nat option"

section \<open>What the crawler relies on\<close>

type_synonym 'd kv_view = "'d \<Rightarrow> column_family \<Rightarrow> bytes \<Rightarrow> bytes option"

fun apply_op :: "batch_op \<Rightarrow> (column_family \<Rightarrow> bytes \<Rightarrow> bytes option) \<Rightarrow>
    column_family \<Rightarrow> bytes \<Rightarrow> bytes option" where
  "apply_op (PutCf c k v) m = m(c := (m c)(k \<mapsto> v))"
| "apply_op (DeleteCf c k) m = m(c := (m c)(k := None))"

definition apply_ops :: "batch_op list \<Rightarrow> (column_family \<Rightarrow> bytes \<Rightarrow> bytes option) \<Rightarrow>
    column_family \<Rightarrow> bytes \<Rightarrow> bytes option" where
  "apply_ops ops m = foldl (\<lambda>m op. apply_op op m) m ops"

definition sorted_entries :: "(bytes \<Rightarrow> bytes option) \<Rightarrow> (bytes \<times> bytes) list \<Rightarrow> bool" where
  "sorted_entries m es \<longleftrightarrow> sorted_wrt (<) (map fst es) \<and> map_of es = m"

text \<open>A scan delivers the entries, or some first ones and then an error.\<close>

definition scan_of :: "(bytes \<times> bytes) list \<Rightarrow> (string + bytes \<times> bytes) list \<Rightarrow> bool" where
  "scan_of es scan \<longleftrightarrow>
     scan = map Inr es \<or> (\<exists>n e rest. n \<le> length es \<and> scan = map Inr (take n es) @ Inl e # rest)"

definition kv_ok :: "'d kv_api \<Rightarrow> 'd kv_view \<Rightarrow> bool" where
  "kv_ok K V \<longleftrightarrow>
     (\<forall>d c k v. kv_get K d c k = Inr v \<longrightarrow> V d c k = v) \<and>
     (\<forall>d c k v r d'. kv_put K d c k v = (r, d') \<longrightarrow>
        V d' = (case r of Inl _ \<Rightarrow> V d | Inr _ \<Rightarrow> apply_op (PutCf c k v) (V d))) \<and>
     (\<forall>d ops r d'. kv_write K d ops = (r, d') \<longrightarrow>
        V d' = (case r of Inl _ \<Rightarrow> V d | Inr _ \<Rightarrow> apply_ops ops (V d))) \<and>
     (\<forall>d c. \<exists>es. sorted_entries (V d c) es \<and> scan_of es (kv_iter_start K d c) \<and>
        (\<forall>k. scan_of (filter (\<lambda>e. k \<le> fst e) es) (kv_iter_from K d c k)))"

lemma kv_get_view: "kv_ok K V \<Longrightarrow> kv_get K d c k = Inr v \<Longrightarrow> V d c k = v"
  by (simp add: kv_ok_def)

lemma kv_put_view:
  "kv_ok K V \<Longrightarrow> kv_put K d c k v = (Inr u, d') \<Longrightarrow> V d' = (V d)(c := (V d c)(k \<mapsto> v))"
  "kv_ok K V \<Longrightarrow> kv_put K d c k v = (Inl e, d') \<Longrightarrow> V d' = V d"
  unfolding kv_ok_def by fastforce+

lemma kv_write_view:
  "kv_ok K V \<Longrightarrow> kv_write K d ops = (Inr u, d') \<Longrightarrow> V d' = apply_ops ops (V d)"
  "kv_ok K V \<Longrightarrow> kv_write K d ops = (Inl e, d') \<Longrightarrow> V d' = V d"
  unfolding kv_ok_def by fastforce+

lemma kv_entries:
  assumes "kv_ok K V"
  obtains es where "sorted_entries (V d c) es" "scan_of es (kv_iter_start K d c)"
    "\<And>k. scan_of (filter (\<lambda>e. k \<le> fst e) es) (kv_iter_from K d c k)"
  using assms unfolding kv_ok_def by blast

lemma apply_ops_simps [simp]:
  "apply_ops [] m = m" "apply_ops (op # ops) m = apply_ops ops (apply_op op m)"
  by (simp_all add: apply_ops_def)

lemma sorted_entries_distinct: "sorted_entries m es \<Longrightarrow> distinct (map fst es)"
  by (simp add: sorted_entries_def strict_sorted_iff)

lemma sorted_entries_dom: "sorted_entries m es \<Longrightarrow> finite (dom m) \<and> card (dom m) = length es"
  using sorted_entries_distinct [of m es] distinct_card [of "map fst es"]
  by (auto simp: sorted_entries_def dom_map_of_conv_image_fst finite_dom_map_of)

lemma view_finite: "kv_ok K V \<Longrightarrow> finite (dom (V d c))"
  using sorted_entries_dom kv_entries by metis

text \<open>The head of a scan is the least entry not below its start.\<close>

lemma scan_of_Nil_iff: "scan_of es [] \<longleftrightarrow> es = []"
  by (auto simp: scan_of_def)

lemma scan_of_Cons_Inr: "scan_of es (Inr e # rest) \<Longrightarrow> \<exists>es'. es = e # es'"
proof -
  assume "scan_of es (Inr e # rest)"
  then consider "map Inr es = Inr e # rest"
    | n x r where "Inr e # rest = map Inr (take n es) @ Inl x # r"
    unfolding scan_of_def by metis
  then show ?thesis
  proof cases
    case 2
    then have "take n es \<noteq> []" by (cases "take n es") simp_all
    then obtain y ys z zs where "take n es = y # ys" "es = z # zs" by (cases es; cases n) simp_all
    then show ?thesis using 2 by (cases n) auto
  qed auto
qed

lemma scan_head:
  assumes "sorted_entries m es" "scan_of (filter (\<lambda>e. k \<le> fst e) es) (Inr (key, v) # rest)"
  shows "m key = Some v \<and> k \<le> key \<and> (\<forall>k' \<in> dom m. k \<le> k' \<longrightarrow> key \<le> k')"
proof -
  obtain es' where f: "filter (\<lambda>e. k \<le> fst e) es = (key, v) # es'"
    using scan_of_Cons_Inr [OF assms(2)] by auto
  have "sorted_wrt (<) (map fst (filter (\<lambda>e. k \<le> fst e) es))"
    using assms(1) by (simp add: sorted_entries_def sorted_wrt_map sorted_wrt_filter)
  then have least: "\<forall>e \<in> set es'. key < fst e" by (simp add: f)
  have "(key, v) \<in> {e \<in> set es. k \<le> fst e}" by (simp flip: set_filter add: f)
  then have mem: "(key, v) \<in> set es" "k \<le> key" by simp_all
  have "m key = Some v"
    using map_of_is_SomeI [OF sorted_entries_distinct [OF assms(1)] mem(1)] assms(1)
    by (simp add: sorted_entries_def)
  moreover have "key \<le> k'" if k': "k' \<in> dom m" "k \<le> k'" for k'
  proof -
    obtain v' where "(k', v') \<in> set es"
      using k'(1) assms(1) by (auto simp: sorted_entries_def dom_def dest: map_of_SomeD)
    then have "(k', v') \<in> set ((key, v) # es')"
      using k'(2) by (simp flip: f)
    then show ?thesis using least by auto
  qed
  ultimately show ?thesis using mem(2) by blast
qed

lemma scan_start: "scan_of es scan \<Longrightarrow> scan_of (filter (\<lambda>e. [] \<le> fst e) es) scan"
  by simp

section \<open>The handle's operations\<close>

definition meta_frontier_seq :: bytes where
  "meta_frontier_seq = str ''frontier_seq''"

definition meta_pending_count :: bytes where
  "meta_pending_count = str ''pending_count''"

definition meta_host_count :: bytes where
  "meta_host_count = str ''host_count''"

definition db_cf :: "'d kv_api \<Rightarrow> 'd \<Rightarrow> column_family \<Rightarrow> crawl_error + column_family" where
  "db_cf K d c = (if kv_cf_handle K d c then Inr c else Inl (MissingColumnFamily c))"

definition db_get :: "'d kv_api \<Rightarrow> 'd \<Rightarrow> column_family \<Rightarrow> bytes \<Rightarrow> crawl_error + bytes option" where
  "db_get K d c k = and_then (db_cf K d c) (\<lambda>c. map_err Backend (kv_get K d c k))"

definition db_put ::
    "'d kv_api \<Rightarrow> column_family \<Rightarrow> bytes \<Rightarrow> bytes \<Rightarrow> 'd \<Rightarrow> (crawl_error + unit) \<times> 'd" where
  "db_put K c k v d =
     (case db_cf K d c of
        Inl e \<Rightarrow> (Inl e, d)
      | Inr c \<Rightarrow> (case kv_put K d c k v of (r, d') \<Rightarrow> (map_err Backend r, d')))"

definition read_counter :: "'d kv_api \<Rightarrow> 'd \<Rightarrow> bytes \<Rightarrow> crawl_error + nat" where
  "read_counter K d key =
     and_then (db_get K d CfMeta key) (\<lambda>v. Inr
       (case v of None \<Rightarrow> 0 | Some bs \<Rightarrow> if length bs = 8 then of_be_bytes bs else 0))"

definition write_counter ::
    "'d kv_api \<Rightarrow> bytes \<Rightarrow> nat \<Rightarrow> 'd \<Rightarrow> (crawl_error + unit) \<times> 'd" where
  "write_counter K key value d = db_put K CfMeta key (be_bytes 8 value) d"

definition count_estimate :: "'d kv_api \<Rightarrow> 'd \<Rightarrow> column_family \<Rightarrow> crawl_error + nat" where
  "count_estimate K d c =
     and_then (db_cf K d c) (\<lambda>c. and_then (map_err Backend (kv_estimate K d c)) (\<lambda>v. Inr
       (case v of None \<Rightarrow> 0 | Some n \<Rightarrow> n)))"

fun count_scan :: "nat \<Rightarrow> (string + bytes \<times> bytes) list \<Rightarrow> crawl_error + nat" where
  "count_scan n [] = Inr n"
| "count_scan n (Inl e # rest) = Inl (Backend e)"
| "count_scan n (Inr _ # rest) = count_scan (n + 1) rest"

definition count_exact :: "'d kv_api \<Rightarrow> 'd \<Rightarrow> column_family \<Rightarrow> crawl_error + nat" where
  "count_exact K d c = and_then (db_cf K d c) (\<lambda>c. count_scan 0 (kv_iter_start K d c))"

definition write_batch :: "'d kv_api \<Rightarrow> batch_op list \<Rightarrow> 'd \<Rightarrow> (crawl_error + unit) \<times> 'd" where
  "write_batch K batch d = (case kv_write K d batch of (r, d') \<Rightarrow> (map_err Backend r, d'))"

section \<open>Facts\<close>

lemma db_get_Inr: "kv_ok K V \<Longrightarrow> db_get K d c k = Inr v \<Longrightarrow> V d c k = v"
  by (auto simp: db_get_def db_cf_def and_then_Inr_iff intro: kv_get_view split: if_splits)

lemma db_put_Inr:
  "kv_ok K V \<Longrightarrow> db_put K c k v d = (Inr u, d') \<Longrightarrow> V d' = (V d)(c := (V d c)(k \<mapsto> v))"
  by (auto simp: db_put_def db_cf_def intro: kv_put_view split: if_splits prod.splits)

lemma db_put_Inl: "kv_ok K V \<Longrightarrow> db_put K c k v d = (Inl e, d') \<Longrightarrow> V d' = V d"
proof -
  assume ok: "kv_ok K V" and r: "db_put K c k v d = (Inl e, d')"
  show ?thesis
  proof (cases "kv_cf_handle K d c")
    case True
    with r obtain x where "kv_put K d c k v = (Inl x, d')"
      by (auto simp: db_put_def db_cf_def map_err_def split: prod.splits sum.splits)
    with ok show ?thesis by (rule kv_put_view)
  next
    case False
    with r show ?thesis by (simp add: db_put_def db_cf_def)
  qed
qed

lemma write_batch_Inr:
  "kv_ok K V \<Longrightarrow> write_batch K ops d = (Inr u, d') \<Longrightarrow> V d' = apply_ops ops (V d)"
  by (auto simp: write_batch_def intro: kv_write_view split: prod.splits)

lemma write_batch_Inl: "kv_ok K V \<Longrightarrow> write_batch K ops d = (Inl e, d') \<Longrightarrow> V d' = V d"
  by (auto simp: write_batch_def map_err_def intro: kv_write_view split: prod.splits sum.splits)

lemma count_scan_Inr: "count_scan n scan = Inr m \<Longrightarrow> \<exists>es. scan = map Inr es \<and> m = n + length es"
proof (induction n scan rule: count_scan.induct)
  case (3 n x rest)
  then obtain es where "rest = map Inr es" "m = n + 1 + length es" by auto
  then show ?case by (intro exI [of _ "x # es"]) simp
qed auto

lemma count_exact_Inr:
  assumes "kv_ok K V" "count_exact K d c = Inr n"
  shows "n = card (dom (V d c))"
proof -
  obtain es where es: "sorted_entries (V d c) es" "scan_of es (kv_iter_start K d c)"
    using kv_entries [OF assms(1)] by blast
  have "count_scan 0 (kv_iter_start K d c) = Inr n"
    using assms(2) by (auto simp: count_exact_def db_cf_def split: if_splits)
  then obtain xs where xs: "kv_iter_start K d c = map Inr xs" "n = length xs"
    using count_scan_Inr by fastforce
  then have "xs = es"
    using es(2) inj_map_eq_map [of Inr xs es]
    by (auto simp: scan_of_def map_eq_append_conv)
  then show ?thesis using xs(2) sorted_entries_dom [OF es(1)] by simp
qed

lemma read_counter_written:
  assumes "kv_ok K V" "V d CfMeta key = Some (be_bytes 8 n)" "n \<le> u64_max"
    and "read_counter K d key = Inr m"
  shows "m = n"
proof -
  obtain v where "db_get K d CfMeta key = Inr v"
    "m = (case v of None \<Rightarrow> 0 | Some bs \<Rightarrow> if length bs = 8 then of_be_bytes bs else 0)"
    using assms(4) by (auto simp: read_counter_def and_then_Inr_iff)
  then show ?thesis
    using db_get_Inr [OF assms(1), of d CfMeta key v, symmetric] assms(2,3)
    by (simp add: of_be_bytes_be_bytes u64_max_def)
qed

section \<open>A concrete database\<close>

text \<open>Association lists, one per column family, on which every call succeeds; a scan sorts
  them. Theorems with \<open>kv_ok\<close> are applied to it in their witnesses.\<close>

fun kv_insert :: "bytes \<Rightarrow> bytes \<Rightarrow> (bytes \<times> bytes) list \<Rightarrow> (bytes \<times> bytes) list" where
  "kv_insert k v [] = [(k, v)]"
| "kv_insert k v ((k', v') # es) =
     (if k < k' then (k, v) # (k', v') # es
      else if k = k' then (k, v) # es
      else (k', v') # kv_insert k v es)"

fun kv_sort :: "(bytes \<times> bytes) list \<Rightarrow> (bytes \<times> bytes) list" where
  "kv_sort [] = []"
| "kv_sort ((k, v) # es) = kv_insert k v (kv_sort es)"

type_synonym mini_db = "((column_family \<times> bytes) \<times> bytes) list"

fun mini_op :: "batch_op \<Rightarrow> mini_db \<Rightarrow> mini_db" where
  "mini_op (PutCf c k v) d = ((c, k), v) # d"
| "mini_op (DeleteCf c k) d = filter (\<lambda>e. fst e \<noteq> (c, k)) d"

fun mini_cf :: "mini_db \<Rightarrow> column_family \<Rightarrow> (bytes \<times> bytes) list" where
  "mini_cf [] c = []"
| "mini_cf (((c', k), v) # d) c = (if c' = c then (k, v) # mini_cf d c else mini_cf d c)"

definition mini_kv :: "mini_db kv_api" where
  "mini_kv =
     \<lparr> kv_cf_handle = (\<lambda>d c. True),
       kv_get = (\<lambda>d c k. Inr (map_of d (c, k))),
       kv_put = (\<lambda>d c k v. (Inr (), mini_op (PutCf c k v) d)),
       kv_write = (\<lambda>d ops. (Inr (), foldl (\<lambda>d op. mini_op op d) d ops)),
       kv_iter_start = (\<lambda>d c. map Inr (kv_sort (mini_cf d c))),
       kv_iter_from = (\<lambda>d c k. map Inr (filter (\<lambda>e. k \<le> fst e) (kv_sort (mini_cf d c)))),
       kv_estimate = (\<lambda>d c. Inr (Some (length (mini_cf d c)))) \<rparr>"

definition mini_view :: "mini_db kv_view" where
  "mini_view d c k = map_of d (c, k)"

lemma kv_insert_keys: "fst ` set (kv_insert k v es) = insert k (fst ` set es)"
  by (induction k v es rule: kv_insert.induct) auto

lemma kv_insert_sorted: "sorted_wrt (<) (map fst es) \<Longrightarrow> sorted_wrt (<) (map fst (kv_insert k v es))"
proof (induction k v es rule: kv_insert.induct)
  case (2 k v k' v' es)
  then show ?case
    using kv_insert_keys [of k v es] by (auto simp flip: set_map)
qed simp

lemma kv_insert_map_of:
  "sorted_wrt (<) (map fst es) \<Longrightarrow> map_of (kv_insert k v es) = (map_of es)(k \<mapsto> v)"
  by (induction k v es rule: kv_insert.induct) (auto simp: fun_upd_twist)

lemma kv_sort_ok: "sorted_entries (map_of es) (kv_sort es)"
proof (induction es)
  case Nil
  then show ?case by (simp add: sorted_entries_def)
next
  case (Cons e es)
  then show ?case
    by (cases e) (simp add: sorted_entries_def kv_insert_sorted kv_insert_map_of fun_upd_def)
qed

lemma map_of_filter_key: "map_of (filter (\<lambda>e. fst e \<noteq> k) es) = (map_of es)(k := None)"
  by (induction es) auto

lemma map_of_mini_cf: "map_of (mini_cf d c) = mini_view d c"
  by (induction d c rule: mini_cf.induct) (auto simp: mini_view_def fun_eq_iff)

lemma mini_op_view: "mini_view (mini_op op d) = apply_op op (mini_view d)"
  by (cases op) (auto simp: mini_view_def map_of_filter_key fun_eq_iff)

lemma mini_ops_view: "mini_view (foldl (\<lambda>d op. mini_op op d) d ops) = apply_ops ops (mini_view d)"
  by (induction ops arbitrary: d) (simp_all add: mini_op_view)

lemma mini_kv_ok: "kv_ok mini_kv mini_view"
  unfolding kv_ok_def
proof (intro conjI allI impI)
  fix d c
  show "\<exists>es. sorted_entries (mini_view d c) es \<and> scan_of es (kv_iter_start mini_kv d c) \<and>
      (\<forall>k. scan_of (filter (\<lambda>e. k \<le> fst e) es) (kv_iter_from mini_kv d c k))"
    using kv_sort_ok [of "mini_cf d c"]
    by (intro exI [of _ "kv_sort (mini_cf d c)"]) (simp add: mini_kv_def map_of_mini_cf scan_of_def)
qed (auto simp: mini_kv_def mini_ops_view mini_op_view simp del: mini_op.simps apply_op.simps,
    simp add: mini_view_def)

end
