(* ===== verification/Frontier.thy ===== *)
theory Frontier
  imports Db Policy "HOL-Library.Multiset"
begin

text \<open>
  \<open>crates/crawler/src/frontier.rs\<close>: the queue of URLs in the crawler's database.

  The in-memory part is the record \<open>frontier\<close> with its three counters; the rest is the
  database state, which every operation takes and returns. \<open>frontier_inv\<close> ties the two
  together. The lemmas show that a push and a pop keep it, that a pop takes the first job
  in key order whose host is neither skipped nor inside its politeness window, and that a
  pop always returns. The counters that the code adds to wrap at \<open>2 ^ 64\<close>.
\<close>

record host_state =
  next_allowed_at_ms :: int
  last_fetched_at_ms :: int

definition host_state_default :: host_state where
  "host_state_default = \<lparr> next_allowed_at_ms = 0, last_fetched_at_ms = 0 \<rparr>"

definition politeness_delay_ms :: "nat \<Rightarrow> nat option \<Rightarrow> nat" where
  "politeness_delay_ms default_ms robots_crawl_delay_s =
     (case robots_crawl_delay_s of
        Some seconds \<Rightarrow> max (sat_mul_u64 seconds 1000) default_ms
      | None \<Rightarrow> default_ms)"

definition cursor_after :: "bytes \<Rightarrow> bytes" where
  "cursor_after host = host @ [1]"

record frontier =
  fr_sequence :: nat
  fr_pending :: nat
  fr_hosts :: nat

text \<open>What the queue is given: the URL crate, the database calls and the two postcard codecs.\<close>

record ('u, 'd) frontier_env =
  fe_url :: "'u url_api"
  fe_kv :: "'d kv_api"
  fe_job :: "crawl_job codec"
  fe_host :: "host_state codec"

section \<open>Operations\<close>

definition frontier_open ::
    "('u, 'd) frontier_env \<Rightarrow> 'd \<Rightarrow> (crawl_error + frontier) \<times> 'd" where
  "frontier_open E d =
     (case and_then (read_counter (fe_kv E) d meta_frontier_seq) (\<lambda>sequence.
             and_then (count_exact (fe_kv E) d CfFrontierPending) (\<lambda>pending.
             and_then (count_exact (fe_kv E) d CfFrontierHosts) (\<lambda>hosts.
               Inr \<lparr> fr_sequence = sequence, fr_pending = pending, fr_hosts = hosts \<rparr>))) of
        Inl e \<Rightarrow> (Inl e, d)
      | Inr fr \<Rightarrow>
          state_then (write_counter (fe_kv E) meta_pending_count (fr_pending fr) d) (\<lambda>_ d.
          state_then (write_counter (fe_kv E) meta_host_count (fr_hosts fr) d) (\<lambda>_ d.
            (Inr fr, d))))"

definition host_state_of ::
    "('u, 'd) frontier_env \<Rightarrow> 'd \<Rightarrow> rstr \<Rightarrow> crawl_error + host_state option" where
  "host_state_of E d host =
     and_then (db_get (fe_kv E) d CfFrontierHosts (utf8 host)) (\<lambda>v.
       case v of
         Some bs \<Rightarrow> and_then (map_err CacheDecode (decode (fe_host E) bs)) (\<lambda>st. Inr (Some st))
       | None \<Rightarrow> Inr None)"

definition set_host_state ::
    "('u, 'd) frontier_env \<Rightarrow> rstr \<Rightarrow> host_state \<Rightarrow> 'd \<Rightarrow> (crawl_error + unit) \<times> 'd" where
  "set_host_state E host st d =
     (case map_err CacheEncode (encode (fe_host E) st) of
        Inl e \<Rightarrow> (Inl e, d)
      | Inr v \<Rightarrow> db_put (fe_kv E) CfFrontierHosts (utf8 host) v d)"

definition defer_host ::
    "('u, 'd) frontier_env \<Rightarrow> rstr \<Rightarrow> int \<Rightarrow> int \<Rightarrow> 'd \<Rightarrow> (crawl_error + unit) \<times> 'd" where
  "defer_host E host until_ms fetched_at_ms d =
     set_host_state E host \<lparr> next_allowed_at_ms = until_ms, last_fetched_at_ms = fetched_at_ms \<rparr> d"

text \<open>The batch a push writes, once the counters are advanced.\<close>

definition push_batch ::
    "('u, 'd) frontier_env \<Rightarrow> 'd \<Rightarrow> frontier \<Rightarrow> crawl_job \<Rightarrow> rstr \<Rightarrow> bool \<Rightarrow> crawl_error + batch_op list"
  where
  "push_batch E d fr job host is_new_host =
     and_then (map_err CacheEncode (encode (fe_job E) job)) (\<lambda>value.
     and_then (db_cf (fe_kv E) d CfMeta) (\<lambda>meta.
     and_then (db_cf (fe_kv E) d CfFrontierPending) (\<lambda>pending.
       let batch = [PutCf pending (frontier_key host (fr_sequence fr)) value,
                    PutCf meta meta_frontier_seq (be_bytes 8 (fr_sequence fr)),
                    PutCf meta meta_pending_count (be_bytes 8 (fr_pending fr))]
       in if is_new_host then
            and_then (map_err CacheEncode (encode (fe_host E) host_state_default)) (\<lambda>state.
            and_then (db_cf (fe_kv E) d CfFrontierHosts) (\<lambda>hosts.
              Inr (batch @ [PutCf hosts (utf8 host) state,
                            PutCf meta meta_host_count (be_bytes 8 (fr_hosts fr))])))
          else Inr batch)))"

definition frontier_push ::
    "('u, 'd) frontier_env \<Rightarrow> crawl_job \<Rightarrow> 'd \<times> frontier \<Rightarrow> (crawl_error + unit) \<times> 'd \<times> frontier" where
  "frontier_push E job s =
     (case s of (d, fr) \<Rightarrow>
        (case host_of (fe_url E) (job_url job) of
           None \<Rightarrow> (Inl (InvalidUrl (job_url job) ''no host''), s)
         | Some host \<Rightarrow>
             (case host_state_of E d host of
                Inl e \<Rightarrow> (Inl e, s)
              | Inr st \<Rightarrow>
                  (let is_new_host = (st = None);
                       fr' = fr \<lparr> fr_sequence := wrap_add_u64 (fr_sequence fr) 1,
                                  fr_pending := wrap_add_u64 (fr_pending fr) 1,
                                  fr_hosts := (if is_new_host then wrap_add_u64 (fr_hosts fr) 1
                                               else fr_hosts fr) \<rparr>
                   in case push_batch E d fr' job host is_new_host of
                        Inl e \<Rightarrow> (Inl e, d, fr')
                      | Inr batch \<Rightarrow>
                          (case write_batch (fe_kv E) batch d of (r, d') \<Rightarrow> (r, d', fr'))))))"

definition frontier_forget ::
    "('u, 'd) frontier_env \<Rightarrow> bytes \<Rightarrow> 'd \<times> frontier \<Rightarrow> (crawl_error + unit) \<times> 'd \<times> frontier" where
  "frontier_forget E key s =
     (case s of (d, fr) \<Rightarrow>
        (let fr' = fr \<lparr> fr_pending := fr_pending fr - 1 \<rparr>
         in case and_then (db_cf (fe_kv E) d CfFrontierPending) (\<lambda>pending.
                  and_then (db_cf (fe_kv E) d CfMeta) (\<lambda>meta.
                    Inr [DeleteCf pending key,
                         PutCf meta meta_pending_count (be_bytes 8 (fr_pending fr'))])) of
              Inl e \<Rightarrow> (Inl e, d, fr')
            | Inr batch \<Rightarrow> (case write_batch (fe_kv E) batch d of (r, d') \<Rightarrow> (r, d', fr'))))"

text \<open>The loop of \<open>pop_ready\<close>. Its value is \<open>None\<close> only if the loop never ends.\<close>

partial_function (option) pop_loop ::
    "('u, 'd) frontier_env \<Rightarrow> int \<Rightarrow> nat \<Rightarrow> (rstr \<Rightarrow> bool) \<Rightarrow> bytes option \<Rightarrow> nat \<Rightarrow> 'd \<times> frontier \<Rightarrow>
     ((crawl_error + crawl_job option) \<times> 'd \<times> frontier) option" where
  "pop_loop E now_ms max_hosts skip cursor examined s =
     (if max_hosts \<le> examined then Some (Inr None, s)
      else
        case (case cursor of
                Some k \<Rightarrow> kv_iter_from (fe_kv E) (fst s) CfFrontierPending k
              | None \<Rightarrow> kv_iter_start (fe_kv E) (fst s) CfFrontierPending) of
          [] \<Rightarrow> Some (Inr None, s)
        | entry # _ \<Rightarrow>
            (case entry of
               Inl e \<Rightarrow> Some (Inl (Backend e), s)
             | Inr (key, value) \<Rightarrow>
                 (case frontier_key_host key of
                    None \<Rightarrow>
                      (case frontier_forget E key s of
                         (Inl e, s') \<Rightarrow> Some (Inl e, s')
                       | (Inr _, s') \<Rightarrow> pop_loop E now_ms max_hosts skip cursor examined s')
                  | Some host_bytes \<Rightarrow>
                      if skip (utf8_lossy host_bytes)
                      then pop_loop E now_ms max_hosts skip (Some (cursor_after host_bytes)) (examined + 1) s
                      else
                        (case host_state_of E (fst s) (utf8_lossy host_bytes) of
                           Inl e \<Rightarrow> Some (Inl e, s)
                         | Inr st \<Rightarrow>
                             if now_ms < next_allowed_at_ms (case st of None \<Rightarrow> host_state_default | Some st \<Rightarrow> st)
                             then pop_loop E now_ms max_hosts skip (Some (cursor_after host_bytes)) (examined + 1) s
                             else
                               (case decode (fe_job E) value of
                                  Inl e \<Rightarrow> Some (Inl (CacheDecode e), s)
                                | Inr job \<Rightarrow>
                                    (case frontier_forget E key s of
                                       (Inl e, s') \<Rightarrow> Some (Inl e, s')
                                     | (Inr _, s') \<Rightarrow> Some (Inr (Some job), s')))))))"

definition pop_ready ::
    "('u, 'd) frontier_env \<Rightarrow> int \<Rightarrow> nat \<Rightarrow> (rstr \<Rightarrow> bool) \<Rightarrow> 'd \<times> frontier \<Rightarrow>
     ((crawl_error + crawl_job option) \<times> 'd \<times> frontier) option" where
  "pop_ready E now_ms max_hosts_per_call skip s =
     (case db_cf (fe_kv E) (fst s) CfFrontierPending of
        Inl e \<Rightarrow> Some (Inl e, s)
      | Inr _ \<Rightarrow> pop_loop E now_ms max_hosts_per_call skip None 0 s)"

text \<open>\<open>host_snapshot\<close>: the first \<open>limit\<close> hosts with their states; a later entry of the
  same name replaces an earlier one.\<close>

fun snapshot_scan ::
    "('u, 'd) frontier_env \<Rightarrow> (string + bytes \<times> bytes) list \<Rightarrow> (rstr \<Rightarrow> host_state option) \<Rightarrow>
     crawl_error + (rstr \<Rightarrow> host_state option)" where
  "snapshot_scan E [] states = Inr states"
| "snapshot_scan E (Inl e # rest) states = Inl (Backend e)"
| "snapshot_scan E (Inr (key, value) # rest) states =
     (case decode (fe_host E) value of
        Inl e \<Rightarrow> Inl (CacheDecode e)
      | Inr st \<Rightarrow> snapshot_scan E rest (states(utf8_lossy key \<mapsto> st)))"

definition host_snapshot ::
    "('u, 'd) frontier_env \<Rightarrow> nat \<Rightarrow> 'd \<Rightarrow> crawl_error + (rstr \<Rightarrow> host_state option)" where
  "host_snapshot E limit d =
     and_then (db_cf (fe_kv E) d CfFrontierHosts) (\<lambda>hosts.
       snapshot_scan E (take limit (kv_iter_start (fe_kv E) d hosts)) Map.empty)"

section \<open>The invariant\<close>

definition pending_view :: "'d kv_view \<Rightarrow> 'd \<Rightarrow> bytes \<Rightarrow> bytes option" where
  "pending_view V d = V d CfFrontierPending"

definition hosts_view :: "'d kv_view \<Rightarrow> 'd \<Rightarrow> bytes \<Rightarrow> bytes option" where
  "hosts_view V d = V d CfFrontierHosts"

definition entry_ok ::
    "('u, 'd) frontier_env \<Rightarrow> (bytes \<Rightarrow> bytes option) \<Rightarrow> nat \<Rightarrow> bytes \<Rightarrow> bytes \<Rightarrow> bool" where
  "entry_ok E H sequence k v \<longleftrightarrow>
     (\<exists>h s job. k = frontier_key h s \<and> list_all host_char h \<and> s \<le> sequence \<and>
        decode (fe_job E) v = Inr job \<and> host_of (fe_url E) (job_url job) = Some h \<and> h \<in> dom H)"

text \<open>The sequence number the database remembers, as \<open>read_counter\<close> reads it.\<close>

definition stored_sequence :: "'d kv_view \<Rightarrow> 'd \<Rightarrow> nat" where
  "stored_sequence V d =
     (case V d CfMeta meta_frontier_seq of
        None \<Rightarrow> 0
      | Some bs \<Rightarrow> if length bs = 8 then of_be_bytes bs else 0)"

definition frontier_db_ok :: "('u, 'd) frontier_env \<Rightarrow> 'd kv_view \<Rightarrow> 'd \<Rightarrow> bool" where
  "frontier_db_ok E V d \<longleftrightarrow>
     (\<forall>k v. pending_view V d k = Some v \<longrightarrow> entry_ok E (hosts_view V d) (stored_sequence V d) k v) \<and>
     stored_sequence V d \<le> u64_max"

definition frontier_inv :: "('u, 'd) frontier_env \<Rightarrow> 'd kv_view \<Rightarrow> 'd \<times> frontier \<Rightarrow> bool" where
  "frontier_inv E V s \<longleftrightarrow>
     frontier_db_ok E V (fst s) \<and>
     fr_sequence (snd s) = stored_sequence V (fst s) \<and>
     fr_pending (snd s) = card (dom (pending_view V (fst s))) \<and>
     fr_hosts (snd s) = card (dom (hosts_view V (fst s)))"

lemma frontier_invD:
  assumes "frontier_inv E V (d, fr)"
  shows "\<forall>k v. pending_view V d k = Some v \<longrightarrow> entry_ok E (hosts_view V d) (fr_sequence fr) k v"
    and "fr_sequence fr \<le> u64_max" "fr_pending fr = card (dom (pending_view V d))"
    and "fr_hosts fr = card (dom (hosts_view V d))" "stored_sequence V d = fr_sequence fr"
  using assms by (auto simp: frontier_inv_def frontier_db_ok_def)

lemma frontier_invI:
  assumes "\<And>k v. pending_view V d k = Some v \<Longrightarrow> entry_ok E (hosts_view V d) (fr_sequence fr) k v"
    and "fr_sequence fr \<le> u64_max" "fr_pending fr = card (dom (pending_view V d))"
    and "fr_hosts fr = card (dom (hosts_view V d))" "stored_sequence V d = fr_sequence fr"
  shows "frontier_inv E V (d, fr)"
  using assms by (auto simp: frontier_inv_def frontier_db_ok_def)

text \<open>The jobs in the queue, as a multiset: the queue's abstraction.\<close>

definition job_in :: "('u, 'd) frontier_env \<Rightarrow> bytes \<Rightarrow> crawl_job" where
  "job_in E v = projr (decode (fe_job E) v)"

definition frontier_jobs :: "('u, 'd) frontier_env \<Rightarrow> 'd kv_view \<Rightarrow> 'd \<times> frontier \<Rightarrow> crawl_job multiset" where
  "frontier_jobs E V s =
     image_mset (\<lambda>k. job_in E (the (pending_view V (fst s) k))) (mset_set (dom (pending_view V (fst s))))"

text \<open>The requirements on the environment.\<close>

definition frontier_env_ok :: "('u, 'd) frontier_env \<Rightarrow> 'd kv_view \<Rightarrow> bool" where
  "frontier_env_ok E V \<longleftrightarrow>
     kv_ok (fe_kv E) V \<and> codec_ok (fe_job E) \<and> codec_ok (fe_host E) \<and> host_laws (fe_url E)"

lemma frontier_env_okD:
  assumes "frontier_env_ok E V"
  shows "kv_ok (fe_kv E) V" "codec_ok (fe_job E)" "codec_ok (fe_host E)" "host_laws (fe_url E)"
  using assms by (simp_all add: frontier_env_ok_def)

lemma host_char_utf8: "list_all host_char h \<Longrightarrow> utf8 h = h"
  by (simp add: utf8_ascii list_all_iff host_char_def)

lemma host_char_no_zero: "list_all host_char h \<Longrightarrow> 0 \<notin> set h"
  by (auto simp: list_all_iff host_char_def)

lemma host_char_lossy: "list_all host_char h \<Longrightarrow> utf8_lossy h = h"
proof -
  assume h: "list_all host_char h"
  then have "\<forall>c \<in> set h. is_scalar c" by (auto simp: list_all_iff host_char_def is_scalar_def)
  from utf8_lossy_utf8 [OF this] show ?thesis by (simp add: host_char_utf8 [OF h])
qed

lemma host_of_chars: "host_laws U \<Longrightarrow> host_of U url = Some h \<Longrightarrow> list_all host_char h"
  by (auto simp: host_of_def host_laws_def to_ascii_lowercase_def list_all_iff split: option.splits)

lemma meta_keys_distinct:
  "meta_frontier_seq \<noteq> meta_pending_count" "meta_frontier_seq \<noteq> meta_host_count"
  "meta_pending_count \<noteq> meta_host_count"
  by (simp_all add: meta_frontier_seq_def meta_pending_count_def meta_host_count_def)

lemma entry_ok_mono:
  "entry_ok E H sequence k v \<Longrightarrow> dom H \<subseteq> dom H' \<Longrightarrow> sequence \<le> sequence' \<Longrightarrow> entry_ok E H' sequence' k v"
  by (fastforce simp: entry_ok_def)

lemma entry_ok_host:
  assumes "entry_ok E H sequence k v"
  obtains h where "frontier_key_host k = Some h" "h \<in> dom H" "list_all host_char h"
proof -
  obtain h s where h: "k = frontier_key h s" "list_all host_char h" "h \<in> dom H"
    using assms unfolding entry_ok_def by blast
  then have "frontier_key_host k = Some h"
    by (simp add: frontier_key_host_key host_char_no_zero host_char_utf8)
  then show thesis using h(2,3) that by blast
qed

lemma fresh_key:
  assumes "\<forall>k v. P k = Some v \<longrightarrow> entry_ok E H sequence k v" "sequence < u64_max" "list_all host_char h"
  shows "frontier_key h (Suc sequence) \<notin> dom P"
proof
  assume "frontier_key h (Suc sequence) \<in> dom P"
  then obtain v where "entry_ok E H sequence (frontier_key h (Suc sequence)) v" using assms(1) by blast
  then obtain h' s where "frontier_key h (Suc sequence) = frontier_key h' s" "list_all host_char h'"
    "s \<le> sequence" by (auto simp: entry_ok_def)
  then show False
    using frontier_key_inj [of h "Suc sequence" h' s] assms(2,3)
    by (simp add: host_char_no_zero u64_max_def)
qed

lemma host_state_of_Inr:
  assumes "kv_ok (fe_kv E) V" "host_state_of E d host = Inr st"
  shows "hosts_view V d (utf8 host) = None \<longleftrightarrow> st = None"
    and "hosts_view V d (utf8 host) = Some bs \<Longrightarrow> decode (fe_host E) bs = Inr (the st)"
proof -
  obtain v where v: "db_get (fe_kv E) d CfFrontierHosts (utf8 host) = Inr v"
    "(case v of Some bs \<Rightarrow> and_then (map_err CacheDecode (decode (fe_host E) bs)) (\<lambda>st. Inr (Some st))
      | None \<Rightarrow> Inr None) = Inr st"
    using assms(2) by (auto simp: host_state_of_def and_then_Inr_iff)
  have "hosts_view V d (utf8 host) = v" using db_get_Inr [OF assms(1) v(1)] by (simp add: hosts_view_def)
  then show "hosts_view V d (utf8 host) = None \<longleftrightarrow> st = None"
    and "hosts_view V d (utf8 host) = Some bs \<Longrightarrow> decode (fe_host E) bs = Inr (the st)"
    using v(2) by (auto simp: and_then_Inr_iff split: option.splits)
qed

section \<open>Pushing\<close>

lemma frontier_push_steps:
  assumes "frontier_push E job (d, fr) = (Inr u, d', fr')"
  obtains h st batch where "host_of (fe_url E) (job_url job) = Some h" "host_state_of E d h = Inr st"
    "fr' = fr \<lparr> fr_sequence := wrap_add_u64 (fr_sequence fr) 1,
                fr_pending := wrap_add_u64 (fr_pending fr) 1,
                fr_hosts := (if st = None then wrap_add_u64 (fr_hosts fr) 1 else fr_hosts fr) \<rparr>"
    "push_batch E d fr' job h (st = None) = Inr batch" "write_batch (fe_kv E) batch d = (Inr u, d')"
  using assms
  by (auto simp: frontier_push_def Let_def split: option.splits sum.splits prod.splits)

lemma push_batch_Inr:
  assumes "push_batch E d fr job h new = Inr batch"
  obtains v where "encode (fe_job E) job = Inr v"
    "apply_ops batch m CfFrontierPending = (m CfFrontierPending)(frontier_key h (fr_sequence fr) \<mapsto> v)"
    "dom (apply_ops batch m CfFrontierHosts) =
       (if new then insert (utf8 h) (dom (m CfFrontierHosts)) else dom (m CfFrontierHosts))"
    "apply_ops batch m CfMeta meta_frontier_seq = Some (be_bytes 8 (fr_sequence fr))"
proof -
  obtain v where v: "encode (fe_job E) job = Inr v"
    using assms by (auto simp: push_batch_def and_then_Inr_iff)
  show ?thesis
  proof (rule that [OF v], goal_cases)
    case 3
    show ?case
      using assms v meta_keys_distinct
      by (auto simp: push_batch_def and_then_Inr_iff db_cf_def Let_def split: if_splits)
  qed (use assms v in
      \<open>auto simp: push_batch_def and_then_Inr_iff db_cf_def Let_def split: if_splits\<close>)
qed

lemma frontier_push_keeps:
  assumes env: "frontier_env_ok E V" and inv: "frontier_inv E V (d, fr)"
    and run: "frontier_push E job (d, fr) = (Inr u, d', fr')"
    and room: "fr_sequence fr < u64_max" "fr_pending fr < u64_max" "fr_hosts fr < u64_max"
  obtains h v where "host_of (fe_url E) (job_url job) = Some h" "decode (fe_job E) v = Inr job"
    "pending_view V d' = (pending_view V d)(frontier_key h (Suc (fr_sequence fr)) \<mapsto> v)"
    "frontier_key h (Suc (fr_sequence fr)) \<notin> dom (pending_view V d)"
    "fr_sequence fr' = Suc (fr_sequence fr)" "frontier_inv E V (d', fr')"
    "dom (hosts_view V d') = insert h (dom (hosts_view V d))"
proof -
  note ok = frontier_env_okD [OF env]
  obtain h st batch where r: "host_of (fe_url E) (job_url job) = Some h" "host_state_of E d h = Inr st"
    "fr' = fr \<lparr> fr_sequence := wrap_add_u64 (fr_sequence fr) 1,
                fr_pending := wrap_add_u64 (fr_pending fr) 1,
                fr_hosts := (if st = None then wrap_add_u64 (fr_hosts fr) 1 else fr_hosts fr) \<rparr>"
    "push_batch E d fr' job h (st = None) = Inr batch" "write_batch (fe_kv E) batch d = (Inr u, d')"
    using frontier_push_steps [OF run] by metis
  have h: "list_all host_char h" using host_of_chars [OF ok(4) r(1)] .
  have fr': "fr_sequence fr' = Suc (fr_sequence fr)" "fr_pending fr' = Suc (fr_pending fr)"
    "fr_hosts fr' = (if st = None then Suc (fr_hosts fr) else fr_hosts fr)"
    using room by (simp_all add: r(3) wrap_add_u64_def u64_max_def)
  have Vd': "V d' = apply_ops batch (V d)" using write_batch_Inr [OF ok(1) r(5)] .
  obtain v where v: "encode (fe_job E) job = Inr v"
    "pending_view V d' = (pending_view V d)(frontier_key h (Suc (fr_sequence fr)) \<mapsto> v)"
    "dom (hosts_view V d') = (if st = None then insert (utf8 h) (dom (hosts_view V d)) else dom (hosts_view V d))"
    "V d' CfMeta meta_frontier_seq = Some (be_bytes 8 (Suc (fr_sequence fr)))"
    using push_batch_Inr [OF r(4), of "V d"] fr'(1) by (metis Vd' pending_view_def hosts_view_def)
  have stored: "stored_sequence V d' = Suc (fr_sequence fr)"
    using room(1) by (simp add: stored_sequence_def v(4) of_be_bytes_be_bytes u64_max_def)
  have new: "st = None \<longleftrightarrow> h \<notin> dom (hosts_view V d)"
    using host_state_of_Inr(1) [OF ok(1) r(2)] h by (auto simp: host_char_utf8)
  then have H: "dom (hosts_view V d') = insert h (dom (hosts_view V d))"
    using v(3) h by (auto simp: host_char_utf8)
  have P: "\<forall>k v. pending_view V d k = Some v \<longrightarrow> entry_ok E (hosts_view V d) (fr_sequence fr) k v"
    using frontier_invD(1) [OF inv] .
  have fresh: "frontier_key h (Suc (fr_sequence fr)) \<notin> dom (pending_view V d)"
    using fresh_key [OF P room(1) h] .
  have dec: "decode (fe_job E) v = Inr job" using v(1) ok(2) by (simp add: codec_ok_def)
  have new_entry: "entry_ok E (hosts_view V d') (Suc (fr_sequence fr)) (frontier_key h (Suc (fr_sequence fr))) v"
    using dec r(1) h H unfolding entry_ok_def by blast
  have "entry_ok E (hosts_view V d') (fr_sequence fr') k w" if "pending_view V d' k = Some w" for k w
  proof (cases "k = frontier_key h (Suc (fr_sequence fr))")
    case True
    then show ?thesis using that new_entry by (simp add: v(2) fr'(1))
  next
    case False
    then have "entry_ok E (hosts_view V d) (fr_sequence fr) k w" using that P by (simp add: v(2))
    then show ?thesis by (rule entry_ok_mono) (auto simp: H fr'(1))
  qed
  moreover have "finite (dom (hosts_view V d))" "finite (dom (pending_view V d))"
    using view_finite [OF ok(1)] by (simp_all add: hosts_view_def pending_view_def)
  then have "card (dom (hosts_view V d')) = fr_hosts fr'" "card (dom (pending_view V d')) = fr_pending fr'"
    using frontier_invD(3,4) [OF inv] new fresh
    by (auto simp: H v(2) fr' insert_absorb)
  ultimately have "frontier_inv E V (d', fr')"
    using room(1) stored by (intro frontier_invI) (simp_all add: fr'(1))
  then show thesis using that [OF r(1) dec v(2) fresh fr'(1) _ H] by blast
qed

section \<open>Popping\<close>

lemma frontier_forget_Inr:
  assumes "kv_ok (fe_kv E) V" "frontier_forget E key (d, fr) = (Inr u, d', fr')"
  shows "pending_view V d' = (pending_view V d)(key := None)" "hosts_view V d' = hosts_view V d"
    "fr' = fr \<lparr> fr_pending := fr_pending fr - 1 \<rparr>" "stored_sequence V d' = stored_sequence V d"
proof -
  let ?n = "fr_pending fr - 1"
  have w: "write_batch (fe_kv E) [DeleteCf CfFrontierPending key,
      PutCf CfMeta meta_pending_count (be_bytes 8 ?n)] d = (Inr u, d')"
    and fr': "fr' = fr \<lparr> fr_pending := ?n \<rparr>"
    using assms(2) by (auto simp: frontier_forget_def db_cf_def Let_def split: if_splits prod.splits)
  show "pending_view V d' = (pending_view V d)(key := None)" "hosts_view V d' = hosts_view V d"
    "stored_sequence V d' = stored_sequence V d"
    using write_batch_Inr [OF assms(1) w] meta_keys_distinct
    by (auto simp: pending_view_def hosts_view_def stored_sequence_def)
  show "fr' = fr \<lparr> fr_pending := ?n \<rparr>" by (rule fr')
qed

lemma frontier_forget_keeps:
  assumes "kv_ok (fe_kv E) V" "frontier_inv E V (d, fr)" "key \<in> dom (pending_view V d)"
    and "frontier_forget E key (d, fr) = (Inr u, d', fr')"
  shows "frontier_inv E V (d', fr')"
proof -
  note f = frontier_forget_Inr [OF assms(1,4)]
  have "finite (dom (pending_view V d))" using view_finite [OF assms(1)] by (simp add: pending_view_def)
  then have "card (dom (pending_view V d')) = fr_pending fr'"
    using frontier_invD(3) [OF assms(2)] assms(3) by (simp add: f(1,3) card_Diff_singleton)
  moreover have "entry_ok E (hosts_view V d') (fr_sequence fr') k v" if "pending_view V d' k = Some v" for k v
    using that frontier_invD(1) [OF assms(2)] by (auto simp: f split: if_splits)
  ultimately show ?thesis
    using frontier_invD(2,4,5) [OF assms(2)] by (intro frontier_invI) (simp_all add: f(2,3,4))
qed

text \<open>The keys a cursor leaves to be seen.\<close>

definition beyond :: "bytes option \<Rightarrow> bytes \<Rightarrow> bool" where
  "beyond cursor k \<longleftrightarrow> (case cursor of None \<Rightarrow> True | Some c \<Rightarrow> c \<le> k)"

definition pop_scan ::
    "('u, 'd) frontier_env \<Rightarrow> 'd \<Rightarrow> bytes option \<Rightarrow> (string + bytes \<times> bytes) list" where
  "pop_scan E d cursor =
     (case cursor of
        Some k \<Rightarrow> kv_iter_from (fe_kv E) d CfFrontierPending k
      | None \<Rightarrow> kv_iter_start (fe_kv E) d CfFrontierPending)"

lemma pop_scan_cases:
  assumes "kv_ok (fe_kv E) V"
  shows "pop_scan E d cursor = [] \<Longrightarrow> k \<in> dom (pending_view V d) \<Longrightarrow> \<not> beyond cursor k"
    and "pop_scan E d cursor = Inr (key, v) # rest \<Longrightarrow>
      pending_view V d key = Some v \<and> beyond cursor key \<and>
      (\<forall>k' \<in> dom (pending_view V d). beyond cursor k' \<longrightarrow> key \<le> k')"
proof -
  obtain es where es: "sorted_entries (pending_view V d) es"
    "scan_of es (kv_iter_start (fe_kv E) d CfFrontierPending)"
    "\<And>k. scan_of (filter (\<lambda>e. k \<le> fst e) es) (kv_iter_from (fe_kv E) d CfFrontierPending k)"
    using kv_entries [OF assms, of d CfFrontierPending] unfolding pending_view_def by metis
  let ?lo = "case cursor of None \<Rightarrow> [] | Some c \<Rightarrow> c"
  have scan: "scan_of (filter (\<lambda>e. ?lo \<le> fst e) es) (pop_scan E d cursor)"
    using es(2,3) by (auto simp: pop_scan_def split: option.split)
  have b: "beyond cursor k \<longleftrightarrow> ?lo \<le> k" for k by (simp add: beyond_def split: option.split)
  show "\<not> beyond cursor k" if empty: "pop_scan E d cursor = []" and k: "k \<in> dom (pending_view V d)"
  proof -
    have "filter (\<lambda>e. ?lo \<le> fst e) es = []" using scan empty by (simp add: scan_of_Nil_iff)
    moreover obtain v where "(k, v) \<in> set es"
      using k es(1) unfolding sorted_entries_def by (metis domD map_of_SomeD)
    ultimately show ?thesis by (auto simp: b filter_empty_conv)
  qed
  show "pending_view V d key = Some v \<and> beyond cursor key \<and>
      (\<forall>k' \<in> dom (pending_view V d). beyond cursor k' \<longrightarrow> key \<le> k')"
    if "pop_scan E d cursor = Inr (key, v) # rest"
    using scan_head [OF es(1)] scan that unfolding b by metis
qed

lemma key_below_cursor: "frontier_key_host k = Some h \<Longrightarrow> k < cursor_after h"
  using frontier_key_host_prefix [of k h] by (auto simp: cursor_after_def list_less_append_same)

lemma between_zero_and_one: "h @ 0 # r \<le> k \<Longrightarrow> k < h @ [1] \<Longrightarrow> \<exists>r'. k = h @ 0 # (r' :: nat list)"
proof (induction h arbitrary: k)
  case Nil
  then show ?case by (cases k) auto
next
  case (Cons c h)
  then show ?case by (cases k) auto
qed

lemma key_between:
  assumes "frontier_key_host key = Some h" "key \<le> k" "k < cursor_after h"
  shows "frontier_key_host k = Some h"
proof -
  obtain r where r: "key = h @ 0 # r" "0 \<notin> set h" using frontier_key_host_prefix [OF assms(1)] by blast
  then obtain r' where "k = h @ 0 # r'"
    using between_zero_and_one [of h r k] assms(2,3) by (auto simp: cursor_after_def)
  then have "split_once 0 k = Some (h, r')" using r(2) by (simp add: split_once_Some_iff)
  then show ?thesis by (simp add: frontier_key_host_def)
qed

text \<open>Every call returns, whatever the database holds: a turn of the loop examines a host or
  removes an entry.\<close>

lemma pop_loop_step:
  "pop_loop E now mx skip cursor examined s =
     (if mx \<le> examined then Some (Inr None, s)
      else case pop_scan E (fst s) cursor of
          [] \<Rightarrow> Some (Inr None, s)
        | Inl e # _ \<Rightarrow> Some (Inl (Backend e), s)
        | Inr (key, value) # _ \<Rightarrow>
            (case frontier_key_host key of
               None \<Rightarrow>
                 (case frontier_forget E key s of
                    (Inl e, s') \<Rightarrow> Some (Inl e, s')
                  | (Inr _, s') \<Rightarrow> pop_loop E now mx skip cursor examined s')
             | Some h \<Rightarrow>
                 if skip (utf8_lossy h)
                 then pop_loop E now mx skip (Some (cursor_after h)) (examined + 1) s
                 else
                   (case host_state_of E (fst s) (utf8_lossy h) of
                      Inl e \<Rightarrow> Some (Inl e, s)
                    | Inr st \<Rightarrow>
                        if now < next_allowed_at_ms (case st of None \<Rightarrow> host_state_default | Some st \<Rightarrow> st)
                        then pop_loop E now mx skip (Some (cursor_after h)) (examined + 1) s
                        else
                          (case decode (fe_job E) value of
                             Inl e \<Rightarrow> Some (Inl (CacheDecode e), s)
                           | Inr job \<Rightarrow>
                               (case frontier_forget E key s of
                                  (Inl e, s') \<Rightarrow> Some (Inl e, s')
                                | (Inr _, s') \<Rightarrow> Some (Inr (Some job), s'))))))"
  by (subst pop_loop.simps) (simp add: pop_scan_def split: list.split sum.split)

definition fewer :: "('u, 'd) frontier_env \<Rightarrow> 'd kv_view \<Rightarrow> 'd \<times> frontier \<Rightarrow>
    (crawl_error + crawl_job option) \<times> 'd \<times> frontier \<Rightarrow> bool" where
  "fewer E V s a \<longleftrightarrow> (\<forall>job. fst a = Inr (Some job) \<longrightarrow>
     card (dom (pending_view V (fst (snd a)))) < card (dom (pending_view V (fst s))))"

lemma frontier_forget_fewer:
  assumes "kv_ok (fe_kv E) V" "frontier_forget E key s = (Inr u, s')" "key \<in> dom (pending_view V (fst s))"
  shows "card (dom (pending_view V (fst s'))) < card (dom (pending_view V (fst s)))"
proof -
  have "pending_view V (fst s') = (pending_view V (fst s))(key := None)"
    using frontier_forget_Inr(1) [OF assms(1), of key "fst s" "snd s" u "fst s'" "snd s'"] assms(2) by simp
  moreover have "finite (dom (pending_view V (fst s)))"
    using view_finite [OF assms(1)] by (simp add: pending_view_def)
  ultimately show ?thesis using assms(3) card_gt_0_iff [of "dom (pending_view V (fst s))"] by auto
qed

lemma pop_loop_total:
  assumes ok: "kv_ok (fe_kv E) V"
  shows "\<exists>a. pop_loop E now mx skip cursor examined s = Some a \<and> fewer E V s a"
proof (induction "(mx - examined) + card (dom (pending_view V (fst s)))"
    arbitrary: cursor examined s rule: less_induct)
  case less
  show ?case
  proof (cases "mx \<le> examined")
    case True
    then show ?thesis by (simp add: pop_loop_step fewer_def)
  next
    case False
    then have next_host: "\<exists>a. pop_loop E now mx skip c (examined + 1) s = Some a \<and> fewer E V s a" for c
      by (intro less) simp
    have forgotten: "\<exists>a. pop_loop E now mx skip cursor examined s' = Some a \<and> fewer E V s a"
      if f: "frontier_forget E key s = (Inr u, s')" and k: "key \<in> dom (pending_view V (fst s))" for key u s'
    proof -
      note fewer = frontier_forget_fewer [OF ok f k]
      then have "\<exists>a. pop_loop E now mx skip cursor examined s' = Some a \<and> fewer E V s' a" by (intro less) simp
      then show ?thesis using fewer by (auto simp: fewer_def)
    qed
    show ?thesis
    proof (cases "pop_scan E (fst s) cursor")
      case Nil
      then show ?thesis by (subst pop_loop_step) (simp add: fewer_def)
    next
      case (Cons entry rest)
      show ?thesis
      proof (cases entry)
        case (Inl e)
        then show ?thesis using Cons by (subst pop_loop_step) (simp add: fewer_def)
      next
        case (Inr kv)
        obtain key v where kv: "kv = (key, v)" by (cases kv)
        have key: "key \<in> dom (pending_view V (fst s))"
          using pop_scan_cases(2) [OF ok, where d = "fst s" and cursor = cursor and key = key] Cons Inr kv
          by (auto dest!: meta_spec)
        have taken: "fewer E V s (Inr (Some job), s')" if "frontier_forget E key s = (Inr u, s')" for job u s'
          using frontier_forget_fewer [OF ok that key] by (simp add: fewer_def)
        have other: "fewer E V s (Inl e, s')" "fewer E V s (Inr None, s')" for e s' by (simp_all add: fewer_def)
        show ?thesis
          using Cons Inr kv next_host forgotten [OF _ key] taken other
          by (subst pop_loop_step)
            (auto split: option.split sum.split prod.split simp: Suc_eq_plus1 [symmetric] simp del: Suc_eq_plus1)
      qed
    qed
  qed
qed

lemma pop_loop_returns: "kv_ok (fe_kv E) V \<Longrightarrow> \<exists>a. pop_loop E now mx skip cursor examined s = Some a"
  using pop_loop_total by blast

text \<open>A pop returns, and when it answers with a job one entry fewer is pending.\<close>

lemma pop_ready_total:
  assumes "kv_ok (fe_kv E) V"
  obtains r d' fr' where "pop_ready E now mx skip (d, fr) = Some (r, d', fr')"
    "\<forall>job. r = Inr (Some job) \<longrightarrow> card (dom (pending_view V d')) < card (dom (pending_view V d))"
proof -
  obtain a where "pop_loop E now mx skip None 0 (d, fr) = Some a" "fewer E V (d, fr) a"
    using pop_loop_total [OF assms] by blast
  then show thesis
    using that by (cases a; cases "db_cf (fe_kv E) d CfFrontierPending") (auto simp: pop_ready_def fewer_def)
qed

text \<open>A host that a pop passes over: skipped by the caller, or inside its politeness window.\<close>

definition host_busy ::
    "('u, 'd) frontier_env \<Rightarrow> int \<Rightarrow> (rstr \<Rightarrow> bool) \<Rightarrow> 'd \<Rightarrow> rstr \<Rightarrow> bool" where
  "host_busy E now skip d h \<longleftrightarrow>
     skip h \<or> (case host_state_of E d h of
                 Inl _ \<Rightarrow> False
               | Inr st \<Rightarrow> now < next_allowed_at_ms (case st of None \<Rightarrow> host_state_default | Some st \<Rightarrow> st))"

text \<open>A host whose job a pop may take.\<close>

definition host_ready ::
    "('u, 'd) frontier_env \<Rightarrow> int \<Rightarrow> (rstr \<Rightarrow> bool) \<Rightarrow> 'd \<Rightarrow> rstr \<Rightarrow> bool" where
  "host_ready E now skip d h \<longleftrightarrow>
     \<not> skip h \<and> (case host_state_of E d h of
                   Inl _ \<Rightarrow> False
                 | Inr st \<Rightarrow> next_allowed_at_ms (case st of None \<Rightarrow> host_state_default | Some st \<Rightarrow> st) \<le> now)"

text \<open>The hosts passed over so far are those of the keys before the cursor.\<close>

definition passed ::
    "('u, 'd) frontier_env \<Rightarrow> 'd kv_view \<Rightarrow> int \<Rightarrow> (rstr \<Rightarrow> bool) \<Rightarrow> 'd \<Rightarrow> bytes option \<Rightarrow> rstr set \<Rightarrow> bool"
  where
  "passed E V now skip d cursor S \<longleftrightarrow>
     finite S \<and> S \<subseteq> dom (hosts_view V d) \<and> (\<forall>h \<in> S. host_busy E now skip d h) \<and>
     (\<forall>h \<in> S. \<forall>k. frontier_key_host k = Some h \<longrightarrow> \<not> beyond cursor k) \<and>
     (\<forall>k \<in> dom (pending_view V d). \<not> beyond cursor k \<longrightarrow> (\<exists>h \<in> S. frontier_key_host k = Some h))"

lemma passed_start: "passed E V now skip d None {}"
  by (simp add: passed_def beyond_def)

lemma passed_next:
  assumes S: "passed E V now skip d cursor S" and b: "beyond cursor key"
    and least: "\<forall>k' \<in> dom (pending_view V d). beyond cursor k' \<longrightarrow> key \<le> k'"
    and h: "frontier_key_host key = Some h" "h \<in> dom (hosts_view V d)" "host_busy E now skip d h"
  shows "passed E V now skip d (Some (cursor_after h)) (insert h S)" and "h \<notin> S"
proof -
  have mono: "beyond cursor k" if "beyond (Some (cursor_after h)) k" for k
    using that b key_below_cursor [OF h(1)] by (auto simp: beyond_def split: option.splits)
  have below: "\<not> beyond (Some (cursor_after h)) k" if "frontier_key_host k = Some h" for k
    using key_below_cursor [OF that] by (auto simp: beyond_def)
  have covered: "\<exists>h' \<in> insert h S. frontier_key_host k = Some h'"
    if k: "k \<in> dom (pending_view V d)" "\<not> beyond (Some (cursor_after h)) k" for k
  proof (cases "beyond cursor k")
    case True
    then have "key \<le> k" using least k(1) by blast
    moreover have "k < cursor_after h" using k(2) by (auto simp: beyond_def not_le)
    ultimately show ?thesis using key_between [OF h(1)] by blast
  next
    case False
    then show ?thesis using S k(1) by (auto simp: passed_def)
  qed
  show "passed E V now skip d (Some (cursor_after h)) (insert h S)"
    using S h(2,3) mono below covered unfolding passed_def by blast
  show "h \<notin> S" using S h(1) b by (auto simp: passed_def)
qed

text \<open>What a pop answers when it reports no error.\<close>

definition pop_answer ::
    "('u, 'd) frontier_env \<Rightarrow> 'd kv_view \<Rightarrow> int \<Rightarrow> nat \<Rightarrow> (rstr \<Rightarrow> bool) \<Rightarrow> 'd \<times> frontier \<Rightarrow>
     crawl_job option \<Rightarrow> 'd \<times> frontier \<Rightarrow> bool" where
  "pop_answer E V now mx skip s answer s' \<longleftrightarrow>
     (case answer of
        None \<Rightarrow> s' = s \<and>
          (\<exists>S. finite S \<and> S \<subseteq> dom (hosts_view V (fst s)) \<and> (\<forall>h \<in> S. host_busy E now skip (fst s) h) \<and>
             (mx \<le> card S \<or>
              (\<forall>k \<in> dom (pending_view V (fst s)). \<exists>h \<in> S. frontier_key_host k = Some h)))
      | Some job \<Rightarrow>
          (\<exists>key v h u. pending_view V (fst s) key = Some v \<and> frontier_key_host key = Some h \<and>
             decode (fe_job E) v = Inr job \<and> host_ready E now skip (fst s) h \<and>
             (\<forall>k \<in> dom (pending_view V (fst s)). k < key \<longrightarrow>
                (\<exists>h'. frontier_key_host k = Some h' \<and> host_busy E now skip (fst s) h')) \<and>
             frontier_forget E key s = (Inr u, s')))"

lemma pop_loop_busy:
  assumes "\<not> mx \<le> examined" "pop_scan E (fst s) cursor = Inr (key, v) # rest"
    and "frontier_key_host key = Some h" "utf8_lossy h = h" "host_busy E now skip (fst s) h"
  shows "pop_loop E now mx skip cursor examined s =
    pop_loop E now mx skip (Some (cursor_after h)) (examined + 1) s"
  using assms
  by (cases "host_state_of E (fst s) h")
    (auto simp: pop_loop_step [of E now mx skip cursor examined s] host_busy_def simp del: not_less)

lemma pop_loop_free:
  assumes "\<not> mx \<le> examined" "pop_scan E (fst s) cursor = Inr (key, v) # rest"
    and "frontier_key_host key = Some h" "utf8_lossy h = h" "\<not> host_busy E now skip (fst s) h"
    and "pop_loop E now mx skip cursor examined s = Some (Inr answer, s')"
  shows "\<exists>job u. decode (fe_job E) v = Inr job \<and> answer = Some job \<and>
    frontier_forget E key s = (Inr u, s') \<and> host_ready E now skip (fst s) h"
  using assms
  by (cases "host_state_of E (fst s) h"; cases "decode (fe_job E) v"; cases "frontier_forget E key s")
    (auto simp: pop_loop_step [of E now mx skip cursor examined s] host_busy_def host_ready_def
      split: sum.splits)

lemma pop_loop_answer:
  assumes env: "frontier_env_ok E V" and inv: "frontier_inv E V s"
  shows "passed E V now skip (fst s) cursor S \<Longrightarrow> card S = examined \<Longrightarrow>
    pop_loop E now mx skip cursor examined s = Some (Inr answer, s') \<Longrightarrow>
    pop_answer E V now mx skip s answer s'"
proof (induction "mx - examined" arbitrary: cursor examined S rule: less_induct)
  case less
  note S = less(2,3) and run = less(4)
  note ok = frontier_env_okD [OF env]
  note step = pop_loop_step [of E now mx skip cursor examined s]
  have seen: "finite S" "S \<subseteq> dom (hosts_view V (fst s))" "\<forall>h \<in> S. host_busy E now skip (fst s) h"
    using S(1) by (auto simp: passed_def)
  show ?case
  proof (cases "mx \<le> examined")
    case True
    then have "answer = None" "s' = s" using run by (simp_all add: step)
    then show ?thesis using seen True S(2) by (auto simp: pop_answer_def)
  next
    case False
    show ?thesis
    proof (cases "pop_scan E (fst s) cursor")
      case Nil
      then have "answer = None" "s' = s" using run False by (simp_all add: step)
      moreover have "\<exists>h \<in> S. frontier_key_host k = Some h" if "k \<in> dom (pending_view V (fst s))" for k
        using S(1) pop_scan_cases(1) [OF ok(1) Nil that] that by (auto simp: passed_def)
      ultimately show ?thesis using seen by (auto simp: pop_answer_def)
    next
      case (Cons entry rest)
      have "entry \<noteq> Inl x" for x using run False Cons step by auto
      then obtain key v where e: "entry = Inr (key, v)" by (cases entry) auto
      have key: "pending_view V (fst s) key = Some v" "beyond cursor key"
        "\<forall>k' \<in> dom (pending_view V (fst s)). beyond cursor k' \<longrightarrow> key \<le> k'"
        using pop_scan_cases(2) [OF ok(1)] Cons e by auto
      have "entry_ok E (hosts_view V (fst s)) (fr_sequence (snd s)) key v"
        using frontier_invD(1) [of E V "fst s" "snd s"] inv key(1) by simp
      then obtain h where h: "frontier_key_host key = Some h" "h \<in> dom (hosts_view V (fst s))"
        "list_all host_char h"
        by (rule entry_ok_host)
      note lossy = host_char_lossy [OF h(3)]
      show ?thesis
      proof (cases "host_busy E now skip (fst s) h")
        case True
        then have r: "pop_loop E now mx skip (Some (cursor_after h)) (examined + 1) s = Some (Inr answer, s')"
          using pop_loop_busy [OF False _ h(1) lossy True] run Cons e by simp
        have c: "card (insert h S) = examined + 1"
          using passed_next(2) [OF S(1) key(2,3) h(1,2) True] seen(1) S(2) by simp
        show ?thesis
          by (rule less(1) [OF _ passed_next(1) [OF S(1) key(2,3) h(1,2) True] c r]) (use False in simp)
      next
        case busy: False
        obtain job u where dec: "decode (fe_job E) v = Inr job" and ans: "answer = Some job"
          and gone: "frontier_forget E key s = (Inr u, s')" and ready: "host_ready E now skip (fst s) h"
          using pop_loop_free [OF False _ h(1) lossy busy run] Cons e by blast
        have before: "\<exists>h'. frontier_key_host k = Some h' \<and> host_busy E now skip (fst s) h'"
          if k: "k \<in> dom (pending_view V (fst s))" "k < key" for k
        proof -
          have "\<not> beyond cursor k" using key(3) k by auto
          then obtain h' where "h' \<in> S" "frontier_key_host k = Some h'"
            using S(1) k(1) unfolding passed_def by blast
          then show ?thesis using seen(3) by blast
        qed
        show ?thesis
          unfolding pop_answer_def ans option.case using key(1) h(1) ready dec gone before by blast
      qed
    qed
  qed
qed

lemma pop_ready_answer:
  assumes "frontier_env_ok E V" "frontier_inv E V s"
    and "pop_ready E now mx skip s = Some (Inr answer, s')"
  shows "pop_answer E V now mx skip s answer s'"
  using pop_loop_answer [OF assms(1,2) passed_start, of 0] assms(3)
  by (auto simp: pop_ready_def db_cf_def split: if_splits)

text \<open>The host of a popped job is ready and known, and popping changes no host.\<close>

lemma pop_ready_job:
  assumes "frontier_env_ok E V" "frontier_inv E V (d, fr)"
    and "pop_ready E now mx skip (d, fr) = Some (Inr (Some job), d', fr')"
  obtains h where "host_of (fe_url E) (job_url job) = Some h" "list_all host_char h" "host_ready E now skip d h"
    "h \<in> dom (hosts_view V d)" "hosts_view V d' = hosts_view V d"
    "fr' = fr \<lparr> fr_pending := fr_pending fr - 1 \<rparr>"
proof -
  note ok = frontier_env_okD [OF assms(1)]
  obtain key v h u where k: "pending_view V d key = Some v" "decode (fe_job E) v = Inr job"
    "frontier_key_host key = Some h" "host_ready E now skip d h" "frontier_forget E key (d, fr) = (Inr u, d', fr')"
    using pop_ready_answer [OF assms] unfolding pop_answer_def option.case fst_conv by blast
  have "entry_ok E (hosts_view V d) (fr_sequence fr) key v"
    using frontier_invD(1) [OF assms(2)] k(1) by blast
  then obtain h' s where h: "key = frontier_key h' s" "list_all host_char h'"
    "host_of (fe_url E) (job_url job) = Some h'" "h' \<in> dom (hosts_view V d)"
    using k(2) by (auto simp: entry_ok_def)
  then have "h' = h" using k(3) by (simp add: frontier_key_host_key host_char_no_zero host_char_utf8)
  then show thesis using that h k(4) frontier_forget_Inr(2,3) [OF ok(1) k(5)] by blast
qed

section \<open>The queue as an interface\<close>

definition frontier_room :: "'d \<times> frontier \<Rightarrow> bool" where
  "frontier_room s \<longleftrightarrow>
     fr_sequence (snd s) < u64_max \<and> fr_pending (snd s) < u64_max \<and> fr_hosts (snd s) < u64_max"

text \<open>
  What the crawl loop relies on: a push that succeeds adds its job, a pop takes out the job it
  answers with and changes nothing when it answers none. \<open>valid e v s\<close> is the provider's
  invariant, \<open>jobs e v s\<close> what the queue holds.
\<close>

locale job_queue =
  fixes valid :: "'e \<Rightarrow> 'v \<Rightarrow> 's \<Rightarrow> bool"
    and room :: "'s \<Rightarrow> bool"
    and jobs :: "'e \<Rightarrow> 'v \<Rightarrow> 's \<Rightarrow> 'j multiset"
    and push :: "'e \<Rightarrow> 'j \<Rightarrow> 's \<Rightarrow> ('err + unit) \<times> 's"
    and pop :: "'e \<Rightarrow> int \<Rightarrow> nat \<Rightarrow> (rstr \<Rightarrow> bool) \<Rightarrow> 's \<Rightarrow> (('err + 'j option) \<times> 's) option"
  assumes push_adds: "valid e v s \<Longrightarrow> room s \<Longrightarrow> push e j s = (Inr u, s') \<Longrightarrow>
      valid e v s' \<and> jobs e v s' = add_mset j (jobs e v s)"
    and pop_takes: "valid e v s \<Longrightarrow> pop e now mx skip s = Some (Inr (Some j), s') \<Longrightarrow>
      valid e v s' \<and> jobs e v s = add_mset j (jobs e v s')"
    and pop_none: "valid e v s \<Longrightarrow> pop e now mx skip s = Some (Inr None, s') \<Longrightarrow> s' = s"
begin

text \<open>A sequence of operations, with the jobs that went in and the jobs that came out.\<close>

inductive uses :: "'e \<Rightarrow> 's \<Rightarrow> 'j multiset \<Rightarrow> 'j multiset \<Rightarrow> 's \<Rightarrow> bool" for e where
  idle: "uses e s {#} {#} s"
| pushed: "uses e s ins outs s' \<Longrightarrow> room s' \<Longrightarrow> push e j s' = (Inr u, s'') \<Longrightarrow>
    uses e s (add_mset j ins) outs s''"
| popped: "uses e s ins outs s' \<Longrightarrow> pop e now mx skip s' = Some (Inr (Some j), s'') \<Longrightarrow>
    uses e s ins (add_mset j outs) s''"
| waited: "uses e s ins outs s' \<Longrightarrow> pop e now mx skip s' = Some (Inr None, s'') \<Longrightarrow>
    uses e s ins outs s''"

lemma uses_conserves:
  assumes "uses e s ins outs s'" "valid e v s"
  shows "valid e v s' \<and> jobs e v s' + outs = jobs e v s + ins"
  using assms
proof (induction rule: uses.induct)
  case idle
  then show ?case by simp
next
  case (pushed s ins outs s' j u s'')
  then show ?case using push_adds [of e v s' j u s''] by simp
next
  case (popped s ins outs s' now mx skip j s'')
  then show ?case using pop_takes [of e v s' now mx skip j s''] by simp
next
  case (waited s ins outs s' now mx skip s'')
  then show ?case using pop_none [of e v s' now mx skip s''] by simp
qed

end

lemma mset_dom_insert:
  assumes "finite (dom P)" "k \<notin> dom P"
  shows "image_mset (\<lambda>k'. f (the ((P(k \<mapsto> v)) k'))) (mset_set (dom (P(k \<mapsto> v)))) =
    add_mset (f v) (image_mset (\<lambda>k'. f (the (P k'))) (mset_set (dom P)))"
proof -
  have "image_mset (\<lambda>k'. f (the ((P(k \<mapsto> v)) k'))) (mset_set (dom P)) =
    image_mset (\<lambda>k'. f (the (P k'))) (mset_set (dom P))"
    using assms by (intro image_mset_cong) auto
  then show ?thesis using assms by simp
qed

lemma frontier_push_jobs:
  assumes "frontier_env_ok E V" "frontier_inv E V s" "frontier_room s"
    and "frontier_push E job s = (Inr u, s')"
  shows "frontier_inv E V s' \<and> frontier_jobs E V s' = add_mset job (frontier_jobs E V s)"
proof -
  obtain d fr d' fr' where s: "s = (d, fr)" "s' = (d', fr')" by (cases s; cases s')
  obtain h v where p: "decode (fe_job E) v = Inr job"
    "pending_view V d' = (pending_view V d)(frontier_key h (Suc (fr_sequence fr)) \<mapsto> v)"
    "frontier_key h (Suc (fr_sequence fr)) \<notin> dom (pending_view V d)" "frontier_inv E V (d', fr')"
    by (rule frontier_push_keeps [OF assms(1), of d fr job u d' fr'])
      (use assms(2-4) in \<open>simp_all add: s frontier_room_def\<close>)
  have "finite (dom (pending_view V d))"
    using view_finite [OF frontier_env_okD(1) [OF assms(1)]] by (simp add: pending_view_def)
  from mset_dom_insert [OF this p(3), of "job_in E" v] p(1,4) show ?thesis
    by (simp add: frontier_jobs_def s p(2) job_in_def)
qed

lemma pop_ready_takes:
  assumes "frontier_env_ok E V" "frontier_inv E V s"
    and "pop_ready E now mx skip s = Some (Inr (Some job), s')"
  shows "frontier_inv E V s' \<and> frontier_jobs E V s = add_mset job (frontier_jobs E V s')"
proof -
  note ok = frontier_env_okD [OF assms(1)]
  obtain d fr d' fr' where s: "s = (d, fr)" "s' = (d', fr')" by (cases s; cases s')
  obtain key v u where k: "pending_view V d key = Some v" "decode (fe_job E) v = Inr job"
    "frontier_forget E key (d, fr) = (Inr u, d', fr')"
    using pop_ready_answer [OF assms] by (auto simp: pop_answer_def s)
  have fin: "finite (dom (pending_view V d))" using view_finite [OF ok(1)] by (simp add: pending_view_def)
  let ?P = "pending_view V d'"
  have P: "?P = (pending_view V d)(key := None)" using frontier_forget_Inr(1) [OF ok(1) k(3)] .
  then have "pending_view V d = ?P(key \<mapsto> v)" "key \<notin> dom ?P" "finite (dom ?P)"
    using k(1) fin by auto
  with mset_dom_insert [of ?P key "job_in E" v] k(2)
  have "frontier_jobs E V s = add_mset job (frontier_jobs E V s')"
    by (simp add: frontier_jobs_def s job_in_def)
  moreover have "frontier_inv E V s'"
    using frontier_forget_keeps [OF ok(1) _ _ k(3)] assms(2) k(1) by (auto simp: s)
  ultimately show ?thesis by simp
qed

lemma pop_ready_none:
  "frontier_env_ok E V \<Longrightarrow> frontier_inv E V s \<Longrightarrow> pop_ready E now mx skip s = Some (Inr None, s') \<Longrightarrow> s' = s"
  using pop_ready_answer [of E V s now mx skip None s'] by (simp add: pop_answer_def)

interpretation fq: job_queue "\<lambda>E V s. frontier_env_ok E V \<and> frontier_inv E V s"
  frontier_room frontier_jobs frontier_push pop_ready
proof
  fix E :: "('u, 'd) frontier_env" and V :: "'d kv_view" and s s' :: "'d \<times> frontier" and j u
  assume "frontier_env_ok E V \<and> frontier_inv E V s" "frontier_room s" "frontier_push E j s = (Inr u, s')"
  then show "(frontier_env_ok E V \<and> frontier_inv E V s') \<and>
      frontier_jobs E V s' = add_mset j (frontier_jobs E V s)"
    using frontier_push_jobs by blast
qed (auto dest: pop_ready_takes pop_ready_none)

section \<open>A concrete environment\<close>

definition zig :: "int \<Rightarrow> nat" where
  "zig i = (if 0 \<le> i then nat (2 * i) else nat (- 2 * i - 1))"

definition unzig :: "nat \<Rightarrow> int" where
  "unzig n = (if even n then int (n div 2) else - int (n div 2) - 1)"

lemma unzig_zig: "unzig (zig i) = i"
  by (auto simp: zig_def unzig_def even_nat_iff nat_diff_distrib' nat_mult_distrib)

definition mini_job_codec :: "crawl_job codec" where
  "mini_job_codec =
     \<lparr> encode = (\<lambda>j. Inr (job_depth j # job_url j)),
       decode = (\<lambda>bs. case bs of [] \<Rightarrow> Inl ''empty'' | n # url \<Rightarrow> Inr \<lparr> job_url = url, job_depth = n \<rparr>) \<rparr>"

definition mini_host_codec :: "host_state codec" where
  "mini_host_codec =
     \<lparr> encode = (\<lambda>st. Inr [zig (next_allowed_at_ms st), zig (last_fetched_at_ms st)]),
       decode = (\<lambda>bs. case bs of
          [a, b] \<Rightarrow> Inr \<lparr> next_allowed_at_ms = unzig a, last_fetched_at_ms = unzig b \<rparr>
        | _ \<Rightarrow> Inl ''length'') \<rparr>"

definition mini_frontier_env :: "(muri, mini_db) frontier_env" where
  "mini_frontier_env = \<lparr> fe_url = mini_url, fe_kv = mini_kv, fe_job = mini_job_codec, fe_host = mini_host_codec \<rparr>"

definition empty_frontier :: "mini_db \<times> frontier" where
  "empty_frontier = ([], \<lparr> fr_sequence = 0, fr_pending = 0, fr_hosts = 0 \<rparr>)"

lemma mini_frontier_env_ok: "frontier_env_ok mini_frontier_env mini_view"
  by (auto simp: frontier_env_ok_def mini_frontier_env_def mini_kv_ok mini_host_laws codec_ok_def
      mini_job_codec_def mini_host_codec_def unzig_zig)

lemma empty_frontier_inv: "frontier_inv mini_frontier_env mini_view empty_frontier"
  by (simp add: empty_frontier_def frontier_inv_def frontier_db_ok_def stored_sequence_def
      pending_view_def hosts_view_def mini_view_def dom_def)

definition mini_job1 :: crawl_job where
  "mini_job1 = \<lparr> job_url = str ''http://b.c/x'', job_depth = 2 \<rparr>"

definition mini_key1 :: bytes where
  "mini_key1 = frontier_key (str ''b.c'') 1"

definition mini_pushed :: "mini_db \<times> frontier" where
  "mini_pushed =
     ([((CfMeta, meta_host_count), be_bytes 8 1), ((CfFrontierHosts, str ''b.c''), [0, 0]),
       ((CfMeta, meta_pending_count), be_bytes 8 1), ((CfMeta, meta_frontier_seq), be_bytes 8 1),
       ((CfFrontierPending, mini_key1), 2 # str ''http://b.c/x'')],
      \<lparr> fr_sequence = 1, fr_pending = 1, fr_hosts = 1 \<rparr>)"

lemma mini_push: "frontier_push mini_frontier_env mini_job1 empty_frontier = (Inr (), mini_pushed)"
  by (simp add: frontier_push_def empty_frontier_def Let_def) code_simp

lemma mini_pop:
  "\<exists>s'. pop_ready mini_frontier_env 5 8 (\<lambda>_. False) mini_pushed = Some (Inr (Some mini_job1), s')"
proof -
  let ?E = mini_frontier_env
  let ?v = "2 # str ''http://b.c/x''"
  obtain s' where f: "frontier_forget ?E mini_key1 mini_pushed = (Inr (), s')"
  proof -
    have "fst (frontier_forget ?E mini_key1 mini_pushed) = Inr ()" by code_simp
    then show ?thesis using that by (metis prod.collapse)
  qed
  have "pop_scan ?E (fst mini_pushed) None = [Inr (mini_key1, ?v)]"
    "frontier_key_host mini_key1 = Some (str ''b.c'')" "utf8_lossy (str ''b.c'') = str ''b.c''"
    "host_state_of ?E (fst mini_pushed) (str ''b.c'') = Inr (Some host_state_default)"
    "decode (fe_job ?E) ?v = Inr mini_job1" "next_allowed_at_ms host_state_default = 0"
    "db_cf (fe_kv ?E) (fst mini_pushed) CfFrontierPending = Inr CfFrontierPending"
    by code_simp+
  then show ?thesis using f by (simp add: pop_ready_def pop_loop_step del: str_simps)
qed


lemma mini_pushed_inv: "frontier_inv mini_frontier_env mini_view mini_pushed"
  using frontier_push_jobs [OF mini_frontier_env_ok empty_frontier_inv _ mini_push]
  by (simp add: frontier_room_def empty_frontier_def u64_max_def)

section \<open>Properties\<close>

text \<open>C7: no queued URL is lost or handed out twice: after any sequence of successful pushes and
  pops, the jobs still queued and the jobs popped are together the jobs queued at first and the
  jobs pushed, and the counters are exact again.\<close>

theorem frontier_conserves_jobs:
  assumes "frontier_env_ok E V" "frontier_inv E V s" "fq.uses E s pushed popped s'"
  shows "frontier_inv E V s' \<and> frontier_jobs E V s' + popped = frontier_jobs E V s + pushed"
  using fq.uses_conserves [OF assms(3)] assms(1,2) by blast

theorem frontier_conserves_jobs_witness:
  "\<exists>s'. frontier_inv mini_frontier_env mini_view s' \<and>
     frontier_jobs mini_frontier_env mini_view s' + {# mini_job1 #} =
     frontier_jobs mini_frontier_env mini_view empty_frontier + {# mini_job1 #}"
proof -
  obtain s' where "pop_ready mini_frontier_env 5 8 (\<lambda>_. False) mini_pushed = Some (Inr (Some mini_job1), s')"
    using mini_pop by blast
  moreover have "fq.uses mini_frontier_env empty_frontier {# mini_job1 #} {#} mini_pushed"
    using fq.pushed [OF fq.idle _ mini_push] by (simp add: frontier_room_def empty_frontier_def u64_max_def)
  ultimately have "fq.uses mini_frontier_env empty_frontier {# mini_job1 #} {# mini_job1 #} s'"
    using fq.popped by fastforce
  then show ?thesis using frontier_conserves_jobs [OF mini_frontier_env_ok empty_frontier_inv] by blast
qed

text \<open>C19: the job a pop returns is the first of the queue, in the order of host and sequence,
  whose host is neither skipped nor inside its politeness window; it is removed, the rest of the
  queue stays, and the counters stay exact.\<close>

theorem pop_ready_first:
  assumes "frontier_env_ok E V" "frontier_inv E V (d, fr)"
    and "pop_ready E now mx skip (d, fr) = Some (Inr (Some job), d', fr')"
  shows "\<exists>key v h. V d CfFrontierPending key = Some v \<and> decode (fe_job E) v = Inr job \<and>
     frontier_key_host key = Some h \<and> host_ready E now skip d h \<and>
     (\<forall>k \<in> dom (V d CfFrontierPending). k < key \<longrightarrow>
        (\<exists>h'. frontier_key_host k = Some h' \<and> host_busy E now skip d h')) \<and>
     V d' CfFrontierPending = (V d CfFrontierPending)(key := None) \<and> frontier_inv E V (d', fr')"
proof -
  note ok = frontier_env_okD [OF assms(1)]
  obtain key v h u where k: "pending_view V d key = Some v" "frontier_key_host key = Some h"
    "decode (fe_job E) v = Inr job" "host_ready E now skip d h"
    "\<forall>k \<in> dom (pending_view V d). k < key \<longrightarrow>
       (\<exists>h'. frontier_key_host k = Some h' \<and> host_busy E now skip d h')"
    "frontier_forget E key (d, fr) = (Inr u, d', fr')"
    using pop_ready_answer [OF assms] unfolding pop_answer_def option.case fst_conv by blast
  have "frontier_inv E V (d', fr')" using pop_ready_takes [OF assms] by blast
  moreover have "pending_view V d' = (pending_view V d)(key := None)"
    using frontier_forget_Inr(1) [OF ok(1) k(6)] .
  ultimately show ?thesis using k(1-5) unfolding pending_view_def by blast
qed

theorem pop_ready_first_witness:
  "\<exists>key v h. mini_view (fst mini_pushed) CfFrontierPending key = Some v \<and>
     decode (fe_job mini_frontier_env) v = Inr mini_job1 \<and> frontier_key_host key = Some h \<and>
     host_ready mini_frontier_env 5 (\<lambda>_. False) (fst mini_pushed) h"
proof -
  obtain s' where "pop_ready mini_frontier_env 5 8 (\<lambda>_. False) mini_pushed = Some (Inr (Some mini_job1), s')"
    using mini_pop by blast
  then show ?thesis
    using pop_ready_first [OF mini_frontier_env_ok, of "fst mini_pushed" "snd mini_pushed" 5 8
        "\<lambda>_. False" mini_job1 "fst s'" "snd s'"] mini_pushed_inv by auto
qed

text \<open>When a pop that may examine more hosts than the frontier knows finds nothing, every
  queued URL belongs to a host that is skipped or inside its politeness window: a deferred host
  does not hide a ready one.\<close>

theorem pop_ready_none_busy:
  assumes "frontier_env_ok E V" "frontier_inv E V (d, fr)" "fr_hosts fr < mx"
    and "pop_ready E now mx skip (d, fr) = Some (Inr None, s')"
  shows "\<forall>k \<in> dom (V d CfFrontierPending). \<exists>h. frontier_key_host k = Some h \<and> host_busy E now skip d h"
proof -
  obtain S where S: "finite S" "S \<subseteq> dom (hosts_view V d)" "\<forall>h \<in> S. host_busy E now skip d h"
    "mx \<le> card S \<or> (\<forall>k \<in> dom (pending_view V d). \<exists>h \<in> S. frontier_key_host k = Some h)"
    using pop_ready_answer [OF assms(1,2,4)] by (auto simp: pop_answer_def)
  have "finite (dom (hosts_view V d))"
    using view_finite [OF frontier_env_okD(1) [OF assms(1)]] by (simp add: hosts_view_def)
  then have "card S \<le> fr_hosts fr" using card_mono S(2) frontier_invD(4) [OF assms(2)] by metis
  then have "\<forall>k \<in> dom (pending_view V d). \<exists>h \<in> S. frontier_key_host k = Some h"
    using S(4) assms(3) by auto
  then show ?thesis using S(3) unfolding pending_view_def by blast
qed

theorem pop_ready_none_busy_witness:
  "\<exists>h. frontier_key_host mini_key1 = Some h \<and>
     host_busy mini_frontier_env 5 (\<lambda>_. True) (fst mini_pushed) h"
proof -
  let ?E = mini_frontier_env
  have "pop_scan ?E (fst mini_pushed) None = [Inr (mini_key1, 2 # str ''http://b.c/x'')]"
    "pop_scan ?E (fst mini_pushed) (Some (cursor_after (str ''b.c''))) = []"
    "frontier_key_host mini_key1 = Some (str ''b.c'')"
    "db_cf (fe_kv ?E) (fst mini_pushed) CfFrontierPending = Inr CfFrontierPending"
    by code_simp+
  then have none: "pop_ready ?E 5 8 (\<lambda>_. True) (fst mini_pushed, snd mini_pushed) = Some (Inr None, mini_pushed)"
    by (simp add: pop_ready_def pop_loop_step del: str_simps)
  have inv: "frontier_inv ?E mini_view (fst mini_pushed, snd mini_pushed)"
    and hosts: "fr_hosts (snd mini_pushed) < 8"
    using mini_pushed_inv by (simp_all add: mini_pushed_def)
  have "mini_key1 \<in> dom (mini_view (fst mini_pushed) CfFrontierPending)"
    by (auto simp: dom_def mini_view_def mini_pushed_def)
  then show ?thesis
    using pop_ready_none_busy [OF mini_frontier_env_ok inv hosts none] by blast
qed

text \<open>A pop returns, with a job, with none or with an error, whatever the database holds and
  whatever it answers: every turn of its loop examines one more host or removes a corrupt entry.\<close>

theorem pop_ready_returns:
  assumes "kv_ok (fe_kv E) V"
  shows "\<exists>r. pop_ready E now mx skip s = Some r"
  using pop_loop_returns [OF assms] by (auto simp: pop_ready_def split: sum.split)

theorem pop_ready_returns_witness:
  "\<exists>r. pop_ready mini_frontier_env 5 8 (\<lambda>_. True) ([((CfFrontierPending, [1]), [2])], snd empty_frontier) = Some r"
  by (rule pop_ready_returns [of _ mini_view]) (simp add: mini_kv_ok mini_frontier_env_def)

section \<open>Politeness\<close>

lemma defer_host_Inr:
  assumes "kv_ok (fe_kv E) V" "defer_host E h until fetched d = (Inr u, d')"
  obtains v where "encode (fe_host E) \<lparr> next_allowed_at_ms = until, last_fetched_at_ms = fetched \<rparr> = Inr v"
    "hosts_view V d' = (hosts_view V d)(utf8 h \<mapsto> v)" "pending_view V d' = pending_view V d"
    "stored_sequence V d' = stored_sequence V d"
proof -
  obtain v where v: "encode (fe_host E) \<lparr> next_allowed_at_ms = until, last_fetched_at_ms = fetched \<rparr> = Inr v"
    "db_put (fe_kv E) CfFrontierHosts (utf8 h) v d = (Inr u, d')"
    using assms(2) by (auto simp: defer_host_def set_host_state_def map_err_def split: sum.splits)
  show thesis
    using db_put_Inr [OF assms(1) v(2)]
    by (intro that [OF v(1)]) (auto simp: hosts_view_def pending_view_def stored_sequence_def)
qed

text \<open>Deferring a host the frontier already knows keeps the counters exact.\<close>

lemma defer_host_keeps:
  assumes "kv_ok (fe_kv E) V" "frontier_inv E V (d, fr)" "utf8 h \<in> dom (hosts_view V d)"
    and "defer_host E h until fetched d = (Inr u, d')"
  shows "frontier_inv E V (d', fr)"
proof -
  obtain v where v: "hosts_view V d' = (hosts_view V d)(utf8 h \<mapsto> v)" "pending_view V d' = pending_view V d"
    "stored_sequence V d' = stored_sequence V d"
    using defer_host_Inr [OF assms(1,4)] .
  have H: "dom (hosts_view V d') = dom (hosts_view V d)" using assms(3) v(1) by auto
  show ?thesis
  proof (rule frontier_invI)
    show "entry_ok E (hosts_view V d') (fr_sequence fr) k w" if "pending_view V d' k = Some w" for k w
      using frontier_invD(1) [OF assms(2)] that entry_ok_mono [of E "hosts_view V d" "fr_sequence fr" k w "hosts_view V d'" "fr_sequence fr"] H v(2)
      by auto
  qed (use frontier_invD [OF assms(2)] H v in simp_all)
qed

text \<open>Opening, and what a failed push leaves behind.\<close>

lemma read_counter_stored:
  assumes "kv_ok (fe_kv E) V" "read_counter (fe_kv E) d meta_frontier_seq = Inr n"
  shows "n = stored_sequence V d"
proof -
  obtain v where "db_get (fe_kv E) d CfMeta meta_frontier_seq = Inr v"
    "n = (case v of None \<Rightarrow> 0 | Some bs \<Rightarrow> if length bs = 8 then of_be_bytes bs else 0)"
    using assms(2) by (auto simp: read_counter_def and_then_Inr_iff)
  then show ?thesis
    using db_get_Inr [OF assms(1), of d CfMeta meta_frontier_seq v] by (simp add: stored_sequence_def)
qed

lemma write_counter_keeps:
  assumes "kv_ok (fe_kv E) V" "key \<noteq> meta_frontier_seq" "write_counter (fe_kv E) key n d = (r, d')"
  shows "pending_view V d' = pending_view V d \<and> hosts_view V d' = hosts_view V d \<and>
    stored_sequence V d' = stored_sequence V d"
proof (cases r)
  case (Inl e)
  then have "V d' = V d"
    using db_put_Inl [OF assms(1), of CfMeta key "be_bytes 8 n" d e d'] assms(3)
    by (simp add: write_counter_def)
  then show ?thesis by (simp add: pending_view_def hosts_view_def stored_sequence_def)
next
  case (Inr u)
  then have "V d' = (V d)(CfMeta := (V d CfMeta)(key \<mapsto> be_bytes 8 n))"
    using db_put_Inr [OF assms(1), of CfMeta key "be_bytes 8 n" d u d'] assms(3)
    by (simp add: write_counter_def)
  then show ?thesis using assms(2) by (auto simp: pending_view_def hosts_view_def stored_sequence_def)
qed

lemma frontier_open_Inr:
  assumes "kv_ok (fe_kv E) V" "frontier_open E d = (Inr fr, d')"
  shows "fr_sequence fr = stored_sequence V d" "fr_pending fr = card (dom (pending_view V d))"
    "fr_hosts fr = card (dom (hosts_view V d))" "pending_view V d' = pending_view V d"
    "hosts_view V d' = hosts_view V d" "stored_sequence V d' = stored_sequence V d"
proof -
  obtain d1 u1 u2 where r: "read_counter (fe_kv E) d meta_frontier_seq = Inr (fr_sequence fr)"
    "count_exact (fe_kv E) d CfFrontierPending = Inr (fr_pending fr)"
    "count_exact (fe_kv E) d CfFrontierHosts = Inr (fr_hosts fr)"
    "write_counter (fe_kv E) meta_pending_count (fr_pending fr) d = (Inr u1, d1)"
    "write_counter (fe_kv E) meta_host_count (fr_hosts fr) d1 = (Inr u2, d')"
    using assms(2)
    by (auto simp: frontier_open_def and_then_Inr_iff state_then_Inr_iff split: sum.splits)
  show "fr_sequence fr = stored_sequence V d" using read_counter_stored [OF assms(1) r(1)] .
  show "fr_pending fr = card (dom (pending_view V d))" "fr_hosts fr = card (dom (hosts_view V d))"
    using count_exact_Inr [OF assms(1) r(2)] count_exact_Inr [OF assms(1) r(3)]
    by (simp_all add: pending_view_def hosts_view_def)
  show "pending_view V d' = pending_view V d" "hosts_view V d' = hosts_view V d"
    "stored_sequence V d' = stored_sequence V d"
    using write_counter_keeps [OF assms(1) _ r(4)] write_counter_keeps [OF assms(1) _ r(5)]
      meta_keys_distinct by auto
qed

lemma frontier_open_inv:
  assumes "kv_ok (fe_kv E) V" "frontier_db_ok E V d" "frontier_open E d = (Inr fr, d')"
  shows "frontier_inv E V (d', fr)"
  using frontier_open_Inr [OF assms(1,3)] assms(2) by (simp add: frontier_inv_def frontier_db_ok_def)

lemma frontier_push_failed:
  assumes "kv_ok (fe_kv E) V" "frontier_push E job (d, fr) = (Inl e, d', fr')"
  shows "V d' = V d"
proof -
  have "d' = d \<or> (\<exists>batch. write_batch (fe_kv E) batch d = (Inl e, d'))"
    using assms(2)
    by (auto simp: frontier_push_def Let_def split: option.splits sum.splits prod.splits)
  then show ?thesis using write_batch_Inl [OF assms(1)] by blast
qed

text \<open>What a queue entry promises about its host, and the deferral of a host. Both need less than
  \<open>frontier_inv\<close>: they survive calls that fail half way and counters that overflow.\<close>

definition keys_agree :: "('u, 'd) frontier_env \<Rightarrow> 'd kv_view \<Rightarrow> 'd \<Rightarrow> bool" where
  "keys_agree E V d \<longleftrightarrow> (\<forall>k v. pending_view V d k = Some v \<longrightarrow>
     (\<exists>h s job. k = frontier_key h s \<and> list_all host_char h \<and> decode (fe_job E) v = Inr job \<and>
        host_of (fe_url E) (job_url job) = Some h))"

definition not_before :: "('u, 'd) frontier_env \<Rightarrow> 'd kv_view \<Rightarrow> rstr \<Rightarrow> int \<Rightarrow> 'd \<Rightarrow> bool" where
  "not_before E V h until d \<longleftrightarrow>
     (\<exists>v st. hosts_view V d (utf8 h) = Some v \<and> decode (fe_host E) v = Inr st \<and> until \<le> next_allowed_at_ms st)"

lemma frontier_inv_keys: "frontier_inv E V (d, fr) \<Longrightarrow> keys_agree E V d"
  by (fastforce simp: keys_agree_def dest: frontier_invD(1) simp: entry_ok_def)

lemma keys_agree_mono: "keys_agree E V d \<Longrightarrow> pending_view V d' \<subseteq>\<^sub>m pending_view V d \<Longrightarrow> keys_agree E V d'"
  unfolding keys_agree_def map_le_def by (metis domI)

lemma frontier_forget_views:
  assumes "kv_ok (fe_kv E) V" "frontier_forget E key (d, fr) = (r, d', fr')"
  shows "hosts_view V d' = hosts_view V d \<and> pending_view V d' \<subseteq>\<^sub>m pending_view V d"
proof (cases r)
  case (Inl e)
  then have "d' = d \<or> (\<exists>batch. write_batch (fe_kv E) batch d = (Inl e, d'))"
    using assms(2) by (auto simp: frontier_forget_def Let_def split: sum.splits prod.splits)
  then have "V d' = V d" using write_batch_Inl [OF assms(1)] by blast
  then show ?thesis by (simp add: hosts_view_def pending_view_def)
next
  case (Inr u)
  then show ?thesis
    using frontier_forget_Inr(1,2) [OF assms(1), of key d fr u d' fr'] assms(2) by (auto simp: map_le_def)
qed

text \<open>A pop, whatever it answers, changes no host's state and adds nothing to the queue; the host of a
  job it answers was ready.\<close>

lemma pop_loop_views:
  assumes ok: "frontier_env_ok E V" and keys: "keys_agree E V d"
  shows "pop_loop E now mx skip cursor examined (d, fr) = Some (r, d', fr') \<Longrightarrow>
    hosts_view V d' = hosts_view V d \<and> pending_view V d' \<subseteq>\<^sub>m pending_view V d \<and>
    (\<forall>job h. r = Inr (Some job) \<longrightarrow> host_of (fe_url E) (job_url job) = Some h \<longrightarrow> host_ready E now skip d h)"
proof (induction "mx - examined" arbitrary: cursor examined rule: less_induct)
  case less
  note kv = frontier_env_okD(1) [OF ok]
  note step = less.prems [unfolded pop_loop_step [of E now mx skip cursor examined "(d, fr)"]]
  show ?case
  proof (cases "examined < mx \<and> (\<exists>key v rest. pop_scan E d cursor = Inr (key, v) # rest)")
    case False
    then show ?thesis using step by (auto split: if_splits list.splits sum.splits)
  next
    case True
    then obtain key v rest where scan: "pop_scan E d cursor = Inr (key, v) # rest" and more: "examined < mx" by blast
    have "pending_view V d key = Some v" using pop_scan_cases(2) [OF kv scan] by blast
    then obtain h n job where k: "key = frontier_key h n" "list_all host_char h" "decode (fe_job E) v = Inr job"
      "host_of (fe_url E) (job_url job) = Some h" using keys unfolding keys_agree_def by blast
    have h: "frontier_key_host key = Some h" "utf8_lossy h = h"
      using k(1,2) by (simp_all add: frontier_key_host_key host_char_no_zero host_char_utf8 host_char_lossy)
    have next_host: ?thesis if "pop_loop E now mx skip (Some (cursor_after h)) (examined + 1) (d, fr) = Some (r, d', fr')"
      using less.hyps [OF _ that] more by simp
    have taken: ?thesis if "frontier_forget E key (d, fr) = (x, d', fr')" "\<forall>job'. r = Inr (Some job') \<longrightarrow> job' = job"
      "host_ready E now skip d h" for x
    proof (intro conjI allI impI)
      show "hosts_view V d' = hosts_view V d" "pending_view V d' \<subseteq>\<^sub>m pending_view V d"
        using frontier_forget_views [OF kv that(1)] by blast+
      fix job' h'
      assume "r = Inr (Some job')" and h': "host_of (fe_url E) (job_url job') = Some h'"
      then have "job' = job" using that(2) by blast
      then show "host_ready E now skip d h'" using h' k(4) that(3) by simp
    qed
    show ?thesis
    proof (cases "skip h")
      case True
      then show ?thesis using next_host step more scan h by simp
    next
      case False
      note here = step scan
      show ?thesis
      proof (cases "host_state_of E d h")
        case (Inl e)
        then have "r = Inl e" "d' = d" using here more h False by auto
        then show ?thesis by simp
      next
        case (Inr st)
        let ?st = "case st of None \<Rightarrow> host_state_default | Some st \<Rightarrow> st"
        show ?thesis
        proof (cases "now < next_allowed_at_ms ?st")
          case True
          then show ?thesis using next_host here more h False Inr by simp
        next
          case ready: False
          then have fit: "host_ready E now skip d h" using Inr False by (simp add: host_ready_def)
          obtain x d1 fr1 where f: "frontier_forget E key (d, fr) = (x, d1, fr1)" by (metis prod.exhaust)
          have "r = (case x of Inl e \<Rightarrow> Inl e | Inr _ \<Rightarrow> Inr (Some job)) \<and> d1 = d' \<and> fr1 = fr'"
            using here more h False Inr ready k(3) f by (cases x) simp_all
          then show ?thesis by (intro taken [of x]) (use f fit in \<open>simp_all split: sum.split\<close>)
        qed
      qed
    qed
  qed
qed

lemma pop_ready_views:
  assumes "frontier_env_ok E V" "keys_agree E V d" "pop_ready E now mx skip (d, fr) = Some (r, d', fr')"
  shows "hosts_view V d' = hosts_view V d" "pending_view V d' \<subseteq>\<^sub>m pending_view V d"
    "r = Inr (Some job) \<Longrightarrow> host_of (fe_url E) (job_url job) = Some h \<Longrightarrow> host_ready E now skip d h"
  using pop_loop_views [OF assms(1,2), of now mx skip None 0 fr r d' fr'] assms(3)
  by (auto simp: pop_ready_def split: sum.splits)

text \<open>A push leaves the states of the known hosts alone, whether it succeeds or not.\<close>

lemma push_batch_hosts:
  assumes "push_batch E d fr job h new = Inr batch" "new \<Longrightarrow> m CfFrontierHosts (utf8 h) = None"
  shows "m CfFrontierHosts \<subseteq>\<^sub>m apply_ops batch m CfFrontierHosts"
  using assms by (auto simp: push_batch_def and_then_Inr_iff db_cf_def Let_def map_le_def split: if_splits)

lemma frontier_push_views:
  assumes env: "frontier_env_ok E V" and keys: "keys_agree E V d" and run: "frontier_push E job (d, fr) = (r, d', fr')"
  shows "hosts_view V d \<subseteq>\<^sub>m hosts_view V d'" "keys_agree E V d'"
proof -
  note ok = frontier_env_okD [OF env]
  have "hosts_view V d \<subseteq>\<^sub>m hosts_view V d' \<and> keys_agree E V d'"
  proof (cases r)
    case (Inl e)
    then have "V d' = V d" using frontier_push_failed [OF ok(1)] run by blast
    then show ?thesis using keys by (simp add: hosts_view_def pending_view_def keys_agree_def)
  next
    case (Inr u)
    obtain h st batch where p: "host_of (fe_url E) (job_url job) = Some h" "host_state_of E d h = Inr st"
      "push_batch E d fr' job h (st = None) = Inr batch" "write_batch (fe_kv E) batch d = (Inr u, d')"
      by (rule frontier_push_steps [OF run [unfolded Inr]])
    have w: "V d' = apply_ops batch (V d)" by (rule write_batch_Inr [OF ok(1) p(4)])
    have "st = None \<Longrightarrow> V d CfFrontierHosts (utf8 h) = None"
      using host_state_of_Inr(1) [OF ok(1) p(2)] by (simp add: hosts_view_def)
    then have "V d CfFrontierHosts \<subseteq>\<^sub>m apply_ops batch (V d) CfFrontierHosts" by (rule push_batch_hosts [OF p(3)])
    then have H: "hosts_view V d \<subseteq>\<^sub>m hosts_view V d'" by (simp add: hosts_view_def w)
    obtain v where v: "encode (fe_job E) job = Inr v"
      "pending_view V d' = (pending_view V d)(frontier_key h (fr_sequence fr') \<mapsto> v)"
      using push_batch_Inr [OF p(3), of "V d"] by (metis w pending_view_def)
    have "decode (fe_job E) v = Inr job" using v(1) ok(2) by (simp add: codec_ok_def)
    then have "keys_agree E V d'"
      using keys p(1) host_of_chars [OF ok(4) p(1)] unfolding keys_agree_def v(2) by (auto split: if_splits)
    then show ?thesis using H by blast
  qed
  then show "hosts_view V d \<subseteq>\<^sub>m hosts_view V d'" "keys_agree E V d'" by blast+
qed

lemma utf8_inj: "list_all is_scalar s \<Longrightarrow> list_all is_scalar t \<Longrightarrow> utf8 s = utf8 t \<Longrightarrow> s = t"
  unfolding list_all_iff by (metis utf8_lossy_utf8)

lemma not_before_mono: "not_before E V h until d \<Longrightarrow> hosts_view V d \<subseteq>\<^sub>m hosts_view V d' \<Longrightarrow> not_before E V h until d'"
  unfolding not_before_def map_le_def by (metis domI)

lemma defer_host_views:
  assumes "frontier_env_ok E V" "defer_host E h until fetched d = (r, d')"
  shows "pending_view V d' = pending_view V d" "r = Inr u \<Longrightarrow> not_before E V h until d'"
    "\<lbrakk> list_all is_scalar g; list_all is_scalar h; h \<noteq> g \<or> t \<le> until; not_before E V g t d \<rbrakk> \<Longrightarrow> not_before E V g t d'"
proof -
  note ok = frontier_env_okD [OF assms(1)]
  let ?st = "\<lparr> next_allowed_at_ms = until, last_fetched_at_ms = fetched \<rparr>"
  have "V d' = V d" if "r = Inl e" for e
    using assms(2) that db_put_Inl [OF ok(1)]
    by (auto simp: defer_host_def set_host_state_def map_err_def split: sum.splits)
  then have failed: "pending_view V d' = pending_view V d" "hosts_view V d' = hosts_view V d" if "r = Inl e" for e
    using that by (simp_all add: pending_view_def hosts_view_def)
  have done': "\<exists>v. decode (fe_host E) v = Inr ?st \<and> hosts_view V d' = (hosts_view V d)(utf8 h \<mapsto> v) \<and>
      pending_view V d' = pending_view V d" if "r = Inr u" for u
    using defer_host_Inr [OF ok(1) assms(2) [unfolded that]] ok(3) by (metis codec_ok_def)
  show "pending_view V d' = pending_view V d" using failed(1) done' by (cases r) auto
  show "r = Inr u \<Longrightarrow> not_before E V h until d'" using done' by (fastforce simp: not_before_def)
  assume g: "list_all is_scalar g" "list_all is_scalar h" "h \<noteq> g \<or> t \<le> until" "not_before E V g t d"
  show "not_before E V g t d'"
  proof (cases r)
    case (Inl e)
    then show ?thesis using g(4) failed(2) by (simp add: not_before_def)
  next
    case (Inr u)
    obtain v where v: "decode (fe_host E) v = Inr ?st" "hosts_view V d' = (hosts_view V d)(utf8 h \<mapsto> v)"
      using done' [OF Inr] by blast
    have inj: "h = g" if "utf8 h = utf8 g"
      using utf8_inj [OF g(2,1) that] .
    show ?thesis
    proof (cases "utf8 h = utf8 g")
      case True
      have "t \<le> until" using g(3) inj [OF True] by blast
      moreover have "hosts_view V d' (utf8 g) = Some v" unfolding v(2) by (simp add: True)
      ultimately show ?thesis unfolding not_before_def using v(1) by (intro exI [of _ v] exI [of _ ?st]) simp
    next
      case False
      then have "hosts_view V d' (utf8 g) = hosts_view V d (utf8 g)" unfolding v(2) by simp
      then show ?thesis using g(4) by (simp only: not_before_def)
    qed
  qed
qed

text \<open>What may follow the deferral of the host \<open>h\<close>: pushes, pops at any time, deferrals, of \<open>h\<close> itself
  only to a later time, and restarts of the frontier, each with any result. The list holds the jobs
  popped, with the times of the pops.\<close>

inductive later_ops ::
    "('u, 'd) frontier_env \<Rightarrow> rstr \<Rightarrow> int \<Rightarrow> 'd \<times> frontier \<Rightarrow> (int \<times> crawl_job) list \<Rightarrow> 'd \<times> frontier \<Rightarrow> bool"
  for E h until s where
  no_op: "later_ops E h until s [] s"
| push_op: "later_ops E h until s outs s1 \<Longrightarrow> frontier_push E job s1 = (r, s2) \<Longrightarrow> later_ops E h until s outs s2"
| pop_op: "later_ops E h until s outs s1 \<Longrightarrow> pop_ready E now mx skip s1 = Some (r, s2) \<Longrightarrow>
    later_ops E h until s (case r of Inr (Some job) \<Rightarrow> outs @ [(now, job)] | _ \<Rightarrow> outs) s2"
| defer_op: "later_ops E h until s outs s1 \<Longrightarrow> list_all is_scalar h' \<Longrightarrow> h' \<noteq> h \<or> until \<le> until' \<Longrightarrow>
    defer_host E h' until' fetched (fst s1) = (r, d2) \<Longrightarrow> later_ops E h until s outs (d2, snd s1)"
| reopen_op: "later_ops E h until s outs s1 \<Longrightarrow> frontier_open E (fst s1) = (Inr fr, d2) \<Longrightarrow>
    later_ops E h until s outs (d2, fr)"

lemma not_ready_before:
  assumes "kv_ok (fe_kv E) V" "not_before E V h until d" "now < until"
  shows "\<not> host_ready E now skip d h"
proof
  assume "host_ready E now skip d h"
  then obtain st where st: "host_state_of E d h = Inr st"
    "next_allowed_at_ms (case st of None \<Rightarrow> host_state_default | Some st \<Rightarrow> st) \<le> now"
    by (auto simp: host_ready_def split: sum.splits)
  obtain v st' where "hosts_view V d (utf8 h) = Some v" "decode (fe_host E) v = Inr st'" "until \<le> next_allowed_at_ms st'"
    using assms(2) by (auto simp: not_before_def)
  then have "st = Some st'" using host_state_of_Inr [OF assms(1) st(1)] by (cases st) auto
  then show False using st(2) assms(3) \<open>until \<le> next_allowed_at_ms st'\<close> by simp
qed

lemma later_ops_keep:
  assumes env: "frontier_env_ok E V" and h: "list_all host_char h"
    and "later_ops E h until s outs s'" "keys_agree E V (fst s)" "not_before E V h until (fst s)"
  shows "keys_agree E V (fst s') \<and> not_before E V h until (fst s') \<and>
    (\<forall>(now, job) \<in> set outs. now < until \<longrightarrow> host_of (fe_url E) (job_url job) \<noteq> Some h)"
  using assms(3-5)
proof (induction rule: later_ops.induct)
  case no_op
  then show ?case by simp
next
  case (push_op outs s1 job r s2)
  then show ?case
    using frontier_push_views [OF env, of "fst s1" job "snd s1" r "fst s2" "snd s2"] not_before_mono by auto
next
  case (pop_op outs s1 now mx skip r s2)
  then have IH: "keys_agree E V (fst s1)" "not_before E V h until (fst s1)" by blast+
  note p = pop_ready_views [OF env IH(1), of now mx skip "snd s1" r "fst s2" "snd s2"]
  have "keys_agree E V (fst s2)" "not_before E V h until (fst s2)"
    using p(1,2) pop_op.hyps(2) keys_agree_mono [OF IH(1)] not_before_mono [OF IH(2)] by (simp_all add: map_le_def)
  moreover have "host_of (fe_url E) (job_url job) \<noteq> Some h" if "r = Inr (Some job)" "now < until" for job
    using p(3) [OF _ that(1), of h] pop_op.hyps(2) not_ready_before [OF frontier_env_okD(1) [OF env] IH(2) that(2)] by auto
  ultimately show ?case using pop_op by (auto split: sum.splits option.splits)
next
  case (defer_op outs s1 h' until' fetched r d2)
  note d = defer_host_views [OF env defer_op.hyps(4)]
  have "list_all is_scalar h" using h by (auto simp: list_all_iff host_char_def is_scalar_def)
  then have "not_before E V h until d2" using d(3) defer_op by blast
  moreover have "keys_agree E V d2" using d(1) defer_op by (simp add: keys_agree_def)
  ultimately show ?case using defer_op by simp
next
  case (reopen_op outs s1 fr d2)
  then show ?case
    using frontier_open_Inr(4,5) [OF frontier_env_okD(1) [OF env] reopen_op.hyps(2)]
    by (simp add: keys_agree_def not_before_def)
qed

text \<open>C17: a deferred host is left alone: once a host is deferred until a time, then whatever pushes,
  pops, deferrals of other hosts and restarts follow, successful or not, no pop before that time
  returns a job of that host, unless the host itself is deferred anew, to an earlier time.\<close>

theorem deferred_host_not_popped:
  assumes "frontier_env_ok E V" "frontier_inv E V (d, fr)" "defer_host E h until fetched d = (Inr u, d')"
    and "later_ops E h until (d', fr) outs s'"
  shows "\<forall>(now, job) \<in> set outs. now < until \<longrightarrow> host_of (fe_url E) (job_url job) \<noteq> Some h"
proof (cases "list_all host_char h")
  case True
  note d = defer_host_views [OF assms(1,3)]
  have "keys_agree E V d'" using frontier_inv_keys [OF assms(2)] d(1) by (simp add: keys_agree_def)
  then show ?thesis using later_ops_keep [OF assms(1) True assms(4)] d(2) by simp
next
  case False
  then show ?thesis using host_of_chars [OF frontier_env_okD(4) [OF assms(1)]] by blast
qed

definition mini_job2 :: crawl_job where
  "mini_job2 = \<lparr> job_url = str ''http://a.a/'', job_depth = 0 \<rparr>"

definition mini_pushed2 :: "mini_db \<times> frontier" where
  "mini_pushed2 =
     ([((CfMeta, meta_host_count), be_bytes 8 2), ((CfFrontierHosts, str ''a.a''), [0, 0]),
       ((CfMeta, meta_pending_count), be_bytes 8 2), ((CfMeta, meta_frontier_seq), be_bytes 8 2),
       ((CfFrontierPending, frontier_key (str ''a.a'') 2), 0 # str ''http://a.a/'')] @ fst mini_pushed,
      \<lparr> fr_sequence = 2, fr_pending = 2, fr_hosts = 2 \<rparr>)"

lemma mini_pushed2_inv: "frontier_inv mini_frontier_env mini_view mini_pushed2"
proof -
  have "frontier_push mini_frontier_env mini_job2 mini_pushed = (Inr (), mini_pushed2)"
    by (simp add: frontier_push_def mini_pushed_def Let_def) code_simp
  then show ?thesis
    using frontier_push_jobs [OF mini_frontier_env_ok mini_pushed_inv]
    by (simp add: frontier_room_def mini_pushed_def u64_max_def)
qed

definition mini_deferred :: mini_db where
  "mini_deferred = ((CfFrontierHosts, str ''a.a''), [200, 0]) # fst mini_pushed2"

lemma mini_defer: "defer_host mini_frontier_env (str ''a.a'') 100 0 (fst mini_pushed2) = (Inr (), mini_deferred)"
  by (simp add: defer_host_def set_host_state_def mini_frontier_env_def mini_host_codec_def zig_def db_put_def
      db_cf_def mini_kv_def mini_deferred_def utf8_ascii)

definition mini_deferred3 :: "mini_db \<times> frontier" where
  "mini_deferred3 =
     ([((CfMeta, meta_pending_count), be_bytes 8 3), ((CfMeta, meta_frontier_seq), be_bytes 8 3),
       ((CfFrontierPending, frontier_key (str ''a.a'') 3), 0 # str ''http://a.a/'')] @ mini_deferred,
      \<lparr> fr_sequence = 3, fr_pending = 3, fr_hosts = 2 \<rparr>)"

lemma mini_push3: "frontier_push mini_frontier_env mini_job2 (mini_deferred, snd mini_pushed2) = (Inr (), mini_deferred3)"
  by (simp add: frontier_push_def mini_deferred3_def Let_def) code_simp

lemma mini_deferred_pop:
  "\<exists>s'. pop_ready mini_frontier_env 5 8 (\<lambda>_. False) mini_deferred3 =
     Some (Inr (Some mini_job1), s')"
proof -
  let ?E = mini_frontier_env and ?s = "mini_deferred3"
  let ?v = "2 # str ''http://b.c/x''"
  obtain s' where f: "frontier_forget ?E mini_key1 ?s = (Inr (), s')"
  proof -
    have "fst (frontier_forget ?E mini_key1 ?s) = Inr ()" by code_simp
    then show ?thesis using that by (metis prod.collapse)
  qed
  have "pop_scan ?E (fst mini_deferred3) None =
      [Inr (frontier_key (str ''a.a'') 2, 0 # str ''http://a.a/''),
       Inr (frontier_key (str ''a.a'') 3, 0 # str ''http://a.a/''), Inr (mini_key1, ?v)]"
    "pop_scan ?E (fst mini_deferred3) (Some (cursor_after (str ''a.a''))) = [Inr (mini_key1, ?v)]"
    "frontier_key_host (frontier_key (str ''a.a'') 2) = Some (str ''a.a'')"
    "frontier_key_host mini_key1 = Some (str ''b.c'')" "utf8_lossy (str ''b.c'') = str ''b.c''"
    "utf8_lossy (str ''a.a'') = str ''a.a''"
    "host_state_of ?E (fst mini_deferred3) (str ''b.c'') = Inr (Some host_state_default)"
    "decode (fe_job ?E) ?v = Inr mini_job1" "next_allowed_at_ms host_state_default = 0"
    "db_cf (fe_kv ?E) (fst mini_deferred3) CfFrontierPending = Inr CfFrontierPending"
    by code_simp+
  moreover have "host_state_of ?E (fst mini_deferred3) (str ''a.a'') =
      Inr (Some \<lparr> next_allowed_at_ms = 100, last_fetched_at_ms = 0 \<rparr>)"
    by (simp add: host_state_of_def mini_deferred3_def mini_deferred_def mini_frontier_env_def mini_host_codec_def unzig_def
        db_get_def db_cf_def mini_kv_def utf8_ascii)
  ultimately show ?thesis using f by (simp add: pop_ready_def pop_loop_step del: str_simps)
qed

text \<open>After the deferral another URL of the host is pushed; the pop takes the job of the other host.\<close>

theorem deferred_host_not_popped_witness:
  "\<exists>s s'. frontier_push mini_frontier_env mini_job2 (mini_deferred, snd mini_pushed2) = (Inr (), s) \<and>
     pop_ready mini_frontier_env 5 8 (\<lambda>_. False) s = Some (Inr (Some mini_job1), s') \<and>
     host_of (fe_url mini_frontier_env) (job_url mini_job1) \<noteq> Some (str ''a.a'')"
proof -
  obtain s' where pop: "pop_ready mini_frontier_env 5 8 (\<lambda>_. False) mini_deferred3 = Some (Inr (Some mini_job1), s')"
    using mini_deferred_pop by blast
  have inv: "frontier_inv mini_frontier_env mini_view (fst mini_pushed2, snd mini_pushed2)"
    using mini_pushed2_inv by simp
  note run = later_ops.pop_op [OF later_ops.push_op [OF later_ops.no_op mini_push3] pop]
  from deferred_host_not_popped [OF mini_frontier_env_ok inv mini_defer run [of "str ''a.a''" 100]] mini_push3 pop
  show ?thesis by auto
qed

text \<open>C16: a restart is exact: whatever a push did, succeed or fail half way with its counters
  already advanced, opening the frontier again yields counters that agree with the database, the
  queue holds the old jobs and, after a success, the new one, and no sequence number it used is
  given out again.\<close>

theorem frontier_restart_exact:
  assumes "frontier_env_ok E V" "frontier_inv E V (d, fr)" "frontier_room (d, fr)"
    and "frontier_push E job (d, fr) = (r, d', fr')" "frontier_open E d' = (Inr fr'', d'')"
  shows "frontier_inv E V (d'', fr'') \<and>
     frontier_jobs E V (d'', fr'') =
       (case r of Inl _ \<Rightarrow> frontier_jobs E V (d, fr) | Inr _ \<Rightarrow> add_mset job (frontier_jobs E V (d, fr))) \<and>
     fr_sequence fr'' = (case r of Inl _ \<Rightarrow> fr_sequence fr | Inr _ \<Rightarrow> fr_sequence fr')"
proof -
  note ok = frontier_env_okD [OF assms(1)]
  note op = frontier_open_Inr [OF ok(1) assms(5)]
  have same: "frontier_jobs E V (d'', fr'') = frontier_jobs E V (d', x)" for x
    by (simp add: frontier_jobs_def op(4))
  show ?thesis
  proof (cases r)
    case (Inl e)
    then have "V d' = V d" using frontier_push_failed [OF ok(1)] assms(4) by blast
    then have "frontier_db_ok E V d'" "stored_sequence V d' = fr_sequence fr"
      "frontier_jobs E V (d', fr) = frontier_jobs E V (d, fr)"
      using assms(2) frontier_invD(5) [OF assms(2)]
      by (simp_all add: frontier_inv_def frontier_db_ok_def pending_view_def hosts_view_def
          stored_sequence_def frontier_jobs_def)
    then show ?thesis using Inl frontier_open_inv [OF ok(1) _ assms(5)] op(1) same by simp
  next
    case (Inr u)
    then have p: "frontier_inv E V (d', fr')" "frontier_jobs E V (d', fr') = add_mset job (frontier_jobs E V (d, fr))"
      using frontier_push_jobs [OF assms(1-3)] assms(4) by auto
    then have "frontier_db_ok E V d'" by (simp add: frontier_inv_def)
    then show ?thesis
      using Inr frontier_open_inv [OF ok(1) _ assms(5)] op(1) same [of fr'] p frontier_invD(5) [OF p(1)] by simp
  qed
qed

theorem frontier_restart_exact_witness:
  "\<exists>fr d. frontier_open mini_frontier_env (fst mini_pushed) = (Inr fr, d) \<and>
     frontier_jobs mini_frontier_env mini_view (d, fr) =
     add_mset mini_job1 (frontier_jobs mini_frontier_env mini_view empty_frontier) \<and> fr_sequence fr = 1"
proof -
  let ?E = mini_frontier_env
  have "fst (frontier_open ?E (fst mini_pushed)) = Inr \<lparr> fr_sequence = 1, fr_pending = 1, fr_hosts = 1 \<rparr>"
    by code_simp
  then obtain fr d where o: "frontier_open ?E (fst mini_pushed) = (Inr fr, d)"
    by (metis prod.collapse)
  have inv: "frontier_inv ?E mini_view (fst empty_frontier, snd empty_frontier)"
    and room: "frontier_room (fst empty_frontier, snd empty_frontier)"
    using empty_frontier_inv by (simp_all add: frontier_room_def empty_frontier_def u64_max_def)
  have "frontier_push ?E mini_job1 (fst empty_frontier, snd empty_frontier) =
      (Inr (), fst mini_pushed, snd mini_pushed)" using mini_push by simp
  from frontier_restart_exact [OF mini_frontier_env_ok inv room this o]
  show ?thesis using o by (simp add: mini_pushed_def)
qed

end
