(* ===== verification/Robots_Cache.thy ===== *)
theory Robots_Cache
  imports Robots Frontier
begin

text \<open>
  The TTL cache of \<open>crates/crawler/src/robots.rs\<close>: the rules of a host, kept in the crawler's
  database with the time they were fetched and how long they stay fresh. The stored value is a
  postcard encoding, a codec here.
\<close>

record robots_entry =
  re_rules :: robots_rules
  re_fetched_at_ms :: int
  re_ttl_ms :: int

definition cache_get ::
    "'d kv_api \<Rightarrow> robots_entry codec \<Rightarrow> 'd \<Rightarrow> rstr \<Rightarrow> int \<Rightarrow> crawl_error + robots_rules option" where
  "cache_get K C d host now_ms =
     and_then (db_get K d CfRobots (utf8 host)) (\<lambda>v.
       case v of
         None \<Rightarrow> Inr None
       | Some bs \<Rightarrow>
           (case decode C bs of
              Inl _ \<Rightarrow> Inr None
            | Inr entry \<Rightarrow>
                if re_ttl_ms entry < sat_sub_i64 now_ms (re_fetched_at_ms entry)
                then Inr None else Inr (Some (re_rules entry))))"

definition cache_put_for ::
    "'d kv_api \<Rightarrow> robots_entry codec \<Rightarrow> rstr \<Rightarrow> robots_rules \<Rightarrow> int \<Rightarrow> int \<Rightarrow> 'd \<Rightarrow>
     (crawl_error + unit) \<times> 'd" where
  "cache_put_for K C host rules now_ms ttl_ms d =
     (case map_err CacheEncode
             (encode C \<lparr> re_rules = rules, re_fetched_at_ms = now_ms, re_ttl_ms = ttl_ms \<rparr>) of
        Inl e \<Rightarrow> (Inl e, d)
      | Inr bs \<Rightarrow> db_put K CfRobots (utf8 host) bs d)"

definition cache_put ::
    "'d kv_api \<Rightarrow> robots_entry codec \<Rightarrow> rstr \<Rightarrow> robots_rules \<Rightarrow> int \<Rightarrow> 'd \<Rightarrow> (crawl_error + unit) \<times> 'd" where
  "cache_put K C host rules now_ms d = cache_put_for K C host rules now_ms cache_ttl_ms d"

definition cache_len :: "'d kv_api \<Rightarrow> 'd \<Rightarrow> crawl_error + nat" where
  "cache_len K d = count_estimate K d CfRobots"

definition cache_is_empty :: "'d kv_api \<Rightarrow> 'd \<Rightarrow> crawl_error + bool" where
  "cache_is_empty K d = and_then (cache_len K d) (\<lambda>n. Inr (n = 0))"

text \<open>The entry a view holds for a host, when it decodes.\<close>

definition cached_entry ::
    "robots_entry codec \<Rightarrow> 'd kv_view \<Rightarrow> 'd \<Rightarrow> rstr \<Rightarrow> robots_entry option" where
  "cached_entry C V d host =
     (case V d CfRobots (utf8 host) of
        None \<Rightarrow> None
      | Some bs \<Rightarrow> (case decode C bs of Inl _ \<Rightarrow> None | Inr entry \<Rightarrow> Some entry))"

lemma cache_get_Inr:
  assumes "kv_ok K V" "cache_get K C d host now = Inr r"
  shows "r = (case cached_entry C V d host of
      None \<Rightarrow> None
    | Some e \<Rightarrow> if re_ttl_ms e < sat_sub_i64 now (re_fetched_at_ms e) then None else Some (re_rules e))"
proof -
  obtain v where v: "db_get K d CfRobots (utf8 host) = Inr v"
    using assms(2) by (auto simp: cache_get_def and_then_Inr_iff)
  then have "V d CfRobots (utf8 host) = v" using db_get_Inr [OF assms(1)] by blast
  then show ?thesis
    using assms(2) v by (auto simp: cache_get_def cached_entry_def split: option.splits sum.splits if_splits)
qed

lemma cache_put_for_Inr:
  assumes "kv_ok K V" "codec_ok C" "cache_put_for K C host rules now ttl d = (Inr u, d')"
  shows "cached_entry C V d' h =
      (if utf8 h = utf8 host
       then Some \<lparr> re_rules = rules, re_fetched_at_ms = now, re_ttl_ms = ttl \<rparr>
       else cached_entry C V d h)"
    and "c \<noteq> CfRobots \<Longrightarrow> V d' c = V d c"
proof -
  obtain bs where bs: "encode C \<lparr> re_rules = rules, re_fetched_at_ms = now, re_ttl_ms = ttl \<rparr> = Inr bs"
    "db_put K CfRobots (utf8 host) bs d = (Inr u, d')"
    using assms(3) by (auto simp: cache_put_for_def map_err_def split: sum.splits)
  have V: "V d' = (V d)(CfRobots := (V d CfRobots)(utf8 host \<mapsto> bs))"
    using db_put_Inr [OF assms(1) bs(2)] .
  have "decode C bs = Inr \<lparr> re_rules = rules, re_fetched_at_ms = now, re_ttl_ms = ttl \<rparr>"
    using assms(2) bs(1) by (simp add: codec_ok_def)
  then show "cached_entry C V d' h =
      (if utf8 h = utf8 host
       then Some \<lparr> re_rules = rules, re_fetched_at_ms = now, re_ttl_ms = ttl \<rparr>
       else cached_entry C V d h)"
    by (simp add: cached_entry_def V)
  show "c \<noteq> CfRobots \<Longrightarrow> V d' c = V d c" by (simp add: V)
qed

text \<open>Rules stored for a host with a lifetime are what a lookup of the host returns until
  the lifetime has passed, and nothing is returned after it; lookups of other hosts, and the
  frontier's part of the database, are as before.\<close>

theorem robots_cache_lifetime:
  assumes "kv_ok K V" "codec_ok C" "cache_put_for K C host rules now ttl d = (Inr u, d')"
    and "cache_get K C d' h t = Inr r" "cache_get K C d h t = Inr r0"
  shows "r = (if utf8 h = utf8 host
              then (if ttl < sat_sub_i64 t now then None else Some rules)
              else r0) \<and>
     V d' CfFrontierPending = V d CfFrontierPending \<and> V d' CfFrontierHosts = V d CfFrontierHosts"
  using cache_get_Inr [OF assms(1,4)] cache_get_Inr [OF assms(1,5)] cache_put_for_Inr [OF assms(1-3)]
  by auto

definition toy_entry_codec :: "robots_entry codec" where
  "toy_entry_codec =
     \<lparr> encode = (\<lambda>e. if e = \<lparr> re_rules = disallow_all, re_fetched_at_ms = 1, re_ttl_ms = 10 \<rparr>
                    then Inr [7] else Inl ''unsupported''),
       decode = (\<lambda>bs. if bs = [7] then Inr \<lparr> re_rules = disallow_all, re_fetched_at_ms = 1, re_ttl_ms = 10 \<rparr>
                     else Inl ''unsupported'') \<rparr>"

theorem robots_cache_lifetime_witness:
  "cache_get mini_kv toy_entry_codec [((CfRobots, str ''a.b''), [7])] (str ''a.b'') 11 = Inr (Some disallow_all) \<and>
   cache_get mini_kv toy_entry_codec [((CfRobots, str ''a.b''), [7])] (str ''a.b'') 12 = Inr None"
proof -
  let ?d = "[((CfRobots, str ''a.b''), [7])]"
  have ok: "codec_ok toy_entry_codec" by (auto simp: codec_ok_def toy_entry_codec_def)
  have put: "cache_put_for mini_kv toy_entry_codec (str ''a.b'') disallow_all 1 10 [] = (Inr (), ?d)"
    by (simp add: cache_put_for_def toy_entry_codec_def db_put_def db_cf_def mini_kv_def utf8_ascii)
  have get: "cache_get mini_kv toy_entry_codec ?d (str ''a.b'') 11 = Inr (Some disallow_all)"
    "cache_get mini_kv toy_entry_codec ?d (str ''a.b'') 12 = Inr None"
    "cache_get mini_kv toy_entry_codec [] (str ''a.b'') t = Inr None" for t
    by (simp_all add: cache_get_def toy_entry_codec_def db_get_def db_cf_def mini_kv_def utf8_ascii
        sat_sub_i64_def i64_min_def i64_max_def)
  show ?thesis
    using robots_cache_lifetime [OF mini_kv_ok ok put get(1) get(3)]
      robots_cache_lifetime [OF mini_kv_ok ok put get(2) get(3)] get by simp
qed

end
