(* ===== verification/Fetcher.thy ===== *)
theory Fetcher
  imports Crawl_Error
begin

text \<open>
  \<open>crates/crawler/src/fetcher.rs\<close>: one attempt at a URL, the retry loop and the decoding of a
  body.

  The network and the clock are the world \<open>'w\<close>: \<open>http_get\<close> of \<open>reqwest\<close> yields a transport
  answer, \<open>now_nanos\<close> reads the clock. Delays the loop sleeps for are returned in order. The
  gzip decoder, the character encodings and the xxh3 hash are third-party functions: parameters
  in the record \<open>fetch_env\<close>. Building the client, with its pool, headers and timeouts, is not
  modelled.
\<close>

record fetch_config =
  fc_timeout_ms :: nat
  fc_connect_timeout_ms :: nat
  fc_max_retries :: nat
  fc_max_concurrent_per_host :: nat
  fc_user_agent :: rstr
  fc_backoff_base_ms :: nat
  fc_backoff_cap_ms :: nat
  fc_max_body_bytes :: nat
  fc_accept :: rstr
  fc_accept_language :: rstr

definition fetch_config_default :: "rstr \<Rightarrow> fetch_config" where
  "fetch_config_default version =
     \<lparr> fc_timeout_ms = 10000, fc_connect_timeout_ms = 5000, fc_max_retries = 3,
       fc_max_concurrent_per_host = 2, fc_user_agent = str ''MJLsearchBot/'' @ version,
       fc_backoff_base_ms = 250, fc_backoff_cap_ms = 30000, fc_max_body_bytes = 8 * 1024 * 1024,
       fc_accept = str ''text/html,application/xhtml+xml,application/xml;q=0.9,*/*;q=0.8'',
       fc_accept_language = str ''en;q=0.9,*;q=0.5'' \<rparr>"

definition gzip_magic :: "nat list" where
  "gzip_magic = [31, 139]"

record fetched_page =
  fp_final_url :: rstr
  fp_status :: nat
  fp_content_type :: "rstr option"
  fp_body :: rstr

section \<open>Pure parts\<close>

text \<open>\<open>1u64.checked_shl(shift)\<close> is defined for every shift the code computes.\<close>

definition backoff_ms :: "nat \<Rightarrow> nat \<Rightarrow> nat \<Rightarrow> nat" where
  "backoff_ms attempt base_ms cap_ms = min (sat_mul_u64 base_ms (2 ^ min attempt 63)) cap_ms"

definition jitter_ms :: "(nat list \<Rightarrow> nat) \<Rightarrow> rstr \<Rightarrow> nat \<Rightarrow> nat \<Rightarrow> nat" where
  "jitter_ms H url attempt nanos =
     content_hash H (url @ str '':'' @ show_nat attempt @ str '':'' @ show_nat nanos) mod 250"

definition is_retryable_status :: "nat \<Rightarrow> bool" where
  "is_retryable_status status \<longleftrightarrow> status = 429 \<or> (500 \<le> status \<and> status < 600)"

definition is_html_content_type :: "rstr option \<Rightarrow> bool" where
  "is_html_content_type content_type =
     (case content_type of
        None \<Rightarrow> True
      | Some v \<Rightarrow> contains_str (str ''html'') (to_ascii_lowercase v) \<or>
                  contains_str (str ''xml'') (to_ascii_lowercase v))"

definition parse_retry_after :: "rstr \<Rightarrow> nat option" where
  "parse_retry_after v = map_option (\<lambda>s. sat_mul_u64 s 1000) (parse_u64 (trim v))"

definition charset_of :: "rstr option \<Rightarrow> rstr option" where
  "charset_of content_type =
     (case content_type of
        None \<Rightarrow> None
      | Some v \<Rightarrow>
          (case find_str (str ''charset='') (to_ascii_lowercase v) of
             None \<Rightarrow> None
           | Some i \<Rightarrow>
               (let rest = drop (i + 8) v;
                    label = trim_matches (\<lambda>c. c = ch CHR ''\"'' \<or> c = 39)
                      (trim (takeWhile (\<lambda>c. \<not> (c = ch CHR '';'' \<or> c = 32 \<or> c = 9)) rest))
                in if label = [] then None else Some (to_ascii_lowercase label))))"

section \<open>One attempt\<close>

text \<open>What \<open>reqwest\<close> answers: an error before a response, with \<open>is_timeout || is_connect ||
  is_request\<close> and its chain of causes, or a response whose body arrives in chunks and may break
  off. A header that is not valid text is absent.\<close>

record http_response =
  resp_status :: nat
  resp_url :: rstr
  resp_content_type :: "rstr option"
  resp_retry_after :: "rstr option"
  resp_content_length :: "nat option"
  resp_chunks :: "nat list list"
  resp_broken :: "(rstr \<times> rstr list) option"

datatype transport = SendFailed bool rstr "rstr list" | Responded http_response

record failure =
  fail_error :: crawl_error
  fail_retryable :: bool
  fail_retry_after_ms :: "nat option"

definition failure_terminal :: "crawl_error \<Rightarrow> failure" where
  "failure_terminal e = \<lparr> fail_error = e, fail_retryable = False, fail_retry_after_ms = None \<rparr>"

definition failure_transient :: "crawl_error \<Rightarrow> failure" where
  "failure_transient e = \<lparr> fail_error = e, fail_retryable = True, fail_retry_after_ms = None \<rparr>"

record 'w fetch_env =
  fn_get :: "rstr \<Rightarrow> 'w \<Rightarrow> transport \<times> 'w"
  fn_nanos :: "'w \<Rightarrow> nat \<times> 'w"
  fn_hash :: "nat list \<Rightarrow> nat"
  fn_gunzip :: "nat list \<Rightarrow> nat \<Rightarrow> nat list option"
  fn_encoding :: "rstr \<Rightarrow> (nat list \<Rightarrow> rstr) option"

definition retry_after_ms :: "http_response \<Rightarrow> nat option" where
  "retry_after_ms resp = Option.bind (resp_retry_after resp) parse_retry_after"

fun read_chunks :: "nat \<Rightarrow> nat list \<Rightarrow> nat list list \<Rightarrow> (rstr \<times> rstr list) option \<Rightarrow> failure + nat list" where
  "read_chunks cap body [] broken =
     (case broken of None \<Rightarrow> Inr body | Some (m, cs) \<Rightarrow> Inl (failure_transient (http_error m cs)))"
| "read_chunks cap body (c # cs) broken =
     (if cap < length body + length c then Inl (failure_terminal (BodyTooLarge cap))
      else read_chunks cap (body @ c) cs broken)"

text \<open>The gzip reader stops at \<open>cap\<close> bytes of output; \<open>None\<close> is a stream it cannot read.\<close>

definition gunzip_if_compressed :: "'w fetch_env \<Rightarrow> nat list \<Rightarrow> nat \<Rightarrow> nat list" where
  "gunzip_if_compressed F body cap =
     (if take 2 body \<noteq> gzip_magic then body
      else case fn_gunzip F body cap of Some expanded \<Rightarrow> expanded | None \<Rightarrow> body)"

definition decode_body :: "'w fetch_env \<Rightarrow> fetch_config \<Rightarrow> nat list \<Rightarrow> rstr option \<Rightarrow> rstr" where
  "decode_body F cfg body content_type =
     (let body = gunzip_if_compressed F body (fc_max_body_bytes cfg)
      in case charset_of content_type of
           None \<Rightarrow> utf8_lossy body
         | Some label \<Rightarrow>
             if label \<in> {str ''utf-8'', str ''utf8'', str ''us-ascii'', str ''ascii''} then utf8_lossy body
             else (case fn_encoding F label of
                     Some dec \<Rightarrow> dec body
                   | None \<Rightarrow> utf8_lossy body))"

definition handle_response ::
    "'w fetch_env \<Rightarrow> fetch_config \<Rightarrow> bool \<Rightarrow> http_response \<Rightarrow> failure + fetched_page" where
  "handle_response F cfg require_html resp =
     (let status = resp_status resp; content_type = resp_content_type resp; cap = fc_max_body_bytes cfg
      in if \<not> (200 \<le> status \<and> status < 300) then
           Inl (if is_retryable_status status
                then \<lparr> fail_error = HttpStatus status, fail_retryable = True,
                       fail_retry_after_ms = retry_after_ms resp \<rparr>
                else failure_terminal (HttpStatus status))
         else if require_html \<and> \<not> is_html_content_type content_type then
           Inl (failure_terminal (UnsupportedContent (case content_type of None \<Rightarrow> [] | Some c \<Rightarrow> c)))
         else if (case resp_content_length resp of Some n \<Rightarrow> cap < n | None \<Rightarrow> False) then
           Inl (failure_terminal (BodyTooLarge cap))
         else and_then (read_chunks cap [] (resp_chunks resp) (resp_broken resp)) (\<lambda>body.
           Inr \<lparr> fp_final_url = resp_url resp, fp_status = status, fp_content_type = content_type,
                 fp_body = decode_body F cfg body content_type \<rparr>))"

definition fetch_attempt ::
    "'w fetch_env \<Rightarrow> fetch_config \<Rightarrow> rstr \<Rightarrow> bool \<Rightarrow> 'w \<Rightarrow> (failure + fetched_page) \<times> 'w" where
  "fetch_attempt F cfg url require_html w =
     (case fn_get F url w of
        (SendFailed retryable m cs, w') \<Rightarrow>
          (Inl (if retryable then failure_transient (http_error m cs)
                else failure_terminal (http_error m cs)), w')
      | (Responded resp, w') \<Rightarrow> (handle_response F cfg require_html resp, w'))"

section \<open>The retry loop\<close>

text \<open>The delay before the next attempt; the plain addition of the jitter wraps.\<close>

definition retry_delay :: "'w fetch_env \<Rightarrow> fetch_config \<Rightarrow> rstr \<Rightarrow> nat \<Rightarrow> nat option \<Rightarrow> nat \<Rightarrow> nat" where
  "retry_delay F cfg url attempt retry_after nanos =
     max (case retry_after of None \<Rightarrow> 0 | Some ms \<Rightarrow> ms)
       (wrap_add_u64 (backoff_ms attempt (fc_backoff_base_ms cfg) (fc_backoff_cap_ms cfg))
          (jitter_ms (fn_hash F) url attempt nanos))"

function fetch_inner ::
    "'w fetch_env \<Rightarrow> fetch_config \<Rightarrow> rstr \<Rightarrow> bool \<Rightarrow> nat \<Rightarrow> 'w \<Rightarrow>
     (crawl_error + fetched_page) \<times> nat list \<times> 'w" where
  "fetch_inner F cfg url require_html attempt w =
     (case fetch_attempt F cfg url require_html w of
        (Inr page, w') \<Rightarrow> (Inr page, [], w')
      | (Inl failure, w') \<Rightarrow>
          if \<not> fail_retryable failure \<or> fc_max_retries cfg \<le> attempt then (Inl (fail_error failure), [], w')
          else if (case fail_retry_after_ms failure of
                     Some requested \<Rightarrow> fc_backoff_cap_ms cfg < requested | None \<Rightarrow> False)
          then (Inl (fail_error failure), [], w')
          else (case fn_nanos F w' of
                  (nanos, w'') \<Rightarrow>
                    (let delay = retry_delay F cfg url attempt (fail_retry_after_ms failure) nanos
                     in case fetch_inner F cfg url require_html (attempt + 1) w'' of
                          (r, delays, w3) \<Rightarrow> (r, delay # delays, w3))))"
  by pat_completeness auto
termination
  by (relation "measure (\<lambda>(F, cfg, url, req, attempt, w). fc_max_retries cfg - attempt)") auto

declare fetch_inner.simps [simp del]

definition fetch :: "'w fetch_env \<Rightarrow> fetch_config \<Rightarrow> rstr \<Rightarrow> 'w \<Rightarrow> (crawl_error + fetched_page) \<times> nat list \<times> 'w" where
  "fetch F cfg url w = fetch_inner F cfg url True 0 w"

definition fetch_text :: "'w fetch_env \<Rightarrow> fetch_config \<Rightarrow> rstr \<Rightarrow> 'w \<Rightarrow> (crawl_error + fetched_page) \<times> nat list \<times> 'w" where
  "fetch_text F cfg url w = fetch_inner F cfg url False 0 w"

section \<open>Facts\<close>

lemma backoff_le_cap: "backoff_ms a b c \<le> c"
  by (simp add: backoff_ms_def)

lemma backoff_mono: "a \<le> a' \<Longrightarrow> backoff_ms a b c \<le> backoff_ms a' b c"
  unfolding backoff_ms_def by (intro min.mono sat_mul_u64_mono power_increasing order_refl) auto

lemma jitter_less: "jitter_ms H url a n < 250"
  by (simp add: jitter_ms_def)

text \<open>A failure with a stated delay comes from a retryable status.\<close>

lemma handle_response_Inr:
  assumes "handle_response F cfg req resp = Inr page"
  shows "200 \<le> fp_status page" "fp_status page < 300" "req \<Longrightarrow> is_html_content_type (fp_content_type page)"
    "\<exists>body. length body \<le> fc_max_body_bytes cfg \<and> body = concat (resp_chunks resp) \<and>
       fp_body page = decode_body F cfg body (fp_content_type page)"
proof -
  have chunks: "read_chunks cap body cs broken = Inr r \<Longrightarrow> length body \<le> cap \<Longrightarrow>
      r = body @ concat cs \<and> length r \<le> cap" for cap body cs broken r
    by (induction cap body cs broken rule: read_chunks.induct) (auto split: if_splits option.splits)
  obtain body where b: "read_chunks (fc_max_body_bytes cfg) [] (resp_chunks resp) (resp_broken resp) = Inr body"
    "page = \<lparr> fp_final_url = resp_url resp, fp_status = resp_status resp,
       fp_content_type = resp_content_type resp,
       fp_body = decode_body F cfg body (resp_content_type resp) \<rparr>"
    using assms by (auto simp: handle_response_def Let_def and_then_Inr_iff split: if_splits)
  show "200 \<le> fp_status page" "fp_status page < 300" "req \<Longrightarrow> is_html_content_type (fp_content_type page)"
    using assms b(2) by (auto simp: handle_response_def Let_def split: if_splits)
  show "\<exists>body. length body \<le> fc_max_body_bytes cfg \<and> body = concat (resp_chunks resp) \<and>
       fp_body page = decode_body F cfg body (fp_content_type page)"
    using chunks [OF b(1)] b(2) by auto
qed

lemma fetch_inner_Inr:
  "fetch_inner F cfg url req attempt w = (Inr page, delays, w') \<Longrightarrow>
   \<exists>w0. fetch_attempt F cfg url req w0 = (Inr page, w')"
proof (induction F cfg url req attempt w arbitrary: delays rule: fetch_inner.induct)
  case (1 F cfg url req attempt w)
  obtain r w1 where a: "fetch_attempt F cfg url req w = (r, w1)" by fastforce
  show ?case
  proof (cases r)
    case (Inr p)
    then show ?thesis using "1.prems" a by (auto simp: fetch_inner.simps [of F cfg url req attempt w])
  next
    case (Inl failure)
    obtain nanos w2 where n: "fn_nanos F w1 = (nanos, w2)" by fastforce
    have go: "\<not> (\<not> fail_retryable failure \<or> fc_max_retries cfg \<le> attempt)"
      "\<not> (case fail_retry_after_ms failure of
            Some requested \<Rightarrow> fc_backoff_cap_ms cfg < requested | None \<Rightarrow> False)"
      using "1.prems" a Inl
      by (auto simp: fetch_inner.simps [of F cfg url req attempt w] split: if_splits)
    obtain r2 ds2 w3 where rec: "fetch_inner F cfg url req (attempt + 1) w2 = (r2, ds2, w3)"
      using prod_cases3 by blast
    have "r2 = Inr page" "w3 = w'"
      using "1.prems" a Inl n go rec
      by (auto simp: fetch_inner.simps [of F cfg url req attempt w] Let_def)
    then show ?thesis using "1.IH" [OF a [symmetric] Inl go n [symmetric] refl, of ds2] rec by simp
  qed
qed

text \<open>One turn of the retry loop, as the three ways it can go.\<close>

lemma fetch_inner_step:
  assumes "fetch_attempt F cfg url req w = (a, w1)"
  shows "fetch_inner F cfg url req attempt w =
    (case a of
       Inr page \<Rightarrow> (Inr page, [], w1)
     | Inl f \<Rightarrow>
         if fail_retryable f \<and> attempt < fc_max_retries cfg \<and>
            (case fail_retry_after_ms f of Some ms \<Rightarrow> ms \<le> fc_backoff_cap_ms cfg | None \<Rightarrow> True)
         then (case fn_nanos F w1 of
                 (nanos, w2) \<Rightarrow>
                   (case fetch_inner F cfg url req (attempt + 1) w2 of
                      (r, delays, w3) \<Rightarrow>
                        (r, retry_delay F cfg url attempt (fail_retry_after_ms f) nanos # delays, w3)))
         else (Inl (fail_error f), [], w1))"
  using assms
  by (subst fetch_inner.simps) (auto simp: Let_def not_le not_less split: sum.split option.split)

definition polite_delay :: "fetch_config \<Rightarrow> nat \<Rightarrow> bool" where
  "polite_delay cfg d \<longleftrightarrow> fc_backoff_base_ms cfg \<le> d \<and> d \<le> fc_backoff_cap_ms cfg + 249"

lemma retry_delay_polite:
  assumes "fc_backoff_cap_ms cfg + 249 \<le> u64_max" "fc_backoff_base_ms cfg \<le> fc_backoff_cap_ms cfg"
    and "case retry_after of Some ms \<Rightarrow> ms \<le> fc_backoff_cap_ms cfg | None \<Rightarrow> True"
  shows "polite_delay cfg (retry_delay F cfg url attempt retry_after nanos)"
proof -
  let ?b = "backoff_ms attempt (fc_backoff_base_ms cfg) (fc_backoff_cap_ms cfg)"
  let ?j = "jitter_ms (fn_hash F) url attempt nanos"
  have b: "?b \<le> fc_backoff_cap_ms cfg" by (rule backoff_le_cap)
  have j: "?j < 250" by (rule jitter_less)
  have "?b + ?j < 2 ^ 64" using b j assms(1) u64_max_Suc by linarith
  then have "wrap_add_u64 ?b ?j = ?b + ?j" by (rule wrap_add_u64_small)
  moreover have "fc_backoff_base_ms cfg \<le> ?b"
    using assms(1,2) by (auto simp: backoff_ms_def sat_mul_u64_def min_def)
  ultimately show ?thesis
    using b j assms(3) by (auto simp: polite_delay_def retry_delay_def split: option.splits)
qed

text \<open>C22: a fetch retries at most as often as configured, and every pause between two attempts is
  at least the base delay and at most the ceiling plus the jitter, whatever the server's
  \<open>Retry-After\<close> says.\<close>

theorem fetch_delays_bounded:
  assumes "fc_backoff_cap_ms cfg + 249 \<le> u64_max" "fc_backoff_base_ms cfg \<le> fc_backoff_cap_ms cfg"
    and "fetch_inner F cfg url req attempt w = (r, delays, w')"
  shows "length delays \<le> fc_max_retries cfg - attempt \<and> list_all (polite_delay cfg) delays"
  using assms
proof (induction F cfg url req attempt w arbitrary: r delays w' rule: fetch_inner.induct)
  case (1 F cfg url req attempt w)
  obtain a w1 where a: "fetch_attempt F cfg url req w = (a, w1)" by fastforce
  note step = fetch_inner_step [OF a, of attempt]
  show ?case
  proof (cases "delays = []")
    case True
    then show ?thesis by simp
  next
    case False
    then obtain f where f: "a = Inl f" "fail_retryable f" "attempt < fc_max_retries cfg"
      "case fail_retry_after_ms f of Some ms \<Rightarrow> ms \<le> fc_backoff_cap_ms cfg | None \<Rightarrow> True"
      using "1.prems"(3) by (cases a) (auto simp: step split: if_splits)
    obtain nanos w2 where n: "fn_nanos F w1 = (nanos, w2)" by fastforce
    obtain r2 ds w3 where rec: "fetch_inner F cfg url req (attempt + 1) w2 = (r2, ds, w3)"
      using prod_cases3 by blast
    have d: "delays = retry_delay F cfg url attempt (fail_retry_after_ms f) nanos # ds"
      using "1.prems"(3) f n rec by (simp add: step)
    have "length ds \<le> fc_max_retries cfg - (attempt + 1) \<and> list_all (polite_delay cfg) ds"
      by (rule "1.IH" [OF a [symmetric] f(1) _ _ n [symmetric] refl "1.prems"(1,2) rec])
        (use f in \<open>auto split: option.splits\<close>)
    then show ?thesis using d f(3) retry_delay_polite [OF "1.prems"(1,2) f(4)] by auto
  qed
qed

text \<open>A page that a fetch returns came with a success status and, for a page fetch, a type
  worth parsing; its text is the decoding of a body of at most the configured number of bytes.\<close>

theorem fetch_page_bounded:
  assumes "fetch_inner F cfg url req attempt w = (Inr page, delays, w')"
  shows "200 \<le> fp_status page \<and> fp_status page < 300 \<and>
    (req \<longrightarrow> is_html_content_type (fp_content_type page)) \<and>
    (\<exists>body. length body \<le> fc_max_body_bytes cfg \<and>
       fp_body page = decode_body F cfg body (fp_content_type page))"
proof -
  obtain w0 where "fetch_attempt F cfg url req w0 = (Inr page, w')"
    using fetch_inner_Inr [OF assms] by blast
  then obtain resp where "handle_response F cfg req resp = Inr page"
    by (auto simp: fetch_attempt_def split: prod.splits transport.splits if_splits)
  from handle_response_Inr [OF this] show ?thesis by blast
qed

text \<open>An answer that retrying cannot help ends the fetch after that one request: a client
  error other than 429, and a retryable status whose \<open>Retry-After\<close> exceeds the ceiling.\<close>

theorem fetch_gives_up:
  assumes "fn_get F url w = (Responded resp, w')" "300 \<le> resp_status resp"
    and "\<not> is_retryable_status (resp_status resp) \<or>
         (\<exists>s. resp_retry_after resp = Some s \<and>
            (\<exists>ms. parse_retry_after s = Some ms \<and> fc_backoff_cap_ms cfg < ms))"
  shows "fetch F cfg url w = (Inl (HttpStatus (resp_status resp)), [], w') \<and>
    fetch_text F cfg url w = (Inl (HttpStatus (resp_status resp)), [], w')"
proof -
  have a: "fetch_attempt F cfg url req w = (Inl (if is_retryable_status (resp_status resp)
                then \<lparr> fail_error = HttpStatus (resp_status resp), fail_retryable = True,
                       fail_retry_after_ms = retry_after_ms resp \<rparr>
                else failure_terminal (HttpStatus (resp_status resp))), w')" for req
    using assms(1,2) by (simp add: fetch_attempt_def handle_response_def Let_def)
  show ?thesis
    unfolding fetch_def fetch_text_def fetch_inner_step [OF a]
    using assms(3) by (auto simp: failure_terminal_def retry_after_ms_def)
qed

definition toy_fetch_env :: "(nat \<Rightarrow> http_response) \<Rightarrow> nat fetch_env" where
  "toy_fetch_env net =
     \<lparr> fn_get = (\<lambda>url n. (Responded (net n), n + 1)), fn_nanos = (\<lambda>n. (0, n)),
       fn_hash = (\<lambda>bs. length bs), fn_gunzip = (\<lambda>bs cap. None), fn_encoding = (\<lambda>l. None) \<rparr>"

definition toy_response :: "nat \<Rightarrow> nat list \<Rightarrow> http_response" where
  "toy_response status body =
     \<lparr> resp_status = status, resp_url = str ''http://a.b/'', resp_content_type = None,
       resp_retry_after = None, resp_content_length = None, resp_chunks = [body], resp_broken = None \<rparr>"

definition toy_net :: "nat \<Rightarrow> http_response" where
  "toy_net n = (if n = 0 then toy_response 503 [] else if n = 1 then toy_response 200 [104, 105] else toy_response 404 [])"

definition toy_page :: fetched_page where
  "toy_page = \<lparr> fp_final_url = str ''http://a.b/'', fp_status = 200, fp_content_type = None,
     fp_body = str ''hi'' \<rparr>"

lemma toy_fetch_run:
  "\<exists>d. fetch_inner (toy_fetch_env toy_net) (fetch_config_default []) (str ''http://a.b/'') True 0 0 =
     (Inr toy_page, [d], 2)"
proof -
  let ?F = "toy_fetch_env toy_net" and ?cfg = "fetch_config_default []" and ?url = "str ''http://a.b/''"
  have a0: "fetch_attempt ?F ?cfg ?url True 0 =
      (Inl \<lparr> fail_error = HttpStatus 503, fail_retryable = True, fail_retry_after_ms = None \<rparr>, 1)"
    by (simp add: fetch_attempt_def toy_fetch_env_def toy_net_def toy_response_def handle_response_def
        is_retryable_status_def retry_after_ms_def Let_def)
  have "utf8_lossy [104, 105] = [104, 105]" by code_simp
  then have a1: "fetch_attempt ?F ?cfg ?url True 1 = (Inr toy_page, 2)"
    by (simp add: fetch_attempt_def toy_fetch_env_def toy_net_def toy_response_def handle_response_def
        is_html_content_type_def decode_body_def gunzip_if_compressed_def gzip_magic_def charset_of_def
        fetch_config_default_def toy_page_def Let_def)
  have "fn_nanos ?F 1 = (0, 1)" "fc_max_retries ?cfg = 3" by (simp_all add: toy_fetch_env_def fetch_config_default_def)
  then show ?thesis
    unfolding fetch_inner_step [OF a0, of 0]
    by (simp add: fetch_inner_step [OF a1, of 1] del: str_simps One_nat_def)
qed

theorem fetch_delays_bounded_witness:
  "\<exists>d. polite_delay (fetch_config_default []) d \<and>
     fst (snd (fetch_inner (toy_fetch_env toy_net) (fetch_config_default []) (str ''http://a.b/'') True 0 0)) = [d]"
proof -
  obtain p d where r: "fetch_inner (toy_fetch_env toy_net) (fetch_config_default []) (str ''http://a.b/'') True 0 0 =
     (Inr p, [d], 2)" using toy_fetch_run by blast
  have "fc_backoff_cap_ms (fetch_config_default []) + 249 \<le> u64_max"
    "fc_backoff_base_ms (fetch_config_default []) \<le> fc_backoff_cap_ms (fetch_config_default [])"
    by (simp_all add: fetch_config_default_def u64_max_def)
  then have "length [d] \<le> fc_max_retries (fetch_config_default []) - 0 \<and>
      list_all (polite_delay (fetch_config_default [])) [d]"
    by (rule fetch_delays_bounded [OF _ _ r])
  then have "polite_delay (fetch_config_default []) d" unfolding list.pred_inject by blast
  moreover have "fst (snd (fetch_inner (toy_fetch_env toy_net) (fetch_config_default []) (str ''http://a.b/'') True 0 0)) = [d]"
    unfolding r by (simp only: fst_conv snd_conv)
  ultimately show ?thesis by blast
qed

theorem fetch_page_bounded_witness:
  "200 \<le> fp_status toy_page \<and>
   (\<exists>body. length body \<le> fc_max_body_bytes (fetch_config_default []) \<and>
     fp_body toy_page = decode_body (toy_fetch_env toy_net) (fetch_config_default []) body (fp_content_type toy_page))"
proof -
  obtain d where r: "fetch_inner (toy_fetch_env toy_net) (fetch_config_default []) (str ''http://a.b/'') True 0 0 =
     (Inr toy_page, [d], 2)" using toy_fetch_run by blast
  from fetch_page_bounded [OF r] show ?thesis by blast
qed

theorem fetch_gives_up_witness:
  "fetch (toy_fetch_env toy_net) (fetch_config_default []) (str ''http://a.b/'') 2 = (Inl (HttpStatus 404), [], 3)"
proof -
  have "fn_get (toy_fetch_env toy_net) (str ''http://a.b/'') 2 = (Responded (toy_response 404 []), 3)"
    by (simp add: toy_fetch_env_def toy_net_def)
  from fetch_gives_up [OF this, of "fetch_config_default []"] show ?thesis
    by (simp add: toy_response_def is_retryable_status_def)
qed

end
