(* ===== verification/Fs.thy ===== *)
theory Fs
  imports Frames "HOL-Library.AList"
begin

text \<open>
  The part of \<open>std::fs\<close> the program uses. A path is a directory and a file name. A file
  system holds its files in the order in which a directory listing shows them, the
  directories that exist, and the answers of the operating system to the coming calls: every
  call takes one answer, with none left it succeeds. A failing call changes nothing, except
  that a failing write leaves a prefix of what was written.

  \<open>fs_write_faults\<close> are the answers to the coming \<open>write_all\<close> calls on open writers, and
  \<open>fs_read_answers\<close> those to the coming reads of open files, in the form that \<open>Frames\<close>
  uses.
\<close>

type_synonym path = "rstr \<times> rstr"

datatype fs_answer = Succeeds | FailsAfter nat io_error

record fs =
  fs_files :: "(path \<times> nat list) list"
  fs_dirs :: "rstr list"
  fs_answers :: "fs_answer list"
  fs_write_faults :: "nat option list"
  fs_read_answers :: "read_answer list"

definition not_found :: io_error where
  "not_found = IoError ''not found''"

text \<open>\<open>fs_call f\<close> takes an answer and runs \<open>f\<close> when the call succeeds.\<close>

definition fs_call :: "(fs \<Rightarrow> (io_error + 'a) \<times> fs) \<Rightarrow> fs \<Rightarrow> (io_error + 'a) \<times> fs" where
  "fs_call f s =
     (case fs_answers s of
        [] \<Rightarrow> f s
      | Succeeds # as \<Rightarrow> f (s \<lparr> fs_answers := as \<rparr>)
      | FailsAfter _ e # as \<Rightarrow> (Inl e, s \<lparr> fs_answers := as \<rparr>))"

definition fs_file :: "fs \<Rightarrow> path \<Rightarrow> nat list option" where
  "fs_file s p = map_of (fs_files s) p"

definition fs_set :: "path \<Rightarrow> nat list \<Rightarrow> fs \<Rightarrow> fs" where
  "fs_set p bs s = s \<lparr> fs_files := AList.update p bs (fs_files s) \<rparr>"

definition fs_delete :: "path \<Rightarrow> fs \<Rightarrow> fs" where
  "fs_delete p s = s \<lparr> fs_files := AList.delete p (fs_files s) \<rparr>"

definition fs_names :: "fs \<Rightarrow> rstr \<Rightarrow> rstr list" where
  "fs_names s d = map (snd \<circ> fst) (filter (\<lambda>e. fst (fst e) = d) (AList.clearjunk (fs_files s)))"

definition create_dir_all :: "rstr \<Rightarrow> fs \<Rightarrow> (io_error + unit) \<times> fs" where
  "create_dir_all d = fs_call (\<lambda>s. (Inr (), s \<lparr> fs_dirs := List.insert d (fs_dirs s) \<rparr>))"

definition read_dir :: "rstr \<Rightarrow> fs \<Rightarrow> (io_error + rstr list) \<times> fs" where
  "read_dir d = fs_call (\<lambda>s.
     if d \<in> set (fs_dirs s) then (Inr (fs_names s d), s) else (Inl not_found, s))"

definition file_create :: "path \<Rightarrow> fs \<Rightarrow> (io_error + unit) \<times> fs" where
  "file_create p = fs_call (\<lambda>s.
     if fst p \<in> set (fs_dirs s) then (Inr (), fs_set p [] s) else (Inl not_found, s))"

text \<open>Reading a whole file, and opening one for reading.\<close>

definition file_read :: "path \<Rightarrow> fs \<Rightarrow> (io_error + nat list) \<times> fs" where
  "file_read p = fs_call (\<lambda>s.
     case fs_file s p of None \<Rightarrow> (Inl not_found, s) | Some bs \<Rightarrow> (Inr bs, s))"

text \<open>\<open>fs::write\<close>, and the flush of a writer that has accepted \<open>bs\<close> for the file.\<close>

definition file_write :: "path \<Rightarrow> nat list \<Rightarrow> fs \<Rightarrow> (io_error + unit) \<times> fs" where
  "file_write p bs s =
     (case fs_answers s of
        FailsAfter k e # as \<Rightarrow>
          (Inl e, (if fst p \<in> set (fs_dirs s) then fs_set p (take k bs) s else s) \<lparr> fs_answers := as \<rparr>)
      | _ \<Rightarrow> fs_call (\<lambda>s.
          if fst p \<in> set (fs_dirs s) then (Inr (), fs_set p bs s) else (Inl not_found, s)) s)"

definition sync_all :: "fs \<Rightarrow> (io_error + unit) \<times> fs" where
  "sync_all = fs_call (\<lambda>s. (Inr (), s))"

definition fs_rename :: "path \<Rightarrow> path \<Rightarrow> fs \<Rightarrow> (io_error + unit) \<times> fs" where
  "fs_rename p q = fs_call (\<lambda>s.
     case fs_file s p of
       None \<Rightarrow> (Inl not_found, s)
     | Some bs \<Rightarrow>
         if fst q \<in> set (fs_dirs s)
         then (Inr (), if p = q then s
                       else fs_set q bs (fs_delete p s))
         else (Inl not_found, s))"

definition remove_file :: "path \<Rightarrow> fs \<Rightarrow> (io_error + unit) \<times> fs" where
  "remove_file p = fs_call (\<lambda>s.
     case fs_file s p of
       None \<Rightarrow> (Inl not_found, s)
     | Some _ \<Rightarrow> (Inr (), fs_delete p s))"

text \<open>\<open>Path::with_extension\<close> on the file name: what follows the last dot, unless the name has
  no dot after its first character.\<close>

definition with_extension :: "rstr \<Rightarrow> rstr \<Rightarrow> rstr" where
  "with_extension name ext =
     (case rsplit_once (ch CHR ''.'') name of
        Some (stem, _) \<Rightarrow> (if stem = [] then name else stem) @ str ''.'' @ ext
      | None \<Rightarrow> name @ str ''.'' @ ext)"

text \<open>The program replaces a file by writing a temporary one beside it and renaming it.\<close>

definition replace_file :: "path \<Rightarrow> rstr \<Rightarrow> nat list \<Rightarrow> fs \<Rightarrow> (io_error + unit) \<times> fs" where
  "replace_file p ext bs s =
     (let tmp = (fst p, with_extension (snd p) ext)
      in state_then (if fst p = [] then (Inr (), s) else create_dir_all (fst p) s) (\<lambda>_ s.
         state_then (file_write tmp bs s) (\<lambda>_ s. fs_rename tmp p s)))"

section \<open>Facts\<close>

lemma fs_file_set [simp]: "fs_file (fs_set p bs s) = (fs_file s)(p \<mapsto> bs)"
  by (simp add: fs_file_def fs_set_def update_conv' fun_eq_iff)

lemma fs_file_delete [simp]: "fs_file (fs_delete p s) = (fs_file s)(p := None)"
  by (simp add: fs_file_def fs_delete_def delete_conv' fun_eq_iff)

lemma fs_file_unchanged [simp]:
  "fs_file (s \<lparr> fs_answers := as \<rparr>) = fs_file s" "fs_file (s \<lparr> fs_dirs := ds \<rparr>) = fs_file s"
  "fs_file (s \<lparr> fs_write_faults := ws \<rparr>) = fs_file s" "fs_file (s \<lparr> fs_read_answers := rs \<rparr>) = fs_file s"
  by (simp_all add: fs_file_def fun_eq_iff)

lemma fs_set_sel [simp]:
  "fs_dirs (fs_set p bs s) = fs_dirs s" "fs_answers (fs_set p bs s) = fs_answers s"
  "fs_write_faults (fs_set p bs s) = fs_write_faults s" "fs_dirs (fs_delete p s) = fs_dirs s"
  by (simp_all add: fs_set_def fs_delete_def)

lemma fs_names_iff: "n \<in> set (fs_names s d) \<longleftrightarrow> fs_file s (d, n) \<noteq> None"
proof -
  have "n \<in> set (fs_names s d) \<longleftrightarrow> (d, n) \<in> fst ` set (AList.clearjunk (fs_files s))"
    by (auto simp: fs_names_def image_iff) force+
  also have "fst ` set (AList.clearjunk (fs_files s)) = fst ` set (fs_files s)"
    by (simp flip: dom_map_of_conv_image_fst add: map_of_clearjunk)
  also have "(d, n) \<in> fst ` set (fs_files s) \<longleftrightarrow> fs_file s (d, n) \<noteq> None"
    by (simp add: fs_file_def map_of_eq_None_iff)
  finally show ?thesis .
qed

lemma distinct_fs_names: "distinct (fs_names s d)"
proof -
  have "distinct (map fst (filter (\<lambda>e. fst (fst e) = d) (AList.clearjunk (fs_files s))))"
    by (simp add: distinct_map_filter)
  then have "distinct (map snd (map fst (filter (\<lambda>e. fst (fst e) = d) (AList.clearjunk (fs_files s)))))"
    by (subst distinct_map) (auto simp: inj_on_def)
  then show ?thesis by (simp add: fs_names_def)
qed

text \<open>What a call that reports success did.\<close>

lemma fs_call_Inr:
  "fs_call f s = (Inr x, s') \<Longrightarrow> \<exists>as. f (s \<lparr> fs_answers := as \<rparr>) = (Inr x, s')"
  by (cases s) (auto simp: fs_call_def split: list.splits fs_answer.splits)

lemma create_dir_all_Inr:
  "create_dir_all d s = (Inr u, s') \<Longrightarrow>
   fs_file s' = fs_file s \<and> set (fs_dirs s') = insert d (set (fs_dirs s)) \<and>
   fs_files s' = fs_files s"
  by (auto simp: create_dir_all_def dest!: fs_call_Inr)

lemma read_dir_Inr:
  "read_dir d s = (Inr ns, s') \<Longrightarrow>
   ns = fs_names s d \<and> fs_files s' = fs_files s \<and> fs_dirs s' = fs_dirs s \<and> d \<in> set (fs_dirs s)"
  by (auto simp: read_dir_def fs_names_def dest!: fs_call_Inr split: if_splits)

lemma file_create_Inr:
  "file_create p s = (Inr u, s') \<Longrightarrow> fs_file s' = (fs_file s)(p \<mapsto> []) \<and> fs_dirs s' = fs_dirs s"
  by (auto simp: file_create_def dest!: fs_call_Inr split: if_splits)

lemma file_write_Inr:
  "file_write p bs s = (Inr u, s') \<Longrightarrow> fs_file s' = (fs_file s)(p \<mapsto> bs) \<and> fs_dirs s' = fs_dirs s"
  by (auto simp: file_write_def dest!: fs_call_Inr split: if_splits list.splits fs_answer.splits)

lemma file_write_other:
  "file_write p bs s = (r, s') \<Longrightarrow> q \<noteq> p \<Longrightarrow> fs_file s' q = fs_file s q"
  by (auto simp: file_write_def fs_call_def split: if_splits list.splits fs_answer.splits)

lemma fs_rename_Inr:
  "fs_rename p q s = (Inr u, s') \<Longrightarrow> p \<noteq> q \<Longrightarrow>
   \<exists>bs. fs_file s p = Some bs \<and> fs_file s' = (fs_file s)(p := None, q \<mapsto> bs) \<and> fs_dirs s' = fs_dirs s"
  by (auto simp: fs_rename_def fun_eq_iff dest!: fs_call_Inr split: if_splits option.splits)

lemma fs_rename_Inl: "fs_rename p q s = (Inl e, s') \<Longrightarrow> fs_file s' = fs_file s"
  by (auto simp: fs_rename_def fs_call_def split: if_splits option.splits list.splits fs_answer.splits)

lemma remove_file_Inr:
  "remove_file p s = (Inr u, s') \<Longrightarrow> fs_file s' = (fs_file s)(p := None) \<and> fs_file s p \<noteq> None"
  by (auto simp: remove_file_def fun_eq_iff dest!: fs_call_Inr split: option.splits)

lemma sync_all_files: "sync_all s = (r, s') \<Longrightarrow> fs_file s' = fs_file s \<and> fs_dirs s' = fs_dirs s"
  by (auto simp: sync_all_def fs_call_def split: list.splits fs_answer.splits)

section \<open>Replacing a file\<close>

text \<open>An extension with a dot in it gives a name of its own.\<close>

lemma with_extension_dotted: "ch CHR ''.'' \<in> set ext \<Longrightarrow> with_extension name ext \<noteq> name"
proof
  assume dot: "ch CHR ''.'' \<in> set ext" and eq: "with_extension name ext = name"
  show False
  proof (cases "rsplit_once (ch CHR ''.'') name")
    case None
    then show False using eq by (simp add: with_extension_def)
  next
    case (Some ab)
    obtain a b where ab: "ab = (a, b)" by (cases ab)
    then have n: "name = a @ ch CHR ''.'' # b" "ch CHR ''.'' \<notin> set b"
      using Some by (simp_all add: rsplit_once_Some_iff)
    show False
    proof (cases "a = []")
      case True
      then show False using eq Some ab by (simp add: with_extension_def)
    next
      case False
      then have "a @ ch CHR ''.'' # ext = a @ ch CHR ''.'' # b" using eq Some ab n(1) by (simp add: with_extension_def)
      then show False using dot n(2) by simp
    qed
  qed
qed

lemma dotted_tmp: "ch CHR ''.'' \<in> set (str ''bloom.tmp'')" "ch CHR ''.'' \<in> set (str ''json.tmp'')"
  by simp_all

lemma create_dir_all_files: "create_dir_all d s = (r, s') \<Longrightarrow> fs_file s' = fs_file s"
  by (auto simp: create_dir_all_def fs_call_def split: list.splits fs_answer.splits)

text \<open>Success puts the bytes under the name; failure leaves the file as it was; nothing else but
  the temporary file is touched.\<close>

lemma replace_file_Inr:
  assumes "replace_file p ext bs s = (Inr u, s')" "ch CHR ''.'' \<in> set ext"
  shows "fs_file s' p = Some bs"
proof -
  let ?tmp = "(fst p, with_extension (snd p) ext)"
  have ne: "?tmp \<noteq> p" using with_extension_dotted [OF assms(2)] by (metis snd_conv)
  obtain s1 u1 s2 u2 where c: "file_write ?tmp bs s1 = (Inr u1, s2)" "fs_rename ?tmp p s2 = (Inr u2, s')"
    using assms(1) by (auto simp: replace_file_def Let_def dest!: state_then_Inr_iff [THEN iffD1])
  show ?thesis using file_write_Inr [OF c(1)] fs_rename_Inr [OF c(2) ne] by auto
qed

lemma replace_file_cases:
  assumes "replace_file p ext bs s = (r, s')"
  obtains (dir) r1 where "fs_file s' = fs_file s" "r = Inl r1"
  | (tmp) s1 r2 where "fs_file s1 = fs_file s" "file_write (fst p, with_extension (snd p) ext) bs s1 = (Inl r2, s')"
      "r = Inl r2"
  | (ren) s1 s2 where "fs_file s1 = fs_file s" "file_write (fst p, with_extension (snd p) ext) bs s1 = (Inr (), s2)"
      "fs_rename (fst p, with_extension (snd p) ext) p s2 = (r, s')"
proof -
  let ?tmp = "(fst p, with_extension (snd p) ext)"
  obtain r1 s1 where m: "(if fst p = [] then (Inr (), s) else create_dir_all (fst p) s) = (r1, s1)" by fastforce
  have s1: "fs_file s1 = fs_file s" using m create_dir_all_files by (auto split: if_splits)
  obtain r2 s2 where w: "file_write ?tmp bs s1 = (r2, s2)" by fastforce
  show thesis
    using assms m s1 w dir tmp ren by (cases r1; cases r2) (auto simp: replace_file_def Let_def)
qed

lemma replace_file_other:
  assumes "replace_file p ext bs s = (r, s')" "q \<noteq> p" "q \<noteq> (fst p, with_extension (snd p) ext)"
  shows "fs_file s' q = fs_file s q"
  using assms(1)
proof (cases rule: replace_file_cases)
  case (tmp s1 r2)
  then show ?thesis using file_write_other [OF tmp(2) assms(3)] by simp
next
  case (ren s1 s2)
  have "fs_file s2 q = fs_file s q" using file_write_other [OF ren(2) assms(3)] ren(1) by simp
  then show ?thesis using ren(3) assms(2,3)
    by (auto simp: fs_rename_def fs_call_def split: list.splits fs_answer.splits option.splits if_splits)
qed simp

lemma replace_file_Inl:
  assumes "replace_file p ext bs s = (Inl e, s')" "ch CHR ''.'' \<in> set ext"
  shows "fs_file s' p = fs_file s p"
  using assms(1)
proof (cases rule: replace_file_cases)
  case (tmp s1 r2)
  have "p \<noteq> (fst p, with_extension (snd p) ext)" using with_extension_dotted [OF assms(2)] by (metis snd_conv)
  then show ?thesis using file_write_other [OF tmp(2)] tmp(1) by simp
next
  case (ren s1 s2)
  have "p \<noteq> (fst p, with_extension (snd p) ext)" using with_extension_dotted [OF assms(2)] by (metis snd_conv)
  then have "fs_file s2 p = fs_file s p" using file_write_other [OF ren(2)] ren(1) by simp
  then show ?thesis using fs_rename_Inl [OF ren(3)] by simp
qed simp

end
