(* ===== verification/Index_Spool.thy ===== *)
theory Index_Spool
  imports Fs
begin

text \<open>
  The indexer's side of the spool (\<open>crates/indexer/src/spool.rs\<close>), with the error types of the
  search engine and of the indexer: listing the sealed segments in crawl order, streaming the
  documents of one, retiring it. The visitor of a segment is a function that threads a state of
  its own; tantivy's errors are strings.
\<close>

datatype search_error =
  IndexFailed string
| SearchIo io_error
| QueryParse rstr string
| MissingIndex rstr
| IncompatibleSchema rstr
| SearchNotImplemented string

datatype indexer_error =
  IdxIo io_error
| IdxIndex search_error
| IdxSpool spool_error

section \<open>Listing\<close>

definition segment_sort_key :: "path \<Rightarrow> nat" where
  "segment_sort_key p = (case parse_segment_sequence (snd p) of Some n \<Rightarrow> n | None \<Rightarrow> u64_max)"

definition sealed_segments :: "rstr \<Rightarrow> fs \<Rightarrow> (indexer_error + path list) \<times> fs" where
  "sealed_segments directory s =
     (if directory \<notin> set (fs_dirs s) then (Inr [], s)
      else (case read_dir directory s of
              (Inl e, s) \<Rightarrow> (Inl (IdxIo e), s)
            | (Inr names, s) \<Rightarrow>
                (Inr (sort_key segment_sort_key (map (Pair directory) (filter is_sealed names))), s)))"

section \<open>Reading a segment\<close>

text \<open>The loop over the frames: the number of documents the visitor accepted.\<close>

function for_each_frame ::
    "document codec \<Rightarrow> (document \<Rightarrow> 's \<Rightarrow> (indexer_error + unit) \<times> 's) \<Rightarrow> nat \<Rightarrow> source \<Rightarrow> 's \<Rightarrow>
     (indexer_error + nat) \<times> source \<times> 's" where
  "for_each_frame C visit count r x =
     (case read_frame C r of
        (Inl e, r) \<Rightarrow> (Inl (IdxSpool e), r, x)
      | (Inr None, r) \<Rightarrow> (Inr count, r, x)
      | (Inr (Some d), r) \<Rightarrow>
          (case visit d x of
             (Inl e, x) \<Rightarrow> (Inl e, r, x)
           | (Inr _, x) \<Rightarrow> for_each_frame C visit (count + 1) r x))"
  by pat_completeness auto
termination
  by (relation "measure (\<lambda>(C, visit, count, r, x). length (unread r))") (auto dest: read_frame_shrinks [OF sym])

declare for_each_frame.simps [simp del]

definition for_each_document ::
    "document codec \<Rightarrow> path \<Rightarrow> (document \<Rightarrow> 's \<Rightarrow> (indexer_error + unit) \<times> 's) \<Rightarrow> 's \<Rightarrow> fs \<Rightarrow>
     (indexer_error + nat) \<times> 's \<times> fs" where
  "for_each_document C path visit x s =
     (case file_read path s of
        (Inl e, s) \<Rightarrow> (Inl (IdxIo e), x, s)
      | (Inr bs, s) \<Rightarrow>
          (case for_each_frame C visit 0 \<lparr> unread = bs, answers = fs_read_answers s \<rparr> x of
             (res, r, x) \<Rightarrow> (res, x, s \<lparr> fs_read_answers := answers r \<rparr>)))"

section \<open>Retiring a segment\<close>

definition retire :: "path \<Rightarrow> rstr option \<Rightarrow> fs \<Rightarrow> (indexer_error + unit) \<times> fs" where
  "retire path archive_dir s =
     (case (case archive_dir of
              Some directory \<Rightarrow>
                state_then (create_dir_all directory s) (\<lambda>_ s. fs_rename path (directory, snd path) s)
            | None \<Rightarrow> remove_file path s) of
        (r, s) \<Rightarrow> (map_err IdxIo r, s))"

section \<open>What the operations do\<close>

text \<open>Running the visitor over a list of documents.\<close>

fun visit_all :: "(document \<Rightarrow> 's \<Rightarrow> (indexer_error + unit) \<times> 's) \<Rightarrow> document list \<Rightarrow> 's \<Rightarrow>
    (indexer_error + unit) \<times> 's" where
  "visit_all visit [] x = (Inr (), x)"
| "visit_all visit (d # ds) x = state_then (visit d x) (\<lambda>_ x. visit_all visit ds x)"

lemma for_each_frame_segment:
  "codec_ok C \<Longrightarrow> no_fail r \<Longrightarrow> frames_of C ds = Some (unread r) \<Longrightarrow>
   \<exists>r'. for_each_frame C visit n r x =
     (case visit_all visit ds x of
        (Inr _, x) \<Rightarrow> (Inr (n + length ds), r', x) | (Inl e, x) \<Rightarrow> (Inl e, r', x)) \<and> no_fail r'"
proof (induction ds arbitrary: n r x)
  case Nil
  obtain r' where "read_frame C r = (Inr None, r')" "no_fail r'"
    using read_exact_or_eof_no_fail [of r "[]" frame_header_bytes] Nil
    by (auto simp: read_frame_def read_outcome_def frame_header_bytes_def)
  then show ?case by (simp add: for_each_frame.simps [of C visit n r])
next
  case (Cons d ds)
  obtain f rest where f: "frame_of C d = Some f" "unread r = f @ rest" "frames_of C ds = Some rest"
    using Cons.prems(3) by (force split: option.splits)
  obtain r1 where r1: "read_frame C r = (Inr (Some d), r1)" "no_fail r1" "unread r1 = rest"
    using seg.get_frame [OF Cons.prems(1) f(1) Cons.prems(2) f(2)] by blast
  obtain res x1 where v: "visit d x = (res, x1)" by fastforce
  show ?case
  proof (cases res)
    case (Inl e)
    then show ?thesis using r1 v by (auto simp: for_each_frame.simps [of C visit n r])
  next
    case (Inr u)
    have "frames_of C ds = Some (unread r1)" using f(3) r1(3) by simp
    from Cons.IH [OF Cons.prems(1) r1(2) this, of "Suc n" x1] show ?thesis
      using r1 v Inr by (auto simp: for_each_frame.simps [of C visit n r] split: prod.splits sum.splits)
  qed
qed

text \<open>Whatever the short reads are, a segment's documents reach the visitor in order.\<close>

lemma for_each_document_segment:
  assumes "codec_ok C" "fs_file s path = Some bs" "frames_of C ds = Some bs"
    and "fs_answers s = []" "list_all (\<lambda>a. \<forall>e. a \<noteq> Fails e) (fs_read_answers s)"
  obtains s' where "for_each_document C path visit x s =
      (case visit_all visit ds x of (Inr _, x) \<Rightarrow> (Inr (length ds), x, s') | (Inl e, x) \<Rightarrow> (Inl e, x, s'))"
    "fs_files s' = fs_files s" "fs_dirs s' = fs_dirs s" "fs_answers s' = []"
    "list_all (\<lambda>a. \<forall>e. a \<noteq> Fails e) (fs_read_answers s')"
proof -
  have open_file: "file_read path s = (Inr bs, s)" using assms(2,4) by (simp add: file_read_def fs_call_def)
  let ?r = "\<lparr> unread = bs, answers = fs_read_answers s \<rparr>"
  have "no_fail ?r" using assms(5) by (auto simp: no_fail_def list_all_iff)
  moreover have "frames_of C ds = Some (unread ?r)" using assms(3) by simp
  ultimately obtain r' where r': "for_each_frame C visit 0 ?r x =
     (case visit_all visit ds x of
        (Inr _, x) \<Rightarrow> (Inr (length ds), r', x) | (Inl e, x) \<Rightarrow> (Inl e, r', x))" "no_fail r'"
    using for_each_frame_segment [OF assms(1), of ?r ds visit 0 x] unfolding add_0 by blast
  have "for_each_document C path visit x s =
      (case visit_all visit ds x of (Inr _, x) \<Rightarrow> (Inr (length ds), x, s \<lparr> fs_read_answers := answers r' \<rparr>)
       | (Inl e, x) \<Rightarrow> (Inl e, x, s \<lparr> fs_read_answers := answers r' \<rparr>))"
    using r'(1) by (simp add: for_each_document_def open_file split: prod.splits sum.splits)
  moreover have "list_all (\<lambda>a. \<forall>e. a \<noteq> Fails e) (answers r')"
    using r'(2) by (auto simp: no_fail_def list_all_iff)
  ultimately show thesis using that assms(4) by simp
qed

text \<open>A segment torn inside a frame gives its whole documents and then the error.\<close>

lemma for_each_frame_torn:
  "codec_ok C \<Longrightarrow> no_fail r \<Longrightarrow> frames_of C ds = Some bs \<Longrightarrow> encode C d = Inr p \<Longrightarrow> length p \<le> u32_max \<Longrightarrow>
   0 < k \<Longrightarrow> k < 4 + length p \<Longrightarrow> unread r = bs @ take k (le_bytes 4 (length p) @ p) \<Longrightarrow>
   visit_all visit ds x = (Inr u, x') \<Longrightarrow>
   \<exists>r'. for_each_frame C visit n r x =
     (Inl (IdxSpool (if k < 4 then Truncated 4 k else Truncated (length p) (k - 4))), r', x')"
proof (induction ds arbitrary: n r x bs)
  case Nil
  then have "fst (read_frame C r) = Inl (if k < 4 then Truncated 4 k else Truncated (length p) (k - 4))"
    using read_frame_torn [of C d p r k] by simp
  then obtain r1 where "read_frame C r = (Inl (if k < 4 then Truncated 4 k else Truncated (length p) (k - 4)), r1)"
    by (metis prod.collapse)
  then show ?case using Nil.prems(9) by (simp add: for_each_frame.simps [of C visit n r])
next
  case (Cons c ds)
  obtain f rest where f: "frame_of C c = Some f" "bs = f @ rest" "frames_of C ds = Some rest"
    using Cons.prems(3) by (auto split: option.splits)
  have "unread r = f @ rest @ take k (le_bytes 4 (length p) @ p)" using Cons.prems(8) f(2) by simp
  then obtain r1 where r1: "read_frame C r = (Inr (Some c), r1)" "no_fail r1"
    "unread r1 = rest @ take k (le_bytes 4 (length p) @ p)"
    using seg.get_frame [OF Cons.prems(1) f(1) Cons.prems(2)] by blast
  obtain x1 where v: "visit c x = (Inr (), x1)" "visit_all visit ds x1 = (Inr u, x')"
    using Cons.prems(9) by (auto dest!: state_then_Inr_iff [THEN iffD1])
  from Cons.IH [OF Cons.prems(1) r1(2) f(3) Cons.prems(4-7) r1(3) v(2), of "Suc n"]
  show ?case using r1 v by (simp add: for_each_frame.simps [of C visit n r])
qed

lemma sealed_segments_Inr:
  assumes "sealed_segments d s = (Inr ps, s')"
  shows "fs_files s' = fs_files s" "fs_dirs s' = fs_dirs s"
    "d \<in> set (fs_dirs s) \<Longrightarrow> ps = sort_key segment_sort_key (map (Pair d) (filter is_sealed (fs_names s d)))"
  using assms
  by (auto simp: sealed_segments_def split: if_splits prod.splits sum.splits dest!: read_dir_Inr)

lemma retire_other:
  assumes "retire p ad s = (r, s')" "q \<noteq> p" "\<And>d. ad = Some d \<Longrightarrow> q \<noteq> (d, snd p)"
  shows "fs_file s' q = fs_file s q"
proof (cases ad)
  case None
  then show ?thesis using assms
    by (auto simp: retire_def remove_file_def fs_call_def split: prod.splits list.splits fs_answer.splits option.splits)
next
  case (Some e)
  have "q \<noteq> (e, snd p)" using assms(3) Some by simp
  then show ?thesis using assms(1,2) Some
    by (auto simp: retire_def state_then_def create_dir_all_def fs_rename_def fs_call_def fun_upd_def
        split: prod.splits sum.splits list.splits fs_answer.splits option.splits if_splits)
qed

lemma retire_done:
  assumes "retire p ad s = (Inr u, s')" "\<And>d. ad = Some d \<Longrightarrow> p \<noteq> (d, snd p)"
  shows "fs_file s' p = None"
proof (cases ad)
  case None
  then show ?thesis using assms(1)
    by (auto simp: retire_def split: prod.splits dest!: remove_file_Inr)
next
  case (Some e)
  obtain u s1 u2 where c: "fs_rename p (e, snd p) s1 = (Inr u2, s')"
    using assms(1) Some
    by (auto simp: retire_def split: prod.splits dest!: state_then_Inr_iff [THEN iffD1])
  have ne: "p \<noteq> (e, snd p)" using assms(2) Some by simp
  then show ?thesis using fs_rename_Inr [OF c ne] by auto
qed

section \<open>Reading, whatever the operating system answers\<close>

text \<open>A read that reports success delivered what was there, also when later answers are failures.\<close>

lemma read_some_Got:
  assumes "read_some want r = (Got bs, r')" "0 < want"
  obtains n where "0 < n" "n \<le> want" "bs = take n (unread r)" "unread r' = drop n (unread r)"
proof (cases "answers r")
  case Nil
  then show thesis using that [of want] assms by auto
next
  case (Cons a as)
  show thesis
  proof (cases a)
    case (Gives k)
    then show thesis using that [of "min want (Suc k)"] assms Cons by (auto simp: Let_def)
  next
    case Interrupts
    then show thesis using assms(1) Cons by simp
  next
    case (Fails e)
    then show thesis using assms(1) Cons by simp
  qed
qed

lemma read_some_interrupted: "read_some want r = (GotInterrupted, r') \<Longrightarrow> unread r' = unread r"
  by (auto simp: Let_def split: list.splits read_answer.splits)

lemma read_exact_or_eof_Inr:
  "read_exact_or_eof need filled r = (Inr res, r') \<Longrightarrow> length filled \<le> need \<Longrightarrow>
   read_outcome need filled (unread r) = Inr res \<and> unread r' = drop (need - length filled) (unread r)"
proof (induction need filled r arbitrary: res r' rule: read_exact_or_eof.induct)
  case (1 need filled r)
  note unfold = read_exact_or_eof.simps [of need filled r]
  show ?case
  proof (cases "length filled < need")
    case False
    with "1.prems" show ?thesis by (auto simp: unfold read_outcome_def)
  next
    case True
    obtain q r1 where q: "read_some (need - length filled) r = (q, r1)" by fastforce
    show ?thesis
    proof (cases q)
      case (Got bs)
      have "0 < need - length filled" using True by simp
      then obtain n where n: "0 < n" "n \<le> need - length filled" "bs = take n (unread r)" "unread r1 = drop n (unread r)"
        using read_some_Got [of "need - length filled" r bs r1] q Got by blast
      show ?thesis
      proof (cases "bs = []")
        case empty: True
        then have "unread r = []" using n(1,3) by simp
        then show ?thesis
          using "1.prems" True q Got empty n(4)
          by (auto simp: unfold read_outcome_def simp del: read_some.simps split: if_splits)
      next
        case False
        have run: "read_exact_or_eof need (filled @ bs) r1 = (Inr res, r')"
          using "1.prems"(1) True q Got False by (simp add: unfold del: read_some.simps)
        have le: "length (filled @ bs) \<le> need" using n(2,3) "1.prems"(2) by auto
        have "read_outcome need (filled @ bs) (unread r1) = Inr res \<and>
            unread r' = drop (need - length (filled @ bs)) (unread r1)"
          using "1.IH"(1) [OF True _ refl False run le] q Got by metis
        moreover have "read_outcome need (filled @ bs) (unread r1) = read_outcome need filled (unread r)"
          using n by (auto simp: read_outcome_def)
        moreover have "drop (need - length (filled @ bs)) (unread r1) = drop (need - length filled) (unread r)"
        proof (cases "n \<le> length (unread r)")
          case True
          have "need - (length filled + n) + n = need - length filled" using n(2) by simp
          then show ?thesis using n(3,4) True by (simp add: min_absorb2)
        next
          case False
          then show ?thesis using n(2,3,4) by simp
        qed
        ultimately show ?thesis by simp
      qed
    next
      case GotInterrupted
      have run: "read_exact_or_eof need filled r1 = (Inr res, r')"
        using "1.prems"(1) True q GotInterrupted by (simp add: unfold del: read_some.simps)
      have "unread r1 = unread r" using read_some_interrupted q GotInterrupted by blast
      then show ?thesis using "1.IH"(2) [OF True _ refl run "1.prems"(2)] q GotInterrupted by metis
    next
      case (GotError e)
      then show ?thesis using "1.prems"(1) True q by (simp add: unfold del: read_some.simps)
    qed
  qed
qed

lemma read_frame_Inr_frame:
  assumes "codec_ok C" "frame_of C d = Some f" "unread r = f @ rest" "read_frame C r = (Inr x, r')"
  shows "x = Some d \<and> unread r' = rest"
proof -
  obtain p where p: "encode C d = Inr p" "length p \<le> u32_max" "f = le_bytes 4 (length p) @ p"
    using assms(2) by (auto simp: frame_of_Some_iff)
  obtain h r1 where h: "read_exact_or_eof frame_header_bytes [] r = (Inr h, r1)"
    using assms(4) by (auto simp: read_frame_def split: prod.splits sum.splits)
  have "read_outcome 4 [] (unread r) = Inr h \<and> unread r1 = drop 4 (unread r)"
    using read_exact_or_eof_Inr [OF h] by (simp add: frame_header_bytes_def)
  then have h1: "h = Some (le_bytes 4 (length p))" "unread r1 = p @ rest"
    using assms(3) p(3) by (auto simp: read_outcome_def)
  obtain y where y: "read_exact_or_eof (length p) [] r1 = (Inr y, r')"
    using assms(4) h h1(1) p(2) by (auto simp: read_frame_def of_le_bytes_4 Let_def split: prod.splits sum.splits option.splits)
  have "read_outcome (length p) [] (unread r1) = Inr y \<and> unread r' = drop (length p) (unread r1)"
    using read_exact_or_eof_Inr [OF y] by simp
  then have "y = Some p" "unread r' = rest" using h1(2) by (auto simp: read_outcome_def)
  moreover have "decode C p = Inr d" using assms(1) p(1) by (simp add: codec_ok_def)
  ultimately show ?thesis
    using assms(4) h h1(1) y p(2) by (simp add: read_frame_def of_le_bytes_4)
qed

lemma read_frame_Inr_end:
  assumes "unread r = []" "read_frame C r = (Inr x, r')"
  shows "x = None"
proof -
  obtain h r1 where h: "read_exact_or_eof frame_header_bytes [] r = (Inr h, r1)"
    using assms(2) by (auto simp: read_frame_def split: prod.splits sum.splits)
  have "read_outcome 4 [] (unread r) = Inr h"
    using read_exact_or_eof_Inr [OF h] by (simp add: frame_header_bytes_def)
  then have "h = None" using assms(1) by (simp add: read_outcome_def)
  then show ?thesis using assms(2) h by (simp add: read_frame_def)
qed

lemma for_each_frame_Inr:
  "codec_ok C \<Longrightarrow> frames_of C ds = Some (unread r) \<Longrightarrow> for_each_frame C visit n r x = (Inr m, r', x') \<Longrightarrow>
   visit_all visit ds x = (Inr (), x') \<and> m = n + length ds"
proof (induction ds arbitrary: n r x)
  case Nil
  obtain y r1 where y: "read_frame C r = (Inr y, r1)"
    using Nil.prems(3) by (auto simp: for_each_frame.simps [of C visit n r] split: prod.splits sum.splits)
  have "y = None" using read_frame_Inr_end [OF _ y] Nil.prems(2) by simp
  then show ?case using Nil.prems(3) y by (simp add: for_each_frame.simps [of C visit n r])
next
  case (Cons d ds)
  obtain f rest where f: "frame_of C d = Some f" "unread r = f @ rest" "frames_of C ds = Some rest"
    using Cons.prems(2) by (force split: option.splits)
  obtain y r1 where y: "read_frame C r = (Inr y, r1)"
    using Cons.prems(3) by (auto simp: for_each_frame.simps [of C visit n r] split: prod.splits sum.splits)
  have d: "y = Some d" "unread r1 = rest" using read_frame_Inr_frame [OF Cons.prems(1) f(1,2) y] by simp_all
  obtain x1 where v: "visit d x = (Inr (), x1)" "for_each_frame C visit (Suc n) r1 x1 = (Inr m, r', x')"
    using Cons.prems(3) y d(1)
    by (auto simp: for_each_frame.simps [of C visit n r] split: prod.splits sum.splits)
  have "frames_of C ds = Some (unread r1)" using f(3) d(2) by simp
  from Cons.IH [OF Cons.prems(1) this v(2)] v(1) show ?case by simp
qed

text \<open>What a visitor leaves, over any reading: \<open>P\<close> is what every visit keeps, \<open>Q\<close> what holds also where
  one failed.\<close>

lemma for_each_frame_keeps:
  assumes P: "\<And>d x u x'. P x \<Longrightarrow> visit d x = (Inr u, x') \<Longrightarrow> P x'"
    and Q: "\<And>d x e x'. P x \<Longrightarrow> visit d x = (Inl e, x') \<Longrightarrow> Q x'" "\<And>x. P x \<Longrightarrow> Q x"
  shows "P x \<Longrightarrow> for_each_frame C visit n r x = (res, r', x') \<Longrightarrow> Q x' \<and> ((\<exists>m. res = Inr m) \<longrightarrow> P x')"
proof (induction "length (unread r)" arbitrary: n r x rule: less_induct)
  case less
  obtain y r1 where y: "read_frame C r = (y, r1)" by fastforce
  note step = for_each_frame.simps [of C visit n r x]
  show ?case
  proof (cases y)
    case (Inl e)
    then show ?thesis using less.prems y Q(2) by (simp add: step)
  next
    case (Inr o1)
    show ?thesis
    proof (cases o1)
      case None
      then show ?thesis using less.prems y Inr Q(2) by (simp add: step)
    next
      case (Some d)
      obtain v x1 where v: "visit d x = (v, x1)" by fastforce
      show ?thesis
      proof (cases v)
        case (Inl e)
        then show ?thesis using less.prems y \<open>y = Inr o1\<close> Some v Q(1) by (auto simp: step)
      next
        case vr: (Inr u)
        have "length (unread r1) < length (unread r)" using read_frame_shrinks [of C r d r1] y Inr Some by simp
        moreover have "P x1" using P less.prems(1) v vr by blast
        moreover have "for_each_frame C visit (n + 1) r1 x1 = (res, r', x')"
          using less.prems(2) y Inr Some v vr by (simp add: step)
        ultimately show ?thesis using less.hyps by blast
      qed
    qed
  qed
qed

lemma for_each_document_Inr:
  assumes "codec_ok C" "fs_file s path = Some bs" "frames_of C ds = Some bs"
    and "for_each_document C path visit x s = (Inr m, x', s')"
  shows "visit_all visit ds x = (Inr (), x')" "m = length ds"
proof -
  obtain bs' s1 where f: "file_read path s = (Inr bs', s1)"
    using assms(4) by (auto simp: for_each_document_def split: prod.splits sum.splits)
  have "bs' = bs" using f assms(2)
    by (auto simp: file_read_def fs_call_def split: list.splits fs_answer.splits option.splits)
  then obtain r' where r: "for_each_frame C visit 0 \<lparr> unread = bs, answers = fs_read_answers s1 \<rparr> x = (Inr m, r', x')"
    using assms(4) f by (auto simp: for_each_document_def split: prod.splits)
  have "frames_of C ds = Some (unread \<lparr> unread = bs, answers = fs_read_answers s1 \<rparr>)" using assms(3) by simp
  from for_each_frame_Inr [OF assms(1) this r] show "visit_all visit ds x = (Inr (), x')" "m = length ds" by simp_all
qed

lemma for_each_document_files:
  "for_each_document C path visit x s = (res, x', s') \<Longrightarrow> fs_files s' = fs_files s \<and> fs_dirs s' = fs_dirs s"
  by (auto simp: for_each_document_def file_read_def fs_call_def
      split: prod.splits sum.splits list.splits fs_answer.splits option.splits)

lemma for_each_document_keeps:
  assumes "\<And>d x u x'. P x \<Longrightarrow> visit d x = (Inr u, x') \<Longrightarrow> P x'"
    and "\<And>d x e x'. P x \<Longrightarrow> visit d x = (Inl e, x') \<Longrightarrow> Q x'" "\<And>x. P x \<Longrightarrow> Q x"
    and "P x" "for_each_document C path visit x s = (res, x', s')"
  shows "Q x'" "(\<exists>m. res = Inr m) \<longrightarrow> P x'"
proof -
  have "Q x' \<and> ((\<exists>m. res = Inr m) \<longrightarrow> P x')"
  proof (cases "\<exists>bs s1. file_read path s = (Inr bs, s1)")
    case True
    then obtain bs s1 r' where "file_read path s = (Inr bs, s1)"
      and run: "for_each_frame C visit 0 \<lparr> unread = bs, answers = fs_read_answers s1 \<rparr> x = (res, r', x')"
      using assms(5) by (auto simp: for_each_document_def split: prod.splits)
    show ?thesis
    proof (rule for_each_frame_keeps [of P visit Q, OF _ _ _ assms(4) run])
      show "\<And>d x u x'. P x \<Longrightarrow> visit d x = (Inr u, x') \<Longrightarrow> P x'" by (rule assms(1))
      show "\<And>d x e x'. P x \<Longrightarrow> visit d x = (Inl e, x') \<Longrightarrow> Q x'" by (rule assms(2))
      show "\<And>x. P x \<Longrightarrow> Q x" by (rule assms(3))
    qed
  next
    case False
    then have "x' = x" "\<exists>e. res = Inl e"
      using assms(5) by (auto simp: for_each_document_def split: prod.splits sum.splits)
    then show ?thesis using assms(3,4) by auto
  qed
  then show "Q x'" "(\<exists>m. res = Inr m) \<longrightarrow> P x'" by blast+
qed

section \<open>No failing operation\<close>

text \<open>The operating system answers calls, and reads may be short or interrupted but do not fail.\<close>

definition readable :: "fs \<Rightarrow> bool" where
  "readable s \<longleftrightarrow> fs_answers s = [] \<and> list_all (\<lambda>a. case a of Fails _ \<Rightarrow> False | _ \<Rightarrow> True) (fs_read_answers s)"

lemma readable_iff:
  "readable s \<longleftrightarrow> fs_answers s = [] \<and> list_all (\<lambda>a. \<forall>e. a \<noteq> Fails e) (fs_read_answers s)"
  by (auto simp: readable_def list_all_iff split: read_answer.splits)

end
