(* ===== verification/Atomic.thy ===== *)
theory Atomic
  imports Fs
begin

text \<open>
  Files that are replaced as a whole. Both programs save small files (the filter of seen URLs, the
  progress of the crawl, the counts of the hosts, the timeline of the index) by writing a temporary
  file and renaming it. \<open>atomic_save\<close> is the contract of such a save, \<open>saved_value\<close> adds the load
  that reads it back; the lemmas are about any number of saves, with failures of the disk and with
  other programs at work between them.
\<close>

section \<open>A sequence of saves\<close>

text \<open>Before each save anything may happen to the file system; the result is what the last save that
  succeeded has saved.\<close>

fun save_all ::
    "('a \<Rightarrow> fs \<Rightarrow> ('x + 'r) \<times> fs) \<Rightarrow> ((fs \<Rightarrow> fs) \<times> 'a) list \<Rightarrow> 'a option \<Rightarrow> fs \<Rightarrow> 'a option \<times> fs" where
  "save_all save [] last_saved s = (last_saved, s)"
| "save_all save ((others, a) # calls) last_saved s =
     (case save a (others s) of
        (Inl e, s) \<Rightarrow> save_all save calls last_saved s
      | (Inr _, s) \<Rightarrow> save_all save calls (Some a) s)"

text \<open>The saves go to one file, and nothing else does.\<close>

definition saves_to :: "path \<Rightarrow> ('a \<Rightarrow> path) \<Rightarrow> ((fs \<Rightarrow> fs) \<times> 'a) list \<Rightarrow> bool" where
  "saves_to p target calls \<longleftrightarrow>
     list_all (\<lambda>(others, a). target a = p \<and> (\<forall>s. fs_file (others s) p = fs_file s p)) calls"

lemma saves_to_simps [simp]:
  "saves_to p target []"
  "saves_to p target ((others, a) # calls) \<longleftrightarrow>
     target a = p \<and> (\<forall>s. fs_file (others s) p = fs_file s p) \<and> saves_to p target calls"
  by (auto simp: saves_to_def)

section \<open>The contract\<close>

text \<open>\<open>image e a bs\<close>: \<open>bs\<close> is a complete file for \<open>a\<close>.\<close>

locale atomic_save =
  fixes save :: "'e \<Rightarrow> 'a \<Rightarrow> fs \<Rightarrow> ('x + 'r) \<times> fs"
    and target :: "'e \<Rightarrow> 'a \<Rightarrow> path"
    and image :: "'e \<Rightarrow> 'a \<Rightarrow> nat list \<Rightarrow> bool"
  assumes save_done: "save e a s = (Inr r, s') \<Longrightarrow> \<exists>bs. image e a bs \<and> fs_file s' (target e a) = Some bs"
    and save_failed: "save e a s = (Inl x, s') \<Longrightarrow> fs_file s' (target e a) = fs_file s (target e a)"
begin

definition shows_last :: "'e \<Rightarrow> nat list option \<Rightarrow> 'a option \<Rightarrow> nat list option \<Rightarrow> bool" where
  "shows_last e old last_saved new \<longleftrightarrow>
     (case last_saved of None \<Rightarrow> new = old | Some a \<Rightarrow> \<exists>bs. image e a bs \<and> new = Some bs)"

lemma save_all_file:
  "save_all (save e) calls last0 s = (last_saved, s') \<Longrightarrow> saves_to p (target e) calls \<Longrightarrow>
   shows_last e old last0 (fs_file s p) \<Longrightarrow> shows_last e old last_saved (fs_file s' p)"
proof (induction calls arbitrary: last0 s)
  case (Cons c calls)
  obtain others a where c: "c = (others, a)" by (cases c)
  have to: "target e a = p" "fs_file (others s) p = fs_file s p" "saves_to p (target e) calls"
    using Cons.prems(2) by (simp_all add: c)
  obtain r s1 where r: "save e a (others s) = (r, s1)" by fastforce
  show ?case
  proof (cases r)
    case (Inl x)
    then have "fs_file s1 p = fs_file s p" using save_failed [of e a "others s"] r to by simp
    then show ?thesis using Cons.IH [OF _ to(3), of last0 s1] Cons.prems(1,3) r Inl by (simp add: c)
  next
    case (Inr y)
    then have "shows_last e old (Some a) (fs_file s1 p)"
      using save_done [of e a "others s"] r to by (simp add: shows_last_def)
    then show ?thesis using Cons.IH [OF _ to(3), of "Some a" s1] Cons.prems(1) r Inr by (simp add: c)
  qed
qed simp

lemma last_from_calls:
  "save_all (save e) calls last0 s = (Some a, s') \<Longrightarrow> last0 = Some a \<or> a \<in> snd ` set calls"
proof (induction calls arbitrary: last0 s)
  case (Cons c calls)
  obtain others b where c: "c = (others, b)" by (cases c)
  obtain r s1 where r: "save e b (others s) = (r, s1)" by fastforce
  then show ?case using Cons.IH [of _ s1] Cons.prems by (cases r) (force simp: c)+
qed simp

text \<open>At no moment is the file anything but what it was or one complete image.\<close>

lemma never_torn:
  assumes "save_all (save e) calls None s = (last_saved, s')" "saves_to p (target e) calls"
  shows "fs_file s' p = fs_file s p \<or> (\<exists>a \<in> snd ` set calls. \<exists>bs. image e a bs \<and> fs_file s' p = Some bs)"
proof -
  have "shows_last e (fs_file s p) last_saved (fs_file s' p)"
    by (rule save_all_file [OF assms]) (simp add: shows_last_def)
  then show ?thesis using last_from_calls [of e calls None s _ s'] assms(1) by (cases last_saved) (auto simp: shows_last_def)
qed

end

text \<open>A load that reads a complete file back, on a disk that answers.\<close>

locale saved_value = atomic_save save target image
  for save :: "'e \<Rightarrow> 'a \<Rightarrow> fs \<Rightarrow> ('x + 'r) \<times> fs" and target image +
  fixes valid :: "'e \<Rightarrow> bool"
    and load :: "'e \<Rightarrow> path \<Rightarrow> fs \<Rightarrow> 'v"
    and content :: "'e \<Rightarrow> 'a \<Rightarrow> 'v"
  assumes load_image: "valid e \<Longrightarrow> image e a bs \<Longrightarrow> fs_file s p = Some bs \<Longrightarrow> fs_answers s = [] \<Longrightarrow>
      load e p s = content e a"
    and load_same: "fs_file s p = fs_file s' p \<Longrightarrow> fs_answers s = [] \<Longrightarrow> fs_answers s' = [] \<Longrightarrow> load e p s = load e p s'"
begin

lemma load_last:
  assumes "valid e" "save_all (save e) calls None s = (last_saved, s')" "saves_to p (target e) calls"
    and "fs_answers s' = []"
  shows "load e p s' = (case last_saved of None \<Rightarrow> load e p (s \<lparr> fs_answers := [] \<rparr>) | Some a \<Rightarrow> content e a)"
proof -
  have f: "shows_last e (fs_file s p) last_saved (fs_file s' p)"
    by (rule save_all_file [OF assms(2,3)]) (simp add: shows_last_def)
  show ?thesis
  proof (cases last_saved)
    case None
    then show ?thesis using f load_same [of s' p "s \<lparr> fs_answers := [] \<rparr>" e] assms(4) by (simp add: shows_last_def)
  next
    case (Some a)
    then obtain bs where "image e a bs" "fs_file s' p = Some bs" using f by (auto simp: shows_last_def)
    then show ?thesis using Some load_image [OF assms(1)] assms(4) by simp
  qed
qed

end

end
