(* ===== verification/Link_Graph.thy ===== *)
theory Link_Graph
  imports Atomic Complex_Main
begin

text \<open>
  \<open>crates/indexer/src/graph.rs\<close>: the link graph of one drain with its two authority scores, and
  the file of cross-site counts kept between runs.

  Floating point is a parameter: \<open>float_ops\<close> names the operations of \<open>f32\<close> the code uses, in the
  order it uses them. \<open>exact_ops\<close> are the real numbers: what the scores are up to rounding.
\<close>

section \<open>Floating point operations\<close>

record 'f float_ops =
  fl_of_nat :: "nat \<Rightarrow> 'f"
  fl_lit :: "rat \<Rightarrow> 'f"
  fl_add :: "'f \<Rightarrow> 'f \<Rightarrow> 'f"
  fl_sub :: "'f \<Rightarrow> 'f \<Rightarrow> 'f"
  fl_mul :: "'f \<Rightarrow> 'f \<Rightarrow> 'f"
  fl_div :: "'f \<Rightarrow> 'f \<Rightarrow> 'f"
  fl_neg :: "'f \<Rightarrow> 'f"
  fl_exp :: "'f \<Rightarrow> 'f"
  fl_le :: "'f \<Rightarrow> 'f \<Rightarrow> bool"

definition exact_ops :: "real float_ops" where
  "exact_ops = \<lparr> fl_of_nat = real, fl_lit = of_rat, fl_add = (+), fl_sub = (-), fl_mul = (*),
     fl_div = (/), fl_neg = uminus, fl_exp = exp, fl_le = (\<le>) \<rparr>"

lemma exact_ops_simps [simp]:
  "fl_of_nat exact_ops = real" "fl_lit exact_ops = of_rat" "fl_add exact_ops = (+)" "fl_sub exact_ops = (-)"
  "fl_mul exact_ops = (*)" "fl_div exact_ops = (/)" "fl_neg exact_ops = uminus" "fl_exp exact_ops = exp"
  "fl_le exact_ops = (\<le>)"
  by (simp_all add: exact_ops_def)

record 'f doc_scores =
  authority :: 'f
  host_authority :: 'f

definition iterations :: nat where
  "iterations = 20"

definition damping :: rat where
  "damping = 85 / 100"

definition authority_scale :: rat where
  "authority_scale = 4"

definition host_authority_scale :: rat where
  "host_authority_scale = 8"

section \<open>The graph\<close>

record graph_limits =
  max_nodes :: nat
  max_edges :: nat

definition graph_limits_default :: graph_limits where
  "graph_limits_default = \<lparr> max_nodes = 250000, max_edges = 2000000 \<rparr>"

record link_graph =
  lg_limits :: graph_limits
  lg_ids :: "rstr \<Rightarrow> nat option"
  lg_urls :: "rstr list"
  lg_out :: "nat list list"
  lg_edges :: nat
  lg_truncated :: bool
  lg_host_inlinks :: "rstr \<Rightarrow> nat option"

definition link_graph_new :: "graph_limits \<Rightarrow> (rstr \<Rightarrow> nat option) \<Rightarrow> link_graph" where
  "link_graph_new limits host_inlinks =
     \<lparr> lg_limits = limits, lg_ids = (\<lambda>_. None), lg_urls = [], lg_out = [], lg_edges = 0,
       lg_truncated = False, lg_host_inlinks = host_inlinks \<rparr>"

text \<open>The node id is the number of URLs so far, cast to \<open>u32\<close>.\<close>

definition intern :: "rstr \<Rightarrow> link_graph \<Rightarrow> nat \<times> link_graph" where
  "intern url g =
     (case lg_ids g url of
        Some i \<Rightarrow> (i, g)
      | None \<Rightarrow>
          (let i = length (lg_urls g) mod 2 ^ 32
           in (i, g \<lparr> lg_ids := (lg_ids g)(url \<mapsto> i), lg_urls := lg_urls g @ [url],
                       lg_out := lg_out g @ [[]] \<rparr>)))"

fun record_loop :: "nat \<Rightarrow> rstr list \<Rightarrow> nat set \<Rightarrow> nat list \<Rightarrow> link_graph \<Rightarrow> nat list \<times> link_graph" where
  "record_loop source [] seen targets g = (targets, g)"
| "record_loop source (link # links) seen targets g =
     (if max_edges (lg_limits g) \<le> lg_edges g \<or> max_nodes (lg_limits g) \<le> length (lg_urls g)
      then (targets, g \<lparr> lg_truncated := True \<rparr>)
      else (case intern link g of
              (target, g) \<Rightarrow>
                if target = source \<or> target \<in> seen then record_loop source links seen targets g
                else record_loop source links (insert target seen) (targets @ [target])
                       (g \<lparr> lg_edges := lg_edges g + 1 \<rparr>)))"

definition record_links :: "rstr \<Rightarrow> rstr list \<Rightarrow> link_graph \<Rightarrow> link_graph" where
  "record_links url links g =
     (case intern url g of
        (source, g) \<Rightarrow>
          (case record_loop source links {} [] g of
             (targets, g) \<Rightarrow>
               (let replaced = length (lg_out g ! source)
                in g \<lparr> lg_edges := lg_edges g - replaced, lg_out := (lg_out g)[source := targets] \<rparr>)))"

definition graph_shape :: "link_graph \<Rightarrow> nat \<times> nat" where
  "graph_shape g = (length (lg_urls g), lg_edges g)"

section \<open>Cross-site links\<close>

text \<open>\<open>url.split("://").nth(1)\<close>, up to the first slash, question mark or hash.\<close>

definition graph_host_of :: "rstr \<Rightarrow> rstr option" where
  "graph_host_of url =
     (case find_str (str ''://'') url of
        None \<Rightarrow> None
      | Some i \<Rightarrow>
          (let rest = drop (i + 3) url;
               without_scheme = (case find_str (str ''://'') rest of None \<Rightarrow> rest | Some j \<Rightarrow> take j rest);
               host = before_first (\<lambda>c. c \<in> set (str ''/?#'')) without_scheme
           in if host = [] then None else Some (to_ascii_lowercase host)))"

definition bump :: "rstr \<Rightarrow> (rstr \<Rightarrow> nat option) \<Rightarrow> rstr \<Rightarrow> nat option" where
  "bump h m = m(h \<mapsto> (case m h of None \<Rightarrow> 0 | Some n \<Rightarrow> n) + 1)"

fun count_targets :: "rstr list \<Rightarrow> rstr \<Rightarrow> nat list \<Rightarrow> (rstr \<Rightarrow> nat option) \<Rightarrow> rstr \<Rightarrow> nat option" where
  "count_targets urls source_host [] pending = pending"
| "count_targets urls source_host (target # targets) pending =
     (case graph_host_of (urls ! target) of
        None \<Rightarrow> count_targets urls source_host targets pending
      | Some target_host \<Rightarrow>
          if target_host = source_host then count_targets urls source_host targets pending
          else count_targets urls source_host targets (bump target_host pending))"

fun count_sources :: "rstr list \<Rightarrow> (nat \<times> nat list) list \<Rightarrow> (rstr \<Rightarrow> nat option) \<Rightarrow> rstr \<Rightarrow> nat option" where
  "count_sources urls [] pending = pending"
| "count_sources urls ((source, targets) # out) pending =
     (case graph_host_of (urls ! source) of
        None \<Rightarrow> count_sources urls out pending
      | Some source_host \<Rightarrow> count_sources urls out (count_targets urls source_host targets pending))"

definition count_cross_site_links :: "link_graph \<Rightarrow> link_graph" where
  "count_cross_site_links g =
     (let pending = count_sources (lg_urls g) (List.enumerate 0 (lg_out g)) (\<lambda>_. None)
      in g \<lparr> lg_host_inlinks := (\<lambda>host. case pending host of
               None \<Rightarrow> lg_host_inlinks g host
             | Some count \<Rightarrow>
                 Some (wrap_add_u64 (case lg_host_inlinks g host of None \<Rightarrow> 0 | Some n \<Rightarrow> n) count)) \<rparr>)"

section \<open>PageRank\<close>

fun rank_targets :: "'f float_ops \<Rightarrow> 'f \<Rightarrow> nat list \<Rightarrow> 'f list \<Rightarrow> 'f list" where
  "rank_targets F share [] nxt = nxt"
| "rank_targets F share (t # ts) nxt = rank_targets F share ts (nxt[t := fl_add F (nxt ! t) share])"

fun rank_nodes :: "'f float_ops \<Rightarrow> 'f list \<Rightarrow> (nat \<times> nat list) list \<Rightarrow> 'f list \<times> 'f \<Rightarrow> 'f list \<times> 'f" where
  "rank_nodes F rank [] st = st"
| "rank_nodes F rank ((node, targets) # out) (nxt, dangling) =
     (if targets = [] then rank_nodes F rank out (nxt, fl_add F dangling (rank ! node))
      else rank_nodes F rank out
        (rank_targets F (fl_div F (fl_mul F (fl_lit F damping) (rank ! node)) (fl_of_nat F (length targets)))
           targets nxt, dangling))"

definition rank_step :: "'f float_ops \<Rightarrow> nat \<Rightarrow> nat list list \<Rightarrow> 'f list \<Rightarrow> 'f list" where
  "rank_step F n out rank =
     (let uniform = fl_div F (fl_sub F (fl_lit F 1) (fl_lit F damping)) (fl_of_nat F n)
      in case rank_nodes F rank (List.enumerate 0 out) (replicate n uniform, fl_lit F 0) of
           (nxt, dangling) \<Rightarrow>
             (let spread = fl_div F (fl_mul F (fl_lit F damping) dangling) (fl_of_nat F n)
              in map (\<lambda>v. fl_add F v spread) nxt))"

definition page_rank :: "'f float_ops \<Rightarrow> link_graph \<Rightarrow> 'f list" where
  "page_rank F g =
     (let n = length (lg_urls g)
      in if n = 0 then []
         else (rank_step F n (lg_out g) ^^ iterations) (replicate n (fl_div F (fl_lit F 1) (fl_of_nat F n))))"

definition squash :: "'f float_ops \<Rightarrow> 'f \<Rightarrow> 'f \<Rightarrow> 'f" where
  "squash F value scale =
     (if fl_le F value (fl_lit F 0) \<or> fl_le F scale (fl_lit F 0) then fl_lit F 0
      else fl_sub F (fl_lit F 1) (fl_exp F (fl_div F (fl_neg F value) scale)))"

definition graph_finish :: "'f float_ops \<Rightarrow> link_graph \<Rightarrow> (rstr \<Rightarrow> 'f doc_scores option) \<times> link_graph" where
  "graph_finish F g0 =
     (let g = count_cross_site_links g0;
          ranks = page_rank F g;
          node_count = fl_of_nat F (length (lg_urls g));
          score = (\<lambda>index url.
            let relative = fl_mul F node_count (ranks ! index);
                cross_site = fl_of_nat F
                  (case Option.bind (graph_host_of url) (lg_host_inlinks g) of None \<Rightarrow> 0 | Some n \<Rightarrow> n)
            in \<lparr> authority = squash F relative (fl_lit F authority_scale),
                 host_authority = squash F cross_site (fl_lit F host_authority_scale) \<rparr>)
      in (foldl (\<lambda>m (index, url). m(url \<mapsto> score index url)) (\<lambda>_. None) (List.enumerate 0 (lg_urls g)), g))"

section \<open>The file of cross-site counts\<close>

definition load_host_inlinks ::
    "(rstr \<Rightarrow> nat option) codec \<Rightarrow> path \<Rightarrow> fs \<Rightarrow> (rstr \<Rightarrow> nat option) \<times> fs" where
  "load_host_inlinks C p s =
     (case file_read p s of
        (Inl _, s) \<Rightarrow> (\<lambda>_. None, s)
      | (Inr raw, s) \<Rightarrow> (case decode C raw of Inr counts \<Rightarrow> (counts, s) | Inl _ \<Rightarrow> (\<lambda>_. None, s)))"

definition save_host_inlinks ::
    "(rstr \<Rightarrow> nat option) codec \<Rightarrow> path \<Rightarrow> (rstr \<Rightarrow> nat option) \<Rightarrow> fs \<Rightarrow> (io_error + unit) \<times> fs" where
  "save_host_inlinks C p counts s =
     (let json = (case encode C counts of Inr bs \<Rightarrow> bs | Inl _ \<Rightarrow> utf8 (str ''{}''))
      in replace_file p (str ''json.tmp'') json s)"

definition hosts_json :: "(rstr \<Rightarrow> nat option) codec \<Rightarrow> (rstr \<Rightarrow> nat option) \<Rightarrow> nat list" where
  "hosts_json C counts = (case encode C counts of Inr bs \<Rightarrow> bs | Inl _ \<Rightarrow> utf8 (str ''{}''))"

lemma save_host_inlinks_file:
  "save_host_inlinks C p counts s = (Inr u, s') \<Longrightarrow> fs_file s' p = Some (hosts_json C counts)"
  "save_host_inlinks C p counts s = (Inl x, s') \<Longrightarrow> fs_file s' p = fs_file s p"
  using replace_file_Inr [OF _ dotted_tmp(2)] replace_file_Inl [OF _ dotted_tmp(2)]
  by (auto simp: save_host_inlinks_def hosts_json_def Let_def)

lemma load_host_inlinks_file:
  "fs_answers s = [] \<Longrightarrow> fst (load_host_inlinks C p s) =
     (case fs_file s p of None \<Rightarrow> \<lambda>_. None | Some raw \<Rightarrow> (case decode C raw of Inr counts \<Rightarrow> counts | Inl _ \<Rightarrow> \<lambda>_. None))"
  by (simp add: load_host_inlinks_def file_read_def fs_call_def split: option.split sum.split)

text \<open>The counts of the last save that succeeded are what the next run starts from, when every table
  of counts can be written as JSON.\<close>

interpretation hosts_file: saved_value "\<lambda>e. save_host_inlinks (fst e) (snd e)" "\<lambda>e counts. snd e"
    "\<lambda>e counts bs. bs = hosts_json (fst e) counts"
    "\<lambda>e. codec_ok (fst e) \<and> (\<forall>counts. \<exists>bs. encode (fst e) counts = Inr bs)"
    "\<lambda>e q s. fst (load_host_inlinks (fst e) q s)" "\<lambda>e counts. counts"
proof unfold_locales
  fix e :: "(rstr \<Rightarrow> nat option) codec \<times> path" and counts bs s p
  assume e: "codec_ok (fst e) \<and> (\<forall>counts. \<exists>bs. encode (fst e) counts = Inr bs)" "bs = hosts_json (fst e) counts"
    "fs_file s p = Some bs" "fs_answers s = []"
  then obtain js where "encode (fst e) counts = Inr js" "decode (fst e) js = Inr counts"
    unfolding codec_ok_def by metis
  then show "fst (load_host_inlinks (fst e) p s) = counts"
    using e by (simp add: load_host_inlinks_file hosts_json_def)
qed (simp_all add: save_host_inlinks_file load_host_inlinks_file)

section \<open>The invariant of the graph\<close>

text \<open>The ids and the URLs are inverse to each other, and every node's targets are distinct known
  nodes other than itself.\<close>

definition graph_core :: "link_graph \<Rightarrow> bool" where
  "graph_core g \<longleftrightarrow> distinct (lg_urls g) \<and> length (lg_out g) = length (lg_urls g) \<and>
     (\<forall>u i. lg_ids g u = Some i \<longleftrightarrow> i < length (lg_urls g) \<and> lg_urls g ! i = u) \<and>
     (\<forall>i < length (lg_out g). distinct (lg_out g ! i) \<and>
        (\<forall>t \<in> set (lg_out g ! i). t < length (lg_urls g) \<and> t \<noteq> i))"

definition link_total :: "link_graph \<Rightarrow> nat" where
  "link_total g = sum_list (map length (lg_out g))"

definition graph_ok :: "link_graph \<Rightarrow> bool" where
  "graph_ok g \<longleftrightarrow> graph_core g \<and> lg_edges g = link_total g \<and> lg_edges g \<le> max_edges (lg_limits g)"

lemma link_graph_new_ok: "graph_ok (link_graph_new limits inlinks)"
  by (simp add: graph_ok_def graph_core_def link_graph_new_def link_total_def)

lemma intern_ok:
  assumes "graph_core g" "intern u g = (i, g')" "length (lg_urls g) < 2 ^ 32"
  shows "graph_core g'" "i < length (lg_urls g')" "lg_urls g' ! i = u" "lg_edges g' = lg_edges g"
    "link_total g' = link_total g" "lg_limits g' = lg_limits g" "length (lg_urls g') \<le> Suc (length (lg_urls g))"
    "length (lg_urls g) \<le> length (lg_urls g')" "lg_host_inlinks g' = lg_host_inlinks g"
    "\<And>j. j < length (lg_out g) \<Longrightarrow> lg_out g' ! j = lg_out g ! j"
proof -
  have all: "graph_core g' \<and> i < length (lg_urls g') \<and> lg_urls g' ! i = u \<and> lg_edges g' = lg_edges g \<and>
    link_total g' = link_total g \<and> lg_limits g' = lg_limits g \<and> length (lg_urls g') \<le> Suc (length (lg_urls g)) \<and>
    length (lg_urls g) \<le> length (lg_urls g') \<and> lg_host_inlinks g' = lg_host_inlinks g \<and>
    (\<forall>j. j < length (lg_out g) \<longrightarrow> lg_out g' ! j = lg_out g ! j)"
  proof (cases "lg_ids g u")
    case None
    have ids: "\<And>v j. lg_ids g v = Some j \<longleftrightarrow> j < length (lg_urls g) \<and> lg_urls g ! j = v"
      and core: "distinct (lg_urls g)" "length (lg_out g) = length (lg_urls g)"
        "\<forall>i < length (lg_out g). distinct (lg_out g ! i) \<and> (\<forall>t \<in> set (lg_out g ! i). t < length (lg_urls g) \<and> t \<noteq> i)"
      using assms(1) by (auto simp: graph_core_def)
    have g': "i = length (lg_urls g)" "g' = g \<lparr> lg_ids := (lg_ids g)(u \<mapsto> i), lg_urls := lg_urls g @ [u],
        lg_out := lg_out g @ [[]] \<rparr>"
      using assms(2,3) None by (auto simp: intern_def Let_def)
    have new: "u \<notin> set (lg_urls g)" using None ids [of u] by (auto simp: in_set_conv_nth)
    have ids': "(lg_ids g)(u \<mapsto> i) = lg_ids g'" by (simp add: g'(2))
    have "lg_ids g' v = Some j \<longleftrightarrow> j < length (lg_urls g') \<and> lg_urls g' ! j = v" for v j
      using ids [of v j] ids [of u j] None new by (auto simp: g' nth_append less_Suc_eq)
    moreover have "\<forall>i < length (lg_out g'). distinct (lg_out g' ! i) \<and>
        (\<forall>t \<in> set (lg_out g' ! i). t < length (lg_urls g') \<and> t \<noteq> i)"
      using core(3) by (auto simp: g' nth_append less_Suc_eq)
    ultimately have "graph_core g'" using core new by (simp add: graph_core_def g'(2))
    then show ?thesis by (simp add: g' link_total_def nth_append)
  next
    case (Some j)
    then show ?thesis using assms(1,2) by (auto simp: intern_def graph_core_def)
  qed
  then show "graph_core g'" "i < length (lg_urls g')" "lg_urls g' ! i = u" "lg_edges g' = lg_edges g"
    "link_total g' = link_total g" "lg_limits g' = lg_limits g" "length (lg_urls g') \<le> Suc (length (lg_urls g))"
    "length (lg_urls g) \<le> length (lg_urls g')" "lg_host_inlinks g' = lg_host_inlinks g"
    "\<And>j. j < length (lg_out g) \<Longrightarrow> lg_out g' ! j = lg_out g ! j" by blast+
qed

lemma record_loop_ok:
  "record_loop source links (set targets) targets g = (ts, g') \<Longrightarrow> graph_core g \<Longrightarrow>
   length (lg_urls g) + length links < 2 ^ 32 \<Longrightarrow> source < length (lg_urls g) \<Longrightarrow>
   distinct targets \<Longrightarrow> \<forall>t \<in> set targets. t < length (lg_urls g) \<and> t \<noteq> source \<Longrightarrow>
   lg_edges g = link_total g + length targets \<Longrightarrow>
   link_total g + length targets \<le> max_edges (lg_limits g) + length (lg_out g ! source) \<Longrightarrow>
   graph_core g' \<and> distinct ts \<and> (\<forall>t \<in> set ts. t < length (lg_urls g') \<and> t \<noteq> source) \<and>
   lg_edges g' = link_total g' + length ts \<and> lg_limits g' = lg_limits g \<and> source < length (lg_urls g') \<and>
   length (lg_urls g) \<le> length (lg_urls g') \<and> length (lg_urls g') \<le> max (length (lg_urls g)) (max_nodes (lg_limits g)) \<and>
   lg_host_inlinks g' = lg_host_inlinks g \<and>
   link_total g' + length ts \<le> max_edges (lg_limits g) + length (lg_out g' ! source)"
proof (induction links arbitrary: targets g)
  case Nil
  then show ?case by auto
next
  case (Cons link links)
  show ?case
  proof (cases "max_edges (lg_limits g) \<le> lg_edges g \<or> max_nodes (lg_limits g) \<le> length (lg_urls g)")
    case True
    then have "ts = targets" "g' = g \<lparr> lg_truncated := True \<rparr>" using Cons.prems(1) by auto
    then show ?thesis using Cons.prems by (simp add: graph_core_def link_total_def)
  next
    case False
    obtain t g1 where i: "intern link g = (t, g1)" by fastforce
    have len: "length (lg_urls g) < 2 ^ 32" using Cons.prems(3) by simp
    note n = intern_ok [OF Cons.prems(2) i len]
    have src: "source < length (lg_out g)" using Cons.prems(2,4) by (simp add: graph_core_def)
    have room: "length (lg_urls g1) + length links < 2 ^ 32" using n(7) Cons.prems(3) by simp
    have src1: "source < length (lg_urls g1)" using n(8) Cons.prems(4) by simp
    have urls: "length (lg_urls g1) \<le> max (length (lg_urls g)) (max_nodes (lg_limits g))" using False n(7) by simp
    have known: "\<forall>t \<in> set targets. t < length (lg_urls g1) \<and> t \<noteq> source" using Cons.prems(6) n(8) by auto
    show ?thesis
    proof (cases "t = source \<or> t \<in> set targets")
      case True
      have "record_loop source links (set targets) targets g1 = (ts, g')"
        using Cons.prems(1) False i True by simp
      from Cons.IH [OF this n(1) room src1 Cons.prems(5) known] Cons.prems(7,8) n(4,5,6) n(10) [OF src] n(8,9) urls
      show ?thesis by auto
    next
      case False
      let ?g2 = "g1 \<lparr> lg_edges := lg_edges g1 + 1 \<rparr>"
      have run: "record_loop source links (set (targets @ [t])) (targets @ [t]) ?g2 = (ts, g')"
        using Cons.prems(1) \<open>\<not> (max_edges _ \<le> _ \<or> _)\<close> i False by simp
      have core2: "graph_core ?g2" using n(1) by (simp add: graph_core_def)
      have tot2: "link_total ?g2 = link_total g" using n(5) by (simp add: link_total_def)
      have room2: "length (lg_urls ?g2) + length links < 2 ^ 32" "source < length (lg_urls ?g2)"
        using room src1 by simp_all
      have dist2: "distinct (targets @ [t])" using Cons.prems(5) False by simp
      have known2: "\<forall>t' \<in> set (targets @ [t]). t' < length (lg_urls ?g2) \<and> t' \<noteq> source"
        using known n(2) False by auto
      have edges2: "lg_edges ?g2 = link_total ?g2 + length (targets @ [t])" using Cons.prems(7) n(4) tot2 by simp
      have bound2: "link_total ?g2 + length (targets @ [t]) \<le> max_edges (lg_limits ?g2) + length (lg_out ?g2 ! source)"
        using \<open>\<not> (max_edges _ \<le> _ \<or> _)\<close> Cons.prems(7) tot2 n(6) by simp
      from Cons.IH [OF run core2 room2 dist2 known2 edges2 bound2] n(6,8,9) urls
      show ?thesis by auto
    qed
  qed
qed

lemma sum_list_update:
  "i < length xs \<Longrightarrow> sum_list (map length (xs[i := ys])) + length (xs ! i) = sum_list (map length xs) + length ys"
  by (induction xs arbitrary: i) (auto split: nat.splits)

lemma record_links_ok:
  assumes "graph_ok g" "length (lg_urls g) + length links + 1 < 2 ^ 32"
  shows "graph_ok (record_links url links g)" "lg_limits (record_links url links g) = lg_limits g"
    "length (lg_urls (record_links url links g)) \<le> max (Suc (length (lg_urls g))) (max_nodes (lg_limits g))"
    "lg_host_inlinks (record_links url links g) = lg_host_inlinks g"
proof -
  obtain source g1 ts g2 where r: "intern url g = (source, g1)" "record_loop source links {} [] g1 = (ts, g2)"
    by (metis prod.exhaust)
  have core: "graph_core g" "lg_edges g = link_total g" "lg_edges g \<le> max_edges (lg_limits g)"
    using assms(1) by (simp_all add: graph_ok_def)
  have "length (lg_urls g) < 2 ^ 32" using assms(2) by simp
  note i = intern_ok [OF core(1) r(1) this]
  have loop: "record_loop source links (set []) [] g1 = (ts, g2)" using r(2) by simp
  have room: "length (lg_urls g1) + length links < 2 ^ 32" using i(7) assms(2) by simp
  have "graph_core g2 \<and> distinct ts \<and> (\<forall>t \<in> set ts. t < length (lg_urls g2) \<and> t \<noteq> source) \<and>
   lg_edges g2 = link_total g2 + length ts \<and> lg_limits g2 = lg_limits g1 \<and> source < length (lg_urls g2) \<and>
   length (lg_urls g1) \<le> length (lg_urls g2) \<and> length (lg_urls g2) \<le> max (length (lg_urls g1)) (max_nodes (lg_limits g1)) \<and>
   lg_host_inlinks g2 = lg_host_inlinks g1 \<and>
   link_total g2 + length ts \<le> max_edges (lg_limits g1) + length (lg_out g2 ! source)"
    by (rule record_loop_ok [OF loop i(1) room i(2)]) (use i core in simp_all)
  then have g2: "graph_core g2" "distinct ts" "\<forall>t \<in> set ts. t < length (lg_urls g2) \<and> t \<noteq> source"
    "lg_edges g2 = link_total g2 + length ts" "lg_limits g2 = lg_limits g1" "source < length (lg_urls g2)"
    "length (lg_urls g2) \<le> max (length (lg_urls g1)) (max_nodes (lg_limits g1))"
    "lg_host_inlinks g2 = lg_host_inlinks g1"
    "link_total g2 + length ts \<le> max_edges (lg_limits g1) + length (lg_out g2 ! source)" by blast+
  let ?g3 = "g2 \<lparr> lg_edges := lg_edges g2 - length (lg_out g2 ! source), lg_out := (lg_out g2)[source := ts] \<rparr>"
  have g3: "record_links url links g = ?g3" using r by (simp add: record_links_def Let_def)
  have src: "source < length (lg_out g2)" using g2(1,6) by (simp add: graph_core_def)
  have "link_total ?g3 + length (lg_out g2 ! source) = link_total g2 + length ts"
    using sum_list_update [OF src] by (simp add: link_total_def)
  then have "lg_edges ?g3 = link_total ?g3" using g2(4) by simp
  moreover have "lg_edges ?g3 \<le> max_edges (lg_limits ?g3)" using g2(4,5,9) i(6) by simp
  moreover have "graph_core ?g3"
    using g2(1-3) src by (auto simp: graph_core_def nth_list_update)
  ultimately show "graph_ok (record_links url links g)" unfolding g3 by (simp add: graph_ok_def)
  show "lg_limits (record_links url links g) = lg_limits g"
    "length (lg_urls (record_links url links g)) \<le> max (Suc (length (lg_urls g))) (max_nodes (lg_limits g))"
    "lg_host_inlinks (record_links url links g) = lg_host_inlinks g"
    unfolding g3 using g2(5,7,8) i(6,7,9) by auto
qed

definition record_all :: "(rstr \<times> rstr list) list \<Rightarrow> link_graph \<Rightarrow> link_graph" where
  "record_all docs g = fold (\<lambda>(url, links). record_links url links) docs g"

lemma record_all_ok:
  "graph_ok g \<Longrightarrow> length (lg_urls g) \<le> max_nodes (lg_limits g) + k \<Longrightarrow>
   \<forall>(url, links) \<in> set docs. max_nodes (lg_limits g) + k + length docs + length links + 1 < 2 ^ 32 \<Longrightarrow>
   graph_ok (record_all docs g) \<and> lg_limits (record_all docs g) = lg_limits g \<and>
   length (lg_urls (record_all docs g)) \<le> max_nodes (lg_limits g) + k + length docs \<and>
   lg_host_inlinks (record_all docs g) = lg_host_inlinks g"
proof (induction docs arbitrary: g k)
  case Nil
  then show ?case by (simp add: record_all_def)
next
  case (Cons d docs)
  obtain url links where d: "d = (url, links)" by (cases d)
  have room: "length (lg_urls g) + length links + 1 < 2 ^ 32" using Cons.prems(2,3) d by auto
  note r = record_links_ok [OF Cons.prems(1) room, of url]
  have "length (lg_urls (record_links url links g)) \<le> max_nodes (lg_limits (record_links url links g)) + Suc k"
    using r(2,3) Cons.prems(2) by simp
  moreover have "\<forall>(u, l) \<in> set docs. max_nodes (lg_limits (record_links url links g)) + Suc k + length docs + length l + 1 < 2 ^ 32"
    using Cons.prems(3) r(2) by auto
  ultimately have "graph_ok (record_all docs (record_links url links g)) \<and>
    lg_limits (record_all docs (record_links url links g)) = lg_limits (record_links url links g) \<and>
    length (lg_urls (record_all docs (record_links url links g))) \<le>
      max_nodes (lg_limits (record_links url links g)) + Suc k + length docs \<and>
    lg_host_inlinks (record_all docs (record_links url links g)) = lg_host_inlinks (record_links url links g)"
    using Cons.IH [OF r(1)] by blast
  then show ?case using r(2,4) d by (simp add: record_all_def)
qed

text \<open>C30: whatever pages are recorded, repeated ones included, the graph stays well formed: the ids
  and the URLs are inverse to each other, the targets of a page are distinct known nodes other than
  the page itself, and the reported edge count is the number of links the rank iteration walks.
  The number of edges never exceeds its limit; the number of nodes exceeds its limit by at most one
  for each recorded page, because the page itself is always added.\<close>

theorem record_all_graph_ok:
  assumes "list_all (\<lambda>(url, links). max_nodes limits + length docs + length links + 1 < 2 ^ 32) docs"
  shows "graph_ok (record_all docs (link_graph_new limits inlinks)) \<and>
    snd (graph_shape (record_all docs (link_graph_new limits inlinks))) \<le> max_edges limits \<and>
    fst (graph_shape (record_all docs (link_graph_new limits inlinks))) \<le> max_nodes limits + length docs"
  using record_all_ok [OF link_graph_new_ok, of limits inlinks 0 docs] assms
  by (auto simp: list_all_iff graph_shape_def graph_ok_def link_graph_new_def)

theorem record_all_graph_ok_witness:
  "graph_ok (record_all [(str ''http://a/'', [str ''http://b/'', str ''http://a/'', str ''http://b/'']),
      (str ''http://c/'', [])] (link_graph_new \<lparr> max_nodes = 1, max_edges = 5 \<rparr> (\<lambda>_. None))) \<and>
   graph_shape (record_all [(str ''http://a/'', [str ''http://b/'', str ''http://a/'', str ''http://b/'']),
      (str ''http://c/'', [])] (link_graph_new \<lparr> max_nodes = 1, max_edges = 5 \<rparr> (\<lambda>_. None))) = (2, 0)"
proof
  show "graph_ok (record_all [(str ''http://a/'', [str ''http://b/'', str ''http://a/'', str ''http://b/'']),
      (str ''http://c/'', [])] (link_graph_new \<lparr> max_nodes = 1, max_edges = 5 \<rparr> (\<lambda>_. None)))"
    by (rule record_all_graph_ok [THEN conjunct1]) simp
qed (simp add: record_all_def record_links_def intern_def link_graph_new_def graph_shape_def)

section \<open>PageRank in exact arithmetic\<close>

lemma rank_targets_length [simp]: "length (rank_targets F share ts nxt) = length nxt"
  by (induction ts arbitrary: nxt) simp_all

lemma sum_list_bump: "i < length xs \<Longrightarrow> sum_list (xs[i := xs ! i + y]) = sum_list xs + (y :: real)"
  by (induction xs arbitrary: i) (auto split: nat.splits)

lemma rank_targets_sum:
  "\<forall>t \<in> set ts. t < length nxt \<Longrightarrow>
   sum_list (rank_targets exact_ops share ts nxt) = sum_list nxt + share * real (length ts)"
  by (induction ts arbitrary: nxt) (simp_all add: sum_list_bump distrib_left)

lemma rank_targets_ge:
  "0 \<le> share \<Longrightarrow> \<forall>x \<in> set nxt. u \<le> x \<Longrightarrow> \<forall>t \<in> set ts. t < length nxt \<Longrightarrow>
   \<forall>x \<in> set (rank_targets exact_ops share ts nxt). u \<le> x"
proof (induction ts arbitrary: nxt)
  case Nil
  then show ?case by simp
next
  case (Cons t ts)
  have "u \<le> nxt ! t" using Cons.prems(2,3) by simp
  then have "\<forall>x \<in> set (nxt[t := nxt ! t + share]). u \<le> x"
    using Cons.prems(1,2) set_update_subset_insert [of nxt t "nxt ! t + share"] by auto
  then show ?case using Cons.IH [OF Cons.prems(1)] Cons.prems(3) by simp
qed

lemma rank_nodes_sum:
  assumes "\<forall>(node, targets) \<in> set out. \<forall>t \<in> set targets. t < length nxt"
  shows "sum_list (fst (rank_nodes exact_ops rank out (nxt, dangling))) +
      of_rat damping * snd (rank_nodes exact_ops rank out (nxt, dangling)) =
    sum_list nxt + of_rat damping * dangling + of_rat damping * sum_list (map (\<lambda>(node, _). rank ! node) out) \<and>
    length (fst (rank_nodes exact_ops rank out (nxt, dangling))) = length nxt"
  using assms
proof (induction out arbitrary: nxt dangling)
  case Nil
  then show ?case by simp
next
  case (Cons p out)
  obtain node targets where p: "p = (node, targets)" by (cases p)
  show ?case
  proof (cases "targets = []")
    case True
    then show ?thesis using Cons p by (simp add: algebra_simps)
  next
    case False
    let ?share = "of_rat damping * rank ! node / real (length targets)"
    have "\<forall>(node, ts) \<in> set out. \<forall>t \<in> set ts. t < length (rank_targets exact_ops ?share targets nxt)"
      using Cons.prems by auto
    note IH = Cons.IH [OF this, of dangling]
    have "sum_list (rank_targets exact_ops ?share targets nxt) = sum_list nxt + of_rat damping * rank ! node"
      using rank_targets_sum [of targets nxt ?share] Cons.prems p False by simp
    then show ?thesis using IH p False by (simp add: algebra_simps)
  qed
qed

lemma rank_nodes_ge:
  assumes "\<forall>(node, targets) \<in> set out. 0 \<le> rank ! node \<and> (\<forall>t \<in> set targets. t < length nxt)"
    and "\<forall>x \<in> set nxt. u \<le> x" "0 \<le> dangling"
  shows "(\<forall>x \<in> set (fst (rank_nodes exact_ops rank out (nxt, dangling))). u \<le> x) \<and>
    0 \<le> snd (rank_nodes exact_ops rank out (nxt, dangling))"
  using assms
proof (induction out arbitrary: nxt dangling)
  case Nil
  then show ?case by simp
next
  case (Cons p out)
  obtain node targets where p: "p = (node, targets)" by (cases p)
  show ?case
  proof (cases "targets = []")
    case True
    then show ?thesis using Cons.IH [of nxt "dangling + rank ! node"] Cons.prems p by simp
  next
    case False
    let ?share = "of_rat damping * rank ! node / real (length targets)"
    have share: "0 \<le> ?share" using Cons.prems(1) p by (simp add: damping_def of_rat_divide)
    have "\<forall>x \<in> set (rank_targets exact_ops ?share targets nxt). u \<le> x"
      by (rule rank_targets_ge [OF share Cons.prems(2)]) (use Cons.prems(1) p in auto)
    then show ?thesis
      using Cons.IH [of "rank_targets exact_ops ?share targets nxt" dangling] Cons.prems p False by simp
  qed
qed

text \<open>A vector that sums to one and gives every page at least its uniform share.\<close>

definition rank_vector :: "nat \<Rightarrow> real list \<Rightarrow> bool" where
  "rank_vector n rank \<longleftrightarrow> length rank = n \<and> sum_list rank = 1 \<and> (\<forall>r \<in> set rank. 3 / 20 / real n \<le> r)"

lemma enumerate_nodes: "map (\<lambda>(node, _). rank ! node) (List.enumerate k out) = map ((!) rank) [k..<k + length out]"
  by (induction out arbitrary: k) (simp_all add: upt_rec)

lemma rank_step_vector:
  assumes "rank_vector n rank" "0 < n" "length out = n" "\<forall>ts \<in> set out. \<forall>t \<in> set ts. t < n"
  shows "rank_vector n (rank_step exact_ops n out rank)"
proof -
  let ?d = "of_rat damping :: real"
  have d: "?d = 17 / 20" by (simp add: damping_def of_rat_divide)
  let ?u = "(1 - ?d) / real n"
  obtain nxt dangling where r: "rank_nodes exact_ops rank (List.enumerate 0 out) (replicate n ?u, 0) = (nxt, dangling)"
    by fastforce
  have step: "rank_step exact_ops n out rank = map (\<lambda>v. v + ?d * dangling / real n) nxt"
    using r by (simp add: rank_step_def)
  have nodes: "\<forall>(node, ts) \<in> set (List.enumerate 0 out). node < n \<and> (\<forall>t \<in> set ts. t < n)"
    using assms(3,4) by (auto simp: in_set_enumerate_eq)
  have rk: "0 \<le> rank ! i" if "i < n" for i
  proof -
    have "3 / 20 / real n \<le> rank ! i" using assms(1) that by (simp add: rank_vector_def)
    moreover have "0 \<le> 3 / 20 / real n" by simp
    ultimately show ?thesis by linarith
  qed
  have "map ((!) rank) [0..<n] = rank" using assms(1) by (metis map_nth rank_vector_def)
  then have all: "sum_list (map (\<lambda>(node, _). rank ! node) (List.enumerate 0 out)) = 1"
    using assms(1,3) enumerate_nodes [of rank 0 out] by (simp add: rank_vector_def)
  have bound: "\<forall>(node, ts) \<in> set (List.enumerate 0 out). \<forall>t \<in> set ts. t < length (replicate n ?u)"
    using nodes by auto
  have sums: "sum_list nxt + ?d * dangling = real n * ?u + ?d" "length nxt = n"
    using rank_nodes_sum [OF bound, of rank 0] r all by (simp_all add: sum_list_replicate)
  have nonneg: "\<forall>(node, ts) \<in> set (List.enumerate 0 out). 0 \<le> rank ! node \<and> (\<forall>t \<in> set ts. t < length (replicate n ?u))"
    using nodes rk by auto
  have ge: "\<forall>x \<in> set nxt. ?u \<le> x" "0 \<le> dangling"
    using rank_nodes_ge [OF nonneg, of ?u 0] r by auto
  have "sum_list (map (\<lambda>v. v + ?d * dangling / real n) nxt) = sum_list nxt + ?d * dangling"
    using sums(2) assms(2) by (simp add: sum_list_addf sum_list_triv)
  moreover have "real n * ?u + ?d = 1" using assms(2) by simp
  moreover have low: "0 \<le> ?d * dangling / real n" unfolding d using ge(2) by simp
  have "\<forall>x \<in> set nxt. 3 / 20 / real n \<le> x + ?d * dangling / real n"
  proof (intro ballI)
    fix x assume x: "x \<in> set nxt"
    have "?u = 3 / 20 / real n" by (simp add: d)
    then have "3 / 20 / real n \<le> x" using ge(1) x by simp
    then show "3 / 20 / real n \<le> x + ?d * dangling / real n" using low by linarith
  qed
  ultimately show ?thesis using sums step by (auto simp: rank_vector_def)
qed

lemma rank_vector_funpow:
  assumes "0 < n" "length out = n" "\<forall>ts \<in> set out. \<forall>t \<in> set ts. t < n" "rank_vector n rank"
  shows "rank_vector n ((rank_step exact_ops n out ^^ k) rank)"
  by (induction k) (simp_all add: assms rank_step_vector)

lemma graph_ok_targets:
  assumes "graph_ok g"
  shows "length (lg_out g) = length (lg_urls g) \<and> (\<forall>ts \<in> set (lg_out g). \<forall>t \<in> set ts. t < length (lg_urls g))"
proof -
  have core: "length (lg_out g) = length (lg_urls g)"
    "\<And>i t. i < length (lg_out g) \<Longrightarrow> t \<in> set (lg_out g ! i) \<Longrightarrow> t < length (lg_urls g)"
    using assms unfolding graph_ok_def graph_core_def by blast+
  then show ?thesis by (metis in_set_conv_nth)
qed

lemma rank_vector_uniform: "0 < n \<Longrightarrow> rank_vector n (replicate n (1 / real n))"
  using divide_right_mono [of "3 / 20" 1 "real n"] by (simp add: rank_vector_def sum_list_replicate)

text \<open>C29: on a well-formed graph the rank iteration neither loses nor creates importance, pages
  without links included: in exact arithmetic the ranks sum to one, and no page falls below the
  share the damping spreads evenly.\<close>

theorem page_rank_conserves:
  assumes "graph_ok g" "lg_urls g \<noteq> []"
  shows "length (page_rank exact_ops g) = length (lg_urls g) \<and> sum_list (page_rank exact_ops g) = 1 \<and>
    list_all (\<lambda>r. 3 / 20 / real (length (lg_urls g)) \<le> r) (page_rank exact_ops g)"
proof -
  let ?n = "length (lg_urls g)"
  have n: "0 < ?n" using assms(2) by simp
  have g: "length (lg_out g) = ?n" "\<forall>ts \<in> set (lg_out g). \<forall>t \<in> set ts. t < ?n"
    using graph_ok_targets [OF assms(1)] by blast+
  have "page_rank exact_ops g = (rank_step exact_ops ?n (lg_out g) ^^ iterations) (replicate ?n (1 / real ?n))"
    using assms(2) by (simp add: page_rank_def Let_def)
  with rank_vector_funpow [OF n g rank_vector_uniform [OF n], of iterations]
  have "rank_vector ?n (page_rank exact_ops g)" by simp
  then show ?thesis unfolding rank_vector_def list_all_iff by blast
qed


section \<open>The scores\<close>

lemma squash_bounds: "0 \<le> squash exact_ops v c \<and> squash exact_ops v c < 1"
  by (simp add: squash_def)

lemma squash_mono: "v \<le> v' \<Longrightarrow> squash exact_ops v c \<le> squash exact_ops v' c"
  by (auto simp: squash_def divide_right_mono)

lemma foldl_upd_dom:
  "foldl (\<lambda>m (i, u). m(u \<mapsto> f i u)) m xs u = Some y \<Longrightarrow> m u = Some y \<or> (\<exists>i. (i, u) \<in> set xs \<and> y = f i u)"
  by (induction xs arbitrary: m) (fastforce split: if_splits)+

lemma foldl_upd_get:
  "distinct (map snd xs) \<Longrightarrow> (i, u) \<in> set xs \<Longrightarrow> foldl (\<lambda>m (i, u). m(u \<mapsto> f i u)) m xs u = Some (f i u)"
proof (induction xs arbitrary: m)
  case Nil
  then show ?case by simp
next
  case (Cons x xs)
  have keep: "u \<notin> snd ` set xs \<Longrightarrow> foldl (\<lambda>m (i, u). m(u \<mapsto> f i u)) m xs u = m u" for m
    by (induction xs arbitrary: m) auto
  show ?case
  proof (cases "x = (i, u)")
    case True
    then have "u \<notin> snd ` set xs" using Cons.prems(1) by simp
    with True show ?thesis by (simp add: keep fun_upd_same del: fun_upd_apply)
  next
    case False
    then have "(i, u) \<in> set xs" using Cons.prems(2) by auto
    then show ?thesis using Cons.IH Cons.prems(1) by (cases x) auto
  qed
qed

lemma count_keeps [simp]:
  "lg_urls (count_cross_site_links g) = lg_urls g" "lg_out (count_cross_site_links g) = lg_out g"
  "lg_limits (count_cross_site_links g) = lg_limits g" "lg_edges (count_cross_site_links g) = lg_edges g"
  "lg_ids (count_cross_site_links g) = lg_ids g"
  by (simp_all add: count_cross_site_links_def Let_def)

lemma page_rank_count [simp]: "page_rank F (count_cross_site_links g) = page_rank F g"
  by (simp add: page_rank_def Let_def)

text \<open>In exact arithmetic every URL of the graph, and no other, gets scores from zero to below one,
  and of two pages the one with the greater rank has at least the authority of the other.\<close>

theorem graph_scores_bounded:
  assumes "graph_ok g"
  shows "dom (fst (graph_finish exact_ops g)) = set (lg_urls g) \<and>
    (\<forall>u s. fst (graph_finish exact_ops g) u = Some s \<longrightarrow>
       0 \<le> authority s \<and> authority s < 1 \<and> 0 \<le> host_authority s \<and> host_authority s < 1) \<and>
    (\<forall>i j s t. i < length (lg_urls g) \<longrightarrow> j < length (lg_urls g) \<longrightarrow>
       fst (graph_finish exact_ops g) (lg_urls g ! i) = Some s \<longrightarrow>
       fst (graph_finish exact_ops g) (lg_urls g ! j) = Some t \<longrightarrow>
       page_rank exact_ops g ! i \<le> page_rank exact_ops g ! j \<longrightarrow> authority s \<le> authority t)"
proof -
  let ?hosts = "lg_host_inlinks (count_cross_site_links g)"
  let ?score = "\<lambda>i u. \<lparr> authority = squash exact_ops (real (length (lg_urls g)) * (page_rank exact_ops g ! i)) (of_rat authority_scale),
      host_authority = squash exact_ops (real (case Option.bind (graph_host_of u) ?hosts of None \<Rightarrow> 0 | Some n \<Rightarrow> n))
        (of_rat host_authority_scale) \<rparr>"
  let ?m = "fst (graph_finish exact_ops g)"
  have m: "?m = foldl (\<lambda>m (i, u). m(u \<mapsto> ?score i u)) (\<lambda>_. None) (List.enumerate 0 (lg_urls g))"
    by (simp add: graph_finish_def Let_def)
  have d: "distinct (map snd (List.enumerate 0 (lg_urls g)))"
    using assms by (simp add: graph_ok_def graph_core_def)
  have get: "?m (lg_urls g ! i) = Some (?score i (lg_urls g ! i))" if "i < length (lg_urls g)" for i
    unfolding m by (rule foldl_upd_get [OF d]) (use that in \<open>simp add: in_set_enumerate_eq\<close>)
  have only: "\<exists>i < length (lg_urls g). u = lg_urls g ! i \<and> s = ?score i u" if "?m u = Some s" for u s
    using foldl_upd_dom [of ?score "\<lambda>_. None" "List.enumerate 0 (lg_urls g)" u s] that
    unfolding m by (auto simp: in_set_enumerate_eq)
  have "dom ?m = set (lg_urls g)"
  proof
    show "dom ?m \<subseteq> set (lg_urls g)" using only by (fastforce simp: dom_def)
    show "set (lg_urls g) \<subseteq> dom ?m" using get by (auto simp: in_set_conv_nth)
  qed
  moreover have "\<forall>u s. ?m u = Some s \<longrightarrow>
       0 \<le> authority s \<and> authority s < 1 \<and> 0 \<le> host_authority s \<and> host_authority s < 1"
    using only squash_bounds by fastforce
  moreover have "authority s \<le> authority t" if "i < length (lg_urls g)" "j < length (lg_urls g)"
    "?m (lg_urls g ! i) = Some s" "?m (lg_urls g ! j) = Some t" "page_rank exact_ops g ! i \<le> page_rank exact_ops g ! j"
    for i j s t
  proof -
    have "real (length (lg_urls g)) * (page_rank exact_ops g ! i) \<le> real (length (lg_urls g)) * (page_rank exact_ops g ! j)"
      using that(5) by (simp add: mult_left_mono)
    moreover have "s = ?score i (lg_urls g ! i)" "t = ?score j (lg_urls g ! j)"
      using get [OF that(1)] get [OF that(2)] that(3,4) by simp_all
    ultimately show ?thesis using squash_mono by simp
  qed
  ultimately show ?thesis by blast
qed

section \<open>Counting the links from other sites\<close>

text \<open>The links into host \<open>h\<close> from pages of other hosts.\<close>

definition inlinks_of :: "rstr list \<Rightarrow> rstr \<Rightarrow> nat \<times> nat list \<Rightarrow> nat" where
  "inlinks_of urls h p =
     (if graph_host_of (urls ! fst p) \<in> {None, Some h} then 0
      else length (filter (\<lambda>t. graph_host_of (urls ! t) = Some h) (snd p)))"

definition count_at :: "(rstr \<Rightarrow> nat option) \<Rightarrow> rstr \<Rightarrow> nat" where
  "count_at m h = (case m h of None \<Rightarrow> 0 | Some n \<Rightarrow> n)"

lemma count_at_bump: "count_at (bump h m) h' = count_at m h' + (if h' = h then 1 else 0)"
  by (simp add: bump_def count_at_def)

lemma count_targets_at:
  "count_at (count_targets urls sh targets m) h =
     count_at m h + (if h = sh then 0 else length (filter (\<lambda>t. graph_host_of (urls ! t) = Some h) targets))"
  by (induction targets arbitrary: m) (auto simp: count_at_bump split: option.split)

lemma count_sources_at:
  "count_at (count_sources urls out m) h = count_at m h + sum_list (map (inlinks_of urls h) out)"
proof (induction urls out m rule: count_sources.induct)
  case (2 urls source targets out pending)
  then show ?case
    by (cases "graph_host_of (urls ! source)") (simp_all add: inlinks_of_def count_targets_at)
qed simp

text \<open>C31: a run adds to the stored count of every host the number of recorded links that lead to it
  from a page of another host; links within a host, and links from or to URLs without a host, add
  nothing.\<close>

theorem cross_site_counts:
  assumes "count_at (lg_host_inlinks g) h \<le> u64_max"
  shows "count_at (lg_host_inlinks (count_cross_site_links g)) h =
    wrap_add_u64 (count_at (lg_host_inlinks g) h)
      (sum_list (map (inlinks_of (lg_urls g) h) (List.enumerate 0 (lg_out g))))"
proof -
  let ?p = "count_sources (lg_urls g) (List.enumerate 0 (lg_out g)) (\<lambda>_. None)"
  define added where "added = sum_list (map (inlinks_of (lg_urls g) h) (List.enumerate 0 (lg_out g)))"
  have "count_at ?p h = added"
    unfolding count_sources_at added_def by (simp add: count_at_def)
  then show ?thesis
    using assms unfolding count_cross_site_links_def Let_def added_def [symmetric]
    by (cases "?p h") (simp_all add: count_at_def wrap_add_u64_def u64_max_def)
qed

section \<open>A concrete graph\<close>

definition toy_graph :: link_graph where
  "toy_graph = record_all [(str ''http://a/'', [str ''http://b/'']), (str ''http://b/'', [])]
     (link_graph_new graph_limits_default (\<lambda>_. None))"

lemma toy_graph_ok: "graph_ok toy_graph"
  using record_all_ok [OF link_graph_new_ok, of graph_limits_default "\<lambda>_. None" 0
      "[(str ''http://a/'', [str ''http://b/'']), (str ''http://b/'', [])]"]
  by (simp add: toy_graph_def link_graph_new_def graph_limits_default_def)

lemma toy_graph_eval:
  "lg_urls toy_graph = [str ''http://a/'', str ''http://b/'']" "lg_out toy_graph = [[1], []]"
  "lg_host_inlinks toy_graph = (\<lambda>_. None)"
  by (simp_all add: toy_graph_def record_all_def record_links_def intern_def link_graph_new_def graph_limits_default_def)

theorem page_rank_conserves_witness: "sum_list (page_rank exact_ops toy_graph) = 1"
  using page_rank_conserves [OF toy_graph_ok] by (simp add: toy_graph_eval)

theorem graph_scores_bounded_witness:
  "dom (fst (graph_finish exact_ops toy_graph)) = {str ''http://a/'', str ''http://b/''}"
  using graph_scores_bounded [OF toy_graph_ok] by (simp add: toy_graph_eval)

theorem cross_site_counts_witness:
  "count_at (lg_host_inlinks (count_cross_site_links toy_graph)) (str ''b'') = 1"
proof -
  have h: "graph_host_of (str ''http://a/'') = Some (str ''a'')" "graph_host_of (str ''http://b/'') = Some (str ''b'')"
    by code_simp+
  have "count_at (lg_host_inlinks toy_graph) (str ''b'') \<le> u64_max" by (simp add: toy_graph_eval count_at_def)
  from cross_site_counts [OF this] show ?thesis
    using h by (simp add: toy_graph_eval inlinks_of_def count_at_def wrap_add_u64_def)
qed

end
