(* ===== verification/Index_Writer.thy ===== *)
theory Index_Writer
  imports Index_Spool Link_Graph
begin

text \<open>
  The write side of the search engine (\<open>crates/search-core/src/schema.rs\<close> and
  \<open>index_writer.rs\<close>): the schema, the rows documents become, and the writer with its commits.

  Tantivy is third-party: its schema builder and its index are the records \<open>schema_api\<close> and
  \<open>tantivy_api\<close> of the calls the code makes, on a state \<open>'w\<close> that holds what is on disk and what
  is queued. \<open>tantivy_ok\<close> states what the code relies on: an added row is queued behind the
  deletes before it, and a commit that reports success applies the queue in order.
\<close>

section \<open>The schema\<close>

datatype field_flag = FAST | STORED | STRING | TEXT

record ('b, 's, 't) schema_api =
  sa_builder :: 'b
  sa_add_text :: "rstr \<Rightarrow> field_flag list \<Rightarrow> 'b \<Rightarrow> nat \<times> 'b"
  sa_add_i64 :: "rstr \<Rightarrow> field_flag list \<Rightarrow> 'b \<Rightarrow> nat \<times> 'b"
  sa_add_f64 :: "rstr \<Rightarrow> field_flag list \<Rightarrow> 'b \<Rightarrow> nat \<times> 'b"
  sa_build :: "'b \<Rightarrow> 's"
  sa_get_field :: "'s \<Rightarrow> rstr \<Rightarrow> nat option"
  sa_field_type :: "'s \<Rightarrow> nat \<Rightarrow> 't"

definition field_url :: rstr where "field_url = str ''url''"
definition field_title :: rstr where "field_title = str ''title''"
definition field_body :: rstr where "field_body = str ''body''"
definition field_fetched_at :: rstr where "field_fetched_at = str ''fetched_at''"
definition field_authority :: rstr where "field_authority = str ''authority''"
definition field_host_authority :: rstr where "field_host_authority = str ''host_authority''"

record 's index_schema =
  is_schema :: 's
  is_url :: nat
  is_title :: nat
  is_body :: nat
  is_fetched_at :: nat
  is_authority :: nat
  is_host_authority :: nat

definition schema_build :: "('b, 's, 't) schema_api \<Rightarrow> 's index_schema" where
  "schema_build A =
     (case sa_add_text A field_url [STRING, STORED] (sa_builder A) of (url, b) \<Rightarrow>
      case sa_add_text A field_title [TEXT, STORED] b of (title, b) \<Rightarrow>
      case sa_add_text A field_body [TEXT, STORED] b of (body, b) \<Rightarrow>
      case sa_add_i64 A field_fetched_at [FAST, STORED] b of (fetched_at, b) \<Rightarrow>
      case sa_add_f64 A field_authority [FAST, STORED] b of (auth, b) \<Rightarrow>
      case sa_add_f64 A field_host_authority [FAST, STORED] b of (host_auth, b) \<Rightarrow>
        \<lparr> is_schema = sa_build A b, is_url = url, is_title = title, is_body = body, is_fetched_at = fetched_at,
          is_authority = auth, is_host_authority = host_auth \<rparr>)"

definition is_compatible_with :: "('b, 's, 't) schema_api \<Rightarrow> 's index_schema \<Rightarrow> 's \<Rightarrow> bool" where
  "is_compatible_with A sc other =
     list_all (\<lambda>name.
       case (sa_get_field A (is_schema sc) name, sa_get_field A other name) of
         (Some mine, Some theirs) \<Rightarrow> sa_field_type A (is_schema sc) mine = sa_field_type A other theirs
       | _ \<Rightarrow> False)
     [field_url, field_title, field_body, field_fetched_at, field_authority, field_host_authority]"

section \<open>The index\<close>

datatype 'f field_value = VText rstr | VI64 int | VF64 'f

type_synonym 'f row = "(nat \<times> 'f field_value) list"

record ('w, 's, 'f) tantivy_api =
  tv_has_meta :: "rstr \<Rightarrow> 'w \<Rightarrow> bool"
  tv_create_dir_all :: "rstr \<Rightarrow> 'w \<Rightarrow> (io_error + unit) \<times> 'w"
  tv_open_in_dir :: "rstr \<Rightarrow> 'w \<Rightarrow> (string + 's) \<times> 'w"
  tv_create_in_dir :: "rstr \<Rightarrow> 's \<Rightarrow> 'w \<Rightarrow> (string + unit) \<times> 'w"
  tv_writer :: "nat \<Rightarrow> nat \<Rightarrow> 'w \<Rightarrow> (string + unit) \<times> 'w"
  tv_delete_term :: "nat \<Rightarrow> rstr \<Rightarrow> 'w \<Rightarrow> 'w"
  tv_add_document :: "'f row \<Rightarrow> 'w \<Rightarrow> (string + unit) \<times> 'w"
  tv_commit :: "'w \<Rightarrow> (string + unit) \<times> 'w"
  tv_num_docs :: "'w \<Rightarrow> string + nat"

definition min_heap_bytes :: nat where
  "min_heap_bytes = 15 * 1024 * 1024"

record index_writer_config =
  iw_commit_docs :: nat
  iw_commit_interval_ms :: nat
  iw_writer_heap_bytes :: nat

definition index_writer_config_default :: index_writer_config where
  "index_writer_config_default =
     \<lparr> iw_commit_docs = 1000, iw_commit_interval_ms = 30 * 1000, iw_writer_heap_bytes = 64 * 1024 * 1024 \<rparr>"

definition effective_heap :: "index_writer_config \<Rightarrow> nat" where
  "effective_heap config = max (iw_writer_heap_bytes config) min_heap_bytes"

record 's doc_writer =
  dw_schema :: "'s index_schema"
  dw_config :: index_writer_config
  dw_pending :: nat

definition tv_result :: "(string + 'a) \<times> 'w \<Rightarrow> (search_error + 'a) \<times> 'w" where
  "tv_result m = (case m of (r, w) \<Rightarrow> (map_err IndexFailed r, w))"

definition doc_writer_open ::
    "('b, 's, 't) schema_api \<Rightarrow> ('w, 's, 'f) tantivy_api \<Rightarrow> rstr \<Rightarrow> index_writer_config \<Rightarrow> 'w \<Rightarrow>
     (search_error + 's doc_writer) \<times> 'w" where
  "doc_writer_open A T index_dir config w =
     (let schema = schema_build A
      in state_then
           (if tv_has_meta T index_dir w
            then state_then (tv_result (tv_open_in_dir T index_dir w)) (\<lambda>other w.
                   if is_compatible_with A schema other then (Inr (), w)
                   else (Inl (IncompatibleSchema index_dir), w))
            else state_then (case tv_create_dir_all T index_dir w of (r, w) \<Rightarrow> (map_err SearchIo r, w)) (\<lambda>_ w.
                   tv_result (tv_create_in_dir T index_dir (is_schema schema) w)))
           (\<lambda>_ w. state_then (tv_result (tv_writer T 1 (effective_heap config) w)) (\<lambda>_ w.
              (Inr \<lparr> dw_schema = schema, dw_config = config, dw_pending = 0 \<rparr>, w))))"

text \<open>The row of a document; \<open>widen\<close> is \<open>f64::from\<close>.\<close>

definition doc_row :: "('f \<Rightarrow> 'g) \<Rightarrow> 's index_schema \<Rightarrow> document \<Rightarrow> 'f doc_scores \<Rightarrow> 'g row" where
  "doc_row widen sc doc scores =
     [(is_url sc, VText (doc_url doc)), (is_title sc, VText (doc_title doc)), (is_body sc, VText (doc_body doc)),
      (is_fetched_at sc, VI64 (doc_fetched_at doc)), (is_authority sc, VF64 (widen (authority scores))),
      (is_host_authority sc, VF64 (widen (host_authority scores)))]"

definition add_or_update ::
    "('w, 's, 'g) tantivy_api \<Rightarrow> ('f \<Rightarrow> 'g) \<Rightarrow> document \<Rightarrow> 'f doc_scores \<Rightarrow> 's doc_writer \<times> 'w \<Rightarrow>
     (search_error + unit) \<times> 's doc_writer \<times> 'w" where
  "add_or_update T widen doc scores st =
     (case st of (dw, w) \<Rightarrow>
        (let sc = dw_schema dw; w = tv_delete_term T (is_url sc) (doc_url doc) w
         in case tv_result (tv_add_document T (doc_row widen sc doc scores) w) of
              (Inl e, w) \<Rightarrow> (Inl e, dw, w)
            | (Inr _, w) \<Rightarrow> (Inr (), dw \<lparr> dw_pending := dw_pending dw + 1 \<rparr>, w)))"

definition writer_commit ::
    "('w, 's, 'f) tantivy_api \<Rightarrow> 's doc_writer \<times> 'w \<Rightarrow> (search_error + unit) \<times> 's doc_writer \<times> 'w" where
  "writer_commit T st =
     (case st of (dw, w) \<Rightarrow>
        (case tv_result (tv_commit T w) of
           (Inl e, w) \<Rightarrow> (Inl e, dw, w)
         | (Inr _, w) \<Rightarrow> (Inr (), dw \<lparr> dw_pending := 0 \<rparr>, w)))"

definition should_commit :: "'s doc_writer \<Rightarrow> nat \<Rightarrow> bool" where
  "should_commit dw elapsed_ms \<longleftrightarrow>
     iw_commit_docs (dw_config dw) \<le> dw_pending dw \<or> iw_commit_interval_ms (dw_config dw) \<le> elapsed_ms"

definition writer_doc_count :: "('w, 's, 'f) tantivy_api \<Rightarrow> 's doc_writer \<times> 'w \<Rightarrow> search_error + nat" where
  "writer_doc_count T st = map_err IndexFailed (tv_num_docs T (snd st))"

section \<open>What the code relies on\<close>

datatype 'f index_op = DeleteTerm nat rstr | AddRow "'f row"

fun apply_op :: "'f index_op \<Rightarrow> 'f row list \<Rightarrow> 'f row list" where
  "apply_op (DeleteTerm f t) rows = filter (\<lambda>r. (f, VText t) \<notin> set r) rows"
| "apply_op (AddRow r) rows = rows @ [r]"

definition apply_ops :: "'f index_op list \<Rightarrow> 'f row list \<Rightarrow> 'f row list" where
  "apply_ops ops rows = fold apply_op ops rows"

text \<open>\<open>R w\<close> are the committed rows, \<open>Q w\<close> the queued operations. A failing call loses no committed
  row; a failing commit may or may not have taken effect. That a term deletes the rows whose field is
  the whole term is tantivy's behaviour for a field tokenised raw; the writer deletes by the URL
  only, and \<open>rows_well_typed\<close> below shows that the schema declares the URL raw.\<close>

definition tantivy_ok :: "('w, 's, 'f) tantivy_api \<Rightarrow> ('w \<Rightarrow> 'f row list) \<Rightarrow> ('w \<Rightarrow> 'f index_op list) \<Rightarrow> bool" where
  "tantivy_ok T R Q \<longleftrightarrow>
     (\<forall>f t w. R (tv_delete_term T f t w) = R w \<and> Q (tv_delete_term T f t w) = Q w @ [DeleteTerm f t]) \<and>
     (\<forall>r w u w'. tv_add_document T r w = (Inr u, w') \<longrightarrow> R w' = R w \<and> Q w' = Q w @ [AddRow r]) \<and>
     (\<forall>r w e w'. tv_add_document T r w = (Inl e, w') \<longrightarrow> R w' = R w) \<and>
     (\<forall>w u w'. tv_commit T w = (Inr u, w') \<longrightarrow> R w' = apply_ops (Q w) (R w) \<and> Q w' = []) \<and>
     (\<forall>w e w'. tv_commit T w = (Inl e, w') \<longrightarrow> R w' = R w \<or> R w' = apply_ops (Q w) (R w)) \<and>
     (\<forall>w n. tv_num_docs T w = Inr n \<longrightarrow> n = length (R w))"

text \<open>The rows as a map from URLs, with one row for a URL.\<close>

definition row_url :: "'s index_schema \<Rightarrow> 'f row \<Rightarrow> rstr option" where
  "row_url sc r = (case map_of r (is_url sc) of Some (VText u) \<Rightarrow> Some u | _ \<Rightarrow> None)"

definition plain_rows :: "'s index_schema \<Rightarrow> 'f row list \<Rightarrow> bool" where
  "plain_rows sc rows \<longleftrightarrow> (\<forall>r \<in> set rows. distinct (map fst r) \<and> row_url sc r \<noteq> None) \<and>
     distinct (map (row_url sc) rows)"

definition rows_map :: "'s index_schema \<Rightarrow> 'f row list \<Rightarrow> rstr \<Rightarrow> 'f row option" where
  "rows_map sc rows u = find (\<lambda>r. row_url sc r = Some u) rows"

definition schema_fields :: "'s index_schema \<Rightarrow> bool" where
  "schema_fields sc \<longleftrightarrow> distinct [is_url sc, is_title sc, is_body sc, is_fetched_at sc, is_authority sc, is_host_authority sc]"

lemma doc_row_plain:
  assumes "schema_fields sc"
  shows "distinct (map fst (doc_row widen sc doc scores))" "row_url sc (doc_row widen sc doc scores) = Some (doc_url doc)"
  using assms by (simp_all add: schema_fields_def doc_row_def row_url_def)

lemma row_url_iff:
  assumes "distinct (map fst r)"
  shows "(is_url sc, VText u) \<in> set r \<longleftrightarrow> row_url sc r = Some u"
proof -
  have "(is_url sc, VText u) \<in> set r \<longleftrightarrow> map_of r (is_url sc) = Some (VText u)" using assms by simp
  also have "\<dots> \<longleftrightarrow> row_url sc r = Some u"
    unfolding row_url_def by (cases "map_of r (is_url sc)") (simp_all split: field_value.splits)
  finally show ?thesis .
qed

lemma find_SomeD: "find P xs = Some x \<Longrightarrow> x \<in> set xs \<and> P x"
  by (induction xs) (auto split: if_splits)

lemma delete_term_rows:
  assumes "plain_rows sc rows"
  shows "apply_op (DeleteTerm (is_url sc) u) rows = filter (\<lambda>r. row_url sc r \<noteq> Some u) rows"
  using assms by (auto simp: plain_rows_def row_url_iff intro: filter_cong)

lemma rows_map_filter:
  "rows_map sc (filter (\<lambda>r. row_url sc r \<noteq> Some u) rows) v = (if v = u then None else rows_map sc rows v)"
  by (induction rows) (auto simp: rows_map_def)

lemma rows_map_append:
  "rows_map sc (rows @ [r]) v = (case rows_map sc rows v of Some x \<Rightarrow> Some x | None \<Rightarrow> if row_url sc r = Some v then Some r else None)"
  by (induction rows) (auto simp: rows_map_def)

text \<open>Replacing a document: one delete and one add.\<close>

definition upsert_ops :: "'s index_schema \<Rightarrow> rstr \<Rightarrow> 'f row \<Rightarrow> 'f index_op list" where
  "upsert_ops sc u r = [DeleteTerm (is_url sc) u, AddRow r]"

lemma upsert_rows:
  assumes "plain_rows sc rows" "distinct (map fst r)" "row_url sc r = Some u"
  shows "plain_rows sc (apply_ops (upsert_ops sc u r) rows)"
    and "rows_map sc (apply_ops (upsert_ops sc u r) rows) = (rows_map sc rows)(u \<mapsto> r)"
proof -
  let ?kept = "filter (\<lambda>r. row_url sc r \<noteq> Some u) rows"
  have eq: "apply_ops (upsert_ops sc u r) rows = ?kept @ [r]"
    using delete_term_rows [OF assms(1)] by (simp add: apply_ops_def upsert_ops_def)
  show "plain_rows sc (apply_ops (upsert_ops sc u r) rows)"
    unfolding eq using assms by (auto simp: plain_rows_def distinct_map_filter)
  show "rows_map sc (apply_ops (upsert_ops sc u r) rows) = (rows_map sc rows)(u \<mapsto> r)"
    unfolding eq using assms(3)
    by (auto simp: fun_eq_iff rows_map_append rows_map_filter split: option.splits)
qed

section \<open>The writer as a map\<close>

text \<open>The rows a commit would leave.\<close>

definition virtual_rows :: "('w \<Rightarrow> 'f row list) \<Rightarrow> ('w \<Rightarrow> 'f index_op list) \<Rightarrow> 'w \<Rightarrow> 'f row list" where
  "virtual_rows R Q w = apply_ops (Q w) (R w)"

lemma apply_ops_append: "apply_ops (xs @ ys) rows = apply_ops ys (apply_ops xs rows)"
  by (simp add: apply_ops_def)

lemma add_or_update_Inr:
  assumes "tantivy_ok T R Q" "add_or_update T widen doc scores (dw, w) = (Inr u, dw', w')"
  shows "R w' = R w" "dw_schema dw' = dw_schema dw" "dw_pending dw' = dw_pending dw + 1" "dw_config dw' = dw_config dw"
    "virtual_rows R Q w' = apply_ops (upsert_ops (dw_schema dw) (doc_url doc) (doc_row widen (dw_schema dw) doc scores))
       (virtual_rows R Q w)"
proof -
  let ?w1 = "tv_delete_term T (is_url (dw_schema dw)) (doc_url doc) w"
  have a: "tv_add_document T (doc_row widen (dw_schema dw) doc scores) ?w1 = (Inr (), w')"
    and dw': "dw' = dw \<lparr> dw_pending := dw_pending dw + 1 \<rparr>"
    using assms(2)
    by (auto simp: add_or_update_def Let_def tv_result_def map_err_def split: prod.splits sum.splits)
  have "R ?w1 = R w" "Q ?w1 = Q w @ [DeleteTerm (is_url (dw_schema dw)) (doc_url doc)]"
    "R w' = R ?w1" "Q w' = Q ?w1 @ [AddRow (doc_row widen (dw_schema dw) doc scores)]"
    using assms(1) a unfolding tantivy_ok_def by blast+
  then show "R w' = R w"
    "virtual_rows R Q w' = apply_ops (upsert_ops (dw_schema dw) (doc_url doc) (doc_row widen (dw_schema dw) doc scores))
       (virtual_rows R Q w)"
    by (simp_all add: virtual_rows_def upsert_ops_def apply_ops_append [symmetric])
  show "dw_schema dw' = dw_schema dw" "dw_pending dw' = dw_pending dw + 1" "dw_config dw' = dw_config dw"
    by (simp_all add: dw')
qed

lemma add_or_update_Inl:
  assumes "tantivy_ok T R Q" "add_or_update T widen doc scores (dw, w) = (Inl e, dw', w')"
  shows "R w' = R w"
  using assms unfolding tantivy_ok_def
  by (auto simp: add_or_update_def Let_def tv_result_def map_err_def split: prod.splits sum.splits)

lemma writer_commit_Inr:
  assumes "tantivy_ok T R Q" "writer_commit T (dw, w) = (Inr u, dw', w')"
  shows "R w' = virtual_rows R Q w" "virtual_rows R Q w' = virtual_rows R Q w" "dw_schema dw' = dw_schema dw"
    "dw_pending dw' = 0" "dw_config dw' = dw_config dw"
proof -
  have "tv_commit T w = (Inr (), w')" and dw': "dw' = dw \<lparr> dw_pending := 0 \<rparr>"
    using assms(2) by (auto simp: writer_commit_def tv_result_def map_err_def split: prod.splits sum.splits)
  then have "R w' = apply_ops (Q w) (R w)" "Q w' = []" using assms(1) unfolding tantivy_ok_def by blast+
  then show "R w' = virtual_rows R Q w" "virtual_rows R Q w' = virtual_rows R Q w"
    by (simp_all add: virtual_rows_def apply_ops_def)
  show "dw_schema dw' = dw_schema dw" "dw_pending dw' = 0" "dw_config dw' = dw_config dw" by (simp_all add: dw')
qed

lemma writer_commit_Inl:
  assumes "tantivy_ok T R Q" "writer_commit T (dw, w) = (Inl e, dw', w')"
  shows "R w' = R w \<or> R w' = virtual_rows R Q w"
  using assms unfolding tantivy_ok_def
  by (auto simp: writer_commit_def tv_result_def map_err_def virtual_rows_def split: prod.splits sum.splits)

fun add_documents ::
    "('w, 's, 'g) tantivy_api \<Rightarrow> ('f \<Rightarrow> 'g) \<Rightarrow> (document \<times> 'f doc_scores) list \<Rightarrow> 's doc_writer \<times> 'w \<Rightarrow>
     (search_error + unit) \<times> 's doc_writer \<times> 'w" where
  "add_documents T widen [] st = (Inr (), st)"
| "add_documents T widen ((d, s) # ds) st =
     state_then (add_or_update T widen d s st) (\<lambda>_ st. add_documents T widen ds st)"

lemma add_documents_rows:
  assumes "tantivy_ok T R Q" "schema_fields (dw_schema dw)"
  shows "add_documents T widen ds (dw, w) = (Inr u, dw', w') \<Longrightarrow> plain_rows (dw_schema dw) (virtual_rows R Q w) \<Longrightarrow>
    plain_rows (dw_schema dw) (virtual_rows R Q w') \<and>
    rows_map (dw_schema dw) (virtual_rows R Q w') =
      fold (\<lambda>(d, s) m. m(doc_url d \<mapsto> doc_row widen (dw_schema dw) d s)) ds (rows_map (dw_schema dw) (virtual_rows R Q w)) \<and>
    dw_schema dw' = dw_schema dw \<and> dw_pending dw' = dw_pending dw + length ds \<and> R w' = R w"
  using assms(2)
proof (induction ds arbitrary: dw w)
  case Nil
  then show ?case by simp
next
  case (Cons p ds)
  obtain d s where p: "p = (d, s)" by (cases p)
  obtain u1 dw1 w1 where c: "add_or_update T widen d s (dw, w) = (Inr u1, dw1, w1)"
    "add_documents T widen ds (dw1, w1) = (Inr u, dw', w')"
    using Cons.prems(1) p by (auto dest!: state_then_Inr_iff [THEN iffD1])
  note a = add_or_update_Inr [OF assms(1) c(1)]
  have dr: "distinct (map fst (doc_row widen (dw_schema dw) d s))"
    "row_url (dw_schema dw) (doc_row widen (dw_schema dw) d s) = Some (doc_url d)"
    using doc_row_plain [OF Cons.prems(3)] by blast+
  note ups = upsert_rows [OF Cons.prems(2) dr]
  have pl: "plain_rows (dw_schema dw1) (virtual_rows R Q w1)" using ups(1) a(2,5) by simp
  have fs: "schema_fields (dw_schema dw1)" using Cons.prems(3) a(2) by simp
  from Cons.IH [OF c(2) pl fs] show ?case
    using a ups(2) p by simp
qed

lemma rows_map_row:
  assumes "plain_rows sc rows" "r \<in> set rows" "row_url sc r = Some u"
  shows "rows_map sc rows u = Some r"
proof -
  have "rows_map sc rows u \<noteq> None" using assms(2,3) by (auto simp: rows_map_def find_None_iff)
  then obtain r' where r': "rows_map sc rows u = Some r'" by blast
  then have "r' \<in> set rows" "row_url sc r' = Some u" by (auto simp: rows_map_def dest: find_SomeD)
  then have "r' = r" using assms unfolding plain_rows_def by (metis inj_on_eq_iff distinct_map)
  then show ?thesis using r' by simp
qed

lemma rows_map_dom:
  "plain_rows sc rows \<Longrightarrow> card (dom (rows_map sc rows)) = length rows"
proof -
  assume pl: "plain_rows sc rows"
  have "Some ` dom (rows_map sc rows) = set (map (row_url sc) rows)"
  proof
    show "Some ` dom (rows_map sc rows) \<subseteq> set (map (row_url sc) rows)"
      by (auto simp: rows_map_def dest!: find_SomeD) (metis image_eqI)
    show "set (map (row_url sc) rows) \<subseteq> Some ` dom (rows_map sc rows)"
    proof
      fix x assume "x \<in> set (map (row_url sc) rows)"
      then obtain r where r: "r \<in> set rows" "x = row_url sc r" by auto
      then obtain u where u: "x = Some u" using pl by (auto simp: plain_rows_def)
      have "find (\<lambda>r. row_url sc r = Some u) rows \<noteq> None" using r u by (auto simp: find_None_iff)
      then show "x \<in> Some ` dom (rows_map sc rows)" using u by (auto simp: rows_map_def)
    qed
  qed
  then have "card (Some ` dom (rows_map sc rows)) = length rows"
    using pl by (metis distinct_card length_map plain_rows_def)
  then show ?thesis by (metis card_image inj_Some)
qed

text \<open>C14: through the writer the index is a map from URLs to rows: adding documents and committing
  sets for each of their URLs the row of the last document with that URL, leaves every other row as
  it was, never leaves two rows for a URL, and the count the writer then reports is the number of
  URLs.\<close>

theorem upsert_refines_map:
  assumes "tantivy_ok T R Q" "schema_fields (dw_schema dw)" "Q w = []" "plain_rows (dw_schema dw) (R w)"
    and "add_documents T widen ds (dw, w) = (Inr u, st)" "writer_commit T st = (Inr v, dw', w')"
  shows "plain_rows (dw_schema dw) (R w') \<and>
    rows_map (dw_schema dw) (R w') =
      fold (\<lambda>(d, s) m. m(doc_url d \<mapsto> doc_row widen (dw_schema dw) d s)) ds (rows_map (dw_schema dw) (R w)) \<and>
    (\<forall>n. writer_doc_count T (dw', w') = Inr n \<longrightarrow> n = card (dom (rows_map (dw_schema dw) (R w'))))"
proof -
  obtain dw1 w1 where st: "st = (dw1, w1)" by (cases st)
  have v: "virtual_rows R Q w = R w" using assms(3) by (simp add: virtual_rows_def apply_ops_def)
  have pl0: "plain_rows (dw_schema dw) (virtual_rows R Q w)" using v assms(4) by simp
  have a: "plain_rows (dw_schema dw) (virtual_rows R Q w1)" "rows_map (dw_schema dw) (virtual_rows R Q w1) =
      fold (\<lambda>(d, s) m. m(doc_url d \<mapsto> doc_row widen (dw_schema dw) d s)) ds (rows_map (dw_schema dw) (R w))"
    using add_documents_rows [OF assms(1,2) assms(5) [unfolded st] pl0] v by simp_all
  have c: "R w' = virtual_rows R Q w1" using writer_commit_Inr(1) [OF assms(1) assms(6) [unfolded st]] .
  have "n = card (dom (rows_map (dw_schema dw) (R w')))" if "writer_doc_count T (dw', w') = Inr n" for n
  proof -
    have "tv_num_docs T w' = Inr n" using that by (simp add: writer_doc_count_def)
    then have "n = length (R w')" using assms(1) unfolding tantivy_ok_def by blast
    then show ?thesis using rows_map_dom a(1) c by metis
  qed
  then show ?thesis using a c by simp
qed

section \<open>The store as an interface\<close>

text \<open>
  What the drain loop relies on: \<open>committed\<close> is what a reader finds, \<open>pending\<close> what it will find after
  the next commit. A put that succeeds sets the row of its key among the pending ones; a commit
  that succeeds shows them; whatever fails, no key that was committed is lost.
\<close>

locale row_store =
  fixes valid :: "'e \<Rightarrow> 's \<Rightarrow> bool"
    and committed :: "'e \<Rightarrow> 's \<Rightarrow> 'k \<Rightarrow> 'r option"
    and pending :: "'e \<Rightarrow> 's \<Rightarrow> 'k \<Rightarrow> 'r option"
    and key :: "'a \<Rightarrow> 'k"
    and row :: "'e \<Rightarrow> 'a \<Rightarrow> 'r"
    and put :: "'e \<Rightarrow> 'a \<Rightarrow> 's \<Rightarrow> ('x + unit) \<times> 's"
    and commit :: "'e \<Rightarrow> 's \<Rightarrow> ('x + unit) \<times> 's"
  assumes put_row: "valid e s \<Longrightarrow> put e a s = (Inr u, s') \<Longrightarrow>
      valid e s' \<and> committed e s' = committed e s \<and> pending e s' = (pending e s)(key a \<mapsto> row e a)"
    and put_failed: "valid e s \<Longrightarrow> put e a s = (Inl x, s') \<Longrightarrow> committed e s' = committed e s"
    and commit_shows: "valid e s \<Longrightarrow> commit e s = (Inr u, s') \<Longrightarrow>
      valid e s' \<and> committed e s' = pending e s \<and> pending e s' = pending e s"
    and commit_failed: "valid e s \<Longrightarrow> commit e s = (Inl x, s') \<Longrightarrow>
      committed e s' = committed e s \<or> committed e s' = pending e s"
    and pending_covers: "valid e s \<Longrightarrow> dom (committed e s) \<subseteq> dom (pending e s)"
begin

text \<open>A put, followed by a commit when one is due.\<close>

definition put_then :: "('s \<Rightarrow> bool) \<Rightarrow> 'e \<Rightarrow> 'a \<Rightarrow> 's \<Rightarrow> ('x + unit) \<times> 's" where
  "put_then due e a s =
     (case put e a s of
        (Inl x, s) \<Rightarrow> (Inl x, s)
      | (Inr _, s) \<Rightarrow> if due s then commit e s else (Inr (), s))"

lemma put_then_row:
  assumes "valid e s" "put_then due e a s = (Inr u, s')"
  shows "valid e s' \<and> dom (committed e s) \<subseteq> dom (committed e s') \<and> pending e s' = (pending e s)(key a \<mapsto> row e a)"
proof -
  obtain s1 where p: "put e a s = (Inr (), s1)" "(if due s1 then commit e s1 else (Inr (), s1)) = (Inr u, s')"
    using assms(2) by (auto simp: put_then_def split: prod.splits sum.splits)
  note put = put_row [OF assms(1) p(1)]
  show ?thesis
  proof (cases "due s1")
    case True
    then show ?thesis
      using commit_shows [of e s1 u s'] put p(2) pending_covers [of e s1] by auto
  qed (use put p(2) in auto)
qed

lemma put_then_failed:
  assumes "valid e s" "put_then due e a s = (Inl x, s')"
  shows "dom (committed e s) \<subseteq> dom (committed e s')"
proof -
  obtain r s1 where p: "put e a s = (r, s1)" by fastforce
  show ?thesis
  proof (cases r)
    case (Inl y)
    then show ?thesis using assms(2) p put_failed [OF assms(1)] by (auto simp: put_then_def)
  next
    case (Inr u)
    note put = put_row [OF assms(1) p [unfolded Inr]]
    have "commit e s1 = (Inl x, s')" using assms(2) p Inr by (auto simp: put_then_def split: if_splits)
    from commit_failed [OF _ this] put pending_covers [of e s1] show ?thesis by auto
  qed
qed

end

text \<open>The index writer is such a store.\<close>

text \<open>The URLs that are committed.\<close>

definition committed_urls :: "'s index_schema \<Rightarrow> ('w \<Rightarrow> 'g row list) \<Rightarrow> 'w \<Rightarrow> rstr set" where
  "committed_urls sc R w = dom (rows_map sc (R w))"

definition writer_inv ::
    "'s index_schema \<Rightarrow> ('w \<Rightarrow> 'g row list) \<Rightarrow> ('w \<Rightarrow> 'g index_op list) \<Rightarrow> 's doc_writer \<times> 'w \<Rightarrow> bool" where
  "writer_inv sc R Q st \<longleftrightarrow> dw_schema (fst st) = sc \<and> schema_fields sc \<and> plain_rows sc (R (snd st)) \<and>
     plain_rows sc (virtual_rows R Q (snd st)) \<and>
     dom (rows_map sc (R (snd st))) \<subseteq> dom (rows_map sc (virtual_rows R Q (snd st)))"

lemma add_or_update_inv:
  assumes "tantivy_ok T R Q" "writer_inv sc R Q st" "add_or_update T widen d s st = (Inr u, st')"
  shows "writer_inv sc R Q st'" "R (snd st') = R (snd st)"
    "rows_map sc (virtual_rows R Q (snd st')) = (rows_map sc (virtual_rows R Q (snd st)))(doc_url d \<mapsto> doc_row widen sc d s)"
proof -
  obtain dw w dw' w' where st: "st = (dw, w)" "st' = (dw', w')" by (metis prod.exhaust)
  have sc: "dw_schema dw = sc" "schema_fields sc" "plain_rows sc (virtual_rows R Q w)"
    using assms(2) by (simp_all add: writer_inv_def st)
  note a = add_or_update_Inr [OF assms(1) assms(3) [unfolded st], unfolded sc(1)]
  have dr: "distinct (map fst (doc_row widen sc d s))" "row_url sc (doc_row widen sc d s) = Some (doc_url d)"
    using doc_row_plain [OF sc(2)] by blast+
  note ups = upsert_rows [OF sc(3) dr]
  show "R (snd st') = R (snd st)" using a(1) by (simp add: st)
  show "rows_map sc (virtual_rows R Q (snd st')) = (rows_map sc (virtual_rows R Q (snd st)))(doc_url d \<mapsto> doc_row widen sc d s)"
    using a(5) ups(2) by (simp add: st)
  then show "writer_inv sc R Q st'"
    using assms(2) a ups(1) by (auto simp: writer_inv_def st)
qed

lemma writer_commit_inv:
  assumes "tantivy_ok T R Q" "writer_inv sc R Q st" "writer_commit T st = (Inr u, st')"
  shows "writer_inv sc R Q st'" "virtual_rows R Q (snd st') = virtual_rows R Q (snd st)"
    "R (snd st') = virtual_rows R Q (snd st)"
proof -
  obtain dw w dw' w' where st: "st = (dw, w)" "st' = (dw', w')" by (metis prod.exhaust)
  note c = writer_commit_Inr [OF assms(1) assms(3) [unfolded st]]
  show "writer_inv sc R Q st'" "virtual_rows R Q (snd st') = virtual_rows R Q (snd st)"
    "R (snd st') = virtual_rows R Q (snd st)"
    using assms(2) c by (simp_all add: writer_inv_def st)
qed

lemma writer_commit_fail:
  assumes "tantivy_ok T R Q" "writer_inv sc R Q st" "writer_commit T st = (Inl e, st')"
  shows "committed_urls sc R (snd st) \<subseteq> committed_urls sc R (snd st')"
proof -
  obtain dw w dw' w' where st: "st = (dw, w)" "st' = (dw', w')" by (metis prod.exhaust)
  from writer_commit_Inl [OF assms(1) assms(3) [unfolded st]] assms(2)
  show ?thesis by (auto simp: writer_inv_def committed_urls_def st)
qed

interpretation rows: row_store
    "\<lambda>(T, widen, sc, R, Q) st. tantivy_ok T R Q \<and> writer_inv sc R Q st"
    "\<lambda>(T, widen, sc, R, Q) st. rows_map sc (R (snd st))"
    "\<lambda>(T, widen, sc, R, Q) st. rows_map sc (virtual_rows R Q (snd st))"
    "\<lambda>(d, scores). doc_url d" "\<lambda>(T, widen, sc, R, Q) (d, scores). doc_row widen sc d scores"
    "\<lambda>(T, widen, sc, R, Q) (d, scores). add_or_update T widen d scores"
    "\<lambda>(T, widen, sc, R, Q). writer_commit T"
proof (unfold_locales, goal_cases)
  case (1 e s a u s')
  obtain T widen sc R Q d scores where [simp]: "e = (T, widen, sc, R, Q)" "a = (d, scores)" by (metis prod.exhaust)
  show ?case using add_or_update_inv [of T R Q sc s widen d scores u s'] 1 by simp
next
  case (2 e s a x s')
  obtain T widen sc R Q d scores where [simp]: "e = (T, widen, sc, R, Q)" "a = (d, scores)" by (metis prod.exhaust)
  show ?case using add_or_update_Inl [of T R Q widen d scores "fst s" "snd s" x "fst s'" "snd s'"] 2 by simp
next
  case (3 e s u s')
  obtain T widen sc R Q where [simp]: "e = (T, widen, sc, R, Q)" by (metis prod.exhaust)
  show ?case using writer_commit_inv [of T R Q sc s u s'] 3 by simp
next
  case (4 e s x s')
  obtain T widen sc R Q where [simp]: "e = (T, widen, sc, R, Q)" by (metis prod.exhaust)
  show ?case using writer_commit_Inl [of T R Q "fst s" "snd s" x "fst s'" "snd s'"] 4 by auto
next
  case (5 e s)
  obtain T widen sc R Q where [simp]: "e = (T, widen, sc, R, Q)" by (metis prod.exhaust)
  show ?case using 5 by (simp add: writer_inv_def)
qed

section \<open>Rows fit the schema\<close>

datatype field_kind = KText | KI64 | KF64

fun kind_of :: "'f field_value \<Rightarrow> field_kind" where
  "kind_of (VText _) = KText"
| "kind_of (VI64 _) = KI64"
| "kind_of (VF64 _) = KF64"

text \<open>What a schema declares of a field: its kind and its options. A text field is tokenised raw
  (\<open>STRING\<close>) or by words (\<open>TEXT\<close>), not both; the numeric ones are neither.\<close>

type_synonym field_decl = "field_kind \<times> field_flag set"

definition flags_ok :: "field_kind \<Rightarrow> field_flag set \<Rightarrow> bool" where
  "flags_ok k F \<longleftrightarrow> (case k of KText \<Rightarrow> \<not> (STRING \<in> F \<and> TEXT \<in> F) | _ \<Rightarrow> F \<subseteq> {FAST, STORED})"

text \<open>The schema builder: a field with a new name gets a handle of its own, declared as asked for;
  building keeps the fields. \<open>K\<close> and \<open>N\<close> are the declarations and the names a builder holds, and \<open>S\<close> are
  the declarations of a schema, whose types are equal when these are.\<close>

definition adds_field ::
    "('b \<Rightarrow> nat \<Rightarrow> field_decl option) \<Rightarrow> ('b \<Rightarrow> rstr \<Rightarrow> nat option) \<Rightarrow> field_kind \<Rightarrow>
     (rstr \<Rightarrow> field_flag list \<Rightarrow> 'b \<Rightarrow> nat \<times> 'b) \<Rightarrow> bool" where
  "adds_field K N k add \<longleftrightarrow> (\<forall>name flags b f b'.
     add name flags b = (f, b') \<longrightarrow> N b name = None \<longrightarrow> flags_ok k (set flags) \<longrightarrow>
     K b f = None \<and> K b' = (K b)(f \<mapsto> (k, set flags)) \<and> N b' = (N b)(name \<mapsto> f))"

definition schema_ok ::
    "('b, 's, 't) schema_api \<Rightarrow> ('b \<Rightarrow> nat \<Rightarrow> field_decl option) \<Rightarrow> ('b \<Rightarrow> rstr \<Rightarrow> nat option) \<Rightarrow>
     ('s \<Rightarrow> nat \<Rightarrow> field_decl option) \<Rightarrow> bool" where
  "schema_ok A K N S \<longleftrightarrow> N (sa_builder A) = Map.empty \<and> adds_field K N KText (sa_add_text A) \<and>
     adds_field K N KI64 (sa_add_i64 A) \<and> adds_field K N KF64 (sa_add_f64 A) \<and>
     (\<forall>b. sa_get_field A (sa_build A b) = N b \<and> S (sa_build A b) = K b) \<and>
     (\<forall>s f e s' f'. S s f = Some e \<longrightarrow> (sa_field_type A s f = sa_field_type A s' f' \<longleftrightarrow> S s' f' = Some e))"

text \<open>The six fields as \<open>schema.rs\<close> documents them: the URL is raw, so that a term can match it whole.\<close>

definition declared_fields :: "(rstr \<times> field_decl) list" where
  "declared_fields =
     [(field_url, KText, {STRING, STORED}), (field_title, KText, {TEXT, STORED}), (field_body, KText, {TEXT, STORED}),
      (field_fetched_at, KI64, {FAST, STORED}), (field_authority, KF64, {FAST, STORED}),
      (field_host_authority, KF64, {FAST, STORED})]"

definition schema_handles :: "'s index_schema \<Rightarrow> nat list" where
  "schema_handles sc = [is_url sc, is_title sc, is_body sc, is_fetched_at sc, is_authority sc, is_host_authority sc]"

lemma schema_names_distinct: "distinct (map fst declared_fields)"
  by (simp add: declared_fields_def field_url_def field_title_def field_body_def field_fetched_at_def
      field_authority_def field_host_authority_def)

lemma adds_fieldD:
  "adds_field K N k add \<Longrightarrow> add name flags b = (f, b') \<Longrightarrow> N b name = None \<Longrightarrow> flags_ok k (set flags) \<Longrightarrow>
   K b f = None \<and> K b' = (K b)(f \<mapsto> (k, set flags)) \<and> N b' = (N b)(name \<mapsto> f)"
  unfolding adds_field_def by blast

lemma schema_build_laws:
  assumes "schema_ok A K N S"
  shows "schema_fields (schema_build A)"
    and "map (sa_get_field A (is_schema (schema_build A))) (map fst declared_fields) = map Some (schema_handles (schema_build A))"
    and "map (S (is_schema (schema_build A))) (schema_handles (schema_build A)) = map (Some \<circ> snd) declared_fields"
proof -
  have ok: "adds_field K N KText (sa_add_text A)" "adds_field K N KI64 (sa_add_i64 A)" "adds_field K N KF64 (sa_add_f64 A)"
    and build: "\<And>b. sa_get_field A (sa_build A b) = N b" "\<And>b. S (sa_build A b) = K b"
    and empty: "N (sa_builder A) = Map.empty"
    using assms by (simp_all add: schema_ok_def)
  have fl: "flags_ok KText (set [STRING, STORED])" "flags_ok KText (set [TEXT, STORED])" "flags_ok KI64 (set [FAST, STORED])"
    "flags_ok KF64 (set [FAST, STORED])" by (simp_all add: flags_ok_def)
  note n = schema_names_distinct [simplified declared_fields_def, simplified]
  obtain f1 b1 f2 b2 f3 b3 f4 b4 f5 b5 f6 b6 where
    c: "sa_add_text A field_url [STRING, STORED] (sa_builder A) = (f1, b1)"
      "sa_add_text A field_title [TEXT, STORED] b1 = (f2, b2)" "sa_add_text A field_body [TEXT, STORED] b2 = (f3, b3)"
      "sa_add_i64 A field_fetched_at [FAST, STORED] b3 = (f4, b4)" "sa_add_f64 A field_authority [FAST, STORED] b4 = (f5, b5)"
      "sa_add_f64 A field_host_authority [FAST, STORED] b5 = (f6, b6)"
    by (metis prod.exhaust)
  let ?sc = "\<lparr> is_schema = sa_build A b6, is_url = f1, is_title = f2, is_body = f3, is_fetched_at = f4,
      is_authority = f5, is_host_authority = f6 \<rparr>"
  have sc: "schema_build A = ?sc" by (simp add: schema_build_def c)
  have k1: "K b1 = (K (sa_builder A))(f1 \<mapsto> (KText, {STRING, STORED}))" "N b1 = Map.empty(field_url \<mapsto> f1)"
    using adds_fieldD [OF ok(1) c(1) _ fl(1)] by (simp_all add: empty)
  have k2: "K b1 f2 = None" "K b2 = (K b1)(f2 \<mapsto> (KText, {TEXT, STORED}))" "N b2 = (N b1)(field_title \<mapsto> f2)"
    using adds_fieldD [OF ok(1) c(2) _ fl(2)] n by (auto simp: k1(2))
  have k3: "K b2 f3 = None" "K b3 = (K b2)(f3 \<mapsto> (KText, {TEXT, STORED}))" "N b3 = (N b2)(field_body \<mapsto> f3)"
    using adds_fieldD [OF ok(1) c(3) _ fl(2)] n by (auto simp: k1(2) k2(3))
  have k4: "K b3 f4 = None" "K b4 = (K b3)(f4 \<mapsto> (KI64, {FAST, STORED}))" "N b4 = (N b3)(field_fetched_at \<mapsto> f4)"
    using adds_fieldD [OF ok(2) c(4) _ fl(3)] n by (auto simp: k1(2) k2(3) k3(3))
  have k5: "K b4 f5 = None" "K b5 = (K b4)(f5 \<mapsto> (KF64, {FAST, STORED}))" "N b5 = (N b4)(field_authority \<mapsto> f5)"
    using adds_fieldD [OF ok(3) c(5) _ fl(4)] n by (auto simp: k1(2) k2(3) k3(3) k4(3))
  have k6: "K b5 f6 = None" "K b6 = (K b5)(f6 \<mapsto> (KF64, {FAST, STORED}))" "N b6 = (N b5)(field_host_authority \<mapsto> f6)"
    using adds_fieldD [OF ok(3) c(6) _ fl(4)] n by (auto simp: k1(2) k2(3) k3(3) k4(3) k5(3))
  have d2: "f2 \<noteq> f1" using k2(1) k1(1) by auto
  have d3: "f3 \<noteq> f1" "f3 \<noteq> f2" using k3(1) k2(2) k1(1) by (auto split: if_splits)
  have d4: "f4 \<noteq> f1" "f4 \<noteq> f2" "f4 \<noteq> f3" using k4(1) k3(2) k2(2) k1(1) by (auto split: if_splits)
  have d5: "f5 \<noteq> f1" "f5 \<noteq> f2" "f5 \<noteq> f3" "f5 \<noteq> f4" using k5(1) k4(2) k3(2) k2(2) k1(1) by (auto split: if_splits)
  have d6: "f6 \<noteq> f1" "f6 \<noteq> f2" "f6 \<noteq> f3" "f6 \<noteq> f4" "f6 \<noteq> f5"
    using k6(1) k5(2) k4(2) k3(2) k2(2) k1(1) by (auto split: if_splits)
  note d = d2 d3 d4 d5 d6
  show "schema_fields (schema_build A)" unfolding sc using d d [symmetric] by (simp add: schema_fields_def)
  show "map (sa_get_field A (is_schema (schema_build A))) (map fst declared_fields) = map Some (schema_handles (schema_build A))"
    unfolding sc using n
    by (simp add: declared_fields_def schema_handles_def build k6(3) k5(3) k4(3) k3(3) k2(3) k1(2))
  show "map (S (is_schema (schema_build A))) (schema_handles (schema_build A)) = map (Some \<circ> snd) declared_fields"
    unfolding sc using d d [symmetric]
    by (simp add: declared_fields_def schema_handles_def build k6(2) k5(2) k4(2) k3(2) k2(2) k1(1))
qed

text \<open>Exactly the schemas with these six fields, declared the same way, are compatible.\<close>

lemma compatible_iff:
  assumes "schema_ok A K N S"
  shows "is_compatible_with A (schema_build A) other \<longleftrightarrow>
    list_all (\<lambda>(name, decl). \<exists>f. sa_get_field A other name = Some f \<and> S other f = Some decl) declared_fields"
proof -
  have ty: "S s f = Some e \<Longrightarrow> (sa_field_type A s f = sa_field_type A s' f') = (S s' f' = Some e)" for s f e s' f'
    using assms unfolding schema_ok_def by blast
  let ?sc = "schema_build A"
  have names: "sa_get_field A (is_schema ?sc) field_url = Some (is_url ?sc)"
    "sa_get_field A (is_schema ?sc) field_title = Some (is_title ?sc)"
    "sa_get_field A (is_schema ?sc) field_body = Some (is_body ?sc)"
    "sa_get_field A (is_schema ?sc) field_fetched_at = Some (is_fetched_at ?sc)"
    "sa_get_field A (is_schema ?sc) field_authority = Some (is_authority ?sc)"
    "sa_get_field A (is_schema ?sc) field_host_authority = Some (is_host_authority ?sc)"
    using schema_build_laws(2) [OF assms] by (simp_all add: declared_fields_def schema_handles_def)
  have decls: "S (is_schema ?sc) (is_url ?sc) = Some (KText, {STRING, STORED})"
    "S (is_schema ?sc) (is_title ?sc) = Some (KText, {TEXT, STORED})"
    "S (is_schema ?sc) (is_body ?sc) = Some (KText, {TEXT, STORED})"
    "S (is_schema ?sc) (is_fetched_at ?sc) = Some (KI64, {FAST, STORED})"
    "S (is_schema ?sc) (is_authority ?sc) = Some (KF64, {FAST, STORED})"
    "S (is_schema ?sc) (is_host_authority ?sc) = Some (KF64, {FAST, STORED})"
    using schema_build_laws(3) [OF assms] by (simp_all add: declared_fields_def schema_handles_def)
  have one: "(case sa_get_field A other name of
        None \<Rightarrow> False | Some theirs \<Rightarrow> sa_field_type A (is_schema ?sc) h = sa_field_type A other theirs) \<longleftrightarrow>
      (\<exists>f. sa_get_field A other name = Some f \<and> S other f = Some e)"
    if "S (is_schema ?sc) h = Some e" for h name e
    using ty [OF that] by (cases "sa_get_field A other name") simp_all
  show ?thesis
    by (simp only: is_compatible_with_def declared_fields_def list.pred_inject names one [OF decls(1)] one [OF decls(2)]
        one [OF decls(3)] one [OF decls(4)] one [OF decls(5)] one [OF decls(6)] prod.case option.case)
qed

lemma schema_build_compatible:
  assumes "schema_ok A K N S"
  shows "is_compatible_with A (schema_build A) (is_schema (schema_build A))"
  unfolding compatible_iff [OF assms] using schema_build_laws(2,3) [OF assms]
  by (simp add: declared_fields_def schema_handles_def)

text \<open>C33: the schema declares the six documented fields, the URL as one raw token, and each handle is
  the field of its name; the row of a document has exactly these fields, each once, with a value of
  the declared kind, and what is read back from it are the URL, the title, the text, the fetch time
  and the two scores of the document. The writer and the query engine accept an index exactly if its
  schema has the six fields, each declared the same way.\<close>

theorem rows_well_typed:
  assumes "schema_ok A K N S" "sc = schema_build A" "row = doc_row widen sc doc scores"
  shows "distinct (schema_handles sc) \<and>
    map (sa_get_field A (is_schema sc)) (map fst declared_fields) = map Some (schema_handles sc) \<and>
    map (S (is_schema sc)) (schema_handles sc) = map (Some \<circ> snd) declared_fields \<and>
    map fst row = schema_handles sc \<and> map (kind_of \<circ> snd) row = map (fst \<circ> snd) declared_fields \<and>
    map_of row (is_url sc) = Some (VText (doc_url doc)) \<and> map_of row (is_title sc) = Some (VText (doc_title doc)) \<and>
    map_of row (is_body sc) = Some (VText (doc_body doc)) \<and> map_of row (is_fetched_at sc) = Some (VI64 (doc_fetched_at doc)) \<and>
    map_of row (is_authority sc) = Some (VF64 (widen (authority scores))) \<and>
    map_of row (is_host_authority sc) = Some (VF64 (widen (host_authority scores))) \<and>
    (is_compatible_with A sc other \<longleftrightarrow>
       list_all (\<lambda>(name, decl). \<exists>f. sa_get_field A other name = Some f \<and> S other f = Some decl) declared_fields)"
proof -
  note laws = schema_build_laws [OF assms(1), folded assms(2)]
  have d: "distinct (schema_handles sc)" using laws(1) by (simp add: schema_fields_def schema_handles_def)
  then have "map_of row (is_url sc) = Some (VText (doc_url doc))" "map_of row (is_title sc) = Some (VText (doc_title doc))"
    "map_of row (is_body sc) = Some (VText (doc_body doc))" "map_of row (is_fetched_at sc) = Some (VI64 (doc_fetched_at doc))"
    "map_of row (is_authority sc) = Some (VF64 (widen (authority scores)))"
    "map_of row (is_host_authority sc) = Some (VF64 (widen (host_authority scores)))"
    by (auto simp: assms(3) doc_row_def schema_handles_def)
  moreover have "map fst row = schema_handles sc" "map (kind_of \<circ> snd) row = map (fst \<circ> snd) declared_fields"
    by (simp_all add: assms(3) doc_row_def schema_handles_def declared_fields_def)
  moreover note compatible_iff [OF assms(1), folded assms(2)]
  ultimately show ?thesis using d laws(2,3) by (intro conjI)
qed

section \<open>A concrete index\<close>

text \<open>A builder that lists its fields, and an index that is its rows and its queue.\<close>

type_synonym toy_schema = "(rstr \<times> field_decl) list"

definition toy_kinds :: "toy_schema \<Rightarrow> nat \<Rightarrow> field_decl option" where
  "toy_kinds b f = (if f < length b then Some (snd (b ! f)) else None)"

definition toy_names :: "toy_schema \<Rightarrow> rstr \<Rightarrow> nat option" where
  "toy_names b = map_of (rev (zip (map fst b) [0..<length b]))"

definition toy_schema_api :: "(toy_schema, toy_schema, field_decl option) schema_api" where
  "toy_schema_api = \<lparr> sa_builder = [],
     sa_add_text = (\<lambda>n flags b. (length b, b @ [(n, KText, set flags)])),
     sa_add_i64 = (\<lambda>n flags b. (length b, b @ [(n, KI64, set flags)])),
     sa_add_f64 = (\<lambda>n flags b. (length b, b @ [(n, KF64, set flags)])), sa_build = (\<lambda>b. b),
     sa_get_field = toy_names, sa_field_type = toy_kinds \<rparr>"

lemma toy_schema_ok: "schema_ok toy_schema_api toy_kinds toy_names toy_kinds"
  by (auto simp: schema_ok_def adds_field_def toy_schema_api_def toy_kinds_def toy_names_def fun_eq_iff nth_append)

lemma toy_schema_build:
  "is_schema (schema_build toy_schema_api) = declared_fields" "schema_handles (schema_build toy_schema_api) = [0, 1, 2, 3, 4, 5]"
  by (simp_all add: schema_build_def toy_schema_api_def declared_fields_def schema_handles_def)

text \<open>An index whose URL field is tokenised by words, as \<open>schema.rs\<close> tests it, is refused.\<close>

theorem rows_well_typed_witness:
  "map fst (doc_row (\<lambda>x :: rat. x) (schema_build toy_schema_api) (document_new length [97] [98] [99] 7 [])
     \<lparr> authority = 0, host_authority = 1 \<rparr>) = [0, 1, 2, 3, 4, 5] \<and>
   \<not> is_compatible_with toy_schema_api (schema_build toy_schema_api) ((field_url, KText, {TEXT, STORED}) # tl declared_fields)"
proof -
  let ?bad = "(field_url, KText, {TEXT, STORED}) # tl declared_fields" and ?sc = "schema_build toy_schema_api"
    and ?doc = "document_new length [97] [98] [99] 7 []" and ?scores = "\<lparr> authority = 0 :: rat, host_authority = 1 \<rparr>"
  have "toy_names ?bad field_url = Some 0" "toy_kinds ?bad 0 = Some (KText, {TEXT, STORED})"
    by (simp_all add: toy_names_def toy_kinds_def declared_fields_def field_url_def field_title_def field_body_def
        field_fetched_at_def field_authority_def field_host_authority_def)
  moreover have "{TEXT, STORED} \<noteq> {STRING, STORED}" by auto
  ultimately have "\<not> list_all (\<lambda>(name, decl). \<exists>f. sa_get_field toy_schema_api ?bad name = Some f \<and> toy_kinds ?bad f = Some decl)
      declared_fields"
    by (simp add: toy_schema_api_def declared_fields_def)
  moreover have "map fst (doc_row (\<lambda>x :: rat. x) ?sc ?doc ?scores) = schema_handles ?sc"
    "is_compatible_with toy_schema_api ?sc ?bad \<longleftrightarrow>
     list_all (\<lambda>(name, decl). \<exists>f. sa_get_field toy_schema_api ?bad name = Some f \<and> toy_kinds ?bad f = Some decl) declared_fields"
    using rows_well_typed [OF toy_schema_ok refl refl, of "\<lambda>x :: rat. x" ?doc ?scores ?bad] by blast+
  ultimately show ?thesis using toy_schema_build(2) by metis
qed

definition toy_tantivy :: "('f row list \<times> 'f index_op list, toy_schema, 'f) tantivy_api" where
  "toy_tantivy = \<lparr> tv_has_meta = (\<lambda>_ _. False), tv_create_dir_all = (\<lambda>_ w. (Inr (), w)),
     tv_open_in_dir = (\<lambda>_ w. (Inr [], w)), tv_create_in_dir = (\<lambda>_ _ w. (Inr (), w)), tv_writer = (\<lambda>_ _ w. (Inr (), w)),
     tv_delete_term = (\<lambda>f t (r, q). (r, q @ [DeleteTerm f t])), tv_add_document = (\<lambda>row (r, q). (Inr (), r, q @ [AddRow row])),
     tv_commit = (\<lambda>(r, q). (Inr (), apply_ops q r, [])), tv_num_docs = (\<lambda>(r, q). Inr (length r)) \<rparr>"

lemma toy_tantivy_ok: "tantivy_ok toy_tantivy fst snd"
  by (simp add: tantivy_ok_def toy_tantivy_def split_beta)

definition toy_dw :: "toy_schema doc_writer" where
  "toy_dw = \<lparr> dw_schema = schema_build toy_schema_api, dw_config = index_writer_config_default, dw_pending = 0 \<rparr>"

definition toy_batch :: "(document \<times> rat doc_scores) list" where
  "toy_batch = [(document_new length [97] [] [] 1 [], \<lparr> authority = 0, host_authority = 0 \<rparr>),
     (document_new length [98] [] [] 2 [], \<lparr> authority = 0, host_authority = 0 \<rparr>),
     (document_new length [97] [] [] 3 [], \<lparr> authority = 0, host_authority = 0 \<rparr>)]"

theorem upsert_refines_map_witness:
  "\<exists>st w'. add_documents toy_tantivy (\<lambda>x. x) toy_batch (toy_dw, ([], [])) = (Inr (), st) \<and>
     writer_commit toy_tantivy st = (Inr (), toy_dw, w') \<and> writer_doc_count toy_tantivy (toy_dw, w') = Inr 2"
proof -
  let ?sc = "schema_build toy_schema_api"
  obtain st w' where r: "add_documents toy_tantivy (\<lambda>x. x) toy_batch (toy_dw, ([], [])) = (Inr (), st)"
    "writer_commit toy_tantivy st = (Inr (), toy_dw, w')"
    by (simp add: toy_batch_def add_or_update_def tv_result_def toy_tantivy_def writer_commit_def toy_dw_def Let_def)
  have h: "schema_fields (dw_schema toy_dw)" "snd ([] :: rat row list, [] :: rat index_op list) = []"
    "plain_rows (dw_schema toy_dw) (fst ([] :: rat row list, [] :: rat index_op list))"
    using schema_build_laws(1) [OF toy_schema_ok] by (simp_all add: toy_dw_def plain_rows_def)
  note u = upsert_refines_map [OF toy_tantivy_ok h r]
  obtain n where n: "writer_doc_count toy_tantivy (toy_dw, w') = Inr n"
    by (cases w') (simp add: writer_doc_count_def toy_tantivy_def)
  have "rows_map ?sc (fst w') = fold (\<lambda>(d, s) m. m(doc_url d \<mapsto> doc_row (\<lambda>x. x) ?sc d s)) toy_batch (rows_map ?sc [])"
    using u by (simp add: toy_dw_def)
  then have "dom (rows_map ?sc (fst w')) = {[97], [98]}"
    by (auto simp: toy_batch_def rows_map_def dom_def split: if_splits)
  then have "card (dom (rows_map ?sc (fst w'))) = 2" by simp
  then have "n = 2" using u n by (simp add: toy_dw_def)
  then show ?thesis using r n by blast
qed

end
