(* ===== verification/Search_Engine.thy ===== *)
theory Search_Engine
  imports Index_Writer
begin

text \<open>
  The query engine (\<open>crates/search-core/src/search.rs\<close>): opening an index read-only, the query
  with its fallback from "all terms" to "any term", the page of hits, and the cache of result pages
  whose keys carry a fingerprint of the index.

  Tantivy's read side is the record \<open>query_api\<close>: a snapshot \<open>'v\<close> is a searcher, and \<open>qa_reload\<close> takes
  one of what is on disk at that moment. Moka's cache is the record \<open>cache_api\<close>; it may drop any
  entry at any time. Durations are rational numbers of seconds, and \<open>qa_narrow\<close> is the cast from
  \<open>f64\<close> to \<open>f32\<close>.
\<close>

section \<open>Third-party code\<close>

record ('w, 's, 'v, 'q, 'a, 'f, 'g) query_api =
  qa_has_meta :: "rstr \<Rightarrow> 'w \<Rightarrow> bool"
  qa_open_in_dir :: "rstr \<Rightarrow> 'w \<Rightarrow> string + 's"
  qa_reload :: "'w \<Rightarrow> string + 'v"
  qa_segments :: "'v \<Rightarrow> rstr"
  qa_num_docs :: "'v \<Rightarrow> nat"
  qa_parse :: "bool \<Rightarrow> nat list \<Rightarrow> rstr \<Rightarrow> string + 'q"
  qa_all_query :: 'q
  qa_count :: "'v \<Rightarrow> 'q \<Rightarrow> string + nat"
  qa_top :: "'v \<Rightarrow> 'q \<Rightarrow> nat \<Rightarrow> nat \<Rightarrow> string + ('f \<times> 'a) list"
  qa_snippets :: "'v \<Rightarrow> 'q \<Rightarrow> nat \<Rightarrow> string + (nat \<Rightarrow> 'g row \<Rightarrow> rstr)"
  qa_doc :: "'v \<Rightarrow> 'a \<Rightarrow> string + 'g row"
  qa_zero :: 'g
  qa_narrow :: "'g \<Rightarrow> 'f"
  qa_hash :: "nat list \<Rightarrow> nat"

type_synonym cache_key = "rstr \<times> nat \<times> nat \<times> nat"

record ('c, 'p) cache_api =
  ca_new :: "nat \<Rightarrow> 'c"
  ca_get :: "cache_key \<Rightarrow> 'c \<Rightarrow> 'p option \<times> 'c"
  ca_insert :: "cache_key \<Rightarrow> 'p \<Rightarrow> 'c \<Rightarrow> 'c"
  ca_entries :: "'c \<Rightarrow> nat"

section \<open>The data\<close>

definition cache_capacity :: nat where
  "cache_capacity = 512"

definition snippet_chars :: nat where
  "snippet_chars = 240"

record 'f hit =
  hit_url :: rstr
  hit_title :: rstr
  hit_snippet :: rstr
  hit_fetched_at :: int
  hit_score :: 'f
  hit_authority :: 'f
  hit_host_authority :: 'f

record 'f search_outcome =
  so_hits :: "'f hit list"
  so_total_matches :: nat
  so_doc_count :: nat
  so_elapsed_ms :: rat
  so_cached :: bool
  so_relaxed :: bool

record 'f cached_page =
  cp_hits :: "'f hit list"
  cp_total_matches :: nat
  cp_relaxed :: bool

record ('s, 'v, 'c) search_engine =
  eng_reader :: 'v
  eng_schema :: "'s index_schema"
  eng_cache :: 'c

definition is_multi_term :: "rstr \<Rightarrow> bool" where
  "is_multi_term query = (case split_whitespace query of _ # _ # _ \<Rightarrow> True | _ \<Rightarrow> False)"

section \<open>Reading a document\<close>

text \<open>\<open>get_first\<close>: the first value of a field.\<close>

definition field_text :: "'g row \<Rightarrow> nat \<Rightarrow> rstr" where
  "field_text doc f = (case map_of doc f of Some (VText t) \<Rightarrow> t | _ \<Rightarrow> [])"

definition field_i64 :: "'g row \<Rightarrow> nat \<Rightarrow> int" where
  "field_i64 doc f = (case map_of doc f of Some (VI64 i) \<Rightarrow> i | _ \<Rightarrow> 0)"

definition field_f32 :: "('w, 's, 'v, 'q, 'a, 'f, 'g) query_api \<Rightarrow> 'g row \<Rightarrow> nat \<Rightarrow> 'f" where
  "field_f32 A doc f = qa_narrow A (case map_of doc f of Some (VF64 x) \<Rightarrow> x | _ \<Rightarrow> qa_zero A)"

definition elapsed_ms :: "rat \<Rightarrow> rat" where
  "elapsed_ms seconds = seconds * 1000"

definition index_fingerprint :: "('w, 's, 'v, 'q, 'a, 'f, 'g) query_api \<Rightarrow> 'v \<Rightarrow> nat" where
  "index_fingerprint A searcher = content_hash (qa_hash A) (qa_segments A searcher)"

section \<open>Opening\<close>

definition open_with_cache ::
    "('b, 's, 't) schema_api \<Rightarrow> ('w, 's, 'v, 'q, 'a, 'f, 'g) query_api \<Rightarrow> ('c, 'f cached_page) cache_api \<Rightarrow>
     rstr \<Rightarrow> nat \<Rightarrow> 'w \<Rightarrow> search_error + ('s, 'v, 'c) search_engine" where
  "open_with_cache SA A CA index_dir capacity w =
     (if \<not> qa_has_meta A index_dir w then Inl (MissingIndex index_dir)
      else (case qa_open_in_dir A index_dir w of
              Inl e \<Rightarrow> Inl (IndexFailed e)
            | Inr other \<Rightarrow>
                (let schema = schema_build SA
                 in if \<not> is_compatible_with SA schema other then Inl (IncompatibleSchema index_dir)
                    else (case qa_reload A w of
                            Inl e \<Rightarrow> Inl (IndexFailed e)
                          | Inr reader \<Rightarrow>
                              Inr \<lparr> eng_reader = reader, eng_schema = schema, eng_cache = ca_new CA (max capacity 1) \<rparr>))))"

definition engine_open ::
    "('b, 's, 't) schema_api \<Rightarrow> ('w, 's, 'v, 'q, 'a, 'f, 'g) query_api \<Rightarrow> ('c, 'f cached_page) cache_api \<Rightarrow>
     rstr \<Rightarrow> 'w \<Rightarrow> search_error + ('s, 'v, 'c) search_engine" where
  "engine_open SA A CA index_dir w = open_with_cache SA A CA index_dir cache_capacity w"

text \<open>The reader reloads by hand.\<close>

definition refresh ::
    "('w, 's, 'v, 'q, 'a, 'f, 'g) query_api \<Rightarrow> 'w \<Rightarrow> ('s, 'v, 'c) search_engine \<Rightarrow>
     (search_error + unit) \<times> ('s, 'v, 'c) search_engine" where
  "refresh A w eng =
     (case qa_reload A w of
        Inl e \<Rightarrow> (Inl (IndexFailed e), eng)
      | Inr v \<Rightarrow> (Inr (), eng \<lparr> eng_reader := v \<rparr>))"

definition warm_up ::
    "('w, 's, 'v, 'q, 'a, 'f, 'g) query_api \<Rightarrow> rat \<Rightarrow> 'w \<Rightarrow> ('s, 'v, 'c) search_engine \<Rightarrow>
     (search_error + rat) \<times> ('s, 'v, 'c) search_engine" where
  "warm_up A elapsed w eng =
     state_then (refresh A w eng) (\<lambda>_ eng.
       (case qa_top A (eng_reader eng) (qa_all_query A) 1 0 of
          Inl e \<Rightarrow> (Inl (IndexFailed e), eng)
        | Inr _ \<Rightarrow> (Inr elapsed, eng)))"

definition engine_doc_count ::
    "('w, 's, 'v, 'q, 'a, 'f, 'g) query_api \<Rightarrow> 'w \<Rightarrow> ('s, 'v, 'c) search_engine \<Rightarrow>
     (search_error + nat) \<times> ('s, 'v, 'c) search_engine" where
  "engine_doc_count A w eng = state_then (refresh A w eng) (\<lambda>_ eng. (Inr (qa_num_docs A (eng_reader eng)), eng))"

definition engine_fingerprint ::
    "('w, 's, 'v, 'q, 'a, 'f, 'g) query_api \<Rightarrow> 'w \<Rightarrow> ('s, 'v, 'c) search_engine \<Rightarrow>
     (search_error + nat) \<times> ('s, 'v, 'c) search_engine" where
  "engine_fingerprint A w eng =
     state_then (refresh A w eng) (\<lambda>_ eng. (Inr (index_fingerprint A (eng_reader eng)), eng))"

definition engine_stats ::
    "('w, 's, 'v, 'q, 'a, 'f, 'g) query_api \<Rightarrow> 'w \<Rightarrow> ('s, 'v, 'c) search_engine \<Rightarrow>
     (search_error + nat \<times> nat) \<times> ('s, 'v, 'c) search_engine" where
  "engine_stats A w eng =
     state_then (refresh A w eng) (\<lambda>_ eng.
       (Inr (qa_num_docs A (eng_reader eng), index_fingerprint A (eng_reader eng)), eng))"

section \<open>The query\<close>

text \<open>The query to run, its total, and whether it is the wide one.\<close>

definition choose_query ::
    "('w, 's, 'v, 'q, 'a, 'f, 'g) query_api \<Rightarrow> 's index_schema \<Rightarrow> 'v \<Rightarrow> rstr \<Rightarrow> search_error + 'q \<times> nat \<times> bool" where
  "choose_query A schema v query =
     (let fields = [is_title schema, is_body schema];
          parse = (\<lambda>conj. map_err (QueryParse query) (qa_parse A conj fields query));
          total = (\<lambda>q. map_err IndexFailed (qa_count A v q))
      in and_then (parse True) (\<lambda>strict.
         and_then (total strict) (\<lambda>strict_total.
           if 0 < strict_total \<or> \<not> is_multi_term query then Inr (strict, strict_total, False)
           else and_then (parse False) (\<lambda>wide.
                and_then (total wide) (\<lambda>wide_total.
                  if wide_total = 0 then Inr (strict, 0, False) else Inr (wide, wide_total, True))))))"

fun read_hits ::
    "('w, 's, 'v, 'q, 'a, 'f, 'g) query_api \<Rightarrow> 's index_schema \<Rightarrow> 'v \<Rightarrow> ('g row \<Rightarrow> rstr) \<Rightarrow> ('f \<times> 'a) list \<Rightarrow>
     search_error + 'f hit list" where
  "read_hits A schema v snippet [] = Inr []"
| "read_hits A schema v snippet ((score, address) # ranked) =
     and_then (map_err IndexFailed (qa_doc A v address)) (\<lambda>doc.
     and_then (read_hits A schema v snippet ranked) (\<lambda>hits.
       Inr (\<lparr> hit_url = field_text doc (is_url schema), hit_title = field_text doc (is_title schema),
              hit_snippet = snippet doc, hit_fetched_at = field_i64 doc (is_fetched_at schema), hit_score = score,
              hit_authority = field_f32 A doc (is_authority schema),
              hit_host_authority = field_f32 A doc (is_host_authority schema) \<rparr> # hits)))"

text \<open>The page a query has on a snapshot: what \<open>search\<close> does on a cache miss.\<close>

definition search_page ::
    "('w, 's, 'v, 'q, 'a, 'f, 'g) query_api \<Rightarrow> 's index_schema \<Rightarrow> 'v \<Rightarrow> rstr \<Rightarrow> nat \<Rightarrow> nat \<Rightarrow>
     search_error + 'f cached_page" where
  "search_page A schema v query limit offset =
     and_then (choose_query A schema v query) (\<lambda>(parsed, total_matches, relaxed).
     and_then (map_err IndexFailed (qa_top A v parsed (max limit 1) offset)) (\<lambda>ranked.
     and_then (map_err IndexFailed (qa_snippets A v parsed (is_body schema))) (\<lambda>generator.
     and_then (read_hits A schema v (generator snippet_chars) ranked) (\<lambda>hits.
       Inr \<lparr> cp_hits = hits, cp_total_matches = total_matches, cp_relaxed = relaxed \<rparr>))))"

definition engine_search ::
    "('w, 's, 'v, 'q, 'a, 'f, 'g) query_api \<Rightarrow> ('c, 'f cached_page) cache_api \<Rightarrow> rstr \<Rightarrow> nat \<Rightarrow> nat \<Rightarrow> rat \<Rightarrow> 'w \<Rightarrow>
     ('s, 'v, 'c) search_engine \<Rightarrow> (search_error + 'f search_outcome) \<times> ('s, 'v, 'c) search_engine" where
  "engine_search A CA query limit offset elapsed w eng =
     (case qa_reload A w of
        Inl e \<Rightarrow> (Inl (IndexFailed e), eng)
      | Inr searcher \<Rightarrow>
          (let eng = eng \<lparr> eng_reader := searcher \<rparr>;
               key = (query, limit, offset, index_fingerprint A searcher);
               doc_count = qa_num_docs A searcher
           in case ca_get CA key (eng_cache eng) of
                (Some page, cache) \<Rightarrow>
                  (Inr \<lparr> so_hits = cp_hits page, so_total_matches = cp_total_matches page, so_doc_count = doc_count,
                         so_elapsed_ms = elapsed_ms elapsed, so_cached = True, so_relaxed = cp_relaxed page \<rparr>,
                   eng \<lparr> eng_cache := cache \<rparr>)
              | (None, cache) \<Rightarrow>
                  (case search_page A (eng_schema eng) searcher query limit offset of
                     Inl e \<Rightarrow> (Inl e, eng \<lparr> eng_cache := cache \<rparr>)
                   | Inr page \<Rightarrow>
                       (Inr \<lparr> so_hits = cp_hits page, so_total_matches = cp_total_matches page, so_doc_count = doc_count,
                              so_elapsed_ms = elapsed_ms elapsed, so_cached = False, so_relaxed = cp_relaxed page \<rparr>,
                        eng \<lparr> eng_cache := ca_insert CA key page cache \<rparr>))))"

section \<open>The cache is invisible\<close>

text \<open>What the code relies on of the cache: what it returns for a key is what was last put in for it,
  if it has not been dropped. \<open>content\<close> is what a cache holds.\<close>

definition cache_ok :: "('c, 'p) cache_api \<Rightarrow> ('c \<Rightarrow> cache_key \<Rightarrow> 'p option) \<Rightarrow> bool" where
  "cache_ok CA content \<longleftrightarrow> (\<forall>n. content (ca_new CA n) = Map.empty) \<and>
     (\<forall>k c p c'. ca_get CA k c = (Some p, c') \<longrightarrow> content c k = Some p) \<and>
     (\<forall>k c r c'. ca_get CA k c = (r, c') \<longrightarrow> content c' \<subseteq>\<^sub>m content c) \<and>
     (\<forall>k p c. content (ca_insert CA k p c) \<subseteq>\<^sub>m (content c)(k \<mapsto> p))"

text \<open>Two generations of the index that a run sees differ in their fingerprints.\<close>

definition generations_ok :: "('w, 's, 'v, 'q, 'a, 'f, 'g) query_api \<Rightarrow> 'w set \<Rightarrow> bool" where
  "generations_ok A W \<longleftrightarrow> (\<forall>w \<in> W. \<forall>w' \<in> W. \<forall>v v'. qa_reload A w = Inr v \<longrightarrow> qa_reload A w' = Inr v' \<longrightarrow>
     index_fingerprint A v = index_fingerprint A v' \<longrightarrow> v = v')"

text \<open>The contract of such a cache, and what follows from it for a property of all it holds.\<close>

locale memo_cache =
  fixes sound :: "'e \<Rightarrow> bool"
    and content :: "'e \<Rightarrow> 'c \<Rightarrow> 'k \<Rightarrow> 'p option"
    and fresh :: "'e \<Rightarrow> nat \<Rightarrow> 'c"
    and get :: "'e \<Rightarrow> 'k \<Rightarrow> 'c \<Rightarrow> 'p option \<times> 'c"
    and put :: "'e \<Rightarrow> 'k \<Rightarrow> 'p \<Rightarrow> 'c \<Rightarrow> 'c"
  assumes fresh_content: "sound e \<Longrightarrow> content e (fresh e n) = Map.empty"
    and get_found: "sound e \<Longrightarrow> get e k c = (Some p, c') \<Longrightarrow> content e c k = Some p"
    and get_keeps: "sound e \<Longrightarrow> get e k c = (r, c') \<Longrightarrow> content e c' \<subseteq>\<^sub>m content e c"
    and put_content: "sound e \<Longrightarrow> content e (put e k p c) \<subseteq>\<^sub>m (content e c)(k \<mapsto> p)"
begin

definition holds :: "'e \<Rightarrow> ('k \<Rightarrow> 'p \<Rightarrow> bool) \<Rightarrow> 'c \<Rightarrow> bool" where
  "holds e P c \<longleftrightarrow> (\<forall>k p. content e c k = Some p \<longrightarrow> P k p)"

lemma holds_fresh: "sound e \<Longrightarrow> holds e P (fresh e n)"
  by (simp add: holds_def fresh_content)

lemma holds_get:
  assumes "sound e" "holds e P c" "get e k c = (r, c')"
  shows "holds e P c'" "r = Some p \<Longrightarrow> P k p"
  using get_keeps [OF assms(1,3)] get_found [OF assms(1)] assms(2,3) unfolding holds_def map_le_def dom_def
  by fastforce+

lemma holds_put:
  assumes "sound e" "holds e P c" "P k p"
  shows "holds e P (put e k p c)"
proof -
  have "P k' p'" if "content e (put e k p c) k' = Some p'" for k' p'
  proof -
    have "((content e c)(k \<mapsto> p)) k' = Some p'"
      using put_content [OF assms(1), of k p c] that unfolding map_le_def by (metis domI)
    then show ?thesis using assms(2,3) by (auto simp: holds_def split: if_splits)
  qed
  then show ?thesis by (simp add: holds_def)
qed

end

lemma cache_okD:
  assumes "cache_ok CA content"
  shows "content (ca_new CA n) = Map.empty"
    and "ca_get CA k c = (Some p, c') \<Longrightarrow> content c k = Some p"
    and "ca_get CA k c = (r, c') \<Longrightarrow> content c' \<subseteq>\<^sub>m content c"
    and "content (ca_insert CA k p c) \<subseteq>\<^sub>m (content c)(k \<mapsto> p)"
  using assms unfolding cache_ok_def by blast+

text \<open>The engine's cache, and what a page in it is worth: it is the page of its query on a generation
  with its fingerprint.\<close>

interpretation pages: memo_cache "\<lambda>e. cache_ok (fst e) (snd e)" "\<lambda>e. snd e" "\<lambda>e. ca_new (fst e)" "\<lambda>e. ca_get (fst e)"
    "\<lambda>e. ca_insert (fst e)"
  by unfold_locales (erule cache_okD; assumption)+

definition page_valid ::
    "('w, 's, 'v, 'q, 'a, 'f, 'g) query_api \<Rightarrow> 'w set \<Rightarrow> 's index_schema \<Rightarrow> cache_key \<Rightarrow> 'f cached_page \<Rightarrow> bool" where
  "page_valid A W schema key page \<longleftrightarrow> (case key of (query, limit, offset, fp) \<Rightarrow>
     \<exists>w \<in> W. \<exists>v. qa_reload A w = Inr v \<and> index_fingerprint A v = fp \<and>
        search_page A schema v query limit offset = Inr page)"

text \<open>The engine without a cache.\<close>

definition plain_search ::
    "('w, 's, 'v, 'q, 'a, 'f, 'g) query_api \<Rightarrow> 's index_schema \<Rightarrow> rstr \<times> nat \<times> nat \<times> rat \<times> 'w \<Rightarrow>
     search_error + 'f search_outcome" where
  "plain_search A schema request =
     (case request of (query, limit, offset, elapsed, w) \<Rightarrow>
        and_then (map_err IndexFailed (qa_reload A w)) (\<lambda>v.
        and_then (search_page A schema v query limit offset) (\<lambda>page.
          Inr \<lparr> so_hits = cp_hits page, so_total_matches = cp_total_matches page, so_doc_count = qa_num_docs A v,
                so_elapsed_ms = elapsed_ms elapsed, so_cached = False, so_relaxed = cp_relaxed page \<rparr>)))"

definition forget_cached :: "search_error + 'f search_outcome \<Rightarrow> search_error + 'f search_outcome" where
  "forget_cached r = (case r of Inl e \<Rightarrow> Inl e | Inr out \<Rightarrow> Inr (out \<lparr> so_cached := False \<rparr>))"

fun search_all ::
    "('w, 's, 'v, 'q, 'a, 'f, 'g) query_api \<Rightarrow> ('c, 'f cached_page) cache_api \<Rightarrow> (rstr \<times> nat \<times> nat \<times> rat \<times> 'w) list \<Rightarrow>
     ('s, 'v, 'c) search_engine \<Rightarrow> (search_error + 'f search_outcome) list \<times> ('s, 'v, 'c) search_engine" where
  "search_all A CA [] eng = ([], eng)"
| "search_all A CA ((query, limit, offset, elapsed, w) # rs) eng =
     (case engine_search A CA query limit offset elapsed w eng of
        (r, eng) \<Rightarrow> (case search_all A CA rs eng of (out, eng) \<Rightarrow> (r # out, eng)))"

lemma engine_search_step:
  assumes C: "cache_ok CA content" and G: "generations_ok A W" and w: "w \<in> W"
    and valid: "pages.holds (CA, content) (page_valid A W (eng_schema eng)) (eng_cache eng)"
    and run: "engine_search A CA query limit offset elapsed w eng = (r, eng')"
  shows "forget_cached r = plain_search A (eng_schema eng) (query, limit, offset, elapsed, w) \<and>
    eng_schema eng' = eng_schema eng \<and> pages.holds (CA, content) (page_valid A W (eng_schema eng)) (eng_cache eng')"
proof (cases "qa_reload A w")
  case (Inl e)
  then show ?thesis using run valid by (auto simp: engine_search_def plain_search_def forget_cached_def)
next
  case (Inr v)
  let ?key = "(query, limit, offset, index_fingerprint A v)" and ?sc = "eng_schema eng"
  note run = run [unfolded engine_search_def Inr Let_def, simplified]
  obtain found cache where get: "ca_get CA ?key (eng_cache eng) = (found, cache)" by fastforce
  note g = pages.holds_get [of "(CA, content)", OF _ valid, of ?key found cache, simplified, OF C get]
  show ?thesis
  proof (cases found)
    case (Some page)
    then obtain w' v' where "w' \<in> W" "qa_reload A w' = Inr v'" "index_fingerprint A v' = index_fingerprint A v"
      "search_page A ?sc v' query limit offset = Inr page"
      using g(2) unfolding page_valid_def by auto
    moreover from this have "v' = v" using G w Inr unfolding generations_ok_def by blast
    ultimately have "search_page A ?sc v query limit offset = Inr page" by simp
    then show ?thesis using run get Some g(1) Inr by (auto simp: plain_search_def forget_cached_def)
  next
    case None
    show ?thesis
    proof (cases "search_page A ?sc v query limit offset")
      case (Inl e)
      then show ?thesis using run get None g(1) Inr by (auto simp: plain_search_def forget_cached_def)
    next
      case page: (Inr page)
      have "page_valid A W ?sc ?key page" using w Inr page by (auto simp: page_valid_def)
      from pages.holds_put [of "(CA, content)", OF _ g(1) this] C
      have "pages.holds (CA, content) (page_valid A W ?sc) (ca_insert CA ?key page cache)" by simp
      then show ?thesis using run get None page Inr by (auto simp: plain_search_def forget_cached_def)
    qed
  qed
qed

lemma search_all_plain:
  assumes "cache_ok CA content" "generations_ok A W"
  shows "search_all A CA rs eng = (out, eng') \<Longrightarrow> \<forall>(_, _, _, _, w) \<in> set rs. w \<in> W \<Longrightarrow>
    pages.holds (CA, content) (page_valid A W (eng_schema eng)) (eng_cache eng) \<Longrightarrow>
    map forget_cached out = map (plain_search A (eng_schema eng)) rs"
proof (induction rs arbitrary: eng out)
  case Nil
  then show ?case by simp
next
  case (Cons request rs)
  obtain query limit offset elapsed w where q: "request = (query, limit, offset, elapsed, w)" by (metis prod_cases5)
  obtain r eng1 where s: "engine_search A CA query limit offset elapsed w eng = (r, eng1)" by fastforce
  obtain out1 where rest: "search_all A CA rs eng1 = (out1, eng')" "out = r # out1"
    using Cons.prems(1) q s by (auto split: prod.splits)
  have w: "w \<in> W" "\<forall>(_, _, _, _, w) \<in> set rs. w \<in> W" using Cons.prems(2) q by simp_all
  note step = engine_search_step [OF assms w(1) Cons.prems(3) s]
  have "map forget_cached out1 = map (plain_search A (eng_schema eng)) rs"
    using Cons.IH [OF rest(1) w(2)] step by simp
  then show ?case using step rest(2) q by simp
qed

text \<open>C13: the cache cannot be seen in the answers: over any sequence of requests, with commits to the
  index in between, the engine outs each of them, errors included, as an engine without a cache
  does, up to the flag that says whether the answer was cached.\<close>

theorem search_cache_invisible:
  assumes "cache_ok CA content" "generations_ok A ((\<lambda>(_, _, _, _, w). w) ` set requests)"
    and "open_with_cache SA A CA index_dir capacity w0 = Inr eng" "search_all A CA requests eng = (outs, eng')"
  shows "map forget_cached outs = map (plain_search A (schema_build SA)) requests"
proof -
  have sc: "eng_schema eng = schema_build SA" "eng_cache eng = ca_new CA (max capacity 1)"
    using assms(3) by (auto simp: open_with_cache_def Let_def split: if_splits sum.splits)
  have valid: "pages.holds (CA, content) (page_valid A W (eng_schema eng)) (eng_cache eng)" for W
    using pages.holds_fresh [of "(CA, content)"] assms(1) by (simp add: sc(2))
  have "\<forall>(_, _, _, _, w) \<in> set requests. w \<in> (\<lambda>(_, _, _, _, w). w) ` set requests" by force
  from search_all_plain [OF assms(1,2,4) this valid] show ?thesis unfolding sc(1) .
qed

section \<open>Hits are rows\<close>

text \<open>What the code relies on of a reader: the documents it hands out are rows of the commit it was
  reloaded from.\<close>

definition reader_ok :: "('w, 's, 'v, 'q, 'a, 'f, 'g) query_api \<Rightarrow> ('w \<Rightarrow> 'g row list) \<Rightarrow> bool" where
  "reader_ok A R \<longleftrightarrow> (\<forall>w v a r. qa_reload A w = Inr v \<longrightarrow> qa_doc A v a = Inr r \<longrightarrow> r \<in> set (R w))"

text \<open>A hit shows the stored fields of a row.\<close>

definition shows_row :: "'s index_schema \<Rightarrow> 'f hit \<Rightarrow> 'g row \<Rightarrow> bool" where
  "shows_row schema h r \<longleftrightarrow> hit_url h = field_text r (is_url schema) \<and> hit_title h = field_text r (is_title schema) \<and>
     hit_fetched_at h = field_i64 r (is_fetched_at schema)"

lemma read_hits_rows:
  "read_hits A schema v snippet ms = Inr hits \<Longrightarrow> h \<in> set hits \<Longrightarrow>
     \<exists>a r. qa_doc A v a = Inr r \<and> shows_row schema h r"
proof (induction ms arbitrary: hits)
  case (Cons m ms)
  obtain score address where m: "m = (score, address)" by (cases m)
  obtain r where r: "qa_doc A v address = Inr r"
    using Cons.prems(1) m by (cases "qa_doc A v address") (auto simp: and_then_def map_err_def)
  obtain hs where hs: "read_hits A schema v snippet ms = Inr hs"
    using Cons.prems(1) m r by (cases "read_hits A schema v snippet ms") (auto simp: and_then_def map_err_def)
  have "h \<in> set hs \<or> shows_row schema h r"
    using Cons.prems m r hs by (auto simp: and_then_def map_err_def shows_row_def)
  then show ?case using Cons.IH [OF hs] r by blast
qed simp

lemma search_page_rows:
  assumes "search_page A schema v query limit offset = Inr page" "h \<in> set (cp_hits page)"
  shows "\<exists>a r. qa_doc A v a = Inr r \<and> shows_row schema h r"
  using assms read_hits_rows by (fastforce simp: search_page_def and_then_def map_err_def split: sum.splits prod.splits)

lemma fresh_engine_hits:
  assumes "cache_ok CA content" "reader_ok A R" "open_with_cache SA A CA index_dir capacity w = Inr eng"
    and "engine_search A CA query limit offset elapsed w eng = (Inr out, eng')" "h \<in> set (so_hits out)"
  obtains r where "r \<in> set (R w)" "shows_row (schema_build SA) h r"
proof -
  have sc: "eng_schema eng = schema_build SA" "eng_cache eng = ca_new CA (max capacity 1)"
    using assms(3) by (auto simp: open_with_cache_def Let_def split: if_splits sum.splits)
  have g: "generations_ok A {w}" by (auto simp: generations_ok_def)
  have "pages.holds (CA, content) (page_valid A {w} (eng_schema eng)) (eng_cache eng)"
    using pages.holds_fresh [of "(CA, content)"] assms(1) by (simp add: sc(2))
  from engine_search_step [OF assms(1) g _ this assms(4)]
  have "forget_cached (Inr out) = plain_search A (schema_build SA) (query, limit, offset, elapsed, w)"
    by (simp add: sc(1))
  then obtain v page where p: "qa_reload A w = Inr v" "search_page A (schema_build SA) v query limit offset = Inr page"
    "cp_hits page = so_hits out"
    by (cases out) (auto simp: plain_search_def forget_cached_def and_then_def map_err_def split: sum.splits)
  from search_page_rows [OF p(2)] assms(5) obtain a r where "qa_doc A v a = Inr r" "shows_row (schema_build SA) h r"
    unfolding p(3) by blast
  moreover from this(1) have "r \<in> set (R w)" using assms(2) p(1) unfolding reader_ok_def by blast
  ultimately show thesis using that by blast
qed

section \<open>Pages\<close>

text \<open>What the code relies on of a searcher: \<open>rank q\<close> are the matches of a query, best first; a
  collector counts them or takes a window of them, and every one of them can be read.\<close>

definition searcher_ok ::
    "('w, 's, 'v, 'q, 'a, 'f, 'g) query_api \<Rightarrow> 'v \<Rightarrow> ('q \<Rightarrow> ('f \<times> 'a) list) \<Rightarrow> ('a \<Rightarrow> 'g row) \<Rightarrow> bool" where
  "searcher_ok A v rank doc \<longleftrightarrow> (\<forall>q. qa_count A v q = Inr (length (rank q))) \<and>
     (\<forall>q limit offset. 0 < limit \<longrightarrow> qa_top A v q limit offset = Inr (take limit (drop offset (rank q)))) \<and>
     (\<forall>a. qa_doc A v a = Inr (doc a))"

definition hit_of ::
    "('w, 's, 'v, 'q, 'a, 'f, 'g) query_api \<Rightarrow> 's index_schema \<Rightarrow> ('a \<Rightarrow> 'g row) \<Rightarrow> ('g row \<Rightarrow> rstr) \<Rightarrow> 'f \<times> 'a \<Rightarrow> 'f hit" where
  "hit_of A schema doc snippet m =
     \<lparr> hit_url = field_text (doc (snd m)) (is_url schema), hit_title = field_text (doc (snd m)) (is_title schema),
       hit_snippet = snippet (doc (snd m)), hit_fetched_at = field_i64 (doc (snd m)) (is_fetched_at schema), hit_score = fst m,
       hit_authority = field_f32 A (doc (snd m)) (is_authority schema),
       hit_host_authority = field_f32 A (doc (snd m)) (is_host_authority schema) \<rparr>"

lemma read_hits_all:
  assumes "\<forall>a. qa_doc A v a = Inr (doc a)"
  shows "read_hits A schema v snippet ms = Inr (map (hit_of A schema doc snippet) ms)"
  using assms by (induction ms) (auto simp: hit_of_def)

lemma search_page_window:
  assumes "searcher_ok A v rank doc" "search_page A schema v query limit offset = Inr page"
  obtains q generator where "choose_query A schema v query = Inr (q, cp_total_matches page, cp_relaxed page)"
    "qa_snippets A v q (is_body schema) = Inr generator"
    "cp_hits page = map (hit_of A schema doc (generator snippet_chars)) (take (max limit 1) (drop offset (rank q)))"
proof -
  obtain q n relaxed where c: "choose_query A schema v query = Inr (q, n, relaxed)"
    using assms(2) by (cases "choose_query A schema v query") (auto simp: search_page_def)
  obtain generator where g: "qa_snippets A v q (is_body schema) = Inr generator"
    using assms(2) c by (cases "qa_snippets A v q (is_body schema)") (auto simp: search_page_def and_then_def map_err_def split: sum.splits)
  have "qa_top A v q (max limit 1) offset = Inr (take (max limit 1) (drop offset (rank q)))"
    using assms(1) by (simp add: searcher_ok_def)
  moreover have "read_hits A schema v (generator snippet_chars) ms = Inr (map (hit_of A schema doc (generator snippet_chars)) ms)" for ms
    by (rule read_hits_all) (use assms(1) in \<open>simp add: searcher_ok_def\<close>)
  ultimately show thesis using assms(2) c g by (intro that [of q generator]) (auto simp: search_page_def)
qed

lemma choose_query_total:
  assumes "searcher_ok A v rank doc" "choose_query A schema v query = Inr (q, n, relaxed)"
  shows "n = length (rank q) \<and> (relaxed \<longrightarrow> 0 < n \<and> is_multi_term query \<and>
    (\<exists>strict. qa_parse A True [is_title schema, is_body schema] query = Inr strict \<and> rank strict = []))"
proof -
  have count: "qa_count A v q = Inr (length (rank q))" for q using assms(1) by (simp add: searcher_ok_def)
  show ?thesis using assms(2)
    by (auto simp: choose_query_def Let_def count and_then_def map_err_def split: sum.splits if_splits)
qed

lemma take_windows: "concat (map (\<lambda>i. take k (drop (i * k) xs)) [0..<n]) = take (n * k) xs"
proof (induction n)
  case (Suc n)
  have "take (Suc n * k) xs = take (n * k) xs @ take k (drop (n * k) xs)"
    using take_add [of "n * k" k xs] by (simp add: add.commute)
  then show ?case using Suc by simp
qed simp

text \<open>C36: pages tile the result: the pages of a query at offsets 0, k, 2k, ... are consecutive pieces
  of one list of hits, the page as long as the total, and all of them report the same total, its
  length; a query is widened to "any term" only when it has several terms and requiring all of
  them finds nothing, and only to find something.\<close>

theorem search_pages_tile:
  assumes "searcher_ok A v rank doc" "0 < k" "0 < n"
    and "\<forall>i < n. search_page A schema v query k (i * k) = Inr (page i)"
    and "search_page A schema v query (cp_total_matches (page 0)) 0 = Inr whole"
  shows "concat (map (\<lambda>i. cp_hits (page i)) [0..<n]) = take (n * k) (cp_hits whole) \<and>
    length (cp_hits whole) = cp_total_matches whole \<and>
    (\<forall>i < n. cp_total_matches (page i) = cp_total_matches whole \<and> cp_relaxed (page i) = cp_relaxed whole) \<and>
    (cp_relaxed whole \<longrightarrow> 0 < cp_total_matches whole \<and> is_multi_term query \<and>
      (\<exists>strict. qa_parse A True [is_title schema, is_body schema] query = Inr strict \<and> rank strict = []))"
proof -
  obtain q generator where w: "choose_query A schema v query = Inr (q, cp_total_matches whole, cp_relaxed whole)"
    "qa_snippets A v q (is_body schema) = Inr generator"
    "cp_hits whole = map (hit_of A schema doc (generator snippet_chars)) (take (max (cp_total_matches (page 0)) 1) (drop 0 (rank q)))"
    by (rule search_page_window [OF assms(1,5)])
  let ?hit = "hit_of A schema doc (generator snippet_chars)"
  note total = choose_query_total [OF assms(1) w(1)]
  have page: "cp_total_matches (page i) = cp_total_matches whole \<and> cp_relaxed (page i) = cp_relaxed whole \<and>
      cp_hits (page i) = map ?hit (take k (drop (i * k) (rank q)))" if "i < n" for i
  proof -
    have "search_page A schema v query k (i * k) = Inr (page i)" using assms(4) that by blast
    from search_page_window [OF assms(1) this] w(1,2) assms(2) show ?thesis
      by (metis Inr_inject Suc_leI One_nat_def max_absorb1 prod.inject)
  qed
  have all: "cp_hits whole = map ?hit (rank q)" using w(3) page [OF assms(3)] total by simp
  have "concat (map (\<lambda>i. cp_hits (page i)) [0..<n]) = concat (map (\<lambda>i. map ?hit (take k (drop (i * k) (rank q)))) [0..<n])"
    using page by (intro arg_cong [of _ _ concat] map_cong) auto
  also have "\<dots> = concat (map (\<lambda>i. take k (drop (i * k) (map ?hit (rank q)))) [0..<n])"
    by (simp add: take_map drop_map)
  also have "\<dots> = take (n * k) (cp_hits whole)" unfolding take_windows all ..
  finally show ?thesis using page total all by auto
qed

section \<open>A concrete index\<close>

text \<open>A generation is its number of documents; requiring all terms finds none of them, any term all.\<close>

definition toy_query ::
    "(nat, toy_schema, nat, bool, nat, rat, rat) query_api" where
  "toy_query = \<lparr> qa_has_meta = (\<lambda>_ _. True), qa_open_in_dir = (\<lambda>_ _. Inr (is_schema (schema_build toy_schema_api))),
     qa_reload = (\<lambda>w. Inr w), qa_segments = (\<lambda>v. replicate v 97), qa_num_docs = (\<lambda>v. v),
     qa_parse = (\<lambda>conj _ _. Inr conj), qa_all_query = False, qa_count = (\<lambda>v q. Inr (if q then 0 else v)),
     qa_top = (\<lambda>v q limit offset. Inr (take limit (drop offset (if q then [] else map (Pair 1) [0..<v])))),
     qa_snippets = (\<lambda>_ _ _. Inr (\<lambda>_ _. [])), qa_doc = (\<lambda>_ a. Inr [(0, VText [a])]), qa_zero = 0,
     qa_narrow = (\<lambda>x. x), qa_hash = length \<rparr>"

definition toy_cache :: "((cache_key \<times> 'p) list, 'p) cache_api" where
  "toy_cache = \<lparr> ca_new = (\<lambda>_. []), ca_get = (\<lambda>k c. (map_of c k, c)), ca_insert = (\<lambda>k p c. (k, p) # c), ca_entries = length \<rparr>"

lemma toy_cache_ok: "cache_ok toy_cache map_of"
  by (simp add: cache_ok_def toy_cache_def)

lemma toy_searcher_ok:
  "searcher_ok toy_query v (\<lambda>q. if q then [] else map (Pair 1) [0..<v]) (\<lambda>a. [(0, VText [a])])"
  by (simp add: searcher_ok_def toy_query_def)

lemma utf8_letters: "length (utf8 (replicate n 97)) = n"
  by (induction n) (simp_all add: utf8_def utf8_char_def)

lemma toy_fingerprint: "index_fingerprint toy_query v = v"
  by (simp add: index_fingerprint_def toy_query_def content_hash_def utf8_letters)

definition toy_words :: rstr where
  "toy_words = str ''a b''"

lemma toy_multi: "is_multi_term toy_words = True"
  by (simp add: is_multi_term_def toy_words_def split_whitespace_def is_whitespace_def)

definition toy_requests :: "(rstr \<times> nat \<times> nat \<times> rat \<times> nat) list" where
  "toy_requests = [(toy_words, 2, 0, 1, 3), (toy_words, 2, 0, 1, 3), (toy_words, 2, 0, 1, 4)]"

lemma toy_page:
  "search_page toy_query schema v toy_words limit offset =
     (if v = 0 then Inr \<lparr> cp_hits = [], cp_total_matches = 0, cp_relaxed = False \<rparr>
      else Inr \<lparr> cp_hits = map (hit_of toy_query schema (\<lambda>a. [(0, VText [a])]) (\<lambda>_. []))
                  (take (max limit 1) (drop offset (map (Pair 1) [0..<v]))),
             cp_total_matches = v, cp_relaxed = True \<rparr>)"
proof -
  have docs: "\<forall>a. qa_doc toy_query v a = Inr [(0, VText [a])]" by (simp add: toy_query_def)
  show ?thesis
    unfolding search_page_def choose_query_def
    by (simp add: toy_multi read_hits_all [OF docs]) (simp add: toy_query_def Let_def)
qed

theorem search_pages_tile_witness:
  "\<exists>a b whole. search_page toy_query (schema_build toy_schema_api) 3 toy_words 2 0 = Inr a \<and>
     search_page toy_query (schema_build toy_schema_api) 3 toy_words 2 2 = Inr b \<and>
     search_page toy_query (schema_build toy_schema_api) 3 toy_words 3 0 = Inr whole \<and>
     cp_hits a @ cp_hits b = cp_hits whole \<and> length (cp_hits whole) = 3"
proof -
  let ?sc = "schema_build toy_schema_api"
  define page where "page i = (case search_page toy_query ?sc 3 toy_words 2 (i * 2) of Inr p \<Rightarrow> p)" for i :: nat
  obtain whole where whole: "search_page toy_query ?sc 3 toy_words 3 0 = Inr whole" by (simp add: toy_page)
  have pages: "\<forall>i < 2. search_page toy_query ?sc 3 toy_words 2 (i * 2) = Inr (page i)"
    by (simp add: page_def toy_page)
  have total: "cp_total_matches (page 0) = 3" by (simp add: page_def toy_page)
  have "search_page toy_query ?sc 3 toy_words (cp_total_matches (page 0)) 0 = Inr whole"
    unfolding total by (rule whole)
  note tile = search_pages_tile [OF toy_searcher_ok _ _ pages this]
  have two: "[0..<2] = [0 :: nat, 1]" by (simp add: numeral_2_eq_2)
  have "cp_hits (page 0) @ cp_hits (page 1) = cp_hits whole" "length (cp_hits whole) = 3"
    using tile total unfolding two by simp_all
  moreover have "search_page toy_query ?sc 3 toy_words 2 0 = Inr (page 0)"
    "search_page toy_query ?sc 3 toy_words 2 2 = Inr (page 1)"
    by (simp_all add: page_def toy_page)
  ultimately show ?thesis using whole by blast
qed

theorem search_cache_invisible_witness:
  "\<exists>eng outs eng'. open_with_cache toy_schema_api toy_query toy_cache (str ''d'') 8 3 = Inr eng \<and>
     search_all toy_query toy_cache toy_requests eng = (outs, eng') \<and>
     map forget_cached outs = map (plain_search toy_query (schema_build toy_schema_api)) toy_requests \<and>
     map (map_sum (\<lambda>_. ()) so_cached) outs = [Inr False, Inr True, Inr False]"
proof -
  let ?sc = "schema_build toy_schema_api"
  have compat: "is_compatible_with toy_schema_api ?sc (is_schema ?sc)"
    using schema_build_compatible [OF toy_schema_ok] by blast
  obtain eng where o: "open_with_cache toy_schema_api toy_query toy_cache (str ''d'') 8 3 = Inr eng"
    "eng_cache eng = []" "eng_schema eng = ?sc"
    using compat by (simp add: open_with_cache_def toy_query_def toy_cache_def Let_def)
  obtain outs eng' where s: "search_all toy_query toy_cache toy_requests eng = (outs, eng')" by fastforce
  have gens: "generations_ok toy_query ((\<lambda>(_, _, _, _, w). w) ` set toy_requests)"
    by (auto simp: generations_ok_def toy_fingerprint)
  have "map (map_sum (\<lambda>_. ()) so_cached) outs = [Inr False, Inr True, Inr False]"
    using s o(2,3) unfolding toy_requests_def search_all.simps engine_search_def toy_fingerprint toy_page
    by (auto simp: toy_query_def toy_cache_def Let_def)
  with o(1) s search_cache_invisible [OF toy_cache_ok gens o(1) s] show ?thesis
    by (intro exI [of _ eng] exI [of _ outs] exI [of _ eng'] conjI)
qed

end
