(* ===== verification/Python_Api.thy ===== *)
theory Python_Api
  imports Search_Engine
begin

text \<open>
  The Python extension (\<open>crates/search-core/src/python_api.rs\<close>): the process-wide handle of the
  engine in a \<open>OnceLock\<close>, the functions Python calls and the exceptions they raise.

  An exception carries the engine's error, whose text is its message. A Python dict is the list of
  its items in the order they were set. \<open>open_step\<close> is what several threads calling \<open>open_index\<close>
  can do to the handle: each call tests it, opens an engine of its own without holding anything,
  and then tries to publish it.
\<close>

datatype py_err =
  PyValueError search_error
| PyRuntimeError search_error
| PyNotOpen

text \<open>\<open>From<SearchError> for PyErr\<close>.\<close>

definition py_err_from :: "search_error \<Rightarrow> py_err" where
  "py_err_from e = (case e of QueryParse _ _ \<Rightarrow> PyValueError e | _ \<Rightarrow> PyRuntimeError e)"

datatype 'f py_value =
  PyStr rstr
| PyInt int
| PyFloat 'f
| PyNum rat
| PyBool bool
| PyList "(rstr \<times> 'f py_value) list list"

type_synonym 'f py_dict = "(rstr \<times> 'f py_value) list"

record ('b, 's, 't, 'w, 'v, 'q, 'a, 'f, 'g, 'c) py_env =
  pe_schema :: "('b, 's, 't) schema_api"
  pe_query :: "('w, 's, 'v, 'q, 'a, 'f, 'g) query_api"
  pe_cache :: "('c, 'f cached_page) cache_api"
  pe_log_info :: bool

section \<open>The functions\<close>

definition version :: rstr where
  "version = str ''0.1.0''"

definition py_engine :: "('s, 'v, 'c) search_engine option \<Rightarrow> py_err + ('s, 'v, 'c) search_engine" where
  "py_engine slot = (case slot of Some eng \<Rightarrow> Inr eng | None \<Rightarrow> Inl PyNotOpen)"

definition is_open :: "('s, 'v, 'c) search_engine option \<Rightarrow> bool" where
  "is_open slot \<longleftrightarrow> slot \<noteq> None"

text \<open>The engine \<open>open_index\<close> makes, before it is published. The message of a warm-up asks for the
  number of documents.\<close>

definition open_engine ::
    "('b, 's, 't, 'w, 'v, 'q, 'a, 'f, 'g, 'c) py_env \<Rightarrow> rstr \<Rightarrow> nat option \<Rightarrow> bool \<Rightarrow> rat \<Rightarrow> 'w \<Rightarrow>
     py_err + ('s, 'v, 'c) search_engine" where
  "open_engine P index_dir cache_entries warm elapsed w =
     (case map_err py_err_from
             (case cache_entries of
                Some capacity \<Rightarrow> open_with_cache (pe_schema P) (pe_query P) (pe_cache P) index_dir capacity w
              | None \<Rightarrow> engine_open (pe_schema P) (pe_query P) (pe_cache P) index_dir w) of
        Inl e \<Rightarrow> Inl e
      | Inr eng \<Rightarrow>
          if warm then
            (case warm_up (pe_query P) elapsed w eng of
               (Inr _, eng) \<Rightarrow> Inr (if pe_log_info P then snd (engine_doc_count (pe_query P) w eng) else eng)
             | (Inl _, eng) \<Rightarrow> Inr eng)
          else Inr eng)"

definition once_set :: "'e \<Rightarrow> 'e option \<Rightarrow> bool \<times> 'e option" where
  "once_set x slot = (case slot of None \<Rightarrow> (True, Some x) | Some y \<Rightarrow> (False, Some y))"

definition open_index ::
    "('b, 's, 't, 'w, 'v, 'q, 'a, 'f, 'g, 'c) py_env \<Rightarrow> rstr \<Rightarrow> nat option \<Rightarrow> bool \<Rightarrow> rat \<Rightarrow> 'w \<Rightarrow>
     ('s, 'v, 'c) search_engine option \<Rightarrow> (py_err + bool) \<times> ('s, 'v, 'c) search_engine option" where
  "open_index P index_dir cache_entries warm elapsed w slot =
     (if slot \<noteq> None then (Inr False, slot)
      else (case open_engine P index_dir cache_entries warm elapsed w of
              Inl e \<Rightarrow> (Inl e, slot)
            | Inr eng \<Rightarrow> (case once_set eng slot of (won, slot) \<Rightarrow> (Inr won, slot))))"

definition hit_dict :: "'f hit \<Rightarrow> 'f py_dict" where
  "hit_dict h =
     [(str ''url'', PyStr (hit_url h)), (str ''title'', PyStr (hit_title h)), (str ''snippet'', PyStr (hit_snippet h)),
      (str ''fetched_at'', PyInt (hit_fetched_at h)), (str ''score'', PyFloat (hit_score h)),
      (str ''authority'', PyFloat (hit_authority h)), (str ''host_authority'', PyFloat (hit_host_authority h))]"

definition response_dict :: "rstr \<Rightarrow> nat \<Rightarrow> nat \<Rightarrow> 'f search_outcome \<Rightarrow> 'f py_dict" where
  "response_dict query limit offset out =
     [(str ''query'', PyStr query), (str ''total_matches'', PyInt (int (so_total_matches out))),
      (str ''doc_count'', PyInt (int (so_doc_count out))), (str ''took_ms'', PyNum (so_elapsed_ms out)),
      (str ''cached'', PyBool (so_cached out)), (str ''relaxed'', PyBool (so_relaxed out)),
      (str ''limit'', PyInt (int limit)), (str ''offset'', PyInt (int offset)),
      (str ''results'', PyList (map hit_dict (so_hits out)))]"

definition py_search ::
    "('b, 's, 't, 'w, 'v, 'q, 'a, 'f, 'g, 'c) py_env \<Rightarrow> rstr \<Rightarrow> nat \<Rightarrow> nat \<Rightarrow> rat \<Rightarrow> 'w \<Rightarrow>
     ('s, 'v, 'c) search_engine option \<Rightarrow> (py_err + 'f py_dict) \<times> ('s, 'v, 'c) search_engine option" where
  "py_search P query limit offset elapsed w slot =
     (case py_engine slot of
        Inl e \<Rightarrow> (Inl e, slot)
      | Inr eng \<Rightarrow>
          (case engine_search (pe_query P) (pe_cache P) query limit offset elapsed w eng of
             (Inl e, eng) \<Rightarrow> (Inl (py_err_from e), Some eng)
           | (Inr out, eng) \<Rightarrow> (Inr (response_dict query limit offset out), Some eng)))"

definition index_stats ::
    "('b, 's, 't, 'w, 'v, 'q, 'a, 'f, 'g, 'c) py_env \<Rightarrow> 'w \<Rightarrow> ('s, 'v, 'c) search_engine option \<Rightarrow>
     (py_err + 'f py_dict) \<times> ('s, 'v, 'c) search_engine option" where
  "index_stats P w slot =
     (case py_engine slot of
        Inl e \<Rightarrow> (Inl e, slot)
      | Inr eng \<Rightarrow>
          (case engine_stats (pe_query P) w eng of
             (Inl e, eng) \<Rightarrow> (Inl (py_err_from e), Some eng)
           | (Inr (doc_count, fingerprint), eng) \<Rightarrow>
               (Inr [(str ''doc_count'', PyInt (int doc_count)), (str ''fingerprint'', PyInt (int fingerprint)),
                     (str ''cache_entries'', PyInt (int (ca_entries (pe_cache P) (eng_cache eng))))], Some eng)))"

section \<open>Threads that race to open\<close>

datatype 'e open_call =
  Called
| Opening
| Publishing 'e
| Returned "py_err + bool"

text \<open>\<open>slot\<close> is the handle and \<open>calls\<close> the calls under way; \<open>mk i\<close> is what \<open>open_engine\<close> gives to
  call \<open>i\<close>.\<close>

inductive open_step ::
    "(nat \<Rightarrow> py_err + 'e) \<Rightarrow> 'e option \<times> 'e open_call list \<Rightarrow> 'e option \<times> 'e open_call list \<Rightarrow> bool"
  for mk :: "nat \<Rightarrow> py_err + 'e" where
  already: "i < length calls \<Longrightarrow> calls ! i = Called \<Longrightarrow>
    open_step mk (Some e, calls) (Some e, calls[i := Returned (Inr False)])"
| start: "i < length calls \<Longrightarrow> calls ! i = Called \<Longrightarrow> open_step mk (None, calls) (None, calls[i := Opening])"
| fail: "i < length calls \<Longrightarrow> calls ! i = Opening \<Longrightarrow> mk i = Inl e \<Longrightarrow>
    open_step mk (slot, calls) (slot, calls[i := Returned (Inl e)])"
| opened: "i < length calls \<Longrightarrow> calls ! i = Opening \<Longrightarrow> mk i = Inr e \<Longrightarrow>
    open_step mk (slot, calls) (slot, calls[i := Publishing e])"
| publish: "i < length calls \<Longrightarrow> calls ! i = Publishing e \<Longrightarrow> once_set e slot = (won, slot') \<Longrightarrow>
    open_step mk (slot, calls) (slot', calls[i := Returned (Inr won)])"

inductive_cases open_stepE: "open_step mk (slot, calls) st'"

text \<open>How many calls have reported that they opened the index.\<close>

definition winners :: "'e open_call list \<Rightarrow> nat" where
  "winners calls = length (filter (\<lambda>c. c = Returned (Inr True)) calls)"

lemma winners_update:
  assumes "i < length calls" "calls ! i \<noteq> Returned (Inr True)"
  shows "winners (calls[i := c]) = winners calls + (if c = Returned (Inr True) then 1 else 0)"
proof -
  have split: "calls = take i calls @ calls ! i # drop (Suc i) calls" using assms(1) by (rule id_take_nth_drop)
  have upd: "calls[i := c] = take i calls @ c # drop (Suc i) calls" using assms(1) by (rule upd_conv_take_nth_drop)
  have "winners calls = winners (take i calls) + winners (drop (Suc i) calls)"
    by (subst split) (use assms(2) in \<open>simp add: winners_def\<close>)
  then show ?thesis by (simp add: upd winners_def)
qed

text \<open>The invariant of the race: the handle is set once exactly when one call has won, to an engine
  that a call opened.\<close>

definition race_ok :: "(nat \<Rightarrow> py_err + 'e) \<Rightarrow> 'e option \<times> 'e open_call list \<Rightarrow> bool" where
  "race_ok mk st \<longleftrightarrow> winners (snd st) = (if fst st = None then 0 else 1) \<and>
     (\<forall>e. fst st = Some e \<longrightarrow> (\<exists>i. mk i = Inr e)) \<and>
     (\<forall>i < length (snd st). \<forall>e. snd st ! i = Publishing e \<longrightarrow> mk i = Inr e) \<and>
     (\<forall>i < length (snd st). snd st ! i = Returned (Inr False) \<longrightarrow> fst st \<noteq> None)"

lemma race_step:
  assumes "open_step mk st st'" "race_ok mk st"
  shows "race_ok mk st' \<and> (\<forall>e. fst st = Some e \<longrightarrow> fst st' = Some e)"
  using assms
proof (cases rule: open_step.cases)
  case (already i calls e)
  then show ?thesis using assms(2) by (auto simp: race_ok_def winners_update nth_list_update)
next
  case (start i calls)
  then show ?thesis using assms(2) by (auto simp: race_ok_def winners_update nth_list_update)
next
  case (fail i calls e slot)
  then show ?thesis using assms(2) by (auto simp: race_ok_def winners_update nth_list_update)
next
  case (opened i calls e slot)
  then show ?thesis using assms(2) by (auto simp: race_ok_def winners_update nth_list_update)
next
  case (publish i calls e slot won slot')
  then show ?thesis using assms(2)
    by (cases slot) (auto simp: race_ok_def winners_update nth_list_update once_set_def)
qed

lemma race_steps:
  "(open_step mk)\<^sup>*\<^sup>* st st' \<Longrightarrow> race_ok mk st \<Longrightarrow>
   race_ok mk st' \<and> (\<forall>e. fst st = Some e \<longrightarrow> fst st' = Some e)"
  by (induction rule: rtranclp_induct) (auto dest: race_step)

text \<open>C37: the index is opened once per process: however calls of \<open>open_index\<close> interleave, at most one
  of them reports that it opened the index; one does exactly when the handle is set, the handle then
  holds an engine one of the calls opened and never changes again, and a call that reports that the
  index was already open is right.\<close>

theorem open_index_once:
  assumes "(open_step mk)\<^sup>*\<^sup>* (None, replicate n Called) (slot, calls)"
    and "(open_step mk)\<^sup>*\<^sup>* (slot, calls) (slot', calls')"
  shows "winners calls = (if slot = None then 0 else 1) \<and>
    (slot \<noteq> None \<longrightarrow> slot' = slot \<and> Inr (the slot) \<in> range mk) \<and>
    (Returned (Inr False) \<in> set calls \<longrightarrow> slot \<noteq> None)"
proof -
  have "race_ok mk (None, replicate n Called)"
    by (auto simp: race_ok_def winners_def)
  from race_steps [OF assms(1) this] have ok: "race_ok mk (slot, calls)" by blast
  have "slot' = slot" if "slot \<noteq> None" using race_steps [OF assms(2) ok] that by auto
  moreover have "Inr (the slot) \<in> range mk" if "slot \<noteq> None"
    using ok that unfolding race_ok_def by (metis fst_conv option.collapse rangeI)
  moreover have "Returned (Inr False) \<in> set calls \<longrightarrow> slot \<noteq> None"
    using ok by (auto simp: race_ok_def in_set_conv_nth)
  ultimately show ?thesis using ok by (auto simp: race_ok_def)
qed

theorem open_index_once_witness:
  "\<exists>calls. (open_step (\<lambda>i. Inr i))\<^sup>*\<^sup>* (None, replicate 2 Called) (Some (1 :: nat), calls) \<and> winners calls = 1"
proof -
  let ?mk = "\<lambda>i :: nat. Inr i"
  let ?R = "open_step ?mk"
  have "?R (None, [Called, Called]) (None, [Opening, Called])"
    using start [of 0 "[Called, Called]" ?mk] by simp
  also have "?R\<^sup>*\<^sup>* (None, [Opening, Called]) (None, [Opening, Opening])"
    using start [of 1 "[Opening, Called]" ?mk] by (simp add: r_into_rtranclp)
  also have "?R\<^sup>*\<^sup>* (None, [Opening, Opening]) (None, [Opening, Publishing 1])"
    using opened [of 1 "[Opening, Opening]" ?mk 1 None] by (simp add: r_into_rtranclp)
  also have "?R\<^sup>*\<^sup>* (None, [Opening, Publishing 1]) (Some 1, [Opening, Returned (Inr True)])"
    using publish [of 1 "[Opening, Publishing 1]" 1 None True "Some 1" ?mk]
    by (simp add: once_set_def r_into_rtranclp)
  finally have run: "?R\<^sup>*\<^sup>* (None, replicate 2 Called) (Some 1, [Opening, Returned (Inr True)])"
    by (simp add: numeral_2_eq_2)
  show ?thesis using open_index_once [OF run rtranclp.rtrancl_refl] run by auto
qed

end
