(* ===== verification/Entities.thy ===== *)
theory Entities
  imports Rstring
begin

text \<open>
  The named character references of \<open>crates/crawler/src/parser.rs\<close>: the arms of the match in
  \<open>decode_reference\<close>, group by group, as pairs of a name and a code point.
\<close>

definition xml_entities :: "(string \<times> rchar) list" where
  "xml_entities =
     [(''amp'', 38), (''lt'', 60), (''gt'', 62), (''quot'', 34), (''apos'', 39)]"

definition space_entities :: "(string \<times> rchar) list" where
  "space_entities =
     [(''nbsp'', 160), (''ensp'', 8194), (''emsp'', 8195), (''thinsp'', 8201), (''zwnj'', 8204),
      (''zwj'', 8205), (''shy'', 173), (''ndash'', 8211), (''mdash'', 8212), (''horbar'', 8213),
      (''minus'', 8722)]"

definition punctuation_entities :: "(string \<times> rchar) list" where
  "punctuation_entities =
     [(''lsquo'', 8216), (''rsquo'', 8217), (''sbquo'', 8218), (''ldquo'', 8220), (''rdquo'', 8221),
      (''bdquo'', 8222), (''laquo'', 171), (''raquo'', 187), (''lsaquo'', 8249), (''rsaquo'', 8250),
      (''hellip'', 8230), (''bull'', 8226), (''middot'', 183), (''dagger'', 8224), (''Dagger'', 8225),
      (''prime'', 8242), (''Prime'', 8243), (''permil'', 8240), (''oline'', 8254), (''frasl'', 8260)]"

definition sign_entities :: "(string \<times> rchar) list" where
  "sign_entities =
     [(''iexcl'', 161), (''iquest'', 191), (''sect'', 167), (''para'', 182), (''copy'', 169),
      (''reg'', 174), (''trade'', 8482), (''deg'', 176), (''micro'', 181), (''plusmn'', 177),
      (''times'', 215), (''divide'', 247), (''not'', 172), (''cent'', 162), (''pound'', 163),
      (''yen'', 165), (''euro'', 8364), (''curren'', 164), (''brvbar'', 166), (''uml'', 168),
      (''acute'', 180), (''cedil'', 184), (''macr'', 175), (''circ'', 710), (''tilde'', 732),
      (''sup1'', 185), (''sup2'', 178), (''sup3'', 179), (''frac14'', 188), (''frac12'', 189),
      (''frac34'', 190), (''ordf'', 170), (''ordm'', 186)]"

definition letter_entities :: "(string \<times> rchar) list" where
  "letter_entities =
     [(''Agrave'', 192), (''Aacute'', 193), (''Acirc'', 194), (''Atilde'', 195), (''Auml'', 196),
      (''Aring'', 197), (''AElig'', 198), (''Ccedil'', 199), (''Egrave'', 200), (''Eacute'', 201),
      (''Ecirc'', 202), (''Euml'', 203), (''Igrave'', 204), (''Iacute'', 205), (''Icirc'', 206),
      (''Iuml'', 207), (''ETH'', 208), (''Ntilde'', 209), (''Ograve'', 210), (''Oacute'', 211),
      (''Ocirc'', 212), (''Otilde'', 213), (''Ouml'', 214), (''Oslash'', 216), (''Ugrave'', 217),
      (''Uacute'', 218), (''Ucirc'', 219), (''Uuml'', 220), (''Yacute'', 221), (''THORN'', 222),
      (''szlig'', 223), (''agrave'', 224), (''aacute'', 225), (''acirc'', 226), (''atilde'', 227),
      (''auml'', 228), (''aring'', 229), (''aelig'', 230), (''ccedil'', 231), (''egrave'', 232),
      (''eacute'', 233), (''ecirc'', 234), (''euml'', 235), (''igrave'', 236), (''iacute'', 237),
      (''icirc'', 238), (''iuml'', 239), (''eth'', 240), (''ntilde'', 241), (''ograve'', 242),
      (''oacute'', 243), (''ocirc'', 244), (''otilde'', 245), (''ouml'', 246), (''oslash'', 248),
      (''ugrave'', 249), (''uacute'', 250), (''ucirc'', 251), (''uuml'', 252), (''yacute'', 253),
      (''thorn'', 254), (''yuml'', 255), (''OElig'', 338), (''oelig'', 339), (''Scaron'', 352),
      (''scaron'', 353), (''Yuml'', 376), (''fnof'', 402)]"

definition math_entities :: "(string \<times> rchar) list" where
  "math_entities =
     [(''larr'', 8592), (''uarr'', 8593), (''rarr'', 8594), (''darr'', 8595), (''harr'', 8596),
      (''crarr'', 8629), (''forall'', 8704), (''part'', 8706), (''exist'', 8707), (''empty'', 8709),
      (''nabla'', 8711), (''isin'', 8712), (''notin'', 8713), (''ni'', 8715), (''prod'', 8719),
      (''sum'', 8721), (''lowast'', 8727), (''radic'', 8730), (''prop'', 8733), (''infin'', 8734),
      (''ang'', 8736), (''and'', 8743), (''or'', 8744), (''cap'', 8745), (''cup'', 8746),
      (''int'', 8747), (''there4'', 8756), (''sim'', 8764), (''cong'', 8773), (''asymp'', 8776),
      (''ne'', 8800), (''equiv'', 8801), (''le'', 8804), (''ge'', 8805), (''sub'', 8834),
      (''sup'', 8835), (''nsub'', 8836), (''sube'', 8838), (''supe'', 8839), (''oplus'', 8853),
      (''otimes'', 8855), (''perp'', 8869), (''sdot'', 8901), (''lceil'', 8968), (''rceil'', 8969),
      (''lfloor'', 8970), (''rfloor'', 8971), (''lang'', 10216), (''rang'', 10217), (''loz'', 9674)]"

definition greek_entities :: "(string \<times> rchar) list" where
  "greek_entities =
     [(''Alpha'', 913), (''Beta'', 914), (''Gamma'', 915), (''Delta'', 916), (''Epsilon'', 917),
      (''Zeta'', 918), (''Eta'', 919), (''Theta'', 920), (''Iota'', 921), (''Kappa'', 922),
      (''Lambda'', 923), (''Mu'', 924), (''Nu'', 925), (''Xi'', 926), (''Omicron'', 927),
      (''Pi'', 928), (''Rho'', 929), (''Sigma'', 931), (''Tau'', 932), (''Upsilon'', 933),
      (''Phi'', 934), (''Chi'', 935), (''Psi'', 936), (''Omega'', 937), (''alpha'', 945),
      (''beta'', 946), (''gamma'', 947), (''delta'', 948), (''epsilon'', 949), (''zeta'', 950),
      (''eta'', 951), (''theta'', 952), (''iota'', 953), (''kappa'', 954), (''lambda'', 955),
      (''mu'', 956), (''nu'', 957), (''xi'', 958), (''omicron'', 959), (''pi'', 960), (''rho'', 961),
      (''sigmaf'', 962), (''sigma'', 963), (''tau'', 964), (''upsilon'', 965), (''phi'', 966),
      (''chi'', 967), (''psi'', 968), (''omega'', 969)]"

definition suit_entities :: "(string \<times> rchar) list" where
  "suit_entities =
     [(''spades'', 9824), (''clubs'', 9827), (''hearts'', 9829), (''diams'', 9830)]"

definition entity_table :: "(string \<times> rchar) list" where
  "entity_table = xml_entities @ space_entities @ punctuation_entities @ sign_entities @
     letter_entities @ math_entities @ greek_entities @ suit_entities"

definition named_reference :: "rstr \<Rightarrow> rchar option" where
  "named_reference entity = map_of (map (\<lambda>(name, c). (str name, c)) entity_table) entity"

text \<open>Every name is a few letters and digits, and every value a character.\<close>

definition name_ok :: "string \<times> rchar \<Rightarrow> bool" where
  "name_ok e \<longleftrightarrow> (case e of (name, c) \<Rightarrow> name \<noteq> [] \<and> length name \<le> 12 \<and>
     list_all (\<lambda>x. x \<noteq> CHR '';'' \<and> x \<noteq> CHR ''&'' \<and> x \<noteq> CHR 0x23) name \<and> list_all (\<lambda>x. of_char x < (128 :: nat)) name)"

lemma entity_table_ok: "list_all name_ok entity_table"
  by (simp add: entity_table_def name_ok_def xml_entities_def space_entities_def punctuation_entities_def sign_entities_def letter_entities_def math_entities_def greek_entities_def suit_entities_def)

end
