(* ===== verification/Parser.thy ===== *)
theory Parser
  imports Entities Url Crawl_Error
begin

text \<open>
  \<open>crates/crawler/src/parser.rs\<close>: what is extracted from a page, character references, white space
  and link resolution.

  The HTML tokenizer and the selectors (\<open>lol_html\<close>) are third-party: for a text they give the list
  of the handler calls in order, \<open>html_event\<close>, and the error they end with, if any. A text event
  says whether the text is in a \<open>title\<close> and whether it is in the \<open>body\<close>; a text may come in several
  pieces. \<open>Enter\<close> is the start of a boilerplate element, with the error of registering the handler
  of its end tag when it has none.
\<close>

section \<open>Character references\<close>

definition reference_value :: "rstr \<Rightarrow> rchar option" where
  "reference_value entity =
     (case named_reference entity of
        Some c \<Rightarrow> Some c
      | None \<Rightarrow>
          (case strip_prefix (str ''#'') entity of
             None \<Rightarrow> None
           | Some digits \<Rightarrow>
               (case (case digits of
                        x # hex \<Rightarrow> if x = ch CHR ''x'' \<or> x = ch CHR ''X'' then parse_uint 16 u32_max hex
                                  else parse_uint 10 u32_max digits
                      | [] \<Rightarrow> parse_uint 10 u32_max digits) of
                  None \<Rightarrow> None
                | Some n \<Rightarrow> char_from_u32 n)))"

definition decode_reference :: "rstr \<Rightarrow> (rchar \<times> nat) option" where
  "decode_reference input =
     (case find_char (\<lambda>c. c = 59) input of
        None \<Rightarrow> None
      | Some semicolon \<Rightarrow>
          (let entity = drop 1 (take semicolon input); consumed = semicolon + 1
           in if entity = [] \<or> 12 < byte_len entity then None
              else map_option (\<lambda>c. (c, consumed)) (reference_value entity)))"

lemma decode_reference_consumes: "decode_reference s = Some (c, n) \<Longrightarrow> 0 < n"
  by (auto simp: decode_reference_def Let_def split: option.splits if_splits)

function push_decoded :: "rstr \<Rightarrow> rstr \<Rightarrow> rstr" where
  "push_decoded output rest =
     (case find_char (\<lambda>c. c = 38) rest of
        None \<Rightarrow> output @ rest
      | Some index \<Rightarrow>
          (case decode_reference (drop index rest) of
             Some (character, consumed) \<Rightarrow>
               push_decoded ((output @ take index rest) @ [character]) (drop consumed (drop index rest))
           | None \<Rightarrow> push_decoded ((output @ take index rest) @ [38]) (drop 1 (drop index rest))))"
  by pat_completeness auto
termination
  by (relation "measure (\<lambda>(output, rest). length rest)")
    (auto dest!: decode_reference_consumes simp: find_char_Some_iff)

declare push_decoded.simps [simp del]

definition decode_entities :: "rstr \<Rightarrow> rstr" where
  "decode_entities input = push_decoded [] input"

section \<open>White space\<close>

fun collapse_loop :: "rstr \<Rightarrow> bool \<Rightarrow> rstr \<Rightarrow> rstr" where
  "collapse_loop output pending_space [] = output"
| "collapse_loop output pending_space (c # s) =
     (if is_whitespace c then collapse_loop output (output \<noteq> []) s
      else if pending_space then collapse_loop ((output @ [32]) @ [c]) False s
      else collapse_loop (output @ [c]) pending_space s)"

definition collapse_whitespace :: "rstr \<Rightarrow> rstr" where
  "collapse_whitespace input = collapse_loop [] False input"

section \<open>Links\<close>

definition resolve_candidate :: "'u url_api \<Rightarrow> 'u \<Rightarrow> rstr \<Rightarrow> rstr option" where
  "resolve_candidate U base candidate =
     (let candidate = trim candidate
      in if candidate = [] \<or> starts_with (str ''#'') candidate then None
         else (case url_join U base candidate of
                 None \<Rightarrow> None
               | Some resolved \<Rightarrow>
                   if url_scheme U resolved \<notin> {str ''http'', str ''https''} then None
                   else Some (url_to_string U (url_set_fragment U None resolved))))"

fun resolve_loop :: "'u url_api \<Rightarrow> 'u \<Rightarrow> rstr list \<Rightarrow> rstr set \<Rightarrow> rstr list \<Rightarrow> rstr list" where
  "resolve_loop U base [] seen links = links"
| "resolve_loop U base (candidate # raw) seen links =
     (case resolve_candidate U base candidate of
        None \<Rightarrow> resolve_loop U base raw seen links
      | Some normalized \<Rightarrow>
          if normalized \<in> seen then resolve_loop U base raw seen links
          else resolve_loop U base raw (insert normalized seen) (links @ [normalized]))"

definition resolve_links :: "'u url_api \<Rightarrow> rstr list \<Rightarrow> rstr \<Rightarrow> rstr list" where
  "resolve_links U raw base =
     (case url_parse U base of None \<Rightarrow> [] | Some base \<Rightarrow> resolve_loop U base raw {} [])"

section \<open>The page\<close>

record parsed_page =
  pp_title :: rstr
  pp_text :: rstr
  pp_links :: "rstr list"
  pp_meta_description :: "rstr option"

datatype html_event =
  Text bool bool rstr
| Enter "rstr option"
| Leave
| Anchor "rstr option"
| Base "rstr option"
| MetaDescription "rstr option"
| OgDescription "rstr option"

record parse_state =
  ps_title :: rstr
  ps_title_taken :: bool
  ps_text :: rstr
  ps_links :: "rstr list"
  ps_description :: "rstr option"
  ps_open_graph :: "rstr option"
  ps_base :: "rstr option"
  ps_skip :: nat

definition parse_start :: parse_state where
  "parse_start = \<lparr> ps_title = [], ps_title_taken = False, ps_text = [], ps_links = [], ps_description = None,
     ps_open_graph = None, ps_base = None, ps_skip = 0 \<rparr>"

definition on_title :: "rstr \<Rightarrow> parse_state \<Rightarrow> parse_state" where
  "on_title chunk s =
     (if ps_title_taken s then s
      else s \<lparr> ps_title_taken := True, ps_title := push_decoded (ps_title s) chunk \<rparr>)"

definition on_body :: "rstr \<Rightarrow> parse_state \<Rightarrow> parse_state" where
  "on_body chunk s =
     (if ps_skip s = 0 then s \<lparr> ps_text := push_decoded (ps_text s) chunk @ [32] \<rparr> else s)"

text \<open>The handlers, in the order in which they were appended.\<close>

fun html_handle :: "html_event \<Rightarrow> parse_state \<Rightarrow> rstr + parse_state" where
  "html_handle (Text in_title in_body chunk) s =
     Inr (let s = (if in_title then on_title chunk s else s) in if in_body then on_body chunk s else s)"
| "html_handle (Enter no_end) s =
     (let s = s \<lparr> ps_skip := ps_skip s + 1 \<rparr>
      in case no_end of None \<Rightarrow> Inr s | Some e \<Rightarrow> Inl e)"
| "html_handle Leave s = Inr (s \<lparr> ps_skip := ps_skip s - 1 \<rparr>)"
| "html_handle (Anchor href) s =
     Inr (case href of Some h \<Rightarrow> s \<lparr> ps_links := ps_links s @ [decode_entities h] \<rparr> | None \<Rightarrow> s)"
| "html_handle (Base href) s = Inr (case href of Some h \<Rightarrow> s \<lparr> ps_base := Some h \<rparr> | None \<Rightarrow> s)"
| "html_handle (MetaDescription content) s =
     Inr (case content of Some c \<Rightarrow> s \<lparr> ps_description := Some (decode_entities c) \<rparr> | None \<Rightarrow> s)"
| "html_handle (OgDescription content) s =
     Inr (case content of Some c \<Rightarrow> s \<lparr> ps_open_graph := Some (decode_entities c) \<rparr> | None \<Rightarrow> s)"

fun html_run :: "html_event list \<Rightarrow> parse_state \<Rightarrow> rstr + parse_state" where
  "html_run [] s = Inr s"
| "html_run (e # es) s = and_then (html_handle e s) (html_run es)"

definition parse_html ::
    "'u url_api \<Rightarrow> (rstr \<Rightarrow> html_event list \<times> rstr option) \<Rightarrow> rstr \<Rightarrow> rstr \<Rightarrow> crawl_error + parsed_page" where
  "parse_html U rewriter html base_url =
     (case rewriter html of (events, failure) \<Rightarrow>
        and_then (map_err ParseFailed (html_run events parse_start)) (\<lambda>s.
        (case failure of
           Some e \<Rightarrow> Inl (ParseFailed e)
         | None \<Rightarrow>
             (let title = collapse_whitespace (ps_title s);
                  title = (if title = [] then base_url else title);
                  resolution_base = (case ps_base s of Some b \<Rightarrow> b | None \<Rightarrow> base_url);
                  description = (case ps_description s of Some d \<Rightarrow> Some d | None \<Rightarrow> ps_open_graph s)
              in Inr \<lparr> pp_title = title, pp_text = collapse_whitespace (ps_text s),
                       pp_links = resolve_links U (ps_links s) resolution_base,
                       pp_meta_description =
                         (case map_option collapse_whitespace description of
                            Some d \<Rightarrow> if d = [] then None else Some d
                          | None \<Rightarrow> None) \<rparr>))))"

section \<open>White space, against its meaning\<close>

text \<open>Words joined by single spaces.\<close>

fun join_words :: "rstr list \<Rightarrow> rstr" where
  "join_words [] = []"
| "join_words [w] = w"
| "join_words (w # ws) = w @ 32 # join_words ws"

lemma join_words_snoc: "join_words (ws @ [w]) = (if ws = [] then w else join_words ws @ 32 # w)"
  by (induction ws rule: join_words.induct) auto

lemma join_words_Nil: "[] \<notin> set ws \<Longrightarrow> join_words ws = [] \<longleftrightarrow> ws = []"
  by (induction ws rule: join_words.induct) auto

text \<open>The loop has written the words so far, and the start of one unless \<open>acc\<close> is empty.\<close>

lemma collapse_loop_words:
  "[] \<notin> set ws \<Longrightarrow>
   collapse_loop (join_words (if acc = [] then ws else ws @ [rev acc])) (acc = [] \<and> ws \<noteq> []) s =
     join_words (ws @ split_whitespace_from acc s)"
proof (induction s arbitrary: ws acc)
  case Nil
  then show ?case by simp
next
  case (Cons c s)
  let ?out = "join_words (if acc = [] then ws else ws @ [rev acc])"
  have out: "?out \<noteq> [] \<longleftrightarrow> acc \<noteq> [] \<or> ws \<noteq> []"
    using Cons.prems by (auto simp: join_words_Nil)
  show ?case
  proof (cases "is_whitespace c")
    case True
    show ?thesis
    proof (cases "acc = []")
      case True
      then show ?thesis using \<open>is_whitespace c\<close> out Cons.IH [of ws "[]"] Cons.prems by simp
    next
      case False
      then show ?thesis using True out Cons.IH [of "ws @ [rev acc]" "[]"] Cons.prems by simp
    qed
  next
    case False
    show ?thesis
    proof (cases "acc = []")
      case True
      then show ?thesis using False Cons.IH [of ws "[c]"] Cons.prems by (auto simp: join_words_snoc)
    next
      case acc: False
      have "?out @ [c] = join_words (ws @ [rev (c # acc)])" using acc by (simp add: join_words_snoc)
      then show ?thesis using False acc Cons.IH [of ws "c # acc"] Cons.prems by simp
    qed
  qed
qed

lemma collapse_whitespace_words: "collapse_whitespace s = join_words (split_whitespace s)"
  using collapse_loop_words [of "[]" "[]" s] by (simp add: collapse_whitespace_def split_whitespace_def)

section \<open>Links, against their meaning\<close>

definition first_uniques :: "'a list \<Rightarrow> 'a list" where
  "first_uniques xs = rev (remdups (rev xs))"

lemma first_uniques_snoc: "first_uniques (xs @ [x]) = (if x \<in> set xs then first_uniques xs else first_uniques xs @ [x])"
  by (simp add: first_uniques_def)

lemma resolve_loop_uniques:
  "resolve_loop U base raw (set xs) (first_uniques xs) =
     first_uniques (xs @ List.map_filter (resolve_candidate U base) raw)"
proof (induction raw arbitrary: xs)
  case Nil
  then show ?case by (simp add: List.map_filter_def)
next
  case (Cons r raw)
  show ?case
  proof (cases "resolve_candidate U base r")
    case None
    then show ?thesis using Cons.IH [of xs] by (simp add: List.map_filter_def)
  next
    case (Some n)
    then show ?thesis using Cons.IH [of "xs @ [n]"]
      by (cases "n \<in> set xs") (simp_all add: List.map_filter_def first_uniques_snoc insert_absorb)
  qed
qed

lemma resolve_candidate_ok:
  assumes "url_ok U" "url_reach U base" "resolve_candidate U base c = Some l"
  shows "\<exists>u. url_parse U l = Some u \<and> url_scheme U u \<in> {str ''http'', str ''https''} \<and> url_fragment U u = None"
proof -
  obtain r where r: "url_join U base (trim c) = Some r" "url_scheme U r \<in> {str ''http'', str ''https''}"
    "l = url_to_string U (url_set_fragment U None r)"
    using assms(3) by (auto simp: resolve_candidate_def Let_def simp del: str_simps split: if_splits option.splits)
  have "url_reach U (url_set_fragment U None r)"
    by (rule fragment_set, rule joined [OF assms(2) r(1)])
  then have "url_parse U l = Some (url_set_fragment U None r)"
    using url_ok_parse_to_string [OF assms(1)] r(3) by simp
  then show ?thesis using r(2) url_ok_fragment [OF assms(1)] by (simp del: str_simps)
qed

text \<open>C38: the links of a page are the usable ones among its \<open>href\<close> values, resolved against the base,
  in the order of their first occurrence, each once; each is an HTTP URL without a fragment; and a
  base that is not an absolute URL, which is what the text of a relative \<open>base\<close> element is, leaves no
  link at all.\<close>

theorem resolve_links_spec:
  assumes "url_ok U"
  shows "(case url_parse U base of
      None \<Rightarrow> resolve_links U raw base = []
    | Some b \<Rightarrow> resolve_links U raw base = first_uniques (List.map_filter (resolve_candidate U b) raw)) \<and>
    distinct (resolve_links U raw base) \<and>
    list_all (\<lambda>l. \<exists>u. url_parse U l = Some u \<and> url_scheme U u \<in> {str ''http'', str ''https''} \<and> url_fragment U u = None)
      (resolve_links U raw base)"
proof (cases "url_parse U base")
  case None
  then show ?thesis by (simp add: resolve_links_def)
next
  case (Some b)
  have eq: "resolve_links U raw base = first_uniques (List.map_filter (resolve_candidate U b) raw)"
    using resolve_loop_uniques [of U b raw "[]"] Some by (simp add: resolve_links_def first_uniques_def)
  have mem: "\<exists>c \<in> set raw. resolve_candidate U b c = Some l" if "l \<in> set (resolve_links U raw base)" for l
    using that unfolding eq by (auto simp: first_uniques_def List.map_filter_def)
  have "\<exists>u. url_parse U l = Some u \<and> url_scheme U u \<in> {str ''http'', str ''https''} \<and> url_fragment U u = None"
    if "l \<in> set (resolve_links U raw base)" for l
    using mem [OF that] resolve_candidate_ok [OF assms parsed [OF Some]] by blast
  then show ?thesis using Some eq by (auto simp: list_all_iff first_uniques_def simp del: str_simps)
qed

section \<open>Character references, against how they are written\<close>

text \<open>A text as a page can write it: characters as they are, and named, decimal and hexadecimal
  references.\<close>

datatype piece =
  Literal rchar
| Named rstr rchar
| Decimal rchar
| Hexadecimal rchar

fun piece_ok :: "piece \<Rightarrow> bool" where
  "piece_ok (Literal c) \<longleftrightarrow> c \<noteq> 38"
| "piece_ok (Named n c) \<longleftrightarrow> named_reference n = Some c"
| "piece_ok (Decimal c) \<longleftrightarrow> is_scalar c"
| "piece_ok (Hexadecimal c) \<longleftrightarrow> is_scalar c"

fun piece_char :: "piece \<Rightarrow> rchar" where
  "piece_char (Literal c) = c"
| "piece_char (Named n c) = c"
| "piece_char (Decimal c) = c"
| "piece_char (Hexadecimal c) = c"

fun piece_text :: "piece \<Rightarrow> rstr" where
  "piece_text (Literal c) = [c]"
| "piece_text (Named n c) = 38 # n @ [59]"
| "piece_text (Decimal c) = 38 # (35 # show_nat c) @ [59]"
| "piece_text (Hexadecimal c) = 38 # (35 # 120 # show_radix 16 c) @ [59]"

lemma named_reference_shape:
  assumes "named_reference n = Some c"
  shows "n \<noteq> []" "byte_len n \<le> 12" "59 \<notin> set n" "38 \<notin> set n" "35 \<notin> set n"
proof -
  obtain name where n: "(name, c) \<in> set entity_table" "n = str name"
    using map_of_SomeD [of "map (\<lambda>(name, c). (str name, c)) entity_table" n c] assms by (auto simp: named_reference_def)
  have "name_ok (name, c)" using entity_table_ok n(1) by (auto simp: list_all_iff)
  then have ok: "name \<noteq> []" "length name \<le> 12" "\<forall>x \<in> set name. x \<noteq> CHR '';'' \<and> x \<noteq> CHR ''&'' \<and> x \<noteq> CHR 0x23"
    "\<forall>x \<in> set name. of_char x < (128 :: nat)"
    by (auto simp: name_ok_def list_all_iff)
  show "n \<noteq> []" using ok(1) n(2) by (simp add: str_def)
  show "byte_len n \<le> 12" using ok(2,4) n(2) by (subst byte_len_ascii) (auto simp: str_def)
  have inj: "of_char x = (of_char y :: nat) \<Longrightarrow> x = y" for x y by simp
  have "ch CHR '';'' \<notin> set n" "ch CHR ''&'' \<notin> set n" "ch CHR 0x23 \<notin> set n"
    using ok(3) n(2) by (auto simp only: str_def set_map image_iff dest!: inj)
  then show "59 \<notin> set n" "38 \<notin> set n" "35 \<notin> set n" by simp_all
qed

lemma show_radix_small: "n < r \<Longrightarrow> show_radix r n = [if n < 10 then 48 + n else 87 + n]"
  by (subst show_radix.simps) simp

lemma show_radix_step:
  "2 \<le> r \<Longrightarrow> r \<le> n \<Longrightarrow> show_radix r n = show_radix r (n div r) @ [if n mod r < 10 then 48 + n mod r else 87 + n mod r]"
  by (subst show_radix.simps) simp

lemma radix_induct [consumes 1, case_names small step]:
  assumes "2 \<le> (r :: nat)" "\<And>n. n < r \<Longrightarrow> P n" "\<And>n. r \<le> n \<Longrightarrow> P (n div r) \<Longrightarrow> P n"
  shows "P n"
proof (induction n rule: less_induct)
  case (less n)
  show ?case
  proof (cases "n < r")
    case False
    then have "n div r < n" using assms(1) by simp
    then show ?thesis using less False assms(3) by simp
  qed (rule assms(2))
qed

lemma radix_char:
  "m < r \<Longrightarrow> r \<le> 36 \<Longrightarrow> (let c = (if m < 10 then 48 + m else 87 + m) in 48 \<le> c \<and> c \<le> 57 \<or> 97 \<le> c \<and> c \<le> (122 :: nat))"
  by (simp add: Let_def)

lemma show_radix_chars:
  assumes "2 \<le> r" "r \<le> 36"
  shows "c \<in> set (show_radix r n) \<Longrightarrow> 48 \<le> c \<and> c \<le> 57 \<or> 97 \<le> c \<and> c \<le> 122"
  using assms(1)
proof (induction n rule: radix_induct)
  case (small n)
  then show ?case using assms by (auto simp: show_radix_small)
next
  case (step n)
  have "n mod r < r" using assms by simp
  note last = radix_char [OF this assms(2)]
  have "c \<in> set (show_radix r (n div r)) \<or> c = (if n mod r < 10 then 48 + n mod r else 87 + n mod r)"
    using step.prems unfolding show_radix_step [OF assms(1) step.hyps(1)] set_append list.set by blast
  then show ?case
  proof
    assume "c = (if n mod r < 10 then 48 + n mod r else 87 + n mod r)"
    then show ?thesis using last unfolding Let_def by blast
  qed (rule step.IH)
qed

lemma length_show_radix:
  assumes "2 \<le> r"
  shows "n < r ^ Suc k \<Longrightarrow> length (show_radix r n) \<le> Suc k"
proof (induction k arbitrary: n)
  case 0
  then show ?case by (simp add: show_radix_small)
next
  case (Suc k)
  show ?case
  proof (cases "n < r")
    case True
    then show ?thesis by (simp add: show_radix_small)
  next
    case False
    have "n div r < r ^ Suc k" using Suc.prems assms by (simp add: div_less_iff_less_mult mult.commute)
    then show ?thesis using Suc.IH [of "n div r"] False assms by (simp add: show_radix_step)
  qed
qed

lemma digit_of_radix: "d < r \<Longrightarrow> r \<le> 36 \<Longrightarrow> digit_of r (if d < 10 then 48 + d else 87 + d) = Some d"
  by (auto simp: digit_of_def)

lemma parse_digits_radix:
  assumes "2 \<le> r" "r \<le> 36"
  shows "n \<le> l \<Longrightarrow> parse_digits r l 0 (show_radix r n) = Some n"
  using assms(1)
proof (induction n rule: radix_induct)
  case (small n)
  then show ?case using digit_of_radix [OF _ assms(2)] by (simp add: show_radix_small)
next
  case (step n)
  have "parse_digits r l 0 (show_radix r (n div r)) = Some (n div r)"
    using step by (meson div_le_dividend le_trans)
  moreover have "n div r * r + n mod r = n" by simp
  moreover have "digit_of r (if n mod r < 10 then 48 + n mod r else 87 + n mod r) = Some (n mod r)"
    by (rule digit_of_radix) (use assms in auto)
  ultimately show ?case using step.hyps step.prems assms
    by (simp add: show_radix_step parse_digits_append)
qed

lemma parse_uint_radix:
  assumes "2 \<le> r" "r \<le> 36" "n \<le> l"
  shows "parse_uint r l (show_radix r n) = Some n"
proof -
  have "show_radix r n \<noteq> []" by (subst show_radix.simps) (simp add: Let_def)
  moreover from this have "hd (show_radix r n) \<noteq> 43"
    using show_radix_chars [OF assms(1,2), of 43 n] hd_in_set by fastforce
  ultimately show ?thesis using parse_digits_radix [OF assms] by (simp add: parse_uint_no_plus)
qed

lemma decode_reference_text:
  assumes "59 \<notin> set e" "e \<noteq> []" "byte_len e \<le> 12"
  shows "decode_reference (38 # e @ 59 # rest) = map_option (\<lambda>c. (c, length e + 2)) (reference_value e)"
proof -
  have "find_char (\<lambda>c. c = 59) ((38 # e) @ 59 # rest) = Some (length (38 # e))"
    by (rule find_char_skip) (use assms(1) in auto)
  then show ?thesis using assms(2,3) by (simp add: decode_reference_def Let_def)
qed

lemma numeric_unnamed: "named_reference (35 # s) = None"
proof (cases "named_reference (35 # s)")
  case (Some c)
  from named_reference_shape(5) [OF this] show ?thesis by simp
qed

lemma scalar_bounds: "is_scalar c \<Longrightarrow> c \<le> u32_max \<and> c < 10 ^ Suc 6 * 10 \<and> c < 16 ^ Suc 5"
  by (auto simp: is_scalar_def u32_max_def)

lemma decimal_reference:
  assumes "is_scalar c"
  shows "decode_reference (38 # (35 # show_nat c) @ 59 # rest) = Some (c, length (show_nat c) + 3)"
proof -
  have digits: "x \<in> set (show_nat c) \<Longrightarrow> 48 \<le> x \<and> x \<le> 57" for x by (rule show_nat_digits)
  have "c < 10 ^ Suc 6" using assms by (auto simp: is_scalar_def)
  then have len: "length (show_nat c) \<le> 7" using length_show_radix [of 10 c 6] by simp
  have "byte_len (35 # show_nat c) = length (35 # show_nat c)"
    by (rule byte_len_ascii) (use digits in fastforce)
  then have e: "59 \<notin> set (35 # show_nat c)" "35 # show_nat c \<noteq> []" "byte_len (35 # show_nat c) \<le> 12"
    using len digits [of 59] by auto
  obtain x xs where s: "show_nat c = x # xs" using show_nat_not_Nil by (cases "show_nat c") auto
  have "x \<noteq> 120" "x \<noteq> 88" using digits [of x] s by auto
  moreover have "parse_uint 10 u32_max (show_nat c) = Some c" using parse_uint_show scalar_bounds [OF assms] by blast
  ultimately have "reference_value (35 # show_nat c) = Some c"
    using assms s by (simp add: reference_value_def numeric_unnamed char_from_u32_def)
  then show ?thesis using decode_reference_text [OF e, of rest] by simp
qed

lemma hexadecimal_reference:
  assumes "is_scalar c"
  shows "decode_reference (38 # (35 # 120 # show_radix 16 c) @ 59 # rest) = Some (c, length (show_radix 16 c) + 4)"
proof -
  let ?e = "35 # 120 # show_radix 16 c"
  have digits: "x \<in> set (show_radix 16 c) \<Longrightarrow> 48 \<le> x \<and> x \<le> 57 \<or> 97 \<le> x \<and> x \<le> 122" for x
    by (rule show_radix_chars [of 16]) simp_all
  have "c < 16 ^ Suc 5" using assms by (auto simp: is_scalar_def)
  then have len: "length (show_radix 16 c) \<le> 6" using length_show_radix [of 16 c 5] by simp
  have "byte_len ?e = length ?e" by (rule byte_len_ascii) (use digits in fastforce)
  then have e: "59 \<notin> set ?e" "?e \<noteq> []" "byte_len ?e \<le> 12" using len digits [of 59] by auto
  have "parse_uint 16 u32_max (show_radix 16 c) = Some c"
    using parse_uint_radix [of 16 c u32_max] scalar_bounds [OF assms] by simp
  then have "reference_value ?e = Some c"
    using assms by (simp add: reference_value_def numeric_unnamed char_from_u32_def)
  then show ?thesis using decode_reference_text [OF e, of rest] by simp
qed

lemma push_decoded_literal: "c \<noteq> 38 \<Longrightarrow> push_decoded out (c # rest) = push_decoded (out @ [c]) rest"
  by (subst (1 2) push_decoded.simps) (simp split: option.splits)

lemma push_decoded_reference:
  "decode_reference (38 # r) = Some (c, n) \<Longrightarrow> push_decoded out (38 # r) = push_decoded (out @ [c]) (drop n (38 # r))"
  by (subst push_decoded.simps) simp

lemma push_decoded_piece:
  assumes "piece_ok p"
  shows "push_decoded out (piece_text p @ rest) = push_decoded (out @ [piece_char p]) rest"
proof (cases p)
  case (Literal c)
  then show ?thesis using assms by (simp add: push_decoded_literal)
next
  case (Named n c)
  then have named: "named_reference n = Some c" using assms by simp
  note shape = named_reference_shape [OF this]
  have "decode_reference (38 # n @ 59 # rest) = Some (c, length n + 2)"
    using decode_reference_text [OF shape(3,1,2)] named by (simp add: reference_value_def)
  from push_decoded_reference [OF this] Named show ?thesis by simp
next
  case (Decimal c)
  then have "is_scalar c" using assms by simp
  from push_decoded_reference [OF decimal_reference [OF this, simplified]] Decimal show ?thesis
    by (simp add: eval_nat_numeral)
next
  case (Hexadecimal c)
  then have "is_scalar c" using assms by simp
  from push_decoded_reference [OF hexadecimal_reference [OF this, simplified]] Hexadecimal show ?thesis
    by (simp add: eval_nat_numeral)
qed

lemma push_decoded_pieces:
  "list_all piece_ok ps \<Longrightarrow> push_decoded out (concat (map piece_text ps)) = out @ map piece_char ps"
proof (induction ps arbitrary: out)
  case Nil
  then show ?case by (simp add: push_decoded.simps)
next
  case (Cons p ps)
  then show ?case by (simp add: push_decoded_piece)
qed

text \<open>C39: a text survives being written in a page: whichever of its characters, ampersands at least, are
  written as named, decimal or hexadecimal references, decoding gives the text back; nothing is
  decoded twice.\<close>

theorem decode_entities_roundtrip:
  assumes "list_all piece_ok ps"
  shows "decode_entities (concat (map piece_text ps)) = map piece_char ps"
  using push_decoded_pieces [OF assms, of "[]"] by (simp add: decode_entities_def)

section \<open>Pages, against their element tree\<close>

text \<open>What the handlers see of a page: elements of the kinds they select, and pieces of text.\<close>

datatype kind =
  Title
| Body
| Chrome
| LinkTo rstr
| BaseHref rstr
| Description rstr
| OpenGraph rstr
| Plain

datatype dom = Piece rstr | Element kind "dom list"

text \<open>The handler calls, in document order; \<open>t\<close> and \<open>b\<close> say whether a title and the body are around.\<close>

fun dom_events :: "bool \<Rightarrow> bool \<Rightarrow> dom \<Rightarrow> html_event list" where
  "dom_events t b (Piece s) = [Text t b s]"
| "dom_events t b (Element k kids) =
     (let inner = concat (map (dom_events (t \<or> k = Title) (b \<or> k = Body)) kids)
      in case k of
           Chrome \<Rightarrow> Enter None # inner @ [Leave]
         | LinkTo h \<Rightarrow> Anchor (Some h) # inner
         | BaseHref h \<Rightarrow> Base (Some h) # inner
         | Description c \<Rightarrow> MetaDescription (Some c) # inner
         | OpenGraph c \<Rightarrow> OgDescription (Some c) # inner
         | _ \<Rightarrow> inner)"

text \<open>What the page says: the pieces of its title, the pieces of the body outside boilerplate, the
  attribute values.\<close>

fun title_pieces :: "bool \<Rightarrow> dom \<Rightarrow> rstr list" where
  "title_pieces t (Piece s) = (if t then [s] else [])"
| "title_pieces t (Element k kids) = concat (map (title_pieces (t \<or> k = Title)) kids)"

fun visible_pieces :: "bool \<Rightarrow> dom \<Rightarrow> rstr list" where
  "visible_pieces b (Piece s) = (if b then [s] else [])"
| "visible_pieces b (Element k kids) = (if k = Chrome then [] else concat (map (visible_pieces (b \<or> k = Body)) kids))"

fun dom_kinds :: "dom \<Rightarrow> kind list" where
  "dom_kinds (Piece s) = []"
| "dom_kinds (Element k kids) = k # concat (map dom_kinds kids)"

definition hrefs :: "kind list \<Rightarrow> rstr list" where
  "hrefs ks = List.map_filter (\<lambda>k. case k of LinkTo h \<Rightarrow> Some (decode_entities h) | _ \<Rightarrow> None) ks"

definition last_of :: "(kind \<Rightarrow> rstr option) \<Rightarrow> kind list \<Rightarrow> rstr option \<Rightarrow> rstr option" where
  "last_of f ks = fold (\<lambda>k acc. case f k of Some x \<Rightarrow> Some x | None \<Rightarrow> acc) ks"

definition description_of :: "kind \<Rightarrow> rstr option" where
  "description_of k = (case k of Description c \<Rightarrow> Some (decode_entities c) | _ \<Rightarrow> None)"

definition open_graph_of :: "kind \<Rightarrow> rstr option" where
  "open_graph_of k = (case k of OpenGraph c \<Rightarrow> Some (decode_entities c) | _ \<Rightarrow> None)"

definition base_of :: "kind \<Rightarrow> rstr option" where
  "base_of k = (case k of BaseHref h \<Rightarrow> Some h | _ \<Rightarrow> None)"

text \<open>Only the first piece of title text counts.\<close>

definition add_title :: "rstr list \<Rightarrow> bool \<times> rstr \<Rightarrow> bool \<times> rstr" where
  "add_title ts st = (if fst st \<or> ts = [] then st else (True, push_decoded (snd st) (hd ts)))"

definition add_text :: "rstr list \<Rightarrow> rstr \<Rightarrow> rstr" where
  "add_text vs = fold (\<lambda>v out. push_decoded out v @ [32]) vs"

definition page_effect :: "rstr list \<Rightarrow> rstr list \<Rightarrow> kind list \<Rightarrow> parse_state \<Rightarrow> parse_state \<Rightarrow> bool" where
  "page_effect ts vs ks s s' \<longleftrightarrow>
     (ps_title_taken s', ps_title s') = add_title ts (ps_title_taken s, ps_title s) \<and>
     ps_text s' = (if ps_skip s = 0 then add_text vs (ps_text s) else ps_text s) \<and>
     ps_links s' = ps_links s @ hrefs ks \<and> ps_description s' = last_of description_of ks (ps_description s) \<and>
     ps_open_graph s' = last_of open_graph_of ks (ps_open_graph s) \<and> ps_base s' = last_of base_of ks (ps_base s) \<and>
     ps_skip s' = ps_skip s"

lemma page_effect_refl: "page_effect [] [] [] s s"
  by (simp add: page_effect_def add_title_def add_text_def hrefs_def last_of_def List.map_filter_def)

lemma page_effect_trans:
  "page_effect t1 v1 k1 s s1 \<Longrightarrow> page_effect t2 v2 k2 s1 s2 \<Longrightarrow> page_effect (t1 @ t2) (v1 @ v2) (k1 @ k2) s s2"
  by (auto simp: page_effect_def add_title_def add_text_def hrefs_def last_of_def List.map_filter_def split: if_splits)

lemma html_run_append: "html_run (a @ b) s = and_then (html_run a s) (html_run b)"
proof (induction a arbitrary: s)
  case (Cons e a)
  then show ?case by (cases "html_handle e s") simp_all
qed simp

lemma html_run_kids:
  assumes "\<And>x s. x \<in> set xs \<Longrightarrow> \<exists>s'. html_run (f x) s = Inr s' \<and> page_effect (t x) (v x) (k x) s s'"
  shows "\<exists>s'. html_run (concat (map f xs)) s = Inr s' \<and>
    page_effect (concat (map t xs)) (concat (map v xs)) (concat (map k xs)) s s'"
  using assms
proof (induction xs arbitrary: s)
  case Nil
  then show ?case using page_effect_refl by simp
next
  case (Cons x xs)
  obtain s1 where s1: "html_run (f x) s = Inr s1" "page_effect (t x) (v x) (k x) s s1" using Cons.prems [of x s] by auto
  obtain s2 where "html_run (concat (map f xs)) s1 = Inr s2"
    "page_effect (concat (map t xs)) (concat (map v xs)) (concat (map k xs)) s1 s2"
    using Cons.IH [of s1] Cons.prems by auto
  then show ?case using s1 page_effect_trans by (auto simp: html_run_append)
qed

lemma page_effect_hidden: "page_effect ts vs ks s s' \<Longrightarrow> 0 < ps_skip s \<Longrightarrow> page_effect ts ws ks s s'"
  by (simp add: page_effect_def)

lemma html_run_dom:
  "\<exists>s'. html_run (dom_events t b x) s = Inr s' \<and> page_effect (title_pieces t x) (visible_pieces b x) (dom_kinds x) s s'"
proof (induction t b x arbitrary: s rule: dom_events.induct)
  case (1 t b p)
  then show ?case
    by (simp add: page_effect_def add_title_def add_text_def hrefs_def last_of_def List.map_filter_def on_title_def on_body_def Let_def)
next
  case (2 t b k kids)
  let ?t = "t \<or> k = Title" and ?b = "b \<or> k = Body"
  let ?inner = "concat (map (dom_events ?t ?b) kids)"
  let ?T = "concat (map (title_pieces ?t) kids)" and ?V = "concat (map (visible_pieces ?b) kids)"
    and ?K = "concat (map dom_kinds kids)"
  have inner: "\<exists>s'. html_run ?inner s = Inr s' \<and> page_effect ?T ?V ?K s s'" for s
    by (rule html_run_kids) (use 2 in blast)
  show ?case
  proof (cases "k = Chrome")
    case True
    obtain s1 where s1: "html_run ?inner (s \<lparr> ps_skip := ps_skip s + 1 \<rparr>) = Inr s1"
      "page_effect ?T ?V ?K (s \<lparr> ps_skip := ps_skip s + 1 \<rparr>) s1"
      using inner by blast
    then show ?thesis using True
      by (auto simp: html_run_append Let_def page_effect_def hrefs_def last_of_def List.map_filter_def add_text_def
          description_of_def open_graph_of_def base_of_def)
  next
    case False
    define s0 where "s0 = (case k of LinkTo h \<Rightarrow> s \<lparr> ps_links := ps_links s @ [decode_entities h] \<rparr>
      | BaseHref h \<Rightarrow> s \<lparr> ps_base := Some h \<rparr> | Description c \<Rightarrow> s \<lparr> ps_description := Some (decode_entities c) \<rparr>
      | OpenGraph c \<Rightarrow> s \<lparr> ps_open_graph := Some (decode_entities c) \<rparr> | _ \<Rightarrow> s)"
    have run: "html_run (dom_events t b (Element k kids)) s = html_run ?inner s0"
      using False by (cases k) (simp_all add: s0_def Let_def)
    have "page_effect [] [] [k] s s0"
      using False by (cases k) (simp_all add: s0_def page_effect_def add_title_def add_text_def hrefs_def last_of_def
          List.map_filter_def description_of_def open_graph_of_def base_of_def)
    moreover obtain s1 where "html_run ?inner s0 = Inr s1" "page_effect ?T ?V ?K s0 s1" using inner by blast
    ultimately show ?thesis using run False page_effect_trans [of "[]" "[]" "[k]" s s0] by fastforce
  qed
qed

lemma parse_html_dom:
  assumes "rewriter html = (concat (map (dom_events False False) doc), None)"
  shows "parse_html U rewriter html base_url =
    (let ks = concat (map dom_kinds doc);
         title = (case concat (map (title_pieces False) doc) of t # _ \<Rightarrow> join_words (split_whitespace (decode_entities t)) | [] \<Rightarrow> []);
         base = (case last_of base_of ks None of Some b \<Rightarrow> b | None \<Rightarrow> base_url);
         description = (case last_of description_of ks None of Some d \<Rightarrow> Some d | None \<Rightarrow> last_of open_graph_of ks None)
     in Inr \<lparr> pp_title = (if title = [] then base_url else title),
              pp_text = join_words (split_whitespace (add_text (concat (map (visible_pieces False) doc)) [])),
              pp_links = resolve_links U (hrefs ks) base,
              pp_meta_description = (case map_option (\<lambda>d. join_words (split_whitespace d)) description of
                 Some d \<Rightarrow> if d = [] then None else Some d | None \<Rightarrow> None) \<rparr>)"
proof -
  obtain s where s: "html_run (concat (map (dom_events False False) doc)) parse_start = Inr s"
    "page_effect (concat (map (title_pieces False) doc)) (concat (map (visible_pieces False) doc))
       (concat (map dom_kinds doc)) parse_start s"
    using html_run_kids [of doc "dom_events False False" "title_pieces False" "visible_pieces False" dom_kinds] html_run_dom
    by blast
  define ts where "ts = concat (map (title_pieces False) doc)"
  have "(ps_title_taken s, ps_title s) = add_title ts (False, [])"
    using s(2) unfolding ts_def page_effect_def parse_start_def by simp
  then have "ps_title s = (case ts of t # _ \<Rightarrow> decode_entities t | [] \<Rightarrow> [])"
    by (cases ts) (simp_all add: add_title_def decode_entities_def)
  note title = this [unfolded ts_def]
  have blank: "split_whitespace [] = []" by (simp add: split_whitespace_def)
  have rest: "ps_text s = add_text (concat (map (visible_pieces False) doc)) []"
    "ps_links s = hrefs (concat (map dom_kinds doc))"
    "ps_description s = last_of description_of (concat (map dom_kinds doc)) None"
    "ps_open_graph s = last_of open_graph_of (concat (map dom_kinds doc)) None"
    "ps_base s = last_of base_of (concat (map dom_kinds doc)) None"
    using s(2) by (simp_all add: page_effect_def parse_start_def)
  have eq: "parse_html U rewriter html base_url =
      (let title = collapse_whitespace (ps_title s);
           description = (case ps_description s of Some d \<Rightarrow> Some d | None \<Rightarrow> ps_open_graph s)
       in Inr \<lparr> pp_title = if title = [] then base_url else title, pp_text = collapse_whitespace (ps_text s),
                pp_links = resolve_links U (ps_links s) (case ps_base s of Some b \<Rightarrow> b | None \<Rightarrow> base_url),
                pp_meta_description = (case map_option collapse_whitespace description of
                  Some d \<Rightarrow> if d = [] then None else Some d | None \<Rightarrow> None) \<rparr>)"
    by (simp add: parse_html_def assms s(1) Let_def)
  have words: "collapse_whitespace = (\<lambda>s. join_words (split_whitespace s))"
    by (simp add: fun_eq_iff collapse_whitespace_words)
  show ?thesis
    unfolding eq rest title words Let_def
    by (cases "concat (map (title_pieces False) doc)") (simp_all only: list.case blank join_words.simps)
qed

text \<open>C15: the streaming extraction gives what the element tree says: the title is the first piece of title
  text, or the page's address when that is blank; the text is the pieces of the body that are outside
  every boilerplate element, however nested, with references decoded and white space collapsed; the
  links are all \<open>href\<close> values in document order, resolved; the description is that of the page, or the
  Open Graph one.\<close>

theorem parse_html_tree:
  assumes "rewriter html = (concat (map (dom_events False False) doc), None)"
  shows "parse_html U rewriter html base_url =
    (let ks = concat (map dom_kinds doc);
         title = (case concat (map (title_pieces False) doc) of t # _ \<Rightarrow> join_words (split_whitespace (decode_entities t)) | [] \<Rightarrow> []);
         base = (case last_of base_of ks None of Some b \<Rightarrow> b | None \<Rightarrow> base_url);
         description = (case last_of description_of ks None of Some d \<Rightarrow> Some d | None \<Rightarrow> last_of open_graph_of ks None)
     in Inr \<lparr> pp_title = (if title = [] then base_url else title),
              pp_text = join_words (split_whitespace (add_text (concat (map (visible_pieces False) doc)) [])),
              pp_links = resolve_links U (hrefs ks) base,
              pp_meta_description = (case map_option (\<lambda>d. join_words (split_whitespace d)) description of
                 Some d \<Rightarrow> if d = [] then None else Some d | None \<Rightarrow> None) \<rparr>)"
  using assms by (rule parse_html_dom)

text \<open>A title that arrives in several pieces, as a tokenizer that works in chunks may deliver it, is
  cut after its first piece: whatever the other pieces are, the page's title is that of the first.\<close>

theorem title_cut_after_first_piece:
  assumes "rewriter html = (concat (map (dom_events False False) [Element Title (map Piece (t # others))]), None)"
    and "parse_html U rewriter html base_url = Inr page" "split_whitespace (decode_entities t) \<noteq> []"
    and "[] \<notin> set (split_whitespace (decode_entities t))"
  shows "pp_title page = join_words (split_whitespace (decode_entities t))"
  using assms(2,3,4) unfolding parse_html_dom [where rewriter = rewriter and html = html, OF assms(1)] by (auto simp: Let_def join_words_Nil)

section \<open>Concrete pages\<close>

lemma decode_plain: "38 \<notin> set s \<Longrightarrow> decode_entities s = s"
proof -
  assume "38 \<notin> set s"
  then have "list_all piece_ok (map Literal s)" by (auto simp: list_all_iff)
  from push_decoded_pieces [OF this, of "[]"] show ?thesis by (simp add: decode_entities_def comp_def)
qed

theorem decode_entities_roundtrip_witness:
  "decode_entities (concat (map piece_text [Named (str ''amp'') 38, Literal 108, Literal 59, Decimal 38, Hexadecimal 8212])) =
     [38, 108, 59, 38, 8212]"
proof -
  have "named_reference (str ''amp'') = Some 38" by (simp add: named_reference_def entity_table_def xml_entities_def)
  then have "list_all piece_ok [Named (str ''amp'') 38, Literal 108, Literal 59, Decimal 38, Hexadecimal 8212]"
    by (simp add: is_scalar_def)
  from decode_entities_roundtrip [OF this] show ?thesis by simp
qed

theorem resolve_links_spec_witness:
  "distinct (resolve_links mini_url [str ''/a'', str ''#x'', str ''/a#y''] (str ''http://h/'')) \<and>
     resolve_links mini_url [str ''/a'', str ''#x'', str ''/a#y''] (str ''/b/'') = []"
proof -
  have none: "url_parse mini_url (str ''/b/'') = None" by code_simp
  have "resolve_links mini_url raw (str ''/b/'') = []" for raw
    using resolve_links_spec [OF mini_url_ok, of raw "str ''/b/''", THEN conjunct1] unfolding none by simp
  then show ?thesis using resolve_links_spec [OF mini_url_ok] by blast
qed

definition toy_dom :: "dom list" where
  "toy_dom = [Element Title [Piece [97]],
     Element Body [Element Chrome [Piece [120], Element Chrome [Piece [121]]], Element (LinkTo [98]) [Piece [99, 32]]]]"

definition toy_rewriter :: "rstr \<Rightarrow> html_event list \<times> rstr option" where
  "toy_rewriter html = (concat (map (dom_events False False) toy_dom), None)"

theorem parse_html_tree_witness:
  "parse_html mini_url toy_rewriter [60] (str ''/b/'') =
     Inr \<lparr> pp_title = [97], pp_text = [99], pp_links = [], pp_meta_description = None \<rparr>"
proof -
  have r: "toy_rewriter [60] = (concat (map (dom_events False False) toy_dom), None)" by (simp add: toy_rewriter_def)
  have none: "mini_parse (str ''/b/'') = None" by code_simp
  have words: "split_whitespace [97] = [[97]]" "split_whitespace [99, 32, 32] = [[99]]"
    by (simp_all add: split_whitespace_def is_whitespace_def)
  have visible: "add_text [[99, 32]] [] = [99, 32, 32]"
    using decode_plain [of "[99, 32]"] by (simp add: add_text_def decode_entities_def)
  have doc: "concat (map (title_pieces False) toy_dom) = [[97]]" "concat (map (visible_pieces False) toy_dom) = [[99, 32]]"
    "concat (map dom_kinds toy_dom) = [Title, Body, Chrome, Chrome, LinkTo [98]]"
    by (simp_all add: toy_dom_def)
  have kinds: "last_of base_of [Title, Body, Chrome, Chrome, LinkTo [98]] None = None"
    "last_of description_of [Title, Body, Chrome, Chrome, LinkTo [98]] None = None"
    "last_of open_graph_of [Title, Body, Chrome, Chrome, LinkTo [98]] None = None"
    by (simp_all add: last_of_def base_of_def description_of_def open_graph_of_def)
  show ?thesis
    using parse_html_tree [where rewriter = toy_rewriter and html = "[60]" and U = mini_url and base_url = "str ''/b/''", OF r]
    unfolding Let_def doc list.case visible kinds option.case
    by (simp add: decode_plain words resolve_links_def none del: str_simps)
qed

theorem title_cut_after_first_piece_witness:
  "pp_title (case parse_html mini_url (\<lambda>_. (concat (map (dom_events False False)
     [Element Title (map Piece [[97], [32, 98, 99]])]), None)) [60] (str ''/b/'') of Inr page \<Rightarrow> page) = [97]"
proof -
  let ?r = "\<lambda>_ :: rstr. (concat (map (dom_events False False) [Element Title (map Piece [[97], [32, 98, 99]])]), None :: rstr option)"
  have words: "split_whitespace [97] = [[97]]" by (simp add: split_whitespace_def is_whitespace_def)
  obtain page where page: "parse_html mini_url ?r [60] (str ''/b/'') = Inr page"
    unfolding parse_html_dom [where rewriter = ?r and html = "[60]", OF refl] by (simp add: Let_def)
  have "pp_title page = [97]"
    using title_cut_after_first_piece [of ?r "[60]" "[97]" "[[32, 98, 99]]", OF refl page] words by (simp add: decode_plain)
  then show ?thesis unfolding page by simp
qed

end
