(* ===== verification/Sitemap.thy ===== *)
theory Sitemap
  imports Parser
begin

text \<open>
  \<open>crates/crawler/src/sitemap.rs\<close>: the scanner that reads the \<open>loc\<close> values of a sitemap. Positions
  are counted in characters; the names searched for are ASCII, so that a match in the bytes of the
  UTF-8 text is one in its characters.
\<close>

section \<open>The scanner\<close>

definition find_ignore_case :: "rstr \<Rightarrow> rstr \<Rightarrow> nat option" where
  "find_ignore_case haystack needle =
     (if needle = [] \<or> length haystack < length needle then None
      else find (\<lambda>start. list_all (\<lambda>(a, b). eq_ignore_ascii_case a b)
                   (zip (take (length needle) (drop start haystack)) needle))
             [0 ..< length haystack - length needle + 1])"

definition strip_cdata :: "rstr \<Rightarrow> rstr" where
  "strip_cdata value =
     (case strip_prefix (str ''<![CDATA['') value of
        Some inner \<Rightarrow> (case strip_suffix (str '']]>'') inner of Some s \<Rightarrow> s | None \<Rightarrow> inner)
      | None \<Rightarrow> value)"

definition sitemap_normalize :: "'u url_api \<Rightarrow> rstr \<Rightarrow> rstr option" where
  "sitemap_normalize U raw =
     (let txt = strip_cdata (trim raw); decoded = decode_entities txt
      in case url_parse U (trim decoded) of
           None \<Rightarrow> None
         | Some parsed \<Rightarrow>
             if url_scheme U parsed \<notin> {str ''http'', str ''https''} then None
             else Some (url_to_string U parsed))"

definition is_index :: "rstr \<Rightarrow> bool" where
  "is_index body \<longleftrightarrow> find_ignore_case body (str ''<sitemapindex'') \<noteq> None"

text \<open>The value of the next \<open>loc\<close> element and what follows it.\<close>

definition next_loc :: "rstr \<Rightarrow> (rstr \<times> rstr) option" where
  "next_loc rest =
     (case find_ignore_case rest (str ''<loc'') of
        None \<Rightarrow> None
      | Some opening \<Rightarrow>
          (let after_open = drop (opening + 4) rest
           in case find_char (\<lambda>c. c = 62) after_open of
                None \<Rightarrow> None
              | Some tag_end \<Rightarrow>
                  (let content = drop (tag_end + 1) after_open
                   in case find_ignore_case content (str ''</loc'') of
                        None \<Rightarrow> None
                      | Some closing \<Rightarrow> Some (take closing content, drop closing content))))"

lemma find_mem: "find P xs = Some x \<Longrightarrow> x \<in> set xs"
  by (induction xs) (auto split: if_splits)

lemma find_ignore_case_bound: "find_ignore_case h n = Some i \<Longrightarrow> i + length n \<le> length h \<and> n \<noteq> []"
  by (auto simp: find_ignore_case_def simp del: upt_Suc split: if_splits dest!: find_mem)

lemma next_loc_shrinks: "next_loc rest = Some (raw, rest') \<Longrightarrow> length rest' < length rest"
  by (auto simp: next_loc_def Let_def split: option.splits dest!: find_ignore_case_bound)

function sitemap_loop :: "'u url_api \<Rightarrow> rstr \<Rightarrow> rstr list \<Rightarrow> rstr list" where
  "sitemap_loop U rest urls =
     (case next_loc rest of
        None \<Rightarrow> urls
      | Some (raw, rest) \<Rightarrow>
          (case sitemap_normalize U raw of
             Some url \<Rightarrow> sitemap_loop U rest (urls @ [url])
           | None \<Rightarrow> sitemap_loop U rest urls))"
  by pat_completeness auto
termination
  by (relation "measure (\<lambda>(U, rest, urls). length rest)") (auto dest: next_loc_shrinks)

declare sitemap_loop.simps [simp del]

definition sitemap_parse :: "'u url_api \<Rightarrow> rstr \<Rightarrow> rstr list" where
  "sitemap_parse U body = sitemap_loop U body []"

section \<open>Searching\<close>

fun starts_ignore_case :: "rstr \<Rightarrow> rstr \<Rightarrow> bool" where
  "starts_ignore_case [] s \<longleftrightarrow> True"
| "starts_ignore_case (a # n) [] \<longleftrightarrow> False"
| "starts_ignore_case (a # n) (c # s) \<longleftrightarrow> eq_ignore_ascii_case c a \<and> starts_ignore_case n s"

fun seek :: "rstr \<Rightarrow> rstr \<Rightarrow> nat option" where
  "seek n [] = None"
| "seek n (c # s) = (if starts_ignore_case n (c # s) then Some 0 else map_option Suc (seek n s))"

lemma starts_ignore_case_zip:
  "starts_ignore_case n s \<longleftrightarrow> length n \<le> length s \<and> list_all (\<lambda>(a, b). eq_ignore_ascii_case a b) (zip (take (length n) s) n)"
  by (induction n s rule: starts_ignore_case.induct) auto

lemma starts_ignore_case_short: "length s < length n \<Longrightarrow> \<not> starts_ignore_case n s"
  by (simp add: starts_ignore_case_zip)

lemma seek_short: "length s < length n \<Longrightarrow> seek n s = None"
  by (induction s) (auto simp: starts_ignore_case_short)

lemma seek_find:
  "n \<noteq> [] \<Longrightarrow> length n \<le> length s \<Longrightarrow>
   seek n s = find (\<lambda>i. starts_ignore_case n (drop i s)) [0 ..< length s - length n + 1]"
proof (induction s)
  case Nil
  then show ?case by simp
next
  case (Cons c s)
  let ?P = "\<lambda>i. starts_ignore_case n (drop i (c # s))"
  have up: "[0 ..< length (c # s) - length n + 1] = 0 # map Suc [0 ..< length (c # s) - length n]"
    by (simp add: upt_conv_Cons map_Suc_upt del: upt_Suc)
  have shift: "find ?P (map Suc xs) = map_option Suc (find (\<lambda>i. starts_ignore_case n (drop i s)) xs)" for xs
    by (induction xs) auto
  show ?case
  proof (cases "length n \<le> length s")
    case True
    then have "length (c # s) - length n = length s - length n + 1" by simp
    then show ?thesis unfolding up using Cons True by (simp add: shift del: upt_Suc)
  next
    case False
    then have "length (c # s) - length n = 0" by simp
    then show ?thesis unfolding up using False by (simp add: seek_short)
  qed
qed

lemma find_ignore_case_seek: "n \<noteq> [] \<Longrightarrow> find_ignore_case s n = seek n s"
proof (cases "length s < length n")
  case False
  assume "n \<noteq> []"
  moreover have "list_all (\<lambda>(a, b). eq_ignore_ascii_case a b) (zip (take (length n) (drop i s)) n) =
      starts_ignore_case n (drop i s)" if "i \<in> set [0 ..< length s - length n + 1]" for i
    using that False by (simp add: starts_ignore_case_zip) linarith
  then have "find (\<lambda>start. list_all (\<lambda>(a, b). eq_ignore_ascii_case a b) (zip (take (length n) (drop start s)) n))
      [0 ..< length s - length n + 1] = find (\<lambda>i. starts_ignore_case n (drop i s)) [0 ..< length s - length n + 1]"
    by (intro find_cong) auto
  ultimately show ?thesis using False seek_find [of n s] by (simp add: find_ignore_case_def del: upt_Suc)
qed (simp add: find_ignore_case_def seek_short)

text \<open>A name that starts with \<open><\<close> and has no other is not found in a text without one, nor across
  its end.\<close>

lemma seek_skip:
  assumes "60 \<notin> set a"
  shows "seek (60 # n) (a @ s) = map_option ((+) (length a)) (seek (60 # n) s)"
  using assms
proof (induction a)
  case Nil
  then show ?case by (simp add: option.map_id0 [unfolded id_def] option.map_ident)
next
  case (Cons c a)
  have "\<not> eq_ignore_ascii_case c 60"
    using Cons.prems by (auto simp: eq_ignore_ascii_case_def to_ascii_lower_def split: if_splits)
  then show ?case using Cons by (simp add: option.map_comp comp_def)
qed

lemma starts_before_bracket:
  "60 \<notin> set n \<Longrightarrow> n \<noteq> [] \<Longrightarrow> \<not> starts_ignore_case n a \<Longrightarrow> \<not> starts_ignore_case n (a @ 60 # s)"
proof (induction n a rule: starts_ignore_case.induct)
  case (2 c n)
  have "\<not> eq_ignore_ascii_case 60 c"
    using 2 by (auto simp: eq_ignore_ascii_case_def to_ascii_lower_def split: if_splits)
  then show ?case by simp
next
  case (3 c n d s')
  then show ?case by (cases "n = []") auto
qed simp

lemma seek_head:
  assumes "60 \<notin> set n" "n \<noteq> []"
  shows "seek (60 # n) a = None \<Longrightarrow> seek (60 # n) (a @ 60 # s) = map_option ((+) (length a)) (seek (60 # n) (60 # s))"
proof (induction a)
  case Nil
  then show ?case by (simp add: option.map_id0 [unfolded id_def] option.map_ident)
next
  case (Cons c a)
  have a: "\<not> starts_ignore_case (60 # n) (c # a)" "seek (60 # n) a = None"
    using Cons.prems by (auto split: if_splits)
  then have "\<not> starts_ignore_case (60 # n) ((c # a) @ 60 # s)"
    using starts_before_bracket [OF assms] by auto
  then have "seek (60 # n) ((c # a) @ 60 # s) = map_option Suc (seek (60 # n) (a @ 60 # s))"
    unfolding append_Cons seek.simps by auto
  also have "\<dots> = map_option Suc (map_option ((+) (length a)) (seek (60 # n) (60 # s)))"
    using Cons.IH a(2) by metis
  finally show ?case by (simp add: option.map_comp comp_def del: seek.simps)
qed

section \<open>A written sitemap\<close>

text \<open>An entry is the text of its URL, written without \<open><\<close>; a sitemap is a head and its entries.\<close>

definition sitemap_entry_ok :: "piece list \<Rightarrow> bool" where
  "sitemap_entry_ok ps \<longleftrightarrow> list_all piece_ok ps \<and> 60 \<notin> set (concat (map piece_text ps)) \<and>
     trim (concat (map piece_text ps)) = concat (map piece_text ps)"

definition entry_text :: "piece list \<Rightarrow> rstr" where
  "entry_text ps = str ''<url><loc>'' @ concat (map piece_text ps) @ str ''</loc></url>''"

definition sitemap_text :: "rstr \<Rightarrow> piece list list \<Rightarrow> rstr" where
  "sitemap_text head entries = head @ concat (map entry_text entries) @ str ''</urlset>''"

text \<open>What an entry stands for: the URL its text parses to, when it is an HTTP one.\<close>

definition entry_url :: "'u url_api \<Rightarrow> piece list \<Rightarrow> rstr option" where
  "entry_url U ps =
     (case url_parse U (trim (map piece_char ps)) of
        None \<Rightarrow> None
      | Some u \<Rightarrow> if url_scheme U u \<in> {str ''http'', str ''https''} then Some (url_to_string U u) else None)"

lemma strip_cdata_plain: "60 \<notin> set s \<Longrightarrow> strip_cdata s = s"
  by (cases s) (auto simp: strip_cdata_def)

lemma sitemap_normalize_entry:
  assumes "sitemap_entry_ok ps"
  shows "sitemap_normalize U (concat (map piece_text ps)) = entry_url U ps"
proof -
  have "decode_entities (concat (map piece_text ps)) = map piece_char ps"
    using push_decoded_pieces [of ps "[]"] assms by (simp add: sitemap_entry_ok_def decode_entities_def)
  then show ?thesis using assms
    by (simp add: sitemap_normalize_def entry_url_def sitemap_entry_ok_def strip_cdata_plain Let_def del: str_simps split: option.splits)
qed

lemma seek_loc_end:
  assumes "60 \<notin> set raw"
  shows "seek (str ''</loc'') (raw @ str ''</loc>'' @ rest) = Some (length raw)"
proof -
  have "seek (60 # str ''/loc'') (raw @ str ''</loc>'' @ rest) =
      map_option ((+) (length raw)) (seek (60 # str ''/loc'') (str ''</loc>'' @ rest))"
    by (rule seek_skip [OF assms])
  then show ?thesis by (simp add: eq_ignore_ascii_case_def)
qed

lemma next_loc_entry:
  assumes "seek (str ''<loc'') pre = None" "60 \<notin> set raw"
  shows "next_loc (pre @ str ''<url><loc>'' @ raw @ str ''</loc>'' @ rest) = Some (raw, str ''</loc>'' @ rest)"
proof -
  let ?s = "pre @ str ''<url><loc>'' @ raw @ str ''</loc>'' @ rest"
  have "seek (60 # str ''loc'') (pre @ 60 # (str ''url><loc>'' @ raw @ str ''</loc>'' @ rest)) =
      map_option ((+) (length pre)) (seek (60 # str ''loc'') (60 # (str ''url><loc>'' @ raw @ str ''</loc>'' @ rest)))"
    by (rule seek_head) (use assms(1) in simp_all)
  then have open_at: "find_ignore_case ?s (str ''<loc'') = Some (length pre + 5)"
    by (simp add: find_ignore_case_seek eq_ignore_ascii_case_def to_ascii_lower_def)
  have after: "drop (length pre + 5 + 4) ?s = 62 # raw @ str ''</loc>'' @ rest" by simp
  have closing: "find_ignore_case (raw @ str ''</loc>'' @ rest) (str ''</loc'') = Some (length raw)"
    using seek_loc_end [OF assms(2), of rest] by (simp add: find_ignore_case_seek)
  show ?thesis
    unfolding next_loc_def open_at option.case Let_def after using closing by simp
qed

lemma seek_between: "seek (str ''<loc'') (str ''</loc></url>'') = None"
  by (simp add: eq_ignore_ascii_case_def to_ascii_lower_def)

lemma sitemap_loop_entries:
  "list_all sitemap_entry_ok es \<Longrightarrow> seek (str ''<loc'') pre = None \<Longrightarrow>
   sitemap_loop U (pre @ concat (map entry_text es) @ str ''</urlset>'') urls =
     urls @ List.map_filter (entry_url U) es"
proof (induction es arbitrary: pre urls)
  case Nil
  have "seek (60 # str ''loc'') (pre @ 60 # str ''/urlset>'') =
      map_option ((+) (length pre)) (seek (60 # str ''loc'') (60 # str ''/urlset>''))"
    by (rule seek_head) (use Nil in simp_all)
  then have "find_ignore_case (pre @ str ''</urlset>'') (str ''<loc'') = None"
    by (simp add: find_ignore_case_seek eq_ignore_ascii_case_def to_ascii_lower_def)
  then show ?case by (simp add: sitemap_loop.simps next_loc_def List.map_filter_def)
next
  case (Cons e es)
  let ?raw = "concat (map piece_text e)" and ?rest = "str ''</url>'' @ concat (map entry_text es) @ str ''</urlset>''"
  have e: "sitemap_entry_ok e" "60 \<notin> set ?raw" using Cons.prems(1) by (simp_all add: sitemap_entry_ok_def)
  have shape: "pre @ concat (map entry_text (e # es)) @ str ''</urlset>'' = pre @ str ''<url><loc>'' @ ?raw @ str ''</loc>'' @ ?rest"
    by (simp add: entry_text_def)
  have step: "next_loc (pre @ str ''<url><loc>'' @ ?raw @ str ''</loc>'' @ ?rest) = Some (?raw, str ''</loc>'' @ ?rest)"
    by (rule next_loc_entry [OF Cons.prems(2) e(2)])
  have "str ''</loc>'' @ ?rest = str ''</loc></url>'' @ concat (map entry_text es) @ str ''</urlset>''" by simp
  then have IH: "sitemap_loop U (str ''</loc>'' @ ?rest) urls' = urls' @ List.map_filter (entry_url U) es" for urls'
    using Cons.IH [OF _ seek_between] Cons.prems(1) by simp
  show ?case
    unfolding shape sitemap_loop.simps [of U "pre @ _"] step
    by (cases "entry_url U e") (simp_all add: sitemap_normalize_entry [OF e(1)] IH List.map_filter_def del: str_simps)
qed

text \<open>C40: reading a sitemap gives back what was written in it: for any head without a \<open>loc\<close> element and
  any list of entries, whichever characters of an entry are written as references, the URLs of the
  entries that are HTTP URLs, in their order.\<close>

theorem sitemap_roundtrip:
  assumes "list_all sitemap_entry_ok entries" "find_ignore_case head (str ''<loc'') = None"
  shows "sitemap_parse U (sitemap_text head entries) = List.map_filter (entry_url U) entries"
  using sitemap_loop_entries [OF assms(1), of head U "[]"] assms(2)
  by (simp add: sitemap_parse_def sitemap_text_def find_ignore_case_seek)

theorem sitemap_roundtrip_witness:
  "sitemap_parse mini_url (sitemap_text (str ''<urlset>'')
     [map Literal (str ''http://h/a?x'') @ [Named (str ''amp'') 38, Literal 121], map Literal (str ''ftp://h/'')]) =
   [str ''http://h/a?x&y'']"
proof -
  let ?es = "[map Literal (str ''http://h/a?x'') @ [Named (str ''amp'') 38, Literal 121], map Literal (str ''ftp://h/'')]"
  have "named_reference (str ''amp'') = Some 38" by (simp add: named_reference_def entity_table_def xml_entities_def)
  then have ok: "list_all sitemap_entry_ok ?es" by (simp add: sitemap_entry_ok_def trim_def is_whitespace_def)
  have head: "find_ignore_case (str ''<urlset>'') (str ''<loc'') = None"
    by (simp add: find_ignore_case_seek eq_ignore_ascii_case_def to_ascii_lower_def)
  have "List.map_filter (entry_url mini_url) ?es = [str ''http://h/a?x&y'']"
    by (simp add: List.map_filter_def entry_url_def mini_parse_def mini_to_string_def mini_tail_def is_stop_def is_qf_def
        host_char_def trim_def is_whitespace_def to_ascii_lowercase_def to_ascii_lower_def Let_def)
  then show ?thesis using sitemap_roundtrip [OF ok head, of mini_url] by simp
qed

end
