(* ===== verification/Crawl_Visit.thy ===== *)
theory Crawl_Visit
  imports Policy Robots_Cache Fetcher Sitemap
begin

text \<open>
  One visit of \<open>crates/crawler/src/main.rs\<close>: the rules of the host, the request, the classification
  of the answer and its parsing. A visit runs in a task of its own and shares nothing with the crawl
  loop but the fetcher, so it is a function of its arguments and of the network, the \<open>'w\<close> that
  \<open>Fetcher\<close> threads through its calls. The tokenizer of \<open>Parser\<close> is a parameter.

  The theorem at the end says which requests a visit sends: to \<open>robots.txt\<close> only when no rules are
  cached, and to the page only when the rules in force allow it.
\<close>

section \<open>Data\<close>

record 'w visit_env =
  ve_fetch :: "'w fetch_env"
  ve_config :: fetch_config
  ve_rewriter :: "rstr \<Rightarrow> html_event list \<times> rstr option"

datatype visited = VisitedPage fetched_page parsed_page | VisitedSitemap rstr "rstr list"

record outcome =
  oc_host :: rstr
  oc_job :: crawl_job
  oc_rules :: "robots_rules option"
  oc_rules_ttl_ms :: "int option"
  oc_crawl_delay_s :: "nat option"
  oc_sitemaps :: "rstr list"
  oc_result :: "crawl_error + visited"

datatype visit_kind = KindPage | KindSitemap

section \<open>Operations\<close>

definition classify :: "'u url_api \<Rightarrow> rstr \<Rightarrow> rstr option \<Rightarrow> visit_kind" where
  "classify U final_url content_type =
     (case content_type of
        Some v \<Rightarrow>
          if contains_str (str ''html'') (to_ascii_lowercase v) then KindPage
          else if is_xml_content_type (Some v) then KindSitemap
          else if is_sitemap_url U final_url then KindSitemap
          else KindPage
      | None \<Rightarrow> if is_sitemap_url U final_url then KindSitemap else KindPage)"

definition canonical_final_url :: "'u url_api \<Rightarrow> fetched_page \<Rightarrow> fetched_page" where
  "canonical_final_url U page =
     (case canonical_url U (fp_final_url page) of
        Some canonical \<Rightarrow> page \<lparr> fp_final_url := canonical \<rparr>
      | None \<Rightarrow> page)"

definition request_path :: "'u url_api \<Rightarrow> rstr \<Rightarrow> rstr" where
  "request_path U url =
     (case url_parse U url of
        Some parsed \<Rightarrow>
          (case url_query U parsed of
             Some query \<Rightarrow> url_path U parsed @ str ''?'' @ query
           | None \<Rightarrow> url_path U parsed)
      | None \<Rightarrow> str ''/'')"

definition fetch_robots ::
    "'w visit_env \<Rightarrow> rstr \<Rightarrow> 'w \<Rightarrow> (crawl_error + robots_rules option) \<times> 'w" where
  "fetch_robots N url w =
     (case fetch_text (ve_fetch N) (ve_config N) url w of
        (r, _, w) \<Rightarrow>
          (case r of
             Inr page \<Rightarrow> Inr (Some (robots_parse (fp_body page) (fc_user_agent (ve_config N))))
           | Inl e \<Rightarrow> if e = HttpStatus 404 then Inr None else Inl e, w))"

text \<open>The rules a visit without cached ones learns, how long they stay fresh and the delay they
  ask for; \<open>None\<close> when the URL has no \<open>robots.txt\<close>.\<close>

definition learn_rules ::
    "'u url_api \<Rightarrow> 'w visit_env \<Rightarrow> crawl_job \<Rightarrow> nat option \<Rightarrow> 'w \<Rightarrow>
     (robots_rules \<times> int \<times> nat option) option \<times> 'w" where
  "learn_rules U N job delay w =
     (case robots_url U (job_url job) of
        None \<Rightarrow> (None, w)
      | Some url \<Rightarrow>
          (case fetch_robots N url w of
             (Inr (Some fetched), w) \<Rightarrow> (Some (fetched, cache_ttl_ms, crawl_delay_s fetched), w)
           | (Inr None, w) \<Rightarrow> (Some (allow_all, cache_ttl_ms, delay), w)
           | (Inl e, w) \<Rightarrow> (Some (disallow_all, unavailable_ttl_ms, delay), w)))"

definition visit_page ::
    "'u url_api \<Rightarrow> 'w visit_env \<Rightarrow> rstr \<Rightarrow> 'w \<Rightarrow> (crawl_error + visited) \<times> 'w" where
  "visit_page U N url w =
     (case fetch (ve_fetch N) (ve_config N) url w of
        (Inl e, _, w) \<Rightarrow> (Inl e, w)
      | (Inr page, _, w) \<Rightarrow>
          (let page = canonical_final_url U page; base = fp_final_url page
           in (case classify U base (fp_content_type page) of
                 KindSitemap \<Rightarrow> Inr (VisitedSitemap base (sitemap_parse U (fp_body page)))
               | KindPage \<Rightarrow>
                   (case parse_html U (ve_rewriter N) (fp_body page) base of
                      Inr parsed \<Rightarrow> Inr (VisitedPage page parsed)
                    | Inl e \<Rightarrow> Inl e), w)))"

definition visit ::
    "'u url_api \<Rightarrow> 'w visit_env \<Rightarrow> crawl_job \<Rightarrow> rstr \<Rightarrow> robots_rules option \<Rightarrow> nat option \<Rightarrow> 'w \<Rightarrow> outcome \<times> 'w"
  where
  "visit U N job host cached_rules crawl_delay w =
     (case (case cached_rules of Some _ \<Rightarrow> (None, w) | None \<Rightarrow> learn_rules U N job crawl_delay w) of
        (learnt, w) \<Rightarrow>
          (let newly_fetched = map_option fst learnt;
               rules = (case cached_rules of Some r \<Rightarrow> Some r | None \<Rightarrow> newly_fetched);
               outcome = \<lparr> oc_host = host, oc_job = job, oc_rules = newly_fetched,
                 oc_rules_ttl_ms = map_option (\<lambda>l. fst (snd l)) learnt,
                 oc_crawl_delay_s = (case learnt of Some l \<Rightarrow> snd (snd l) | None \<Rightarrow> crawl_delay),
                 oc_sitemaps = (case newly_fetched of Some r \<Rightarrow> sitemaps r | None \<Rightarrow> []),
                 oc_result = Inl DisallowedByRobots \<rparr>
           in if (case rules of Some r \<Rightarrow> \<not> robots_allows r (request_path U (job_url job)) | None \<Rightarrow> False)
              then (outcome, w)
              else (case visit_page U N (job_url job) w of
                      (r, w) \<Rightarrow> (outcome \<lparr> oc_result := r \<rparr>, w))))"

text \<open>Turning a seed into a canonical URL.\<close>

definition normalize_seed :: "'u url_api \<Rightarrow> rstr \<Rightarrow> crawl_error + rstr" where
  "normalize_seed U seed =
     (case url_parse U seed of
        None \<Rightarrow> Inl (InvalidUrl seed ''not an absolute URL'')
      | Some parsed \<Rightarrow>
          if url_scheme U parsed \<notin> {str ''http'', str ''https''}
          then Inl (InvalidUrl seed ''only http and https can be crawled'')
          else ok_or (InvalidUrl seed ''not a fetchable absolute URL'') (canonical_url U seed))"

section \<open>The requests of a visit\<close>

text \<open>A log \<open>L\<close> of the requests a network has answered.\<close>

definition logs :: "'w fetch_env \<Rightarrow> ('w \<Rightarrow> rstr list) \<Rightarrow> bool" where
  "logs F L \<longleftrightarrow> (\<forall>url w. L (snd (fn_get F url w)) = L w @ [url]) \<and> (\<forall>w. L (snd (fn_nanos F w)) = L w)"

lemma fetch_attempt_logs: "logs F L \<Longrightarrow> fetch_attempt F cfg url req w = (r, w') \<Longrightarrow> L w' = L w @ [url]"
  by (auto simp: logs_def fetch_attempt_def split: prod.splits transport.splits) (metis snd_conv)+

lemma fetch_inner_logs:
  "logs F L \<Longrightarrow> fetch_inner F cfg url req attempt w = (r, delays, w') \<Longrightarrow>
    \<exists>k \<le> fc_max_retries cfg - attempt. L w' = L w @ replicate (Suc k) url"
proof (induction F cfg url req attempt w arbitrary: r delays w' rule: fetch_inner.induct)
  case (1 F cfg url req attempt w)
  obtain a w1 where a: "fetch_attempt F cfg url req w = (a, w1)" by fastforce
  have log1: "L w1 = L w @ [url]" by (rule fetch_attempt_logs [OF "1.prems"(1) a])
  note step = fetch_inner_step [OF a, of attempt]
  show ?case
  proof (cases "\<exists>f. a = Inl f \<and> fail_retryable f \<and> attempt < fc_max_retries cfg \<and>
      (case fail_retry_after_ms f of Some ms \<Rightarrow> ms \<le> fc_backoff_cap_ms cfg | None \<Rightarrow> True)")
    case False
    then have "w' = w1" using "1.prems"(2) by (cases a) (auto simp: step split: if_splits)
    then show ?thesis using log1 by (intro exI [of _ 0]) simp
  next
    case True
    then obtain f where f: "a = Inl f" "fail_retryable f" "attempt < fc_max_retries cfg"
      "case fail_retry_after_ms f of Some ms \<Rightarrow> ms \<le> fc_backoff_cap_ms cfg | None \<Rightarrow> True" by blast
    obtain nanos w2 where n: "fn_nanos F w1 = (nanos, w2)" by fastforce
    have log2: "L w2 = L w1" using "1.prems"(1) n unfolding logs_def by (metis snd_conv)
    obtain r2 ds w3 where rec: "fetch_inner F cfg url req (attempt + 1) w2 = (r2, ds, w3)"
      using prod_cases3 by blast
    have "\<exists>k \<le> fc_max_retries cfg - (attempt + 1). L w3 = L w2 @ replicate (Suc k) url"
      by (rule "1.IH" [OF a [symmetric] f(1) _ _ n [symmetric] refl "1.prems"(1) rec])
        (use f in \<open>auto split: option.splits\<close>)
    then obtain k where k: "k \<le> fc_max_retries cfg - (attempt + 1)" "L w3 = L w2 @ replicate (Suc k) url" by blast
    have "w' = w3" using "1.prems"(2) f n rec by (simp add: step)
    then have "L w' = L w @ replicate (Suc (Suc k)) url" using k(2) log1 log2 by simp
    then show ?thesis using k(1) f(3) by (intro exI [of _ "Suc k"]) simp
  qed
qed

text \<open>The requests a fetch makes: one and up to \<open>max_retries\<close> more.\<close>

definition requested :: "fetch_config \<Rightarrow> rstr \<Rightarrow> rstr list \<Rightarrow> bool" where
  "requested cfg url reqs \<longleftrightarrow> (\<exists>k \<le> fc_max_retries cfg. reqs = replicate (Suc k) url)"

lemma visit_page_logs:
  assumes "logs (ve_fetch N) L" "visit_page U N url w = (r, w')"
  shows "\<exists>reqs. requested (ve_config N) url reqs \<and> L w' = L w @ reqs"
proof -
  obtain p ds w1 where f: "fetch (ve_fetch N) (ve_config N) url w = (p, ds, w1)" using prod_cases3 by blast
  then have "w' = w1" using assms(2) by (cases p) (simp_all add: visit_page_def Let_def)
  then show ?thesis using fetch_inner_logs [OF assms(1)] f by (fastforce simp: fetch_def requested_def)
qed

lemma fetch_robots_logs:
  assumes "logs (ve_fetch N) L" "fetch_robots N url w = (r, w')"
  shows "\<exists>reqs. requested (ve_config N) url reqs \<and> L w' = L w @ reqs"
proof -
  obtain p ds w1 where f: "fetch_text (ve_fetch N) (ve_config N) url w = (p, ds, w1)" using prod_cases3 by blast
  then have "w' = w1" using assms(2) by (simp add: fetch_robots_def)
  then show ?thesis using fetch_inner_logs [OF assms(1)] f by (fastforce simp: fetch_text_def requested_def)
qed

lemma learn_rules_logs:
  assumes "logs (ve_fetch N) L" "learn_rules U N job delay w = (learnt, w')"
  shows "\<exists>reqs. L w' = L w @ reqs \<and>
    (case robots_url U (job_url job) of
       None \<Rightarrow> learnt = None \<and> reqs = []
     | Some url \<Rightarrow> learnt \<noteq> None \<and> requested (ve_config N) url reqs)"
proof (cases "robots_url U (job_url job)")
  case None
  then show ?thesis using assms(2) by (simp add: learn_rules_def)
next
  case (Some url)
  obtain r w1 where f: "fetch_robots N url w = (r, w1)" by fastforce
  then have "w' = w1" "learnt \<noteq> None"
    using assms(2) Some by (auto simp: learn_rules_def split: sum.splits option.splits)
  then show ?thesis using fetch_robots_logs [OF assms(1) f] Some by auto
qed

text \<open>The rules a visit applies: the cached ones, or those it has just learnt.\<close>

definition rules_in_force :: "robots_rules option \<Rightarrow> outcome \<Rightarrow> robots_rules option" where
  "rules_in_force cached_rules out = (case cached_rules of Some r \<Rightarrow> Some r | None \<Rightarrow> oc_rules out)"

definition page_allowed :: "'u url_api \<Rightarrow> robots_rules option \<Rightarrow> rstr \<Rightarrow> bool" where
  "page_allowed U rules url \<longleftrightarrow> (case rules of Some r \<Rightarrow> robots_allows r (request_path U url) | None \<Rightarrow> True)"

lemma visit_cases:
  assumes "visit U N job host cached_rules delay w = (out, w2)"
  obtains learnt w1 where
    "(case cached_rules of Some _ \<Rightarrow> (None, w) | None \<Rightarrow> learn_rules U N job delay w) = (learnt, w1)"
    "oc_host out = host" "oc_job out = job" "oc_rules out = map_option fst learnt"
    "oc_sitemaps out = (case oc_rules out of Some r \<Rightarrow> sitemaps r | None \<Rightarrow> [])"
    "if page_allowed U (rules_in_force cached_rules out) (job_url job)
     then visit_page U N (job_url job) w1 = (oc_result out, w2)
     else oc_result out = Inl DisallowedByRobots \<and> w2 = w1"
proof -
  obtain learnt w1 where
    l: "(case cached_rules of Some _ \<Rightarrow> (None, w) | None \<Rightarrow> learn_rules U N job delay w) = (learnt, w1)" by fastforce
  obtain r w3 where p: "visit_page U N (job_url job) w1 = (r, w3)" by fastforce
  note v = assms [unfolded visit_def l prod.case Let_def p]
  have sel: "oc_host out = host" "oc_job out = job" "oc_rules out = map_option fst learnt"
    "oc_sitemaps out = (case oc_rules out of Some r \<Rightarrow> sitemaps r | None \<Rightarrow> [])"
    using v by (auto split: if_splits)
  have "(case (case cached_rules of Some r \<Rightarrow> Some r | None \<Rightarrow> map_option fst learnt) of
       Some r \<Rightarrow> \<not> robots_allows r (request_path U (job_url job)) | None \<Rightarrow> False) =
     (\<not> page_allowed U (rules_in_force cached_rules out) (job_url job))"
    by (cases cached_rules; cases learnt) (simp_all add: page_allowed_def rules_in_force_def sel(3))
  then have "if page_allowed U (rules_in_force cached_rules out) (job_url job)
     then visit_page U N (job_url job) w1 = (oc_result out, w2)
     else oc_result out = Inl DisallowedByRobots \<and> w2 = w1"
    using v p by (auto split: if_splits)
  then show thesis by (rule that [OF l sel])
qed

text \<open>C8: a visit asks for the page only if the rules in force allow its path. Its requests are
  first, when no rules were cached and the URL has a \<open>robots.txt\<close>, one or more for that file and
  nothing else, then, only when the cached or the learnt rules allow the path, one or more for the
  page; each at most \<open>max_retries + 1\<close> times. When the rules forbid the page the visit says so.\<close>

theorem visit_respects_robots:
  assumes "logs (ve_fetch N) L" "visit U N job host cached_rules delay w = (out, w')"
  shows "\<exists>robots page. L w' = L w @ robots @ page \<and>
    (case if cached_rules = None then robots_url U (job_url job) else None of
       Some url \<Rightarrow> requested (ve_config N) url robots
     | None \<Rightarrow> robots = [] \<and> oc_rules out = None) \<and>
    (if page_allowed U (rules_in_force cached_rules out) (job_url job)
     then requested (ve_config N) (job_url job) page
     else page = [] \<and> oc_result out = Inl DisallowedByRobots)"
proof -
  obtain learnt w1 where v:
    "(case cached_rules of Some _ \<Rightarrow> (None, w) | None \<Rightarrow> learn_rules U N job delay w) = (learnt, w1)"
    "oc_rules out = map_option fst learnt"
    "if page_allowed U (rules_in_force cached_rules out) (job_url job)
     then visit_page U N (job_url job) w1 = (oc_result out, w')
     else oc_result out = Inl DisallowedByRobots \<and> w' = w1"
    by (rule visit_cases [OF assms(2)])
  have "\<exists>robots. L w1 = L w @ robots \<and>
    (case if cached_rules = None then robots_url U (job_url job) else None of
       Some url \<Rightarrow> requested (ve_config N) url robots
     | None \<Rightarrow> robots = [] \<and> oc_rules out = None)"
  proof (cases cached_rules)
    case None
    then have "learn_rules U N job delay w = (learnt, w1)" using v(1) by simp
    from learn_rules_logs [OF assms(1) this] show ?thesis using None v(2) by (cases learnt) (auto split: option.splits)
  next
    case (Some r)
    then show ?thesis using v(1,2) by (intro exI [of _ "[]"]) auto
  qed
  then obtain robots where rb: "L w1 = L w @ robots"
    "case if cached_rules = None then robots_url U (job_url job) else None of
       Some url \<Rightarrow> requested (ve_config N) url robots
     | None \<Rightarrow> robots = [] \<and> oc_rules out = None" by blast
  have "\<exists>page. L w' = L w1 @ page \<and> (if page_allowed U (rules_in_force cached_rules out) (job_url job)
     then requested (ve_config N) (job_url job) page
     else page = [] \<and> oc_result out = Inl DisallowedByRobots)"
    using v(3) visit_page_logs [OF assms(1), of U "job_url job" w1 "oc_result out" w']
    by (auto split: if_splits)
  then show ?thesis using rb by (metis append_assoc)
qed

text \<open>A network that keeps a log and answers every request with the same response.\<close>

definition log_env :: "http_response \<Rightarrow> rstr list fetch_env" where
  "log_env resp =
     \<lparr> fn_get = (\<lambda>url w. (Responded resp, w @ [url])), fn_nanos = (\<lambda>w. (0, w)),
       fn_hash = (\<lambda>bs. length bs), fn_gunzip = (\<lambda>bs cap. None), fn_encoding = (\<lambda>l. None) \<rparr>"

definition log_visit_env :: "http_response \<Rightarrow> rstr list visit_env" where
  "log_visit_env resp =
     \<lparr> ve_fetch = log_env resp, ve_config = fetch_config_default [], ve_rewriter = (\<lambda>_. ([], None)) \<rparr>"

lemma log_env_logs: "logs (ve_fetch (log_visit_env resp)) (\<lambda>w. w)"
  by (simp add: logs_def log_visit_env_def log_env_def)

definition toy_job :: crawl_job where
  "toy_job = \<lparr> job_url = str ''http://a.b/x'', job_depth = 0 \<rparr>"

theorem visit_respects_robots_witness:
  "snd (visit mini_url (log_visit_env (toy_response 200 [])) toy_job (str ''a.b'') (Some disallow_all) None []) = []"
proof -
  let ?v = "visit mini_url (log_visit_env (toy_response 200 [])) toy_job (str ''a.b'') (Some disallow_all) None []"
  have "\<not> robots_allows disallow_all (request_path mini_url (job_url toy_job))" by code_simp
  then have "\<not> page_allowed mini_url (rules_in_force (Some disallow_all) (fst ?v)) (job_url toy_job)"
    by (simp add: page_allowed_def rules_in_force_def)
  then show ?thesis
    using visit_respects_robots [OF log_env_logs, of mini_url "toy_response 200 []" toy_job "str ''a.b''"
        "Some disallow_all" None "[]" "fst ?v" "snd ?v"] by (auto simp del: str_simps)
qed

end
