(* ===== verification/Dedup.thy ===== *)
theory Dedup
  imports Atomic Crawl_Error Complex_Main "HOL-Library.Sublist"
begin

text \<open>
  \<open>crates/crawler/src/dedup.rs\<close>: the filter of URLs already seen. The growable Bloom filter is
  third-party code: a record of its calls with the one fact the crawler relies on, that an
  inserted URL stays contained. The floating-point logarithms of the sizes that \<open>DedupConfig\<close> reports are
  a parameter as well; the rate is a rational number.

  The interface \<open>seen_set\<close> is what the crawl loop uses of it: a URL is reported new once, where it is
  first offered, and only if the filter does not contain it yet. A false positive of the filter
  hides a new URL; \<open>bloom_exact\<close> describes a filter that has none.
\<close>

record 'b bloom_api =
  bloom_new :: "rat \<Rightarrow> nat \<Rightarrow> 'b"
  bloom_contains :: "'b \<Rightarrow> rstr \<Rightarrow> bool"
  bloom_insert :: "rstr \<Rightarrow> 'b \<Rightarrow> 'b"

definition bloom_ok :: "'b bloom_api \<Rightarrow> bool" where
  "bloom_ok B \<longleftrightarrow>
     (\<forall>b u. bloom_contains B (bloom_insert B u b) u) \<and>
     (\<forall>b u v. bloom_contains B b v \<longrightarrow> bloom_contains B (bloom_insert B u b) v)"

definition bloom_exact :: "'b bloom_api \<Rightarrow> bool" where
  "bloom_exact B \<longleftrightarrow> (\<forall>b u v. bloom_contains B (bloom_insert B u b) v \<longleftrightarrow> v = u \<or> bloom_contains B b v)"

record dedup_config =
  expected_urls :: nat
  false_positive_rate :: rat

record 'b seen_urls =
  seen_config :: dedup_config
  seen_filter :: 'b
  seen_path :: path
  seen_inserted :: nat

definition dedup_config_default :: dedup_config where
  "dedup_config_default = \<lparr> expected_urls = 100000000, false_positive_rate = 1 / 100 \<rparr>"

section \<open>The size of the filter\<close>

text \<open>The operations of \<open>f64\<close> that the estimates use; \<open>exact_sizing\<close> are the real numbers, with the
  casts that clip to the range of the integer type.\<close>

record 'f sizing_ops =
  sz_of_nat :: "nat \<Rightarrow> 'f"
  sz_of_rat :: "rat \<Rightarrow> 'f"
  sz_ln2 :: 'f
  sz_neg :: "'f \<Rightarrow> 'f"
  sz_mul :: "'f \<Rightarrow> 'f \<Rightarrow> 'f"
  sz_div :: "'f \<Rightarrow> 'f \<Rightarrow> 'f"
  sz_ln :: "'f \<Rightarrow> 'f"
  sz_ceil :: "'f \<Rightarrow> 'f"
  sz_round :: "'f \<Rightarrow> 'f"
  sz_max :: "'f \<Rightarrow> 'f \<Rightarrow> 'f"
  sz_u64 :: "'f \<Rightarrow> nat"
  sz_u32 :: "'f \<Rightarrow> nat"

definition dedup_bits :: "'f sizing_ops \<Rightarrow> dedup_config \<Rightarrow> nat" where
  "dedup_bits F config =
     (if expected_urls config = 0 \<or> false_positive_rate config \<le> 0 then 0
      else (let n = sz_of_nat F (expected_urls config); ln2 = sz_ln2 F
            in sz_u64 F (sz_ceil F (sz_div F
                 (sz_mul F (sz_neg F n) (sz_ln F (sz_of_rat F (false_positive_rate config)))) (sz_mul F ln2 ln2)))))"

definition dedup_bytes :: "'f sizing_ops \<Rightarrow> dedup_config \<Rightarrow> nat" where
  "dedup_bytes F config = dedup_bits F config div 8"

definition dedup_hash_functions :: "'f sizing_ops \<Rightarrow> dedup_config \<Rightarrow> nat" where
  "dedup_hash_functions F config =
     (if expected_urls config = 0 \<or> dedup_bits F config = 0 then 0
      else (let m = sz_of_nat F (dedup_bits F config); n = sz_of_nat F (expected_urls config)
            in sz_u32 F (sz_max F (sz_round F (sz_mul F (sz_div F m n) (sz_ln2 F))) (sz_of_rat F 1))))"

definition exact_sizing :: "real sizing_ops" where
  "exact_sizing = \<lparr> sz_of_nat = real, sz_of_rat = of_rat, sz_ln2 = ln 2, sz_neg = uminus, sz_mul = (*), sz_div = (/),
     sz_ln = ln, sz_ceil = (\<lambda>x. of_int \<lceil>x\<rceil>), sz_round = (\<lambda>x. sgn x * of_int \<lfloor>\<bar>x\<bar> + 1 / 2\<rfloor>), sz_max = max,
     sz_u64 = (\<lambda>x. min (2 ^ 64 - 1) (nat \<lfloor>x\<rfloor>)), sz_u32 = (\<lambda>x. min (2 ^ 32 - 1) (nat \<lfloor>x\<rfloor>)) \<rparr>"

text \<open>In exact arithmetic, and within the range of \<open>u64\<close>, the size is enough: the rate of false
  positives of the best filter of \<open>m\<close> bits for \<open>n\<close> URLs, \<open>2\<close> to the \<open>- (m / n) * ln 2\<close>, is at most the
  configured one.\<close>

lemma dedup_bits_enough:
  fixes config :: dedup_config
  defines "n \<equiv> real (expected_urls config)" and "p \<equiv> of_rat (false_positive_rate config) :: real"
    and "m \<equiv> real (dedup_bits exact_sizing config)"
  assumes "0 < expected_urls config" "0 < false_positive_rate config" "false_positive_rate config < 1"
    and "- n * ln p / (ln 2 * ln 2) \<le> 2 ^ 64 - 1"
  shows "2 powr (- (m / n * ln 2)) \<le> p"
proof -
  have p: "0 < p" "p < 1" using assms(5,6) by (simp_all add: p_def)
  have n: "0 < n" using assms(4) by (simp add: n_def)
  define x where "x = - n * ln p / (ln 2 * ln 2)"
  have "n * ln p \<le> 0" using n p by (simp add: mult_le_0_iff)
  then have "0 \<le> x" unfolding x_def by (intro divide_nonneg_nonneg) simp_all
  have "\<lceil>x\<rceil> \<le> 2 ^ 64 - 1" using assms(7) unfolding x_def [symmetric] by (simp add: ceiling_le_iff)
  then have "nat \<lceil>x\<rceil> \<le> 2 ^ 64 - 1" by (simp add: nat_le_iff)
  moreover have "dedup_bits exact_sizing config = min (2 ^ 64 - 1) (nat \<lceil>x\<rceil>)"
    using assms(4,5) by (simp add: dedup_bits_def exact_sizing_def Let_def x_def n_def p_def)
  ultimately have "dedup_bits exact_sizing config = nat \<lceil>x\<rceil>" by (simp only: min_absorb2)
  then have "x \<le> m" using \<open>0 \<le> x\<close> by (simp add: m_def)
  then have "- n * ln p \<le> m * (ln 2 * ln 2)" unfolding x_def by (subst (asm) pos_divide_le_eq) simp_all
  then have "- ln p \<le> m / n * ln 2 * ln 2" using n by (simp add: field_simps)
  then have "- (m / n * ln 2) * ln 2 \<le> ln p" by simp
  then have "exp (- (m / n * ln 2) * ln 2) \<le> exp (ln p)" by (simp only: exp_le_cancel_iff)
  then show ?thesis using p(1) by (simp add: powr_def)
qed

section \<open>The filter\<close>

definition dedup_fresh :: "'b bloom_api \<Rightarrow> dedup_config \<Rightarrow> 'b" where
  "dedup_fresh B config =
     bloom_new B (max (1 / 1000000000) (min (1 / 2) (false_positive_rate config)))
       (max (expected_urls config) 1)"

definition seen_open ::
    "'b bloom_api \<Rightarrow> 'b codec \<Rightarrow> path \<Rightarrow> dedup_config \<Rightarrow> fs \<Rightarrow> (crawl_error + 'b seen_urls) \<times> fs" where
  "seen_open B C p config s =
     (case file_read p s of
        (r, s') \<Rightarrow>
          (let filter = (case r of
                           Inr bs \<Rightarrow> (case decode C bs of Inr b \<Rightarrow> b | Inl _ \<Rightarrow> dedup_fresh B config)
                         | Inl _ \<Rightarrow> dedup_fresh B config)
           in (Inr \<lparr> seen_config = config, seen_filter = filter, seen_path = p, seen_inserted = 0 \<rparr>, s')))"

definition check_and_insert :: "'b bloom_api \<Rightarrow> rstr \<Rightarrow> 'b seen_urls \<Rightarrow> bool \<times> 'b seen_urls" where
  "check_and_insert B url st =
     (if bloom_contains B (seen_filter st) url then (False, st)
      else (True, st \<lparr> seen_filter := bloom_insert B url (seen_filter st),
                      seen_inserted := wrap_add_u64 (seen_inserted st) 1 \<rparr>))"

definition seen_save :: "'b codec \<Rightarrow> 'b seen_urls \<Rightarrow> fs \<Rightarrow> (crawl_error + unit) \<times> fs" where
  "seen_save C st s =
     (case map_err CacheEncode (encode C (seen_filter st)) of
        Inl e \<Rightarrow> (Inl e, s)
      | Inr encoded \<Rightarrow>
          (case replace_file (seen_path st) (str ''bloom.tmp'') encoded s of (r, s) \<Rightarrow> (map_err Io r, s)))"

section \<open>The set of seen URLs as an interface\<close>

locale seen_set =
  fixes valid :: "'e \<Rightarrow> bool"
    and contains :: "'e \<Rightarrow> 's \<Rightarrow> rstr \<Rightarrow> bool"
    and check :: "'e \<Rightarrow> rstr \<Rightarrow> 's \<Rightarrow> bool \<times> 's"
  assumes check_new: "check e u s = (b, s') \<Longrightarrow> b = (\<not> contains e s u)"
    and check_adds: "valid e \<Longrightarrow> check e u s = (b, s') \<Longrightarrow> contains e s' u"
    and check_keeps: "valid e \<Longrightarrow> check e u s = (b, s') \<Longrightarrow> contains e s v \<Longrightarrow> contains e s' v"
begin

fun check_all :: "'e \<Rightarrow> rstr list \<Rightarrow> 's \<Rightarrow> rstr list \<times> 's" where
  "check_all e [] s = ([], s)"
| "check_all e (u # us) s =
     (case check e u s of
        (b, s') \<Rightarrow> (case check_all e us s' of (new, s'') \<Rightarrow> (if b then u # new else new, s'')))"

lemma check_all_append:
  "check_all e (xs @ ys) s =
     (case check_all e xs s of (new, s') \<Rightarrow> (case check_all e ys s' of (new', s'') \<Rightarrow> (new @ new', s'')))"
  by (induction xs arbitrary: s) (simp_all split: prod.split)

lemma check_all_subseq: "subseq (fst (check_all e us s)) us"
proof (induction us arbitrary: s)
  case (Cons u us)
  then show ?case by (auto simp: split_beta intro: list_emb_Cons)
qed simp

lemma check_all_spec:
  assumes "valid e" "check_all e us s = (new, s')"
  shows "distinct new \<and> set new \<subseteq> set us \<and> (\<forall>u \<in> set new. \<not> contains e s u) \<and>
    (\<forall>u \<in> set us. contains e s' u) \<and> (\<forall>v. contains e s v \<longrightarrow> contains e s' v)"
  using assms(2)
proof (induction us arbitrary: s new)
  case Nil
  then show ?case by simp
next
  case (Cons u us)
  obtain b s1 where b: "check e u s = (b, s1)" by fastforce
  obtain new1 where n: "check_all e us s1 = (new1, s')" "new = (if b then u # new1 else new1)"
    using Cons.prems b by (auto split: prod.splits)
  note IH = Cons.IH [OF n(1)]
  have "contains e s1 u" "\<And>v. contains e s v \<Longrightarrow> contains e s1 v"
    using check_adds [OF assms(1) b] check_keeps [OF assms(1) b] by auto
  then show ?case using IH n(2) check_new [OF b] by auto
qed

text \<open>Where a URL is first offered, it is reported new exactly if it is not contained by then.\<close>

lemma check_all_first:
  assumes "valid e" "u \<notin> set xs"
  shows "u \<in> set (fst (check_all e (xs @ u # ys) s)) \<longleftrightarrow> \<not> contains e (snd (check_all e xs s)) u"
proof -
  obtain new1 s1 where x: "check_all e xs s = (new1, s1)" by fastforce
  obtain b s2 where c: "check e u s1 = (b, s2)" by fastforce
  obtain new2 s3 where y: "check_all e ys s2 = (new2, s3)" by fastforce
  have "u \<notin> set new1" "u \<notin> set new2"
    using check_all_spec [OF assms(1) x] check_all_spec [OF assms(1) y] check_adds [OF assms(1) c] assms(2) by auto
  then show ?thesis using check_new [OF c] by (simp add: check_all_append x c y)
qed

end

interpretation seen: seen_set bloom_ok "\<lambda>B st. bloom_contains B (seen_filter st)" check_and_insert
  by unfold_locales (auto simp: check_and_insert_def bloom_ok_def split: if_splits)

section \<open>Properties\<close>

fun check_urls :: "'b bloom_api \<Rightarrow> rstr list \<Rightarrow> 'b seen_urls \<Rightarrow> rstr list \<times> 'b seen_urls" where
  "check_urls B [] st = ([], st)"
| "check_urls B (u # us) st =
     (case check_and_insert B u st of
        (b, st') \<Rightarrow> (case check_urls B us st' of (new, st'') \<Rightarrow> (if b then u # new else new, st'')))"

lemma check_urls_seen: "check_urls B us st = seen.check_all B us st"
  by (induction us arbitrary: st) simp_all

lemma check_urls_filter_exact:
  assumes "bloom_exact B"
  shows "bloom_contains B (seen_filter (snd (check_urls B us st))) v \<longleftrightarrow>
    v \<in> set us \<or> bloom_contains B (seen_filter st) v"
proof (induction us arbitrary: st)
  case (Cons u us)
  then show ?case using assms by (auto simp: check_and_insert_def bloom_exact_def split_beta)
qed simp

lemma check_urls_inserted:
  "check_urls B us st = (new, st') \<Longrightarrow> seen_inserted st < 2 ^ 64 \<Longrightarrow>
   seen_inserted st' = (seen_inserted st + length new) mod 2 ^ 64"
proof (induction us arbitrary: st new)
  case (Cons u us)
  obtain b st1 where b: "check_and_insert B u st = (b, st1)" by fastforce
  obtain new1 where n: "check_urls B us st1 = (new1, st')" "new = (if b then u # new1 else new1)"
    using Cons.prems(1) b by (auto split: prod.splits)
  have c: "seen_inserted st1 = (seen_inserted st + (if b then 1 else 0)) mod 2 ^ 64"
    using b Cons.prems(2) by (auto simp: check_and_insert_def wrap_add_u64_def split: if_splits)
  then have "seen_inserted st1 < 2 ^ 64" by simp
  from Cons.IH [OF n(1) this] show ?case by (cases b) (simp_all add: n(2) c mod_simps)
qed simp

text \<open>What is new among a list of URLs, over the calls of the filter alone.\<close>

fun new_urls :: "'b bloom_api \<Rightarrow> rstr list \<Rightarrow> 'b \<Rightarrow> rstr list" where
  "new_urls B [] b = []"
| "new_urls B (u # us) b =
     (if bloom_contains B b u then new_urls B us b else u # new_urls B us (bloom_insert B u b))"

lemma check_urls_new: "check_urls B us st = (new, st') \<Longrightarrow> new = new_urls B us (seen_filter st)"
proof (induction us arbitrary: st new)
  case (Cons u us)
  then show ?case by (fastforce simp: check_and_insert_def split: prod.splits if_splits)
qed simp

text \<open>With an exact filter these are all the URLs it does not contain.\<close>

lemma new_urls_exact:
  assumes "bloom_exact B"
  shows "set (new_urls B us b) = {u \<in> set us. \<not> bloom_contains B b u}"
proof (induction us arbitrary: b)
  case (Cons u us)
  then show ?case using assms by (auto simp: bloom_exact_def)
qed simp

text \<open>C20: over any list of URLs, a URL is reported new exactly if the filter does not contain it where
  the list first offers it: once, in the order of the list, never again once the list has been
  checked, and counted. Nothing the filter contained is forgotten. With a filter without false
  positives the URLs reported are all those it did not contain before.\<close>

theorem check_urls_once:
  assumes "bloom_ok B" "check_urls B us st = (new, st')"
  shows "distinct new \<and> subseq new us \<and>
    (\<forall>xs u ys. us = xs @ u # ys \<and> u \<notin> set xs \<longrightarrow>
       (u \<in> set new \<longleftrightarrow> \<not> bloom_contains B (seen_filter (snd (check_urls B xs st))) u)) \<and>
    (bloom_exact B \<longrightarrow> set new = {u \<in> set us. \<not> bloom_contains B (seen_filter st) u}) \<and>
    fst (check_urls B us st') = [] \<and>
    {u. bloom_contains B (seen_filter st) u} \<union> set us \<subseteq> {u. bloom_contains B (seen_filter st') u} \<and>
    (seen_inserted st < 2 ^ 64 \<longrightarrow> seen_inserted st' = (seen_inserted st + length new) mod 2 ^ 64)"
proof -
  have c: "seen.check_all B us st = (new, st')" using assms(2) by (simp add: check_urls_seen)
  note one = seen.check_all_spec [OF assms(1) c]
  obtain new2 st2 where c2: "seen.check_all B us st' = (new2, st2)" by fastforce
  have "new2 = []" using seen.check_all_spec [OF assms(1) c2] one by (cases new2) auto
  then have again: "fst (check_urls B us st') = []" using c2 by (simp add: check_urls_seen)
  have first: "u \<in> set new \<longleftrightarrow> \<not> bloom_contains B (seen_filter (snd (check_urls B xs st))) u"
    if "us = xs @ u # ys" "u \<notin> set xs" for xs u ys
    using seen.check_all_first [OF assms(1) that(2), of ys st] c that(1) by (simp add: check_urls_seen)
  have exact: "set new = {u \<in> set us. \<not> bloom_contains B (seen_filter st) u}" if "bloom_exact B"
    using new_urls_exact [OF that] check_urls_new [OF assms(2)] by simp
  have "subseq new us" using seen.check_all_subseq [of B us st] c by simp
  then show ?thesis using one again first exact check_urls_inserted [OF assms(2)] by blast
qed

text \<open>A filter that is the list of the URLs put in.\<close>

definition list_bloom :: "rstr list bloom_api" where
  "list_bloom = \<lparr> bloom_new = (\<lambda>_ _. []), bloom_contains = (\<lambda>b u. u \<in> set b), bloom_insert = (#) \<rparr>"

lemma list_bloom_ok: "bloom_ok list_bloom" "bloom_exact list_bloom"
  by (simp_all add: bloom_ok_def bloom_exact_def list_bloom_def)

theorem check_urls_once_witness:
  "set (fst (check_urls list_bloom [[1], [2], [1], [3]]
     \<lparr> seen_config = \<lparr> expected_urls = 3, false_positive_rate = 1 \<rparr>, seen_filter = [[2]],
       seen_path = (str ''d'', str ''seen.bloom''), seen_inserted = 0 \<rparr>)) = {[1], [3]} \<and>
   distinct [[1 :: nat], [3]]"
proof -
  let ?st = "\<lparr> seen_config = \<lparr> expected_urls = 3, false_positive_rate = 1 \<rparr>, seen_filter = [[2 :: nat]],
       seen_path = (str ''d'', str ''seen.bloom''), seen_inserted = 0 \<rparr>"
  obtain st' where st': "check_urls list_bloom [[1], [2], [1], [3]] ?st = ([[1], [3]], st')"
    by (simp add: check_and_insert_def list_bloom_def)
  have "{u \<in> set [[1], [2], [1], [3]]. \<not> bloom_contains list_bloom (seen_filter ?st) u} = {[1], [3]}"
    by (auto simp: list_bloom_def)
  with check_urls_once [OF list_bloom_ok(1) st'] list_bloom_ok(2) st' show ?thesis by simp
qed

lemma seen_save_Inr:
  assumes "seen_save C st s = (Inr u, s')"
  shows "\<exists>bs. encode C (seen_filter st) = Inr bs \<and> fs_file s' (seen_path st) = Some bs"
  using assms replace_file_Inr [OF _ dotted_tmp(1)]
  by (auto simp: seen_save_def map_err_def split: sum.splits prod.splits)

lemma seen_save_Inl:
  assumes "seen_save C st s = (Inl e, s')"
  shows "fs_file s' (seen_path st) = fs_file s (seen_path st)"
  using assms replace_file_Inl [OF _ dotted_tmp(1)]
  by (auto simp: seen_save_def map_err_def split: sum.splits prod.splits)

section \<open>The filter as a file that is saved whole\<close>

text \<open>What the next start works with.\<close>

definition loaded_filter :: "'b bloom_api \<Rightarrow> 'b codec \<Rightarrow> path \<Rightarrow> dedup_config \<Rightarrow> fs \<Rightarrow> 'b option" where
  "loaded_filter B C p config s = (case seen_open B C p config s of (Inr st, _) \<Rightarrow> Some (seen_filter st) | (Inl _, _) \<Rightarrow> None)"

interpretation filter_file: saved_value "\<lambda>(B, C, config). seen_save C" "\<lambda>e. seen_path"
    "\<lambda>(B, C, config) st bs. encode C (seen_filter st) = Inr bs" "\<lambda>(B, C, config). codec_ok C"
    "\<lambda>(B, C, config) p s. loaded_filter B C p config s" "\<lambda>e st. Some (seen_filter st)"
  by unfold_locales
    (auto simp: seen_save_Inr seen_save_Inl loaded_filter_def seen_open_def file_read_def fs_call_def codec_ok_def
      split: option.split)

text \<open>C21: the filter survives failing saves: over any sequence of saves, with the disk failing at
  any call and anything happening to other files in between, the next start works with the filter
  of the last save that succeeded, and with what the file held before when none did.\<close>

theorem filter_saves_durable:
  assumes "codec_ok C" "save_all (seen_save C) calls None s = (last_saved, s')" "saves_to p seen_path calls"
    and "fs_answers s' = []"
  shows "loaded_filter B C p config s' =
    (case last_saved of
       None \<Rightarrow> loaded_filter B C p config (s \<lparr> fs_answers := [] \<rparr>)
     | Some st \<Rightarrow> Some (seen_filter st))"
  using filter_file.load_last [of "(B, C, config)" calls s last_saved s' p] assms by (cases last_saved) simp_all

text \<open>A single save, seen from the state it starts in.\<close>

theorem seen_save_atomic:
  assumes "codec_ok C" "seen_save C st s = (r, s')" "fs_file s (seen_path st) = Some old"
    and "fs_answers s' = []" "seen_open B C (seen_path st) config s' = (Inr st', s'')"
  shows "seen_filter st' =
    (case r of
       Inr _ \<Rightarrow> seen_filter st
     | Inl _ \<Rightarrow> (case decode C old of Inr b \<Rightarrow> b | Inl _ \<Rightarrow> dedup_fresh B config))"
proof (cases r)
  case (Inl e)
  then show ?thesis
    using seen_save_Inl [of C st s e s'] assms
    by (auto simp: seen_open_def file_read_def fs_call_def)
next
  case (Inr u)
  then obtain bs where "encode C (seen_filter st) = Inr bs" "fs_file s' (seen_path st) = Some bs"
    using seen_save_Inr [of C st s u s'] assms(2) by auto
  then show ?thesis
    using Inr assms(1,4,5) by (auto simp: codec_ok_def seen_open_def file_read_def fs_call_def)
qed

definition list_bloom_codec :: "rstr list codec" where
  "list_bloom_codec =
     \<lparr> encode = (\<lambda>b. case b of [u] \<Rightarrow> Inr u | _ \<Rightarrow> Inl ''length''), decode = (\<lambda>bs. Inr [bs]) \<rparr>"

theorem seen_save_atomic_witness:
  "\<exists>s' st' s''. seen_save list_bloom_codec
       \<lparr> seen_config = \<lparr> expected_urls = 3, false_positive_rate = 1 \<rparr>, seen_filter = [[7]],
         seen_path = (str ''d'', str ''seen.bloom''), seen_inserted = 1 \<rparr>
       \<lparr> fs_files = [((str ''d'', str ''seen.bloom''), [9])], fs_dirs = [str ''d''], fs_answers = [],
         fs_write_faults = [], fs_read_answers = [] \<rparr> = (Inr (), s') \<and>
     seen_open list_bloom list_bloom_codec (str ''d'', str ''seen.bloom'')
       \<lparr> expected_urls = 3, false_positive_rate = 1 \<rparr> s' = (Inr st', s'') \<and> seen_filter st' = [[7]]"
proof -
  let ?c = "\<lparr> expected_urls = 3, false_positive_rate = 1 \<rparr>" and ?p = "(str ''d'', str ''seen.bloom'')"
  let ?st = "\<lparr> seen_config = ?c, seen_filter = [[7]], seen_path = ?p, seen_inserted = 1 \<rparr>"
  let ?s = "\<lparr> fs_files = [(?p, [9])], fs_dirs = [str ''d''], fs_answers = [], fs_write_faults = [], fs_read_answers = [] \<rparr>"
  have ok: "codec_ok list_bloom_codec"
    by (auto simp: codec_ok_def list_bloom_codec_def split: list.splits)
  have ext: "with_extension (str ''seen.bloom'') (str ''bloom.tmp'') = str ''seen.bloom.tmp''"
    by code_simp
  obtain s' where save: "seen_save list_bloom_codec ?st ?s = (Inr (), s')" "fs_answers s' = []"
    by (auto simp: seen_save_def replace_file_def list_bloom_codec_def Let_def ext create_dir_all_def fs_call_def
        file_write_def fs_rename_def fs_file_def fs_set_def fs_delete_def)
  obtain st' s'' where o: "seen_open list_bloom list_bloom_codec ?p ?c s' = (Inr st', s'')"
    by (cases "file_read ?p s'") (simp add: seen_open_def Let_def)
  have "fs_file ?s (seen_path ?st) = Some [9]" by (simp add: fs_file_def)
  from seen_save_atomic [OF ok save(1) this save(2), of list_bloom ?c st' s''] o
  have "seen_filter st' = [[7]]" by simp
  then show ?thesis using save(1) o by blast
qed

text \<open>Two saves, the second of which fails when it renames.\<close>

definition toy_seen :: "rstr \<Rightarrow> rstr list seen_urls" where
  "toy_seen u = \<lparr> seen_config = \<lparr> expected_urls = 3, false_positive_rate = 1 \<rparr>, seen_filter = [u],
     seen_path = (str ''d'', str ''seen.bloom''), seen_inserted = 1 \<rparr>"

definition toy_calls :: "((fs \<Rightarrow> fs) \<times> rstr list seen_urls) list" where
  "toy_calls = [(\<lambda>s. s, toy_seen [7]),
     (\<lambda>s. s \<lparr> fs_answers := [Succeeds, Succeeds, FailsAfter 0 not_found] \<rparr>, toy_seen [8])]"

definition toy_seen_disk :: fs where
  "toy_seen_disk = \<lparr> fs_files = [], fs_dirs = [], fs_answers = [], fs_write_faults = [], fs_read_answers = [] \<rparr>"

theorem filter_saves_durable_witness:
  "\<exists>s'. save_all (seen_save list_bloom_codec) toy_calls None toy_seen_disk = (Some (toy_seen [7]), s') \<and>
     loaded_filter list_bloom list_bloom_codec (str ''d'', str ''seen.bloom'') (seen_config (toy_seen [7])) s' = Some [[7]]"
proof -
  have ok: "codec_ok list_bloom_codec"
    by (auto simp: codec_ok_def list_bloom_codec_def split: list.splits)
  have ext: "with_extension (str ''seen.bloom'') (str ''bloom.tmp'') = str ''seen.bloom.tmp''"
    by code_simp
  obtain s' where run: "save_all (seen_save list_bloom_codec) toy_calls None toy_seen_disk = (Some (toy_seen [7]), s')"
    "fs_answers s' = []"
    by (auto simp: toy_calls_def toy_seen_def toy_seen_disk_def seen_save_def replace_file_def list_bloom_codec_def Let_def
        ext create_dir_all_def fs_call_def file_write_def fs_rename_def fs_file_def fs_set_def fs_delete_def)
  have "saves_to (str ''d'', str ''seen.bloom'') seen_path toy_calls" by (simp add: toy_calls_def toy_seen_def)
  from filter_saves_durable [OF ok run(1) this run(2), of list_bloom "seen_config (toy_seen [7])"] run(1)
  show ?thesis by (auto simp: toy_seen_def)
qed

end
