(* ===== verification/Calendar.thy ===== *)
theory Calendar
  imports Rstring
begin

text \<open>
  The dates of \<open>crates/crawler/src/storage.rs\<close>: \<open>civil_from_days\<close> and \<open>iso8601\<close>. The
  arithmetic is on \<open>int\<close>: the \<open>i64\<close> and \<open>u64\<close> operations of the code do not overflow for any
  timestamp whose day number is below \<open>2 ^ 62\<close>, and every \<open>as u64\<close> is applied to a value that is
  not negative.

  The reference is the Gregorian calendar itself: which years are leap years, how long the
  months are and which day follows a day. \<open>civil_from_days\<close> is shown to count along it.
\<close>

text \<open>Rust's division truncates towards zero.\<close>

definition tdiv :: "int \<Rightarrow> int \<Rightarrow> int" where
  "tdiv a b = (if 0 \<le> a then a div b else - (- a div b))"

definition civil_from_days :: "int \<Rightarrow> int \<times> int \<times> int" where
  "civil_from_days days =
     (let shifted = days + 719468;
          era = tdiv (if 0 \<le> shifted then shifted else shifted - 146096) 146097;
          day_of_era = shifted - era * 146097;
          year_of_era = (day_of_era - day_of_era div 1460 + day_of_era div 36524 - day_of_era div 146096) div 365;
          year = year_of_era + era * 400;
          day_of_year = day_of_era - (365 * year_of_era + year_of_era div 4 - year_of_era div 100);
          month_prime = (5 * day_of_year + 2) div 153;
          day = day_of_year - (153 * month_prime + 2) div 5 + 1;
          month = (if month_prime < 10 then month_prime + 3 else month_prime - 9)
      in (if month \<le> 2 then year + 1 else year, month, day))"

definition iso8601 :: "int \<Rightarrow> rstr" where
  "iso8601 timestamp_seconds =
     (let days = timestamp_seconds div 86400;
          seconds_of_day = timestamp_seconds mod 86400
      in case civil_from_days days of
           (year, month, day) \<Rightarrow>
             pad_int 4 year @ str ''-'' @ pad_int 2 month @ str ''-'' @ pad_int 2 day @ str ''T'' @
             pad_int 2 (seconds_of_day div 3600) @ str '':'' @
             pad_int 2 (seconds_of_day mod 3600 div 60) @ str '':'' @
             pad_int 2 (seconds_of_day mod 60) @ str ''Z'')"

section \<open>The calendar\<close>

definition leap :: "int \<Rightarrow> bool" where
  "leap y \<longleftrightarrow> y mod 4 = 0 \<and> (y mod 100 \<noteq> 0 \<or> y mod 400 = 0)"

definition month_length :: "int \<Rightarrow> int \<Rightarrow> int" where
  "month_length y m =
     (if m = 2 then (if leap y then 29 else 28) else if m \<in> {4, 6, 9, 11} then 30 else 31)"

definition next_day :: "int \<times> int \<times> int \<Rightarrow> int \<times> int \<times> int" where
  "next_day date =
     (case date of (y, m, d) \<Rightarrow>
        if d < month_length y m then (y, m, d + 1)
        else if m < 12 then (y, m + 1, 1) else (y + 1, 1, 1))"

section \<open>Years that start in March\<close>

definition year_start :: "int \<Rightarrow> int" where
  "year_start y = 365 * y + y div 4 - y div 100 + y div 400"

definition in_march_year :: "int \<Rightarrow> int \<Rightarrow> bool" where
  "in_march_year y doy \<longleftrightarrow> 0 \<le> doy \<and> doy < (if leap (y + 1) then 366 else 365)"

definition march_date :: "int \<Rightarrow> int \<Rightarrow> int \<times> int \<times> int" where
  "march_date y doy =
     (let mp = (5 * doy + 2) div 153; m = (if mp < 10 then mp + 3 else mp - 9)
      in (if m \<le> 2 then y + 1 else y, m, doy - (153 * mp + 2) div 5 + 1))"

text \<open>A quotient and a remainder from a decomposition.\<close>

lemma quotient: "a = b * q + r \<Longrightarrow> 0 \<le> r \<Longrightarrow> r < b \<Longrightarrow> a div b = (q :: int)"
  by (rule int_div_pos_eq)

lemma remainder: "a = b * q + r \<Longrightarrow> 0 \<le> r \<Longrightarrow> r < b \<Longrightarrow> a mod b = (r :: int)"
  by (rule int_mod_pos_eq)

lemma quotient_le: "0 < b \<Longrightarrow> a < b * n \<Longrightarrow> a div b < (n :: int)"
proof (rule ccontr)
  assume "0 < b" "a < b * n" "\<not> a div b < n"
  then have "b * n \<le> b * (a div b)" by (simp add: mult_left_mono)
  moreover have "b * (a div b) \<le> a"
    using mult_div_mod_eq [of b a] pos_mod_sign [OF \<open>0 < b\<close>, of a] by linarith
  ultimately show False using \<open>a < b * n\<close> by linarith
qed

lemma era_floor: "tdiv (if 0 \<le> s then s else s - 146096) 146097 = s div 146097"
proof (cases "0 \<le> s")
  case True
  then show ?thesis by (simp add: tdiv_def)
next
  case False
  have "- (s - 146096) = 146097 * (- (s div 146097)) + (146096 - s mod 146097)"
    using mult_div_mod_eq [of 146097 s] by linarith
  then have "- (s - 146096) div 146097 = - (s div 146097)"
    by (rule quotient) (use pos_mod_bound [of 146097 s] pos_mod_sign [of 146097 s] in linarith)+
  then show ?thesis using False by (simp add: tdiv_def)
qed

text \<open>A year of an era as century, four-year cycle and year of the cycle.\<close>

lemma year_of_era:
  fixes c q r doy doe :: int
  assumes "0 \<le> c" "c \<le> 3" "0 \<le> q" "q \<le> 24" "0 \<le> r" "r \<le> 3" "0 \<le> doy"
    and "doy \<le> (if r = 3 \<and> (q < 24 \<or> c = 3) then 365 else 364)"
    and doe: "doe = 36524 * c + 1461 * q + 365 * r + doy"
  shows "(doe - doe div 1460 + doe div 36524 - doe div 146096) div 365 = 100 * c + 4 * q + r"
proof -
  define e where "e = (if 1460 \<le> 24 * c + q + 365 * r + doy then 1 else 0 :: int)"
  define g where "g = (if c = 3 \<and> q = 24 \<and> r = 3 \<and> doy = 365 then 1 else 0 :: int)"
  have doy: "doy \<le> 365" and doy2: "doy = 365 \<Longrightarrow> r = 3 \<and> (q < 24 \<or> c = 3)"
    using assms(8) by (auto split: if_splits)
  have lim: "1461 * q + 365 * r + doy - 36524 * g < 36524"
  proof (cases "q = 24 \<and> r = 3 \<and> doy = 365")
    case True
    then show ?thesis using doy2 by (simp add: g_def)
  next
    case False
    then have "q \<le> 23 \<or> r \<le> 2 \<or> doy \<le> 364" using assms(4,6) doy by auto
    moreover have "0 \<le> g" by (simp add: g_def)
    ultimately show ?thesis using assms(3-7) doy by auto
  qed
  have "doe div 1460 = 25 * c + q + e"
    by (rule quotient [where r = "24 * c + q + 365 * r + doy - 1460 * e"])
      (use assms(1-7) doy doe in \<open>auto simp: e_def algebra_simps\<close>)
  moreover have "doe div 36524 = c + g"
    by (rule quotient [where r = "1461 * q + 365 * r + doy - 36524 * g"])
      (use assms(3-7) lim doe in \<open>auto simp: g_def\<close>)
  moreover have "doe div 146096 = g"
    by (rule quotient [where r = "doe - 146096 * g"])
      (use assms(1-7) doy doy2 doe in \<open>auto simp: g_def\<close>)
  ultimately have "doe - doe div 1460 + doe div 36524 - doe div 146096 =
      365 * (100 * c + 4 * q + r) + (doy - e)"
    using doe by simp
  then show ?thesis
  proof (rule quotient)
    have "doy < 365 \<or> (doy = 365 \<and> r = 3)" using doy doy2 by linarith
    then show "doy - e < 365" using assms(1-4) by (auto simp: e_def)
  qed (use assms(1-7) in \<open>auto simp: e_def\<close>)
qed

lemma year_split:
  fixes y :: int
  obtains era c q r where "y = 400 * era + 100 * c + 4 * q + r" "0 \<le> c" "c \<le> 3" "0 \<le> q" "q \<le> 24"
    "0 \<le> r" "r \<le> 3"
proof -
  let ?a = "y mod 400"
  let ?b = "?a mod 100"
  have "y = 400 * (y div 400) + ?a" "?a = 100 * (?a div 100) + ?b" "?b = 4 * (?b div 4) + ?b mod 4" by simp_all
  moreover have "?a div 100 < 4" "?b div 4 < 25" by (rule quotient_le; simp)+
  moreover have "0 \<le> ?a div 100" "0 \<le> ?b div 4" "0 \<le> ?b mod 4" "?b mod 4 < 4"
    by (simp_all add: pos_imp_zdiv_nonneg_iff)
  ultimately show thesis
    by (intro that [of "y div 400" "?a div 100" "?b div 4" "?b mod 4"]) linarith+
qed

lemma year_start_split:
  fixes c q r :: int
  assumes "0 \<le> c" "c \<le> 3" "0 \<le> q" "q \<le> 24" "0 \<le> r" "r \<le> 3"
  shows "year_start (400 * era + 100 * c + 4 * q + r) = 146097 * era + 36524 * c + 1461 * q + 365 * r"
proof -
  let ?y = "400 * era + 100 * c + 4 * q + r"
  have "?y div 4 = 100 * era + 25 * c + q" by (rule quotient [where r = r]) (use assms in \<open>auto simp: algebra_simps\<close>)
  moreover have "?y div 100 = 4 * era + c"
    by (rule quotient [where r = "4 * q + r"]) (use assms in \<open>auto simp: algebra_simps\<close>)
  moreover have "?y div 400 = era" by (rule quotient [where r = "100 * c + 4 * q + r"]) (use assms in \<open>auto simp: algebra_simps\<close>)
  ultimately show ?thesis by (simp add: year_start_def)
qed

lemma leap_split:
  fixes c q r :: int
  assumes "0 \<le> c" "c \<le> 3" "0 \<le> q" "q \<le> 24" "0 \<le> r" "r \<le> 3"
  shows "leap (400 * era + 100 * c + 4 * q + r + 1) \<longleftrightarrow> r = 3 \<and> (q < 24 \<or> c = 3)"
proof (cases "r = 3")
  case False
  have "(400 * era + 100 * c + 4 * q + r + 1) mod 4 = r + 1"
    by (rule remainder [where q = "100 * era + 25 * c + q"]) (use assms False in \<open>auto simp: algebra_simps\<close>)
  then show ?thesis using False assms(5) by (simp add: leap_def)
next
  case r: True
  let ?y = "400 * era + 100 * c + 4 * q + r + 1"
  have m4: "?y mod 4 = 0" by (rule remainder [where q = "100 * era + 25 * c + q + 1"]) (simp_all add: r)
  show ?thesis
  proof (cases "q = 24")
    case False
    have "?y mod 100 = 4 * q + 4"
      by (rule remainder [where q = "4 * era + c"]) (use assms False r in \<open>auto simp: algebra_simps\<close>)
    then show ?thesis using m4 r False assms(3,4) by (simp add: leap_def)
  next
    case q: True
    have m100: "?y mod 100 = 0" by (rule remainder [where q = "4 * era + c + 1"]) (simp_all add: r q)
    show ?thesis
    proof (cases "c = 3")
      case True
      have "?y mod 400 = 0" by (rule remainder [where q = "era + 1"]) (simp_all add: r q True)
      then show ?thesis using m4 r q True by (simp add: leap_def)
    next
      case False
      have "?y mod 400 = 100 * c + 100"
        by (rule remainder [where q = era]) (use assms False r q in \<open>auto simp: algebra_simps\<close>)
      then show ?thesis using m4 m100 r q False assms(1) by (simp add: leap_def)
    qed
  qed
qed

lemma civil_from_days_march:
  assumes "in_march_year y doy"
  shows "civil_from_days (year_start y + doy - 719468) = march_date y doy"
proof -
  obtain era c q r where y: "y = 400 * era + 100 * c + 4 * q + r" "0 \<le> c" "c \<le> 3" "0 \<le> q" "q \<le> 24"
    "0 \<le> r" "r \<le> 3" using year_split .
  have doy: "0 \<le> doy" "doy \<le> (if r = 3 \<and> (q < 24 \<or> c = 3) then 365 else 364)"
    using assms leap_split [OF y(2-7), of era] by (auto simp: in_march_year_def y(1))
  let ?doe = "36524 * c + 1461 * q + 365 * r + doy"
  have s: "year_start y + doy = 146097 * era + ?doe" using year_start_split [OF y(2-7)] y(1) by simp
  have "0 \<le> ?doe" "?doe < 146097" using y(2-7) doy by (auto split: if_splits)
  then have era: "(year_start y + doy) div 146097 = era" unfolding s by simp
  have yoe: "(?doe - ?doe div 1460 + ?doe div 36524 - ?doe div 146096) div 365 = 100 * c + 4 * q + r"
    using year_of_era [OF y(2-7) doy refl] .
  let ?yoe = "100 * c + 4 * q + r"
  have "?yoe = 4 * (25 * c + q) + r" by simp
  then have y4: "?yoe div 4 = 25 * c + q" using y(6,7) by simp
  have "?yoe div 100 = c" using y(2-7) by simp
  then have d: "?doe - (365 * ?yoe + ?yoe div 4 - ?yoe div 100) = doy" using y4 by simp
  have doe: "year_start y + doy - era * 146097 = ?doe" using s by simp
  have year: "?yoe + era * 400 = y" using y(1) by simp
  show ?thesis
    unfolding civil_from_days_def diff_add_cancel era_floor era Let_def doe yoe d year march_date_def ..
qed

section \<open>From one day to the next\<close>

lemma div_succ:
  fixes y n :: int
  assumes "0 < n"
  shows "(y + 1) div n = y div n + (if (y + 1) mod n = 0 then 1 else 0)"
proof -
  have y: "y = n * (y div n) + y mod n" and b: "0 \<le> y mod n" "y mod n < n" using assms by simp_all
  show ?thesis
  proof (cases "y mod n + 1 = n")
    case True
    then have "y + 1 = n * (y div n) + n" using y by linarith
    then have "y + 1 = n * (y div n + 1) + 0" by (simp add: distrib_left)
    then show ?thesis using quotient [of "y + 1" n "y div n + 1" 0] remainder [of "y + 1" n "y div n + 1" 0] assms
      by simp
  next
    case False
    then have "y + 1 = n * (y div n) + (y mod n + 1)" "y mod n + 1 < n" using y b by linarith+
    then show ?thesis
      using quotient [of "y + 1" n "y div n" "y mod n + 1"] remainder [of "y + 1" n "y div n" "y mod n + 1"] b
      by simp
  qed
qed

lemma year_sum:
  fixes y a b c :: int
  shows "a' = a + (if A then 1 else 0) \<Longrightarrow> b' = b + (if B then 1 else 0) \<Longrightarrow>
    c' = c + (if C then 1 else 0) \<Longrightarrow> (C \<Longrightarrow> B) \<Longrightarrow> (B \<Longrightarrow> A) \<Longrightarrow>
    365 * (y + 1) + a' - b' + c' = 365 * y + a - b + c + (if A \<and> (\<not> B \<or> C) then 366 else 365)"
  by auto

lemma year_start_next: "year_start (y + 1) = year_start y + (if leap (y + 1) then 366 else 365)"
  unfolding year_start_def leap_def
proof (rule year_sum)
  have "(100 :: int) dvd 400" "(4 :: int) dvd 100" by simp_all
  then show "(y + 1) mod 400 = 0 \<Longrightarrow> (y + 1) mod 100 = 0" "(y + 1) mod 100 = 0 \<Longrightarrow> (y + 1) mod 4 = 0"
    by (meson dvd_imp_mod_0 dvd_trans mod_0_imp_dvd)+
qed (rule div_succ; simp)+

lemma march_month:
  fixes doy :: int
  assumes "0 \<le> doy" "doy \<le> 365"
  shows "(5 * doy + 2) div 153 \<in> {0, 1, 2, 3, 4, 5, 6, 7, 8, 9, 10, 11}"
    and "153 * ((5 * doy + 2) div 153) \<le> 5 * doy + 2" "5 * doy + 2 < 153 * ((5 * doy + 2) div 153) + 153"
proof -
  let ?m = "(5 * doy + 2) div 153"
  show l: "153 * ?m \<le> 5 * doy + 2" and u: "5 * doy + 2 < 153 * ?m + 153"
    using mult_div_mod_eq [of 153 "5 * doy + 2"] pos_mod_sign [of 153 "5 * doy + 2"]
      pos_mod_bound [of 153 "5 * doy + 2"] by linarith+
  have "0 \<le> ?m" "?m \<le> 11" using l u assms by linarith+
  then have "?m \<in> {0 .. 11}" by simp
  moreover have "{0 .. 11 :: int} = {0, 1, 2, 3, 4, 5, 6, 7, 8, 9, 10, 11}"
    by (simp flip: set_upto add: upto.simps)
  ultimately show "?m \<in> {0, 1, 2, 3, 4, 5, 6, 7, 8, 9, 10, 11}" by blast
qed

lemma march_date_month:
  assumes "(5 * doy + 2) div 153 = mp" "0 \<le> mp"
  shows "march_date y doy =
    (if mp < 10 then (y, mp + 3, doy - (153 * mp + 2) div 5 + 1)
     else (if mp - 9 \<le> 2 then y + 1 else y, mp - 9, doy - (153 * mp + 2) div 5 + 1))"
  unfolding march_date_def assms(1) Let_def using assms(2) by auto

lemma march_date_next:
  assumes d: "0 \<le> doy" "doy + 1 < (if leap (y + 1) then 366 else 365)"
  shows "march_date y (doy + 1) = next_day (march_date y doy)"
proof -
  have b: "0 \<le> doy" "doy \<le> 365" "0 \<le> doy + 1" "doy + 1 \<le> 365" using d by (auto split: if_splits)
  obtain m where m: "(5 * doy + 2) div 153 = m" "m \<in> {0, 1, 2, 3, 4, 5, 6, 7, 8, 9, 10, 11}"
    "153 * m \<le> 5 * doy + 2" "5 * doy + 2 < 153 * m + 153"
    using march_month [OF b(1,2)] by blast
  obtain n where n: "(5 * (doy + 1) + 2) div 153 = n" "153 * n \<le> 5 * (doy + 1) + 2"
    "5 * (doy + 1) + 2 < 153 * n + 153"
    using march_month [OF b(3,4)] by blast
  have nm: "n < m + 2" using m(3,4) n(2,3) by auto
  have mn: "m < n + 1" using m(3,4) n(2,3) by auto
  have "n = m \<or> n = m + 1" using nm mn by linarith
  moreover have pos: "0 \<le> m" "0 \<le> n" using m(2) mn by auto
  ultimately show ?thesis
    unfolding march_date_month [OF m(1) pos(1)] march_date_month [OF n(1) pos(2)]
    using m(2) m(3,4) n(2,3) d
    by (elim disjE insertE emptyE) (auto simp: next_day_def month_length_def split: if_splits)
qed

lemma march_date_last:
  assumes "doy = (if leap (y + 1) then 365 else 364)"
  shows "march_date (y + 1) 0 = next_day (march_date y doy)"
  using assms by (auto simp: march_date_def next_day_def month_length_def)

lemma day_in_march_year: "\<exists>y doy. d = year_start y + doy - 719468 \<and> in_march_year y doy"
proof (induction d rule: int_induct [where k = 0])
  case base
  have "year_start 1969 = 719162" by (simp add: year_start_def)
  then show ?case by (intro exI [of _ 1969] exI [of _ 306]) (simp add: in_march_year_def)
next
  case (step1 d)
  then obtain y doy where d: "d = year_start y + doy - 719468" "in_march_year y doy" by blast
  show ?case
  proof (cases "in_march_year y (doy + 1)")
    case True
    then show ?thesis using d(1) by (intro exI [of _ y] exI [of _ "doy + 1"]) simp
  next
    case False
    then have "year_start (y + 1) = year_start y + doy + 1" using d(2) year_start_next [of y]
      by (auto simp: in_march_year_def split: if_splits)
    then show ?thesis using d(1) by (intro exI [of _ "y + 1"] exI [of _ 0]) (simp add: in_march_year_def)
  qed
next
  case (step2 d)
  then obtain y doy where d: "d = year_start y + doy - 719468" "in_march_year y doy" by blast
  show ?case
  proof (cases "doy = 0")
    case True
    let ?n = "if leap y then 365 else 364 :: int"
    have "year_start y = year_start (y - 1) + ?n + 1" using year_start_next [of "y - 1"] by simp
    then show ?thesis using d(1) True
      by (intro exI [of _ "y - 1"] exI [of _ ?n]) (simp add: in_march_year_def)
  next
    case False
    then show ?thesis using d by (intro exI [of _ y] exI [of _ "doy - 1"]) (auto simp: in_march_year_def)
  qed
qed

text \<open>C27: \<open>civil_from_days\<close> is the Gregorian calendar, for every day before or after the epoch:
  day 0 is 1 January 1970 and each day's date is followed by the next date of the calendar.\<close>

theorem civil_from_days_calendar:
  "civil_from_days 0 = (1970, 1, 1) \<and> civil_from_days (d + 1) = next_day (civil_from_days d)"
proof
  show "civil_from_days 0 = (1970, 1, 1)" by code_simp
  obtain y doy where d: "d = year_start y + doy - 719468" "in_march_year y doy"
    using day_in_march_year by blast
  show "civil_from_days (d + 1) = next_day (civil_from_days d)"
  proof (cases "in_march_year y (doy + 1)")
    case True
    have "d + 1 = year_start y + (doy + 1) - 719468" using d(1) by simp
    then have "civil_from_days (d + 1) = march_date y (doy + 1)"
      using civil_from_days_march [OF True] by (simp only:)
    then show ?thesis
      using civil_from_days_march [OF d(2)] d march_date_next [of doy y] True
      by (simp add: in_march_year_def)
  next
    case False
    then have last: "doy = (if leap (y + 1) then 365 else 364)"
      using d(2) by (auto simp: in_march_year_def split: if_splits)
    then have "d + 1 = year_start (y + 1) + 0 - 719468" using d(1) year_start_next [of y] by simp
    moreover have "in_march_year (y + 1) 0" by (simp add: in_march_year_def)
    ultimately have "civil_from_days (d + 1) = march_date (y + 1) 0"
      using civil_from_days_march [of "y + 1" 0] by (simp only:)
    then show ?thesis using civil_from_days_march [OF d(2)] d(1) march_date_last [OF last] by simp
  qed
qed

end
