(* ===== verification/Storage.thy ===== *)
theory Storage
  imports Calendar Fs Crawl_Error Fetcher
begin

text \<open>
  \<open>crates/crawler/src/storage.rs\<close>: the archive writer, which appends every page to a WARC file
  and to a spool segment, and seals segments by renaming them.

  The state is the record \<open>archive_writer\<close> and the file system. The writers of the code are
  buffered: an open segment or WARC file is modelled by the bytes its writer has accepted, which
  reach the file when it is flushed. The zstd encoder and the xxh3 hash are third-party
  functions, in the record \<open>storage_env\<close>; \<open>se_clock n\<close> is the time at which WARC file \<open>n\<close> is
  opened.
\<close>

record storage_config =
  sc_warc_dir :: rstr
  sc_spool_dir :: rstr
  sc_compression_level :: int
  sc_warc_max_bytes :: nat
  sc_segment_bytes :: nat

definition storage_config_default :: storage_config where
  "storage_config_default =
     \<lparr> sc_warc_dir = str ''data/warc'', sc_spool_dir = str ''data/spool'', sc_compression_level = 6,
       sc_warc_max_bytes = 1024 * 1024 * 1024, sc_segment_bytes = default_segment_bytes \<rparr>"

record storage_env =
  se_hash :: "nat list \<Rightarrow> nat"
  se_zstd :: "int \<Rightarrow> nat list \<Rightarrow> nat list"
  se_zstd_new :: "int \<Rightarrow> io_error option"
  se_version :: rstr
  se_clock :: "nat \<Rightarrow> int"
  se_codec :: "document codec"

section \<open>Records of a WARC file\<close>

definition hex :: "nat \<Rightarrow> nat \<Rightarrow> rstr" where
  "hex w n = pad_left w 48 (show_radix 16 n)"

definition record_id :: "(nat list \<Rightarrow> nat) \<Rightarrow> rstr \<Rightarrow> int \<Rightarrow> rstr" where
  "record_id H url fetched_at =
     (let high = content_hash H (url @ [1] @ show_int fetched_at);
          low = content_hash H (show_int fetched_at @ [1] @ url)
      in str ''urn:uuid:'' @ hex 8 (high div 2 ^ 32 mod 2 ^ 32) @ str ''-'' @
         hex 4 (high div 2 ^ 16 mod 2 ^ 16) @ str ''-'' @ hex 4 (high mod 2 ^ 16) @ str ''-'' @
         hex 4 (low div 2 ^ 48 mod 2 ^ 16) @ str ''-'' @ hex 12 (low mod 2 ^ 48))"

definition crlf :: rstr where
  "crlf = [13, 10]"

definition http_payload :: "fetched_page \<Rightarrow> rstr" where
  "http_payload page =
     str ''HTTP/1.1 '' @ show_nat (fp_status page) @ str '' '' @ crlf @
     str ''Content-Type: '' @
       (case fp_content_type page of Some c \<Rightarrow> c | None \<Rightarrow> str ''text/html; charset=utf-8'') @ crlf @
     str ''Content-Length: '' @ show_nat (byte_len (fp_body page)) @ crlf @ crlf @ fp_body page"

definition warc_header :: "storage_env \<Rightarrow> document \<Rightarrow> nat \<Rightarrow> rstr" where
  "warc_header S doc payload_len =
     str ''WARC/1.1'' @ crlf @
     str ''WARC-Type: response'' @ crlf @
     str ''WARC-Record-ID: <'' @ record_id (se_hash S) (doc_url doc) (doc_fetched_at doc) @ str ''>'' @ crlf @
     str ''WARC-Date: '' @ iso8601 (doc_fetched_at doc) @ crlf @
     str ''WARC-Target-URI: '' @ doc_url doc @ crlf @
     str ''Content-Type: application/http; msgtype=response'' @ crlf @
     str ''Content-Length: '' @ show_nat payload_len @ crlf @ crlf"

definition warcinfo_record :: "storage_env \<Rightarrow> int \<Rightarrow> rstr \<Rightarrow> rstr" where
  "warcinfo_record S now filename =
     (let fields = str ''software: MJLsearchBot/'' @ se_version S @ crlf @
                   str ''format: WARC File Format 1.1'' @ crlf
      in str ''WARC/1.1'' @ crlf @
         str ''WARC-Type: warcinfo'' @ crlf @
         str ''WARC-Record-ID: <urn:uuid:00000000-0000-0000-0000-'' @
           hex 12 (content_hash (se_hash S) filename mod 2 ^ 48) @ str ''>'' @ crlf @
         str ''WARC-Date: '' @ iso8601 now @ crlf @
         str ''WARC-Filename: '' @ filename @ crlf @
         str ''Content-Type: application/warc-fields'' @ crlf @
         str ''Content-Length: '' @ show_nat (byte_len fields) @ crlf @ crlf @ fields @ crlf @ crlf)"

section \<open>Spool segments\<close>

record spool_segment =
  seg_written :: "nat list"
  seg_open_path :: path
  seg_sealed_path :: path
  seg_bytes :: nat

definition segment_create :: "rstr \<Rightarrow> nat \<Rightarrow> fs \<Rightarrow> (crawl_error + spool_segment) \<times> fs" where
  "segment_create directory sequence s =
     (let open_path = (directory, open_segment_name sequence)
      in state_then (case file_create open_path s of (r, s) \<Rightarrow> (map_err Io r, s)) (\<lambda>_ s.
           (Inr \<lparr> seg_written = [], seg_open_path = open_path,
                  seg_sealed_path = (directory, sealed_segment_name sequence), seg_bytes = 0 \<rparr>, s)))"

text \<open>Writing through an open writer: the coming answers to \<open>write_all\<close> are taken from the file
  system.\<close>

definition segment_write ::
    "document codec \<Rightarrow> document \<Rightarrow> spool_segment \<Rightarrow> fs \<Rightarrow> (crawl_error + unit) \<times> spool_segment \<times> fs" where
  "segment_write C doc sg s =
     (case write_frame C doc \<lparr> written = seg_written sg, faults = fs_write_faults s \<rparr> of
        (r, w) \<Rightarrow>
          (let s = s \<lparr> fs_write_faults := faults w \<rparr>; sg = sg \<lparr> seg_written := written w \<rparr>
           in case r of
                Inl e \<Rightarrow> (Inl (Spool e), sg, s)
              | Inr n \<Rightarrow> (Inr (), sg \<lparr> seg_bytes := wrap_add_u64 (seg_bytes sg) n \<rparr>, s)))"

definition segment_seal :: "spool_segment \<Rightarrow> fs \<Rightarrow> (crawl_error + unit) \<times> fs" where
  "segment_seal sg s =
     (case state_then (file_write (seg_open_path sg) (seg_written sg) s) (\<lambda>_ s.
           state_then (sync_all s) (\<lambda>_ s.
             fs_rename (seg_open_path sg) (seg_sealed_path sg) s)) of
        (r, s) \<Rightarrow> (map_err Io r, s))"

section \<open>The archive writer\<close>

record archive_stats =
  as_documents :: nat
  as_sealed_segments :: nat
  as_warc_records :: nat
  as_warc_bytes :: nat
  as_warc_files :: nat

text \<open>The open WARC file is its path and the bytes given to its encoder.\<close>

record archive_writer =
  aw_config :: storage_config
  aw_warc :: "(path \<times> nat list) option"
  aw_warc_sequence :: nat
  aw_warc_path :: path
  aw_segment :: "spool_segment option"
  aw_segment_sequence :: nat
  aw_stats :: archive_stats

type_synonym archive = "archive_writer \<times> fs"

definition warc_name :: "nat \<Rightarrow> rstr" where
  "warc_name sequence = str ''crawl-'' @ pad_left 8 48 (show_nat sequence) @ str ''.warc.zst''"

text \<open>\<open>encoder.write_all\<close>.\<close>

definition encoder_write ::
    "nat list \<Rightarrow> nat list \<Rightarrow> fs \<Rightarrow> (crawl_error + unit) \<times> nat list \<times> fs" where
  "encoder_write bs acc s =
     (case write_all bs \<lparr> written = acc, faults = fs_write_faults s \<rparr> of
        (r, w) \<Rightarrow> (map_err Io r, written w, s \<lparr> fs_write_faults := faults w \<rparr>))"

definition open_warc :: "storage_env \<Rightarrow> archive \<Rightarrow> (crawl_error + unit) \<times> archive" where
  "open_warc S a =
     (case a of (w, s) \<Rightarrow>
        (let seq = aw_warc_sequence w; path = (sc_warc_dir (aw_config w), warc_name seq);
             w = w \<lparr> aw_warc_sequence := wrap_add_u64 seq 1 \<rparr>
         in case file_create path s of
              (Inl e, s) \<Rightarrow> (Inl (Io e), w, s)
            | (Inr _, s) \<Rightarrow>
                (case se_zstd_new S (sc_compression_level (aw_config w)) of
                   Some e \<Rightarrow> (Inl (Io e), w, s)
                 | None \<Rightarrow>
                     (let header = utf8 (warcinfo_record S (se_clock S seq) (snd path))
                      in case encoder_write header [] s of
                           (Inl e, _, s) \<Rightarrow> (Inl e, w, s)
                         | (Inr _, acc, s) \<Rightarrow>
                             (let st = aw_stats w
                              in (Inr (), w \<lparr> aw_stats := st \<lparr> as_warc_bytes := wrap_add_u64 (as_warc_bytes st) (length header),
                                                             as_warc_records := wrap_add_u64 (as_warc_records st) 1,
                                                             as_warc_files := wrap_add_u64 (as_warc_files st) 1 \<rparr>,
                                              aw_warc := Some (path, acc), aw_warc_path := path \<rparr>, s))))))"

definition finish_warc :: "storage_env \<Rightarrow> archive \<Rightarrow> (crawl_error + unit) \<times> archive" where
  "finish_warc S a =
     (case a of (w, s) \<Rightarrow>
        (case aw_warc w of
           None \<Rightarrow> (Inr (), w, s)
         | Some (path, acc) \<Rightarrow>
             (case state_then (file_write path (se_zstd S (sc_compression_level (aw_config w)) acc) s)
                     (\<lambda>_ s. sync_all s) of
                (r, s) \<Rightarrow> (map_err Io r, w \<lparr> aw_warc := None \<rparr>, s))))"

text \<open>The three writes of a record; the encoder keeps what it accepted before an error.\<close>

definition encoder_record ::
    "nat list \<Rightarrow> nat list \<Rightarrow> nat list \<Rightarrow> fs \<Rightarrow> (crawl_error + unit) \<times> nat list \<times> fs" where
  "encoder_record header payload acc s =
     (case encoder_write header acc s of
        (Inl e, acc, s) \<Rightarrow> (Inl e, acc, s)
      | (Inr _, acc, s) \<Rightarrow>
          (case encoder_write payload acc s of
             (Inl e, acc, s) \<Rightarrow> (Inl e, acc, s)
           | (Inr _, acc, s) \<Rightarrow> encoder_write [13, 10, 13, 10] acc s))"

definition write_warc_record ::
    "storage_env \<Rightarrow> fetched_page \<Rightarrow> document \<Rightarrow> archive \<Rightarrow> (crawl_error + unit) \<times> archive" where
  "write_warc_record S page doc a =
     (case a of (w, s) \<Rightarrow>
        (let payload = utf8 (http_payload page);
             header = utf8 (warc_header S doc (length payload))
         in case aw_warc w of
              None \<Rightarrow> (Inl (NotImplemented ''warc file is closed''), w, s)
            | Some (path, acc) \<Rightarrow>
                (case encoder_record header payload acc s of
                   (Inl e, acc, s) \<Rightarrow> (Inl e, w \<lparr> aw_warc := Some (path, acc) \<rparr>, s)
                 | (Inr _, acc, s) \<Rightarrow>
                     (let st = aw_stats w;
                          st = st \<lparr> as_warc_bytes := wrap_add_u64 (as_warc_bytes st) (length header + length payload + 4),
                                    as_warc_records := wrap_add_u64 (as_warc_records st) 1 \<rparr>;
                          w = w \<lparr> aw_warc := Some (path, acc), aw_stats := st \<rparr>
                      in if sc_warc_max_bytes (aw_config w) \<le> as_warc_bytes st
                         then state_then (finish_warc S (w, s)) (\<lambda>_ a. open_warc S a)
                         else (Inr (), w, s)))))"

definition open_segment :: "archive \<Rightarrow> (crawl_error + unit) \<times> archive" where
  "open_segment a =
     (case a of (w, s) \<Rightarrow>
        (case segment_create (sc_spool_dir (aw_config w)) (aw_segment_sequence w) s of
           (Inl e, s) \<Rightarrow> (Inl e, w, s)
         | (Inr sg, s) \<Rightarrow>
             (Inr (), w \<lparr> aw_segment := Some sg,
                          aw_segment_sequence := wrap_add_u64 (aw_segment_sequence w) 1 \<rparr>, s)))"

definition seal_segment :: "archive \<Rightarrow> (crawl_error + unit) \<times> archive" where
  "seal_segment a =
     (case a of (w, s) \<Rightarrow>
        (case aw_segment w of
           None \<Rightarrow> (Inr (), w, s)
         | Some sg \<Rightarrow>
             (let w = w \<lparr> aw_segment := None \<rparr>
              in case segment_seal sg s of
                   (Inl e, s) \<Rightarrow> (Inl e, w, s)
                 | (Inr _, s) \<Rightarrow>
                     (Inr (), w \<lparr> aw_stats := (aw_stats w) \<lparr> as_sealed_segments :=
                          wrap_add_u64 (as_sealed_segments (aw_stats w)) 1 \<rparr> \<rparr>, s))))"

definition write_spool ::
    "storage_env \<Rightarrow> document \<Rightarrow> archive \<Rightarrow> (crawl_error + unit) \<times> archive" where
  "write_spool S doc a =
     (case a of (w, s) \<Rightarrow>
        (case aw_segment w of
           None \<Rightarrow> (Inl (NotImplemented ''archive is sealed''), w, s)
         | Some sg \<Rightarrow>
             (case segment_write (se_codec S) doc sg s of
                (Inl e, sg, s) \<Rightarrow> (Inl e, w \<lparr> aw_segment := Some sg \<rparr>, s)
              | (Inr _, sg, s) \<Rightarrow>
                  (let w = w \<lparr> aw_segment := Some sg,
                               aw_stats := (aw_stats w) \<lparr> as_documents :=
                                 wrap_add_u64 (as_documents (aw_stats w)) 1 \<rparr> \<rparr>
                   in if sc_segment_bytes (aw_config w) \<le> seg_bytes sg
                      then state_then (seal_segment (w, s)) (\<lambda>_ a. open_segment a)
                      else (Inr (), w, s)))))"

definition write_page ::
    "storage_env \<Rightarrow> fetched_page \<Rightarrow> document \<Rightarrow> archive \<Rightarrow> (crawl_error + unit) \<times> archive" where
  "write_page S page doc a =
     state_then (write_warc_record S page doc a) (\<lambda>_ a. write_spool S doc a)"

definition archive_seal :: "storage_env \<Rightarrow> archive \<Rightarrow> (crawl_error + unit) \<times> archive" where
  "archive_seal S a = state_then (seal_segment a) (\<lambda>_ a. finish_warc S a)"

text \<open>\<open>drop\<close>: best effort, errors are ignored.\<close>

definition archive_drop :: "storage_env \<Rightarrow> archive \<Rightarrow> archive" where
  "archive_drop S a = snd (finish_warc S (snd (seal_segment a)))"

definition highest :: "nat option list \<Rightarrow> nat" where
  "highest xs = foldl (\<lambda>h x. case x of Some n \<Rightarrow> max h n | None \<Rightarrow> h) 0 xs"

definition next_sequence :: "(rstr \<Rightarrow> nat option) \<Rightarrow> rstr \<Rightarrow> fs \<Rightarrow> (crawl_error + nat) \<times> fs" where
  "next_sequence parse directory s =
     (case read_dir directory s of
        (Inl e, s) \<Rightarrow> (Inl (Io e), s)
      | (Inr names, s) \<Rightarrow> (Inr (wrap_add_u64 (highest (map parse names)) 1), s))"

definition parse_warc_sequence :: "rstr \<Rightarrow> nat option" where
  "parse_warc_sequence name =
     Option.bind (Option.bind (strip_prefix (str ''crawl-'') name) (strip_suffix (str ''.warc.zst''))) parse_u64"

definition next_warc_sequence :: "rstr \<Rightarrow> fs \<Rightarrow> (crawl_error + nat) \<times> fs" where
  "next_warc_sequence = next_sequence parse_warc_sequence"

definition next_spool_sequence :: "rstr \<Rightarrow> fs \<Rightarrow> (crawl_error + nat) \<times> fs" where
  "next_spool_sequence = next_sequence parse_segment_sequence"

definition io :: "(io_error + 'a) \<times> fs \<Rightarrow> (crawl_error + 'a) \<times> fs" where
  "io m = (case m of (r, s) \<Rightarrow> (map_err Io r, s))"

definition archive_open :: "storage_env \<Rightarrow> storage_config \<Rightarrow> fs \<Rightarrow> (crawl_error + archive_writer) \<times> fs" where
  "archive_open S config s =
     state_then (io (create_dir_all (sc_warc_dir config) s)) (\<lambda>_ s.
     state_then (io (create_dir_all (sc_spool_dir config) s)) (\<lambda>_ s.
     state_then (next_warc_sequence (sc_warc_dir config) s) (\<lambda>warc_seq s.
     state_then (next_spool_sequence (sc_spool_dir config) s) (\<lambda>spool_seq s.
       let w = \<lparr> aw_config = config, aw_warc = None, aw_warc_sequence = warc_seq, aw_warc_path = ([], []),
                 aw_segment = None, aw_segment_sequence = spool_seq,
                 aw_stats = \<lparr> as_documents = 0, as_sealed_segments = 0, as_warc_records = 0,
                             as_warc_bytes = 0, as_warc_files = 0 \<rparr> \<rparr>
       in case state_then (open_warc S (w, s)) (\<lambda>_ a. open_segment a) of
            (Inl e, a) \<Rightarrow> (Inl e, snd (archive_drop S a))
          | (Inr _, w, s) \<Rightarrow> (Inr w, s)))))"

section \<open>What the operations do when they succeed\<close>

text \<open>Two file systems that agree outside a set of paths.\<close>

definition agree_outside :: "path set \<Rightarrow> fs \<Rightarrow> fs \<Rightarrow> bool" where
  "agree_outside A s s' \<longleftrightarrow> (\<forall>p. p \<notin> A \<longrightarrow> fs_file s' p = fs_file s p)"

lemma agree_outside_refl [simp]: "agree_outside A s s"
  by (simp add: agree_outside_def)

lemma agree_outside_trans: "agree_outside A s s' \<Longrightarrow> agree_outside A s' s'' \<Longrightarrow> agree_outside A s s''"
  by (simp add: agree_outside_def)

lemma agree_outside_mono: "agree_outside A s s' \<Longrightarrow> A \<subseteq> B \<Longrightarrow> agree_outside B s s'"
  by (auto simp: agree_outside_def)

lemma agree_outside_file: "fs_file s' = fs_file s \<Longrightarrow> agree_outside A s s'"
  by (simp add: agree_outside_def)

definition warc_paths :: "rstr \<Rightarrow> nat \<Rightarrow> path set" where
  "warc_paths d n = {(d, warc_name m) | m. n \<le> m \<and> m \<le> u64_max}"

text \<open>The paths of the segments from \<open>n\<close> on, below \<open>e\<close>.\<close>

definition segment_paths :: "rstr \<Rightarrow> nat \<Rightarrow> nat \<Rightarrow> path set" where
  "segment_paths d n e = {(d, open_segment_name m) | m. n \<le> m \<and> m < e} \<union>
     {(d, sealed_segment_name m) | m. n \<le> m \<and> m < e}"

lemma segment_write_Inr:
  assumes "segment_write C doc sg s = (Inr u, sg', s')"
  obtains f where "frame_of C doc = Some f" "seg_written sg' = seg_written sg @ f"
    "seg_open_path sg' = seg_open_path sg" "seg_sealed_path sg' = seg_sealed_path sg"
    "fs_file s' = fs_file s"
  using assms
  by (auto simp: segment_write_def Let_def split: prod.splits sum.splits dest!: write_frame_Inr)

lemma segment_create_Inr:
  assumes "segment_create d n s = (Inr sg, s')"
  shows "sg = \<lparr> seg_written = [], seg_open_path = (d, open_segment_name n),
      seg_sealed_path = (d, sealed_segment_name n), seg_bytes = 0 \<rparr>"
    and "fs_file s' = (fs_file s)((d, open_segment_name n) \<mapsto> [])"
proof -
  obtain r s1 where c: "file_create (d, open_segment_name n) s = (r, s1)" by fastforce
  then obtain u where r: "r = Inr u" "s' = s1"
    and sg: "sg = \<lparr> seg_written = [], seg_open_path = (d, open_segment_name n),
      seg_sealed_path = (d, sealed_segment_name n), seg_bytes = 0 \<rparr>"
    using assms by (cases r) (auto simp: segment_create_def Let_def)
  show "fs_file s' = (fs_file s)((d, open_segment_name n) \<mapsto> [])"
    using file_create_Inr c r by blast
  show "sg = \<lparr> seg_written = [], seg_open_path = (d, open_segment_name n),
      seg_sealed_path = (d, sealed_segment_name n), seg_bytes = 0 \<rparr>" by (rule sg)
qed

lemma segment_seal_Inr:
  assumes "segment_seal sg s = (Inr u, s')" "seg_open_path sg \<noteq> seg_sealed_path sg"
  shows "fs_file s' = (fs_file s)(seg_open_path sg := None, seg_sealed_path sg \<mapsto> seg_written sg)"
proof -
  obtain u1 s1 u2 s2 u3 where w: "file_write (seg_open_path sg) (seg_written sg) s = (Inr u1, s1)"
    "sync_all s1 = (Inr u2, s2)" "fs_rename (seg_open_path sg) (seg_sealed_path sg) s2 = (Inr u3, s')"
    using assms(1)
    by (auto simp: segment_seal_def map_err_def split: prod.splits sum.splits dest!: state_then_Inr_iff [THEN iffD1])
  have s2: "fs_file s2 = (fs_file s)(seg_open_path sg \<mapsto> seg_written sg)"
    using file_write_Inr [OF w(1)] sync_all_files [OF w(2)] by simp
  obtain bs where "fs_file s2 (seg_open_path sg) = Some bs"
    "fs_file s' = (fs_file s2)(seg_open_path sg := None, seg_sealed_path sg \<mapsto> bs)"
    using fs_rename_Inr [OF w(3) assms(2)] by blast
  then show ?thesis using s2 by (auto simp: fun_eq_iff)
qed

lemma encoder_write_file: "encoder_write bs acc s = (r, acc', s') \<Longrightarrow> fs_file s' = fs_file s"
  by (auto simp: encoder_write_def split: prod.splits)

lemma encoder_record_file: "encoder_record h p acc s = (r, acc', s') \<Longrightarrow> fs_file s' = fs_file s"
  by (auto simp: encoder_record_def split: prod.splits sum.splits dest!: encoder_write_file)

text \<open>The WARC side leaves the spool side alone.\<close>

definition same_spool :: "archive_writer \<Rightarrow> archive_writer \<Rightarrow> bool" where
  "same_spool w w' \<longleftrightarrow> aw_config w' = aw_config w \<and> aw_segment w' = aw_segment w \<and>
     aw_segment_sequence w' = aw_segment_sequence w"

text \<open>\<open>warc_ok d n w\<close>: the numbering is past \<open>n\<close>, and so is the open file.\<close>

definition warc_ok :: "rstr \<Rightarrow> nat \<Rightarrow> archive_writer \<Rightarrow> bool" where
  "warc_ok d n w \<longleftrightarrow> sc_warc_dir (aw_config w) = d \<and> n \<le> aw_warc_sequence w \<and>
     (\<forall>p acc. aw_warc w = Some (p, acc) \<longrightarrow> p \<in> warc_paths d n)"

lemma open_warc_Inr:
  assumes "open_warc S (w, s) = (Inr u, w', s')" "aw_warc_sequence w < u64_max" "warc_ok d n w"
  shows "agree_outside (warc_paths d n) s s'" "same_spool w w'" "warc_ok d n w'"
    "aw_warc_sequence w' = Suc (aw_warc_sequence w)"
    "as_warc_files (aw_stats w') = wrap_add_u64 (as_warc_files (aw_stats w)) 1"
proof -
  let ?p = "(sc_warc_dir (aw_config w), warc_name (aw_warc_sequence w))"
  have p: "?p \<in> warc_paths d n" using assms(2,3) by (auto simp: warc_ok_def warc_paths_def)
  have seq: "wrap_add_u64 (aw_warc_sequence w) 1 = Suc (aw_warc_sequence w)"
    using assms(2) by (simp add: wrap_add_u64_def u64_max_def)
  obtain s1 header acc where c: "file_create ?p s = (Inr (), s1)" "encoder_write header [] s1 = (Inr (), acc, s')"
    and w': "w' = w \<lparr> aw_warc_sequence := wrap_add_u64 (aw_warc_sequence w) 1,
        aw_stats := (aw_stats w) \<lparr> as_warc_bytes := wrap_add_u64 (as_warc_bytes (aw_stats w)) (length header),
          as_warc_records := wrap_add_u64 (as_warc_records (aw_stats w)) 1,
          as_warc_files := wrap_add_u64 (as_warc_files (aw_stats w)) 1 \<rparr>,
        aw_warc := Some (?p, acc), aw_warc_path := ?p \<rparr>"
    using assms(1)
    by (auto simp: open_warc_def Let_def split: prod.splits sum.splits option.splits)
  have "fs_file s' = (fs_file s)(?p \<mapsto> [])"
    using file_create_Inr [OF c(1)] encoder_write_file [OF c(2)] by simp
  then show "agree_outside (warc_paths d n) s s'" using p by (auto simp: agree_outside_def)
  show "same_spool w w'" "warc_ok d n w'" "aw_warc_sequence w' = Suc (aw_warc_sequence w)"
    "as_warc_files (aw_stats w') = wrap_add_u64 (as_warc_files (aw_stats w)) 1"
    using assms(3) p seq by (auto simp: w' same_spool_def warc_ok_def)
qed

lemma finish_warc_Inr:
  assumes "finish_warc S (w, s) = (Inr u, w', s')" "warc_ok d n w"
  shows "agree_outside (warc_paths d n) s s'" "w' = w \<lparr> aw_warc := None \<rparr>"
proof -
  show w': "w' = w \<lparr> aw_warc := None \<rparr>"
    using assms(1) by (auto simp: finish_warc_def split: option.splits prod.splits)
  show "agree_outside (warc_paths d n) s s'"
  proof (cases "aw_warc w")
    case None
    then show ?thesis using assms(1) by (simp add: finish_warc_def)
  next
    case (Some pa)
    obtain p acc where pa: "pa = (p, acc)" by (cases pa)
    obtain bs u1 s1 u2 where c: "file_write p bs s = (Inr u1, s1)" "sync_all s1 = (Inr u2, s')"
      using assms(1) Some pa
      by (auto simp: finish_warc_def map_err_def split: prod.splits sum.splits
          dest!: state_then_Inr_iff [THEN iffD1])
    have "p \<in> warc_paths d n" using assms(2) Some pa by (auto simp: warc_ok_def)
    then show ?thesis using file_write_Inr [OF c(1)] sync_all_files [OF c(2)]
      by (auto simp: agree_outside_def)
  qed
qed

lemma write_warc_record_Inr:
  assumes "write_warc_record S page doc (w, s) = (Inr u, w', s')" "aw_warc_sequence w < u64_max" "warc_ok d n w"
  shows "agree_outside (warc_paths d n) s s'" "same_spool w w'" "warc_ok d n w'"
    "aw_warc_sequence w' \<le> Suc (aw_warc_sequence w)"
proof -
  obtain p acc h b acc1 s1 where r: "aw_warc w = Some (p, acc)"
    "encoder_record h b acc s = (Inr (), acc1, s1)"
    and run: "(let st = (aw_stats w) \<lparr> as_warc_bytes := wrap_add_u64 (as_warc_bytes (aw_stats w)) (length h + length b + 4),
                                    as_warc_records := wrap_add_u64 (as_warc_records (aw_stats w)) 1 \<rparr>;
                          w = w \<lparr> aw_warc := Some (p, acc1), aw_stats := st \<rparr>
                      in if sc_warc_max_bytes (aw_config w) \<le> as_warc_bytes st
                         then state_then (finish_warc S (w, s1)) (\<lambda>_ a. open_warc S a)
                         else (Inr (), w, s1)) = (Inr u, w', s')"
    using assms(1)
    by (auto simp: write_warc_record_def Let_def split: prod.splits sum.splits option.splits if_splits)
  define w1 where "w1 = w \<lparr> aw_warc := Some (p, acc1),
      aw_stats := (aw_stats w) \<lparr> as_warc_bytes := wrap_add_u64 (as_warc_bytes (aw_stats w)) (length h + length b + 4),
                                 as_warc_records := wrap_add_u64 (as_warc_records (aw_stats w)) 1 \<rparr> \<rparr>"
  have ok1: "warc_ok d n w1" "aw_warc_sequence w1 = aw_warc_sequence w" "same_spool w w1"
    using assms(3) r(1) by (auto simp: w1_def warc_ok_def same_spool_def)
  have s1: "agree_outside A s s1" for A using encoder_record_file [OF r(2)] by (rule agree_outside_file)
  have "(w', s') = (w1, s1) \<or>
    (\<exists>u1 w2 s2. finish_warc S (w1, s1) = (Inr u1, w2, s2) \<and> open_warc S (w2, s2) = (Inr u, w', s'))"
    using run by (auto simp: Let_def w1_def split: if_splits dest!: state_then_Inr_iff [THEN iffD1])
  then have "agree_outside (warc_paths d n) s s' \<and> same_spool w w' \<and> warc_ok d n w' \<and>
    aw_warc_sequence w' \<le> Suc (aw_warc_sequence w)"
  proof
    assume "(w', s') = (w1, s1)"
    then show ?thesis using ok1 s1 by simp
  next
    assume "\<exists>u1 w2 s2. finish_warc S (w1, s1) = (Inr u1, w2, s2) \<and> open_warc S (w2, s2) = (Inr u, w', s')"
    then obtain u1 w2 s2 where f: "finish_warc S (w1, s1) = (Inr u1, w2, s2)"
      "open_warc S (w2, s2) = (Inr u, w', s')" by blast
    note f1 = finish_warc_Inr [OF f(1) ok1(1)]
    have ok2: "warc_ok d n w2" "aw_warc_sequence w2 < u64_max" using f1(2) ok1 assms(2) by (auto simp: warc_ok_def)
    note f2 = open_warc_Inr [OF f(2) ok2(2,1)]
    have "agree_outside (warc_paths d n) s s'"
      using agree_outside_trans [OF agree_outside_trans [OF s1 f1(1)] f2(1)] .
    moreover have "same_spool w w'" using ok1(3) f1(2) f2(2) by (simp add: same_spool_def)
    moreover have "aw_warc_sequence w' = Suc (aw_warc_sequence w)" using f2(4) f1(2) ok1(2) by simp
    ultimately show ?thesis using f2(3) by simp
  qed
  then show "agree_outside (warc_paths d n) s s'" "same_spool w w'" "warc_ok d n w'"
    "aw_warc_sequence w' \<le> Suc (aw_warc_sequence w)" by auto
qed
end
