(* ===== verification/Archive.thy ===== *)
theory Archive
  imports Storage
begin

text \<open>
  A whole run of the archive writer of \<open>crates/crawler/src/storage.rs\<close>: open, write pages,
  seal. The theorems say what the spool directory then holds, and what a run never touches.
\<close>

section \<open>The spool side of the writer\<close>

text \<open>The writer at segment \<open>k\<close>, with the documents \<open>ds\<close> in the open segment.\<close>

definition open_ok :: "document codec \<Rightarrow> rstr \<Rightarrow> nat \<Rightarrow> document list \<Rightarrow> archive_writer \<Rightarrow> bool" where
  "open_ok C d k ds w \<longleftrightarrow> sc_spool_dir (aw_config w) = d \<and> aw_segment_sequence w = Suc k \<and>
     (\<exists>sg. aw_segment w = Some sg \<and> seg_open_path sg = (d, open_segment_name k) \<and>
        seg_sealed_path sg = (d, sealed_segment_name k) \<and> frames_of C ds = Some (seg_written sg))"

text \<open>The sealed segments \<open>n\<close>, \<open>n + 1\<close>, ... hold the lists of \<open>dss\<close>, and nothing is left open
  under their numbers.\<close>

definition sealed_log :: "document codec \<Rightarrow> fs \<Rightarrow> rstr \<Rightarrow> nat \<Rightarrow> document list list \<Rightarrow> bool" where
  "sealed_log C s d n dss \<longleftrightarrow> (\<forall>i < length dss.
     frames_of C (dss ! i) \<noteq> None \<and>
     fs_file s (d, sealed_segment_name (n + i)) = frames_of C (dss ! i) \<and>
     fs_file s (d, open_segment_name (n + i)) = None)"

lemma sealed_log_agree:
  assumes "sealed_log C s d n dss" "agree_outside A s s'"
    and "\<And>i. i < length dss \<Longrightarrow> (d, sealed_segment_name (n + i)) \<notin> A \<and> (d, open_segment_name (n + i)) \<notin> A"
  shows "sealed_log C s' d n dss"
  using assms by (simp add: sealed_log_def agree_outside_def)

lemma sealed_log_snoc:
  "sealed_log C s d n dss \<Longrightarrow> frames_of C ds = Some bs \<Longrightarrow>
   fs_file s (d, sealed_segment_name (n + length dss)) = Some bs \<Longrightarrow>
   fs_file s (d, open_segment_name (n + length dss)) = None \<Longrightarrow> sealed_log C s d n (dss @ [ds])"
  by (auto simp: sealed_log_def nth_append less_Suc_eq)

lemma warc_segment_names: "warc_name m \<noteq> open_segment_name k" "warc_name m \<noteq> sealed_segment_name k"
  by (simp_all add: warc_name_def open_segment_name_def sealed_segment_name_def str_def)

lemma segment_not_warc:
  "(d, sealed_segment_name k) \<notin> warc_paths wd m" "(d, open_segment_name k) \<notin> warc_paths wd m"
  using warc_segment_names by (auto simp: warc_paths_def) metis+

text \<open>The two paths of one segment.\<close>

definition segment_pair :: "rstr \<Rightarrow> nat \<Rightarrow> path set" where
  "segment_pair d k = {(d, open_segment_name k), (d, sealed_segment_name k)}"

lemma segment_pair_other:
  assumes "i \<noteq> k" "i \<le> u64_max" "k \<le> u64_max"
  shows "(d, sealed_segment_name i) \<notin> segment_pair d k \<and> (d, open_segment_name i) \<notin> segment_pair d k"
proof -
  have "sealed_segment_name i \<noteq> sealed_segment_name k" using sealed_segment_name_inj assms by blast
  moreover have "open_segment_name i \<noteq> open_segment_name k" using open_segment_name_inj assms by blast
  moreover have "sealed_segment_name i \<noteq> open_segment_name k" by (metis open_ne_sealed)
  ultimately show ?thesis by (simp add: segment_pair_def)
qed

lemma segment_pair_subset: "n \<le> k \<Longrightarrow> k < e \<Longrightarrow> segment_pair d k \<subseteq> segment_paths d n e"
  by (auto simp: segment_pair_def segment_paths_def)

lemma segment_paths_iff:
  "(q, name) \<in> segment_paths d n e \<longleftrightarrow>
     q = d \<and> (\<exists>k. (name = open_segment_name k \<or> name = sealed_segment_name k) \<and> n \<le> k \<and> k < e)"
  by (auto simp: segment_paths_def)

lemma segment_paths_mono: "e \<le> e' \<Longrightarrow> segment_paths d n e \<subseteq> segment_paths d n e'"
  by (auto simp: segment_paths_def)

lemma seal_segment_Inr:
  assumes "seal_segment (w, s) = (Inr u, w', s')" "open_ok C d k ds w"
  obtains (sealed) bs where "frames_of C ds = Some bs" "fs_file s' (d, sealed_segment_name k) = Some bs"
    "fs_file s' (d, open_segment_name k) = None" "agree_outside (segment_pair d k) s s'"
    "aw_config w' = aw_config w" "aw_warc w' = aw_warc w" "aw_warc_sequence w' = aw_warc_sequence w"
    "aw_segment_sequence w' = Suc k" "aw_segment w' = None"
proof -
  obtain sg where sg: "aw_segment w = Some sg" "seg_open_path sg = (d, open_segment_name k)"
    "seg_sealed_path sg = (d, sealed_segment_name k)" "frames_of C ds = Some (seg_written sg)"
    and k: "aw_segment_sequence w = Suc k"
    using assms(2) by (auto simp: open_ok_def)
  have run: "segment_seal sg s = (Inr (), s')"
    and kept: "aw_config w' = aw_config w" "aw_warc w' = aw_warc w" "aw_warc_sequence w' = aw_warc_sequence w"
      "aw_segment_sequence w' = Suc k" "aw_segment w' = None"
    using assms(1) sg(1) k
    by (auto simp: seal_segment_def Let_def split: prod.splits sum.splits)
  have ne: "seg_open_path sg \<noteq> seg_sealed_path sg" using sg by simp
  have "fs_file s' = (fs_file s)((d, open_segment_name k) := None, (d, sealed_segment_name k) \<mapsto> seg_written sg)"
    using segment_seal_Inr [OF run ne] sg by simp
  then have files: "fs_file s' (d, sealed_segment_name k) = Some (seg_written sg)"
    "fs_file s' (d, open_segment_name k) = None" "agree_outside (segment_pair d k) s s'"
    by (auto simp: agree_outside_def segment_pair_def)
  show thesis by (rule sealed [OF sg(4) files kept])
qed

lemma open_segment_Inr:
  assumes "open_segment (w, s) = (Inr u, w', s')" "aw_segment_sequence w < u64_max"
    "sc_spool_dir (aw_config w) = d" "aw_segment_sequence w = k"
  shows "open_ok C d k [] w'" "agree_outside (segment_pair d k) s s'" "aw_config w' = aw_config w"
    "aw_warc w' = aw_warc w" "aw_warc_sequence w' = aw_warc_sequence w"
proof -
  obtain sg where c: "segment_create d k s = (Inr sg, s')"
    and w': "w' = w \<lparr> aw_segment := Some sg, aw_segment_sequence := wrap_add_u64 k 1 \<rparr>"
    using assms by (auto simp: open_segment_def split: prod.splits sum.splits)
  have k: "wrap_add_u64 k 1 = Suc k" using assms by (simp add: wrap_add_u64_def u64_max_def)
  show "open_ok C d k [] w'" using segment_create_Inr(1) [OF c] k assms(3) by (simp add: open_ok_def w')
  show "agree_outside (segment_pair d k) s s'"
    using segment_create_Inr(2) [OF c] by (simp add: agree_outside_def segment_pair_def)
  show "aw_config w' = aw_config w" "aw_warc w' = aw_warc w" "aw_warc_sequence w' = aw_warc_sequence w"
    by (simp_all add: w')
qed

lemma write_spool_Inr:
  assumes "write_spool S doc (w, s) = (Inr u, w', s')" "open_ok (se_codec S) d k ds w" "Suc k < u64_max"
  shows "(open_ok (se_codec S) d k (ds @ [doc]) w' \<and> fs_file s' = fs_file s \<or>
     open_ok (se_codec S) d (Suc k) [] w' \<and> agree_outside (segment_pair d k \<union> segment_pair d (Suc k)) s s' \<and>
     frames_of (se_codec S) (ds @ [doc]) \<noteq> None \<and>
     fs_file s' (d, sealed_segment_name k) = frames_of (se_codec S) (ds @ [doc]) \<and>
     fs_file s' (d, open_segment_name k) = None) \<and>
     aw_config w' = aw_config w \<and> aw_warc w' = aw_warc w \<and> aw_warc_sequence w' = aw_warc_sequence w"
proof -
  let ?C = "se_codec S"
  obtain sg where sg: "aw_segment w = Some sg" "seg_open_path sg = (d, open_segment_name k)"
    "seg_sealed_path sg = (d, sealed_segment_name k)" "frames_of ?C ds = Some (seg_written sg)"
    and k: "aw_segment_sequence w = Suc k" "sc_spool_dir (aw_config w) = d"
    using assms(2) by (auto simp: open_ok_def)
  obtain sg1 s1 where wr: "segment_write ?C doc sg s = (Inr (), sg1, s1)"
    using assms(1) sg(1) by (auto simp: write_spool_def split: prod.splits sum.splits)
  obtain f where f: "frame_of ?C doc = Some f" "seg_written sg1 = seg_written sg @ f"
    "seg_open_path sg1 = seg_open_path sg" "seg_sealed_path sg1 = seg_sealed_path sg" "fs_file s1 = fs_file s"
    using segment_write_Inr [OF wr] by blast
  define w1 where "w1 = w \<lparr> aw_segment := Some sg1, aw_stats := (aw_stats w) \<lparr> as_documents :=
      wrap_add_u64 (as_documents (aw_stats w)) 1 \<rparr> \<rparr>"
  have ok1: "open_ok ?C d k (ds @ [doc]) w1"
    using sg k f frames_of_snoc [OF sg(4) f(1)] by (simp add: open_ok_def w1_def)
  consider (stay) "(w', s') = (w1, s1)"
    | (roll) u2 w2 s2 where "seal_segment (w1, s1) = (Inr u2, w2, s2)" "open_segment (w2, s2) = (Inr u, w', s')"
    using assms(1) sg(1) wr
    by (auto simp: write_spool_def w1_def Let_def split: if_splits dest!: state_then_Inr_iff [THEN iffD1])
  then show ?thesis
  proof cases
    case stay
    then show ?thesis using ok1 f(5) by (simp add: w1_def)
  next
    case roll
    obtain bs where bs: "frames_of ?C (ds @ [doc]) = Some bs" "fs_file s2 (d, sealed_segment_name k) = Some bs"
      "fs_file s2 (d, open_segment_name k) = None" "agree_outside (segment_pair d k) s1 s2"
      "aw_config w2 = aw_config w1" "aw_warc w2 = aw_warc w1" "aw_warc_sequence w2 = aw_warc_sequence w1"
      "aw_segment_sequence w2 = Suc k" "aw_segment w2 = None"
      using seal_segment_Inr [OF roll(1) ok1] by blast
    have d2: "sc_spool_dir (aw_config w2) = d" "aw_segment_sequence w2 < u64_max"
      using bs(5,8) k assms(3) by (simp_all add: w1_def)
    note o = open_segment_Inr [OF roll(2) d2(2,1) bs(8)]
    let ?A = "segment_pair d k \<union> segment_pair d (Suc k)"
    have "agree_outside ?A s1 s2" using agree_outside_mono [OF bs(4)] by simp
    moreover have "agree_outside ?A s2 s'" using agree_outside_mono [OF o(2)] by simp
    ultimately have "agree_outside ?A s s'"
      using agree_outside_trans agree_outside_file [OF f(5), of ?A] by blast
    moreover have "(d, sealed_segment_name k) \<notin> segment_pair d (Suc k)" "(d, open_segment_name k) \<notin> segment_pair d (Suc k)"
      using segment_pair_other [of k "Suc k" d] assms(3) by simp_all
    then have "fs_file s' (d, sealed_segment_name k) = Some bs" "fs_file s' (d, open_segment_name k) = None"
      using bs(2,3) o(2) by (simp_all add: agree_outside_def)
    ultimately show ?thesis using o(1) [of ?C] o(3-5) bs by (simp add: w1_def)
  qed
qed

section \<open>A run\<close>

fun write_pages ::
    "storage_env \<Rightarrow> (fetched_page \<times> document) list \<Rightarrow> archive \<Rightarrow> (crawl_error + unit) \<times> archive" where
  "write_pages S [] a = (Inr (), a)"
| "write_pages S ((page, doc) # ps) a = state_then (write_page S page doc a) (\<lambda>_ a. write_pages S ps a)"

text \<open>The state of a run that began with \<open>s0\<close>, numbering segments from \<open>n\<close> and WARC files from
  \<open>m\<close>, after writing \<open>docs\<close>.\<close>

definition run_ok ::
    "document codec \<Rightarrow> fs \<Rightarrow> rstr \<Rightarrow> nat \<Rightarrow> rstr \<Rightarrow> nat \<Rightarrow> document list \<Rightarrow> archive \<Rightarrow> bool" where
  "run_ok C s0 d n wd m docs a \<longleftrightarrow> (case a of (w, s) \<Rightarrow>
     warc_ok wd m w \<and> aw_warc_sequence w \<le> m + length docs + 1 \<and>
     (\<exists>dss ds. docs = concat dss @ ds \<and> length dss \<le> length docs \<and> sealed_log C s d n dss \<and>
        open_ok C d (n + length dss) ds w \<and>
        agree_outside (warc_paths wd m \<union> segment_paths d n (Suc (n + length dss))) s0 s))"

lemma open_ok_same_spool: "open_ok C d k ds w \<Longrightarrow> same_spool w w' \<Longrightarrow> open_ok C d k ds w'"
  by (simp add: open_ok_def same_spool_def)

lemma warc_ok_same:
  "warc_ok wd m w \<Longrightarrow> aw_config w' = aw_config w \<Longrightarrow> aw_warc w' = aw_warc w \<Longrightarrow>
   aw_warc_sequence w' = aw_warc_sequence w \<Longrightarrow> warc_ok wd m w'"
  by (simp add: warc_ok_def)

lemma write_page_Inr:
  assumes "write_page S page doc (w, s) = (Inr u, w', s')"
    and ok: "run_ok (se_codec S) s0 d n wd m docs (w, s)"
    and room: "n + length docs + 1 < u64_max" "m + length docs + 1 < u64_max"
  shows "run_ok (se_codec S) s0 d n wd m (docs @ [doc]) (w', s')"
proof -
  let ?C = "se_codec S"
  obtain dss ds where st: "warc_ok wd m w" "aw_warc_sequence w \<le> m + length docs + 1"
    "agree_outside (warc_paths wd m \<union> segment_paths d n (Suc (n + length dss))) s0 s" "docs = concat dss @ ds"
    "length dss \<le> length docs" "sealed_log ?C s d n dss" "open_ok ?C d (n + length dss) ds w"
    using ok by (auto simp: run_ok_def)
  obtain u1 w1 s1 where c: "write_warc_record S page doc (w, s) = (Inr u1, w1, s1)"
    "write_spool S doc (w1, s1) = (Inr u, w', s')"
    using assms(1) by (auto simp: write_page_def dest!: state_then_Inr_iff [THEN iffD1])
  have "aw_warc_sequence w < u64_max" using st(2) room(2) by simp
  note wr = write_warc_record_Inr [OF c(1) this st(1)]
  let ?k = "n + length dss"
  have k: "Suc ?k < u64_max" using st(5) room(1) by simp
  have log1: "sealed_log ?C s1 d n dss"
    using sealed_log_agree [OF st(6) wr(1)] segment_not_warc by blast
  note sp = write_spool_Inr [OF c(2) open_ok_same_spool [OF st(7) wr(2)] k]
  have warc': "warc_ok wd m w'" "aw_warc_sequence w' \<le> m + length (docs @ [doc]) + 1"
    using sp warc_ok_same [OF wr(3)] wr(4) st(2) by auto
  let ?A = "\<lambda>e. warc_paths wd m \<union> segment_paths d n e"
  have agree1: "agree_outside (?A (Suc ?k)) s0 s1"
    using agree_outside_trans [OF st(3) agree_outside_mono [OF wr(1)]] by simp
  from sp consider (stay) "open_ok ?C d ?k (ds @ [doc]) w'" "fs_file s' = fs_file s1"
    | (roll) "open_ok ?C d (Suc ?k) [] w'" "agree_outside (segment_pair d ?k \<union> segment_pair d (Suc ?k)) s1 s'"
      "frames_of ?C (ds @ [doc]) \<noteq> None"
      "fs_file s' (d, sealed_segment_name ?k) = frames_of ?C (ds @ [doc])"
      "fs_file s' (d, open_segment_name ?k) = None" by (elim conjE disjE) simp_all
  then have "\<exists>dss ds. docs @ [doc] = concat dss @ ds \<and> length dss \<le> length (docs @ [doc]) \<and>
       sealed_log ?C s' d n dss \<and> open_ok ?C d (n + length dss) ds w' \<and>
       agree_outside (?A (Suc (n + length dss))) s0 s'"
  proof cases
    case stay
    have "sealed_log ?C s' d n dss" using log1 stay(2) by (simp add: sealed_log_def)
    moreover have "agree_outside (?A (Suc ?k)) s0 s'"
      using agree_outside_trans [OF agree1 agree_outside_file [OF stay(2)]] .
    ultimately have "docs @ [doc] = concat dss @ (ds @ [doc]) \<and> length dss \<le> length (docs @ [doc]) \<and>
       sealed_log ?C s' d n dss \<and> open_ok ?C d (n + length dss) (ds @ [doc]) w' \<and>
       agree_outside (?A (Suc (n + length dss))) s0 s'"
      using st(4,5) stay(1) by simp
    then show ?thesis by blast
  next
    case roll
    have "segment_pair d ?k \<union> segment_pair d (Suc ?k) \<subseteq> ?A (Suc (Suc ?k))"
      using segment_pair_subset [of n ?k "Suc (Suc ?k)" d] segment_pair_subset [of n "Suc ?k" "Suc (Suc ?k)" d] by auto
    then have a: "agree_outside (?A (Suc (Suc ?k))) s1 s'"
      using agree_outside_mono [OF roll(2)] by blast
    have "?A (Suc ?k) \<subseteq> ?A (Suc (Suc ?k))" using segment_paths_mono [of "Suc ?k" "Suc (Suc ?k)"] by auto
    then have "agree_outside (?A (Suc (Suc ?k))) s0 s'"
      using agree_outside_trans [OF agree_outside_mono [OF agree1] a] by blast
    moreover have "sealed_log ?C s' d n dss"
    proof (rule sealed_log_agree [OF log1 roll(2)])
      fix i assume "i < length dss"
      then show "(d, sealed_segment_name (n + i)) \<notin> segment_pair d ?k \<union> segment_pair d (Suc ?k) \<and>
        (d, open_segment_name (n + i)) \<notin> segment_pair d ?k \<union> segment_pair d (Suc ?k)"
        using segment_pair_other [of "n + i" ?k d] segment_pair_other [of "n + i" "Suc ?k" d] k by simp
    qed
    then have "sealed_log ?C s' d n (dss @ [ds @ [doc]])"
      using sealed_log_snoc roll(3,4,5) by auto
    ultimately have "docs @ [doc] = concat (dss @ [ds @ [doc]]) @ [] \<and>
       length (dss @ [ds @ [doc]]) \<le> length (docs @ [doc]) \<and>
       sealed_log ?C s' d n (dss @ [ds @ [doc]]) \<and> open_ok ?C d (n + length (dss @ [ds @ [doc]])) [] w' \<and>
       agree_outside (?A (Suc (n + length (dss @ [ds @ [doc]])))) s0 s'"
      using st(4,5) roll(1) by simp
    then show ?thesis by blast
  qed
  then show ?thesis using warc' by (simp add: run_ok_def)
qed

lemma write_pages_Inr:
  "write_pages S ps (w, s) = (Inr u, w', s') \<Longrightarrow> run_ok (se_codec S) s0 d n wd m docs (w, s) \<Longrightarrow>
   n + length docs + length ps < u64_max \<Longrightarrow> m + length docs + length ps < u64_max \<Longrightarrow>
   run_ok (se_codec S) s0 d n wd m (docs @ map snd ps) (w', s')"
proof (induction ps arbitrary: w s docs)
  case Nil
  then show ?case by simp
next
  case (Cons p ps)
  obtain page doc where p: "p = (page, doc)" by (cases p)
  obtain u1 w1 s1 where c: "write_page S page doc (w, s) = (Inr u1, w1, s1)"
    "write_pages S ps (w1, s1) = (Inr u, w', s')"
    using Cons.prems(1) p by (auto dest!: state_then_Inr_iff [THEN iffD1])
  have "run_ok (se_codec S) s0 d n wd m (docs @ [doc]) (w1, s1)"
    by (rule write_page_Inr [OF c(1) Cons.prems(2)]) (use Cons.prems in simp_all)
  from Cons.IH [OF c(2) this] Cons.prems p show ?case by simp
qed

section \<open>Opening and sealing\<close>

text \<open>Every file of directory \<open>d\<close> that \<open>parse\<close> numbers has a number below \<open>b\<close>.\<close>

definition numbered_below :: "(rstr \<Rightarrow> nat option) \<Rightarrow> rstr \<Rightarrow> nat \<Rightarrow> fs \<Rightarrow> bool" where
  "numbered_below parse d b s \<longleftrightarrow>
     list_all (\<lambda>name. case parse name of None \<Rightarrow> True | Some m \<Rightarrow> m < b) (fs_names s d)"

lemma foldl_highest:
  "(h :: nat) \<le> foldl (\<lambda>h x. case x of Some n \<Rightarrow> max h n | None \<Rightarrow> h) h xs \<and>
   (\<forall>m. Some m \<in> set xs \<longrightarrow> m \<le> foldl (\<lambda>h x. case x of Some n \<Rightarrow> max h n | None \<Rightarrow> h) h xs) \<and>
   (foldl (\<lambda>h x. case x of Some n \<Rightarrow> max h n | None \<Rightarrow> h) h xs = h \<or>
    Some (foldl (\<lambda>h x. case x of Some n \<Rightarrow> max h n | None \<Rightarrow> h) h xs) \<in> set xs)"
proof (induction xs arbitrary: h)
  case Nil
  then show ?case by simp
next
  case (Cons x xs)
  show ?case
  proof (cases x)
    case None
    then show ?thesis using Cons.IH [of h] by auto
  next
    case (Some n)
    then show ?thesis using Cons.IH [of "max h n"] by (auto simp: max_def split: if_splits)
  qed
qed

lemma highest_ge: "Some m \<in> set xs \<Longrightarrow> m \<le> highest xs"
  using foldl_highest [where h = 0] by (simp add: highest_def)

lemma highest_cases: "highest xs = 0 \<or> Some (highest xs) \<in> set xs"
  using foldl_highest [where h = 0] by (simp add: highest_def)

lemma next_sequence_Inr:
  assumes "next_sequence parse d s = (Inr n, s')" "numbered_below parse d b s" "b < u64_max" "0 < b"
  shows "numbered_below parse d n s" "n \<le> b" "fs_files s' = fs_files s"
proof -
  obtain names where r: "read_dir d s = (Inr names, s')"
    and n: "n = wrap_add_u64 (highest (map parse names)) 1"
    using assms(1) by (auto simp: next_sequence_def split: prod.splits sum.splits)
  note r = read_dir_Inr [OF r]
  have "highest (map parse names) < b"
    using highest_cases [of "map parse names"] assms(2,4) r
    by (auto simp: numbered_below_def list_all_iff split: option.splits)
  then have n: "n = Suc (highest (map parse names))"
    using n assms(3) by (simp add: wrap_add_u64_def u64_max_def)
  then show "n \<le> b" using \<open>highest (map parse names) < b\<close> by simp
  show "fs_files s' = fs_files s" using r by simp
  have "m \<le> highest (map parse names)" if "name \<in> set names" "parse name = Some m" for name m
    using that by (intro highest_ge) force
  then show "numbered_below parse d n s"
    using r by (auto simp: numbered_below_def list_all_iff n less_Suc_eq_le split: option.splits)
qed

lemma parse_warc_name:
  assumes "n \<le> u64_max"
  shows "parse_warc_sequence (warc_name n) = Some n"
proof -
  have "strip_prefix (str ''crawl-'') (warc_name n) = Some (pad_left 8 48 (show_nat n) @ str ''.warc.zst'')"
    by (simp add: warc_name_def del: str_simps)
  moreover have "strip_suffix (str ''.warc.zst'') (pad_left 8 48 (show_nat n) @ str ''.warc.zst'') =
      Some (pad_left 8 48 (show_nat n))" by (simp add: strip_suffix_Some_iff)
  ultimately show ?thesis
    using assms by (simp add: parse_warc_sequence_def parse_uint_padded del: str_simps)
qed

text \<open>A run touches no path that existed before it.\<close>

lemma fresh_paths:
  assumes "numbered_below parse_segment_sequence d n s" "numbered_below parse_warc_sequence wd m s"
    and "fs_file s p \<noteq> None" "e \<le> Suc u64_max"
  shows "p \<notin> warc_paths wd m \<union> segment_paths d n e"
proof
  obtain q name where p: "p = (q, name)" by (cases p)
  have old: "name \<in> set (fs_names s q)" using assms(3) p by (simp add: fs_names_iff)
  assume "p \<in> warc_paths wd m \<union> segment_paths d n e"
  then consider (warc) k where "q = wd" "name = warc_name k" "m \<le> k" "k \<le> u64_max"
    | (seg) k where "q = d" "name = open_segment_name k \<or> name = sealed_segment_name k" "n \<le> k" "k \<le> u64_max"
    using assms(4) unfolding p Un_iff segment_paths_iff warc_paths_def by fastforce
  then show False
  proof cases
    case warc
    then show False using old assms(2) parse_warc_name by (fastforce simp: numbered_below_def list_all_iff)
  next
    case seg
    then have "parse_segment_sequence name = Some k"
      using parse_open_segment_name parse_sealed_segment_name by auto
    then show False using seg old assms(1) by (fastforce simp: numbered_below_def list_all_iff)
  qed
qed

lemma numbered_below_files: "fs_files s' = fs_files s \<Longrightarrow> numbered_below p d b s' = numbered_below p d b s"
  by (simp add: numbered_below_def fs_names_def)

lemma io_Inr_iff: "io m = (Inr x, s) \<longleftrightarrow> m = (Inr x, s)"
  by (cases m) (auto simp: io_def)

lemma archive_open_Inr:
  assumes "archive_open S cfg s0 = (Inr w, s)"
    and "numbered_below parse_segment_sequence (sc_spool_dir cfg) b s0"
    and "numbered_below parse_warc_sequence (sc_warc_dir cfg) b s0" "0 < b" "b < u64_max"
  obtains n m where "numbered_below parse_segment_sequence (sc_spool_dir cfg) n s0"
    "numbered_below parse_warc_sequence (sc_warc_dir cfg) m s0" "n \<le> b" "m \<le> b"
    "run_ok (se_codec S) s0 (sc_spool_dir cfg) n (sc_warc_dir cfg) m [] (w, s)"
proof -
  obtain u1 s1 u2 s2 m s3 n s4 where c: "create_dir_all (sc_warc_dir cfg) s0 = (Inr u1, s1)"
    "create_dir_all (sc_spool_dir cfg) s1 = (Inr u2, s2)"
    "next_sequence parse_warc_sequence (sc_warc_dir cfg) s2 = (Inr m, s3)"
    "next_sequence parse_segment_sequence (sc_spool_dir cfg) s3 = (Inr n, s4)"
    and run: "(case state_then (open_warc S (\<lparr> aw_config = cfg, aw_warc = None, aw_warc_sequence = m, aw_warc_path = ([], []),
                 aw_segment = None, aw_segment_sequence = n,
                 aw_stats = \<lparr> as_documents = 0, as_sealed_segments = 0, as_warc_records = 0,
                             as_warc_bytes = 0, as_warc_files = 0 \<rparr> \<rparr>, s4)) (\<lambda>_ a. open_segment a) of
            (Inl e, a) \<Rightarrow> (Inl e, snd (archive_drop S a))
          | (Inr _, w, s) \<Rightarrow> (Inr w, s)) = (Inr w, s)"
    using assms(1)
    by (auto simp: archive_open_def next_warc_sequence_def next_spool_sequence_def io_Inr_iff Let_def
        dest!: state_then_Inr_iff [THEN iffD1])
  let ?w0 = "\<lparr> aw_config = cfg, aw_warc = None, aw_warc_sequence = m, aw_warc_path = ([], []),
                 aw_segment = None, aw_segment_sequence = n,
                 aw_stats = \<lparr> as_documents = 0, as_sealed_segments = 0, as_warc_records = 0,
                             as_warc_bytes = 0, as_warc_files = 0 \<rparr> \<rparr>"
  obtain w1 s5 where o: "open_warc S (?w0, s4) = (Inr (), w1, s5)" "open_segment (w1, s5) = (Inr (), w, s)"
    using run by (auto split: prod.splits sum.splits dest!: state_then_Inr_iff [THEN iffD1])
  have f2: "fs_files s2 = fs_files s0" using c(1,2) by (auto dest!: create_dir_all_Inr)
  have b3: "numbered_below parse_warc_sequence (sc_warc_dir cfg) b s2"
    using assms(3) numbered_below_files [OF f2] by simp
  note m = next_sequence_Inr [OF c(3) b3 assms(5,4)]
  have f3: "fs_files s3 = fs_files s0" using m(3) f2 by simp
  have b4: "numbered_below parse_segment_sequence (sc_spool_dir cfg) b s3"
    using assms(2) numbered_below_files [OF f3] by simp
  note n = next_sequence_Inr [OF c(4) b4 assms(5,4)]
  have f4: "fs_file s4 = fs_file s0" using n(3) f3 by (simp add: fs_file_def fun_eq_iff)
  have w0: "aw_warc_sequence ?w0 < u64_max" "warc_ok (sc_warc_dir cfg) m ?w0"
    using m(2) assms(5) by (simp_all add: warc_ok_def)
  note ow = open_warc_Inr [OF o(1) w0]
  have w1: "aw_segment_sequence w1 < u64_max" "sc_spool_dir (aw_config w1) = sc_spool_dir cfg"
    "aw_segment_sequence w1 = n"
    using ow(2) n(2) assms(5) by (simp_all add: same_spool_def)
  note os = open_segment_Inr [OF o(2) w1]
  let ?A = "warc_paths (sc_warc_dir cfg) m \<union> segment_paths (sc_spool_dir cfg) n (Suc n)"
  have "agree_outside ?A s4 s5" using agree_outside_mono [OF ow(1)] by simp
  moreover have "agree_outside ?A s5 s"
    by (rule agree_outside_mono [OF os(2) le_supI2 [OF segment_pair_subset]]) (use n(2) assms(5) in simp_all)
  ultimately have a: "agree_outside ?A s0 s"
    using agree_outside_trans agree_outside_file [OF f4, of ?A] by blast
  have "run_ok (se_codec S) s0 (sc_spool_dir cfg) n (sc_warc_dir cfg) m [] (w, s)"
    using a os ow warc_ok_same [OF ow(3) os(3-5)] by (simp add: run_ok_def sealed_log_def)
  then show thesis
    using that m n numbered_below_files [OF f2] numbered_below_files [OF f3] by blast
qed

lemma archive_seal_Inr:
  assumes "archive_seal S (w, s) = (Inr u, w', s')"
    and ok: "run_ok (se_codec S) s0 d n wd m docs (w, s)" and room: "n + length docs + 1 < u64_max"
  obtains dss where "concat dss = docs" "sealed_log (se_codec S) s' d n dss"
    "agree_outside (warc_paths wd m \<union> segment_paths d n (n + length dss)) s0 s'" "length dss \<le> Suc (length docs)"
proof -
  let ?C = "se_codec S"
  obtain dss ds where st: "warc_ok wd m w" 
    "agree_outside (warc_paths wd m \<union> segment_paths d n (Suc (n + length dss))) s0 s" "docs = concat dss @ ds"
    "length dss \<le> length docs" "sealed_log ?C s d n dss" "open_ok ?C d (n + length dss) ds w"
    using ok by (auto simp: run_ok_def)
  obtain u1 w1 s1 where c: "seal_segment (w, s) = (Inr u1, w1, s1)" "finish_warc S (w1, s1) = (Inr u, w', s')"
    using assms(1) by (auto simp: archive_seal_def dest!: state_then_Inr_iff [THEN iffD1])
  let ?k = "n + length dss"
  obtain bs where sl: "frames_of ?C ds = Some bs" "fs_file s1 (d, sealed_segment_name ?k) = Some bs"
    "fs_file s1 (d, open_segment_name ?k) = None" "agree_outside (segment_pair d ?k) s s1"
    "aw_config w1 = aw_config w" "aw_warc w1 = aw_warc w" "aw_warc_sequence w1 = aw_warc_sequence w"
    using seal_segment_Inr [OF c(1) st(6)] by blast
  have k: "?k < u64_max" using st(4) room by simp
  have "sealed_log ?C s1 d n dss"
  proof (rule sealed_log_agree [OF st(5) sl(4)])
    fix i assume "i < length dss"
    then show "(d, sealed_segment_name (n + i)) \<notin> segment_pair d ?k \<and>
        (d, open_segment_name (n + i)) \<notin> segment_pair d ?k"
      using segment_pair_other [of "n + i" ?k d] k by simp
  qed
  then have log1: "sealed_log ?C s1 d n (dss @ [ds])" using sealed_log_snoc sl(1-3) by blast
  note fw = finish_warc_Inr(1) [OF c(2) warc_ok_same [OF st(1) sl(5-7)]]
  have "sealed_log ?C s' d n (dss @ [ds])"
    using sealed_log_agree [OF log1 fw] segment_not_warc by blast
  moreover have "agree_outside (warc_paths wd m \<union> segment_paths d n (Suc ?k)) s s1"
    by (rule agree_outside_mono [OF sl(4) le_supI2 [OF segment_pair_subset]]) (use k in simp_all)
  then have "agree_outside (warc_paths wd m \<union> segment_paths d n (Suc ?k)) s0 s'"
    using agree_outside_trans [OF agree_outside_trans [OF st(2)]] agree_outside_mono [OF fw] by blast
  ultimately show thesis using that [of "dss @ [ds]"] st(3,4) by simp
qed

section \<open>What a run leaves on the disk\<close>

lemma archive_run:
  assumes "archive_open S cfg s0 = (Inr w0, s1)" "write_pages S pages (w0, s1) = (Inr u, w2, s2)"
    "archive_seal S (w2, s2) = (Inr v, w3, s3)"
    and "numbered_below parse_segment_sequence (sc_spool_dir cfg) b s0"
    "numbered_below parse_warc_sequence (sc_warc_dir cfg) b s0" "0 < b" "b + length pages + 1 < u64_max"
  obtains n m dss where "numbered_below parse_segment_sequence (sc_spool_dir cfg) n s0"
    "numbered_below parse_warc_sequence (sc_warc_dir cfg) m s0"
    "concat dss = map snd pages" "sealed_log (se_codec S) s3 (sc_spool_dir cfg) n dss"
    "n + length dss \<le> u64_max"
    "agree_outside (warc_paths (sc_warc_dir cfg) m \<union> segment_paths (sc_spool_dir cfg) n (n + length dss)) s0 s3"
proof -
  have b: "b < u64_max" using assms(7) by simp
  obtain n m where nm: "numbered_below parse_segment_sequence (sc_spool_dir cfg) n s0"
    "numbered_below parse_warc_sequence (sc_warc_dir cfg) m s0" "n \<le> b" "m \<le> b"
    "run_ok (se_codec S) s0 (sc_spool_dir cfg) n (sc_warc_dir cfg) m [] (w0, s1)"
    using archive_open_Inr [OF assms(1,4,5,6) b] by blast
  have run: "run_ok (se_codec S) s0 (sc_spool_dir cfg) n (sc_warc_dir cfg) m ([] @ map snd pages) (w2, s2)"
    by (rule write_pages_Inr [OF assms(2) nm(5)]) (use nm assms(7) in simp_all)
  have room: "n + length ([] @ map snd pages) + 1 < u64_max" using nm assms(7) by simp
  obtain dss where "concat dss = [] @ map snd pages" "sealed_log (se_codec S) s3 (sc_spool_dir cfg) n dss"
    "agree_outside (warc_paths (sc_warc_dir cfg) m \<union> segment_paths (sc_spool_dir cfg) n (n + length dss)) s0 s3"
    "length dss \<le> Suc (length ([] @ map snd pages))"
    using archive_seal_Inr [OF assms(3) run room] by blast
  then show thesis using that [OF nm(1,2)] nm(3) assms(7) by simp
qed

text \<open>A run of the archive writer that reports success leaves in the spool directory a
  sequence of newly numbered sealed segments that hold exactly the frames of the documents of
  the run, in the order they were written, with nothing left under an open name, and every file
  that was there before is as it was: the numbering never reuses a name.\<close>

theorem archive_run_exact:
  assumes "archive_open S cfg s0 = (Inr w0, s1)" "write_pages S pages (w0, s1) = (Inr u, w2, s2)"
    "archive_seal S (w2, s2) = (Inr v, w3, s3)"
    and "numbered_below parse_segment_sequence (sc_spool_dir cfg) b s0"
    "numbered_below parse_warc_sequence (sc_warc_dir cfg) b s0" "0 < b" "b + length pages + 1 < u64_max"
  shows "\<exists>n dss. numbered_below parse_segment_sequence (sc_spool_dir cfg) n s0 \<and>
      concat dss = map snd pages \<and> sealed_log (se_codec S) s3 (sc_spool_dir cfg) n dss \<and>
      (\<forall>p. fs_file s0 p \<noteq> None \<longrightarrow> fs_file s3 p = fs_file s0 p)"
proof -
  obtain n m dss where r: "numbered_below parse_segment_sequence (sc_spool_dir cfg) n s0"
    "numbered_below parse_warc_sequence (sc_warc_dir cfg) m s0"
    "concat dss = map snd pages" "sealed_log (se_codec S) s3 (sc_spool_dir cfg) n dss"
    "n + length dss \<le> u64_max"
    "agree_outside (warc_paths (sc_warc_dir cfg) m \<union> segment_paths (sc_spool_dir cfg) n (n + length dss)) s0 s3"
    by (rule archive_run [OF assms])
  have "fs_file s3 p = fs_file s0 p" if "fs_file s0 p \<noteq> None" for p
  proof -
    have "p \<notin> warc_paths (sc_warc_dir cfg) m \<union> segment_paths (sc_spool_dir cfg) n (n + length dss)"
      by (rule fresh_paths [OF r(1,2) that]) (use r(5) in simp)
    then show ?thesis using r(6) unfolding agree_outside_def by blast
  qed
  then show ?thesis using r by blast
qed

section \<open>Rolling WARC files\<close>

definition warc_record :: "storage_env \<Rightarrow> fetched_page \<Rightarrow> document \<Rightarrow> nat list" where
  "warc_record S page doc =
     (let payload = utf8 (http_payload page)
      in utf8 (warc_header S doc (length payload)) @ payload @ [13, 10, 13, 10])"

lemma warc_record_eq: "warc_record S page doc =
    utf8 (warc_header S doc (length (utf8 (http_payload page)))) @ utf8 (http_payload page) @ [13, 10, 13, 10]"
  by (simp add: warc_record_def Let_def)

lemma length_warc_record: "length (warc_record S page doc) =
    length (utf8 (warc_header S doc (length (utf8 (http_payload page))))) + length (utf8 (http_payload page)) + 4"
  by (simp add: warc_record_def Let_def)

definition warcinfo_bytes :: "storage_env \<Rightarrow> nat \<Rightarrow> nat list" where
  "warcinfo_bytes S q = utf8 (warcinfo_record S (se_clock S q) (warc_name q))"

lemma encoder_write_Inr: "encoder_write bs acc s = (Inr u, acc', s') \<Longrightarrow> acc' = acc @ bs"
  by (auto simp: encoder_write_def split: prod.splits list.splits option.splits)

lemma encoder_record_Inr:
  "encoder_record h b acc s = (Inr u, acc', s') \<Longrightarrow> acc' = acc @ h @ b @ [13, 10, 13, 10]"
  by (auto simp: encoder_record_def split: prod.splits sum.splits dest!: encoder_write_Inr)

lemma open_warc_effect:
  assumes "open_warc S (w, s) = (Inr u, w', s')" "aw_warc_sequence w < u64_max"
  shows "aw_warc w' = Some ((sc_warc_dir (aw_config w), warc_name (aw_warc_sequence w)),
      warcinfo_bytes S (aw_warc_sequence w))"
    and "as_warc_bytes (aw_stats w') =
      wrap_add_u64 (as_warc_bytes (aw_stats w)) (length (warcinfo_bytes S (aw_warc_sequence w)))"
    and "aw_config w' = aw_config w" "aw_warc_sequence w' = Suc (aw_warc_sequence w)"
    and "fs_file s' = (fs_file s)((sc_warc_dir (aw_config w), warc_name (aw_warc_sequence w)) \<mapsto> [])"
proof -
  let ?p = "(sc_warc_dir (aw_config w), warc_name (aw_warc_sequence w))"
  let ?h = "warcinfo_bytes S (aw_warc_sequence w)"
  have seq: "wrap_add_u64 (aw_warc_sequence w) 1 = Suc (aw_warc_sequence w)"
    using assms(2) by (simp add: wrap_add_u64_def u64_max_def)
  obtain s1 acc where c: "file_create ?p s = (Inr (), s1)" "encoder_write ?h [] s1 = (Inr (), acc, s')"
    and w': "w' = w \<lparr> aw_warc_sequence := wrap_add_u64 (aw_warc_sequence w) 1,
        aw_stats := (aw_stats w) \<lparr> as_warc_bytes := wrap_add_u64 (as_warc_bytes (aw_stats w)) (length ?h),
          as_warc_records := wrap_add_u64 (as_warc_records (aw_stats w)) 1,
          as_warc_files := wrap_add_u64 (as_warc_files (aw_stats w)) 1 \<rparr>,
        aw_warc := Some (?p, acc), aw_warc_path := ?p \<rparr>"
    using assms(1)
    by (auto simp: open_warc_def Let_def warcinfo_bytes_def split: prod.splits sum.splits option.splits)
  show "fs_file s' = (fs_file s)(?p \<mapsto> [])"
    using file_create_Inr [OF c(1)] encoder_write_file [OF c(2)] by simp
  show "aw_warc w' = Some (?p, ?h)" "as_warc_bytes (aw_stats w') =
      wrap_add_u64 (as_warc_bytes (aw_stats w)) (length ?h)"
    "aw_config w' = aw_config w" "aw_warc_sequence w' = Suc (aw_warc_sequence w)"
    using encoder_write_Inr [OF c(2)] seq by (simp_all add: w')
qed

text \<open>With the byte count at the limit, a record goes to the open file, which is then finished.\<close>

lemma write_warc_record_rolls:
  assumes "write_warc_record S page doc (w, s) = (Inr u, w', s')" "aw_warc_sequence w < u64_max"
    and "sc_warc_max_bytes (aw_config w) \<le> as_warc_bytes (aw_stats w)"
    and room: "as_warc_bytes (aw_stats w) + length (warc_record S page doc) +
      length (warcinfo_bytes S (aw_warc_sequence w)) < 2 ^ 64"
  shows "aw_warc w' = Some ((sc_warc_dir (aw_config w), warc_name (aw_warc_sequence w)),
      warcinfo_bytes S (aw_warc_sequence w))"
    and "aw_config w' = aw_config w" "aw_warc_sequence w' = Suc (aw_warc_sequence w)"
    and "as_warc_bytes (aw_stats w') = as_warc_bytes (aw_stats w) + length (warc_record S page doc) +
      length (warcinfo_bytes S (aw_warc_sequence w))"
proof -
  let ?r = "warc_record S page doc" and ?b = "as_warc_bytes (aw_stats w)"
  obtain p acc acc1 s1 u2 w2 s2 where f: "finish_warc S
      (w \<lparr> aw_warc := Some (p, acc1), aw_stats := (aw_stats w) \<lparr> as_warc_bytes := wrap_add_u64 ?b (length ?r),
             as_warc_records := wrap_add_u64 (as_warc_records (aw_stats w)) 1 \<rparr> \<rparr>, s1) = (Inr u2, w2, s2)"
    "open_warc S (w2, s2) = (Inr u, w', s')"
  proof -
    have big: "sc_warc_max_bytes (aw_config w) \<le> wrap_add_u64 ?b (length ?r)"
      using assms(3) room by (simp add: wrap_add_u64_small)
    show thesis
      using assms(1) big that
      by (auto simp: write_warc_record_def Let_def length_warc_record
          split: prod.splits sum.splits option.splits if_splits dest!: state_then_Inr_iff [THEN iffD1])
  qed
  have w2: "aw_config w2 = aw_config w" "aw_warc_sequence w2 = aw_warc_sequence w"
    "as_warc_bytes (aw_stats w2) = ?b + length ?r"
    using f(1) room
    by (auto simp: finish_warc_def wrap_add_u64_small split: option.splits prod.splits)
  have "aw_warc_sequence w2 < u64_max" using w2 assms(2) by simp
  note o = open_warc_effect [OF f(2) this]
  show "aw_warc w' = Some ((sc_warc_dir (aw_config w), warc_name (aw_warc_sequence w)),
      warcinfo_bytes S (aw_warc_sequence w))" "aw_config w' = aw_config w"
    "aw_warc_sequence w' = Suc (aw_warc_sequence w)" using o w2 by simp_all
  show "as_warc_bytes (aw_stats w') = ?b + length ?r + length (warcinfo_bytes S (aw_warc_sequence w))"
    using o(2) w2 room by (simp add: wrap_add_u64_small)
qed

lemma seal_segment_warc:
  "seal_segment (w, s) = (r, w', s') \<Longrightarrow> aw_warc w' = aw_warc w \<and> aw_config w' = aw_config w \<and>
   aw_warc_sequence w' = aw_warc_sequence w \<and> as_warc_bytes (aw_stats w') = as_warc_bytes (aw_stats w)"
  by (auto simp: seal_segment_def Let_def split: prod.splits sum.splits option.splits)

lemma open_segment_warc:
  "open_segment (w, s) = (r, w', s') \<Longrightarrow> aw_warc w' = aw_warc w \<and> aw_config w' = aw_config w \<and>
   aw_warc_sequence w' = aw_warc_sequence w \<and> as_warc_bytes (aw_stats w') = as_warc_bytes (aw_stats w)"
  by (auto simp: open_segment_def split: prod.splits sum.splits)

lemma write_spool_warc:
  assumes "write_spool S doc (w, s) = (Inr u, w', s')"
  shows "aw_warc w' = aw_warc w \<and> aw_config w' = aw_config w \<and>
   aw_warc_sequence w' = aw_warc_sequence w \<and> as_warc_bytes (aw_stats w') = as_warc_bytes (aw_stats w)"
  using assms
  by (auto simp: write_spool_def Let_def split: prod.splits sum.splits option.splits if_splits
      dest!: state_then_Inr_iff [THEN iffD1] seal_segment_warc open_segment_warc)

text \<open>The bytes that pages add when each starts a file of its own, the first numbered \<open>q\<close>.\<close>

fun rolled_bytes :: "storage_env \<Rightarrow> (fetched_page \<times> document) list \<Rightarrow> nat \<Rightarrow> nat" where
  "rolled_bytes S [] q = 0"
| "rolled_bytes S ((page, doc) # ps) q =
     length (warc_record S page doc) + length (warcinfo_bytes S q) + rolled_bytes S ps (Suc q)"

text \<open>C34: the byte count that decides when to roll to a new WARC file is never reset when a file is
  finished, so once it has reached the limit every further page starts a WARC file of its own.\<close>

theorem warc_rolls_every_page:
  "write_pages S pages (w, s) = (Inr u, w', s') \<Longrightarrow>
   sc_warc_max_bytes (aw_config w) \<le> as_warc_bytes (aw_stats w) \<Longrightarrow>
   as_warc_bytes (aw_stats w) + rolled_bytes S pages (aw_warc_sequence w) < 2 ^ 64 \<Longrightarrow>
   aw_warc_sequence w + length pages < u64_max \<Longrightarrow>
   aw_warc_sequence w' = aw_warc_sequence w + length pages \<and>
   (\<forall>q. pages \<noteq> [] \<longrightarrow> aw_warc_sequence w' = Suc q \<longrightarrow>
      aw_warc w' = Some ((sc_warc_dir (aw_config w), warc_name q), warcinfo_bytes S q))"
proof (induction pages arbitrary: w s)
  case Nil
  then show ?case by simp
next
  case (Cons p ps)
  obtain page doc where p: "p = (page, doc)" by (cases p)
  obtain u1 w1 s1 u2 w2 s2 where c: "write_warc_record S page doc (w, s) = (Inr u1, w1, s1)"
    "write_spool S doc (w1, s1) = (Inr u2, w2, s2)" "write_pages S ps (w2, s2) = (Inr u, w', s')"
    using Cons.prems(1) p by (auto simp: write_page_def dest!: state_then_Inr_iff [THEN iffD1])
  have room: "aw_warc_sequence w < u64_max" "as_warc_bytes (aw_stats w) + length (warc_record S page doc) +
      length (warcinfo_bytes S (aw_warc_sequence w)) < 2 ^ 64"
    using Cons.prems(3,4) p by simp_all
  note r = write_warc_record_rolls [OF c(1) room(1) Cons.prems(2) room(2)]
  have w2: "aw_warc w2 = Some ((sc_warc_dir (aw_config w), warc_name (aw_warc_sequence w)),
      warcinfo_bytes S (aw_warc_sequence w))" "aw_config w2 = aw_config w"
    "aw_warc_sequence w2 = Suc (aw_warc_sequence w)"
    "as_warc_bytes (aw_stats w2) = as_warc_bytes (aw_stats w) + length (warc_record S page doc) +
      length (warcinfo_bytes S (aw_warc_sequence w))"
    using write_spool_warc [OF c(2)] r by simp_all
  have "aw_warc_sequence w' = aw_warc_sequence w2 + length ps \<and>
   (\<forall>q. ps \<noteq> [] \<longrightarrow> aw_warc_sequence w' = Suc q \<longrightarrow>
      aw_warc w' = Some ((sc_warc_dir (aw_config w2), warc_name q), warcinfo_bytes S q))"
    by (rule Cons.IH [OF c(3)]) (use Cons.prems w2 p in simp_all)
  then show ?case using w2 c(3) by (cases ps) auto
qed

section \<open>Runs without faults\<close>

text \<open>A file system that answers every call and holds both directories.\<close>

definition quiet :: "storage_config \<Rightarrow> fs \<Rightarrow> bool" where
  "quiet cfg s \<longleftrightarrow> fs_answers s = [] \<and> fs_write_faults s = [] \<and>
     sc_spool_dir cfg \<in> set (fs_dirs s) \<and> sc_warc_dir cfg \<in> set (fs_dirs s)"

definition live :: "storage_config \<Rightarrow> archive \<Rightarrow> bool" where
  "live cfg a \<longleftrightarrow> (case a of (w, s) \<Rightarrow> aw_config w = cfg \<and> quiet cfg s \<and>
     (\<exists>name acc. aw_warc w = Some ((sc_warc_dir cfg, name), acc)) \<and>
     (\<exists>sg m n. aw_segment w = Some sg \<and> seg_open_path sg = (sc_spool_dir cfg, m) \<and>
        seg_sealed_path sg = (sc_spool_dir cfg, n)))"

lemma quiet_simps:
  "quiet cfg s \<Longrightarrow> d \<in> set (fs_dirs s) \<Longrightarrow> file_create (d, n) s = (Inr (), fs_set (d, n) [] s)"
  "quiet cfg s \<Longrightarrow> d \<in> set (fs_dirs s) \<Longrightarrow> file_write (d, n) bs s = (Inr (), fs_set (d, n) bs s)"
  "quiet cfg s \<Longrightarrow> sync_all s = (Inr (), s)"
  "quiet cfg s \<Longrightarrow> encoder_write bs acc s = (Inr (), acc @ bs, s)"
  "quiet cfg s \<Longrightarrow> encoder_record h b acc s = (Inr (), acc @ h @ b @ [13, 10, 13, 10], s)"
  "quiet cfg s \<Longrightarrow> quiet cfg (fs_set p bs s)"
  by (simp_all add: quiet_def file_create_def file_write_def sync_all_def encoder_write_def fs_call_def
      encoder_record_def)

lemma quiet_dirs:
  "quiet cfg s \<Longrightarrow> sc_spool_dir cfg \<in> set (fs_dirs s)" "quiet cfg s \<Longrightarrow> sc_warc_dir cfg \<in> set (fs_dirs s)"
  by (simp_all add: quiet_def)

lemma fs_delete_sel:
  "fs_answers (fs_delete p s) = fs_answers s" "fs_write_faults (fs_delete p s) = fs_write_faults s"
  by (simp_all add: fs_delete_def)

lemma open_warc_quiet:
  assumes "quiet cfg s" "aw_config w = cfg" "se_zstd_new S (sc_compression_level cfg) = None"
  shows "\<exists>w' s'. open_warc S (w, s) = (Inr (), w', s') \<and> quiet cfg s' \<and> aw_config w' = cfg \<and>
    (\<exists>name acc. aw_warc w' = Some ((sc_warc_dir cfg, name), acc)) \<and> aw_segment w' = aw_segment w"
  using assms quiet_dirs [OF assms(1)]
  by (simp add: open_warc_def Let_def quiet_simps [OF assms(1)] quiet_simps(4) [OF quiet_simps(6) [OF assms(1)]]
      quiet_simps(6))

lemma finish_warc_quiet:
  assumes "quiet cfg s" "aw_config w = cfg" "aw_warc w = Some ((sc_warc_dir cfg, name), acc)"
  shows "\<exists>s'. finish_warc S (w, s) = (Inr (), w \<lparr> aw_warc := None \<rparr>, s') \<and> quiet cfg s'"
  using assms quiet_dirs [OF assms(1)]
  by (simp add: finish_warc_def quiet_simps [OF assms(1)] quiet_simps(3) [OF quiet_simps(6) [OF assms(1)]]
      quiet_simps(6))

lemma open_segment_quiet:
  assumes "quiet cfg s" "aw_config w = cfg" "aw_warc w = Some ((sc_warc_dir cfg, name), acc)"
  shows "\<exists>w' s'. open_segment (w, s) = (Inr (), w', s') \<and> live cfg (w', s')"
  using assms quiet_dirs [OF assms(1)]
  by (simp add: open_segment_def segment_create_def Let_def quiet_simps [OF assms(1)] quiet_simps(6) live_def)

lemma seal_segment_quiet:
  assumes "live cfg (w, s)"
  shows "\<exists>w' s'. seal_segment (w, s) = (Inr (), w', s') \<and> quiet cfg s' \<and> aw_config w' = cfg \<and>
    aw_warc w' = aw_warc w \<and> aw_segment w' = None"
proof -
  obtain sg m n where sg: "aw_segment w = Some sg" "seg_open_path sg = (sc_spool_dir cfg, m)"
    "seg_sealed_path sg = (sc_spool_dir cfg, n)" and q: "quiet cfg s" "aw_config w = cfg"
    using assms by (auto simp: live_def)
  let ?s = "fs_set (sc_spool_dir cfg, m) (seg_written sg) s"
  have "\<exists>s'. fs_rename (sc_spool_dir cfg, m) (sc_spool_dir cfg, n) ?s = (Inr (), s') \<and> quiet cfg s'"
    using q by (simp add: fs_rename_def fs_call_def quiet_def fs_delete_sel)
  then show ?thesis
    using q sg quiet_dirs [OF q(1)]
    by (auto simp: seal_segment_def segment_seal_def Let_def quiet_simps [OF q(1)]
        quiet_simps(3) [OF quiet_simps(6) [OF q(1)]])
qed

lemma write_warc_record_quiet:
  assumes "live cfg (w, s)" "se_zstd_new S (sc_compression_level cfg) = None"
  shows "\<exists>w' s'. write_warc_record S page doc (w, s) = (Inr (), w', s') \<and> live cfg (w', s')"
proof -
  obtain name acc where q: "quiet cfg s" "aw_config w = cfg" "aw_warc w = Some ((sc_warc_dir cfg, name), acc)"
    using assms(1) by (auto simp: live_def)
  define w1 where "w1 = w \<lparr> aw_warc := Some ((sc_warc_dir cfg, name), acc @ warc_record S page doc),
    aw_stats := (aw_stats w) \<lparr> as_warc_bytes := wrap_add_u64 (as_warc_bytes (aw_stats w)) (length (warc_record S page doc)),
       as_warc_records := wrap_add_u64 (as_warc_records (aw_stats w)) 1 \<rparr> \<rparr>"
  have w1: "aw_config w1 = cfg" "aw_warc w1 = Some ((sc_warc_dir cfg, name), acc @ warc_record S page doc)"
    "live cfg (w1, s)" using q assms(1) by (simp_all add: w1_def live_def)
  have run: "write_warc_record S page doc (w, s) =
    (if sc_warc_max_bytes cfg \<le> as_warc_bytes (aw_stats w1)
     then state_then (finish_warc S (w1, s)) (\<lambda>_ a. open_warc S a) else (Inr (), w1, s))"
    using q by (simp add: write_warc_record_def Let_def quiet_simps(5) [OF q(1)] w1_def length_warc_record
        flip: warc_record_eq)
  obtain s2 where f: "finish_warc S (w1, s) = (Inr (), w1 \<lparr> aw_warc := None \<rparr>, s2)" "quiet cfg s2"
    using finish_warc_quiet [OF q(1) w1(1,2)] by blast
  have c2: "aw_config (w1 \<lparr> aw_warc := None \<rparr>) = cfg" using w1 by simp
  obtain w3 s3 where o: "open_warc S (w1 \<lparr> aw_warc := None \<rparr>, s2) = (Inr (), w3, s3)" "quiet cfg s3"
    "aw_config w3 = cfg" "\<exists>name acc. aw_warc w3 = Some ((sc_warc_dir cfg, name), acc)"
    "aw_segment w3 = aw_segment w1"
    using open_warc_quiet [OF f(2) c2 assms(2)] by auto
  have "live cfg (w3, s3)" using o w1(3) by (simp add: live_def)
  then show ?thesis using run f o w1(3) by simp
qed

lemma write_spool_quiet:
  assumes "live cfg (w, s)" "frame_of (se_codec S) doc \<noteq> None"
  shows "\<exists>w' s'. write_spool S doc (w, s) = (Inr (), w', s') \<and> live cfg (w', s')"
proof -
  obtain sg m n f where sg: "aw_segment w = Some sg" "seg_open_path sg = (sc_spool_dir cfg, m)"
    "seg_sealed_path sg = (sc_spool_dir cfg, n)" "frame_of (se_codec S) doc = Some f"
    and q: "quiet cfg s" "aw_config w = cfg"
    using assms by (auto simp: live_def)
  define sg1 where "sg1 = sg \<lparr> seg_written := seg_written sg @ f, seg_bytes := wrap_add_u64 (seg_bytes sg) (length f) \<rparr>"
  define w1 where "w1 = w \<lparr> aw_segment := Some sg1, aw_stats := (aw_stats w) \<lparr> as_documents :=
      wrap_add_u64 (as_documents (aw_stats w)) 1 \<rparr> \<rparr>"
  have "fs_write_faults s = []" using q by (simp add: quiet_def)
  moreover from this have same: "s \<lparr> fs_write_faults := [] \<rparr> = s" by (cases s) simp
  ultimately have run: "write_spool S doc (w, s) =
    (if sc_segment_bytes cfg \<le> seg_bytes sg1 then state_then (seal_segment (w1, s)) (\<lambda>_ a. open_segment a)
     else (Inr (), w1, s))"
    using sg q write_frame_works [OF _ sg(4)]
    by (simp add: write_spool_def segment_write_def Let_def w1_def sg1_def same)
  have l1: "live cfg (w1, s)" using assms(1) sg by (simp add: live_def w1_def sg1_def)
  obtain w2 s2 where s2: "seal_segment (w1, s) = (Inr (), w2, s2)" "quiet cfg s2" "aw_config w2 = cfg"
    "aw_warc w2 = aw_warc w1" using seal_segment_quiet [OF l1] by blast
  obtain name acc where "aw_warc w2 = Some ((sc_warc_dir cfg, name), acc)" using s2 l1 by (auto simp: live_def)
  from open_segment_quiet [OF s2(2,3) this] show ?thesis using run s2 l1 by auto
qed

lemma write_pages_quiet:
  "live cfg (w, s) \<Longrightarrow> se_zstd_new S (sc_compression_level cfg) = None \<Longrightarrow>
   \<forall>p \<in> set pages. frame_of (se_codec S) (snd p) \<noteq> None \<Longrightarrow>
   \<exists>w' s'. write_pages S pages (w, s) = (Inr (), w', s') \<and> live cfg (w', s')"
proof (induction pages arbitrary: w s)
  case Nil
  then show ?case by simp
next
  case (Cons p ps)
  obtain page doc where p: "p = (page, doc)" by (cases p)
  obtain w1 s1 where a: "write_warc_record S page doc (w, s) = (Inr (), w1, s1)" "live cfg (w1, s1)"
    using write_warc_record_quiet [OF Cons.prems(1,2)] by blast
  have "frame_of (se_codec S) doc \<noteq> None" using Cons.prems(3) p by simp
  then obtain w2 s2 where b: "write_spool S doc (w1, s1) = (Inr (), w2, s2)" "live cfg (w2, s2)"
    using write_spool_quiet [OF a(2)] by blast
  have "\<forall>p \<in> set ps. frame_of (se_codec S) (snd p) \<noteq> None" using Cons.prems(3) by simp
  with Cons.IH [OF b(2) Cons.prems(2)] a b p show ?case by (simp add: write_page_def)
qed

lemma archive_open_quiet:
  assumes "fs_answers s = []" "fs_write_faults s = []" "se_zstd_new S (sc_compression_level cfg) = None"
  shows "\<exists>w' s'. archive_open S cfg s = (Inr w', s') \<and> live cfg (w', s')"
proof -
  let ?s = "s \<lparr> fs_dirs := List.insert (sc_spool_dir cfg) (List.insert (sc_warc_dir cfg) (fs_dirs s)) \<rparr>"
  have q: "quiet cfg ?s" using assms by (simp add: quiet_def)
  have c: "create_dir_all (sc_warc_dir cfg) s = (Inr (), s \<lparr> fs_dirs := List.insert (sc_warc_dir cfg) (fs_dirs s) \<rparr>)"
    "create_dir_all (sc_spool_dir cfg) (s \<lparr> fs_dirs := List.insert (sc_warc_dir cfg) (fs_dirs s) \<rparr>) = (Inr (), ?s)"
    using assms by (simp_all add: create_dir_all_def fs_call_def)
  have "\<exists>n. next_sequence parse d ?s = (Inr n, ?s)" if "d \<in> set (fs_dirs ?s)" for parse d
    using assms that by (simp add: next_sequence_def read_dir_def fs_call_def)
  then obtain m n where n: "next_sequence parse_warc_sequence (sc_warc_dir cfg) ?s = (Inr m, ?s)"
    "next_sequence parse_segment_sequence (sc_spool_dir cfg) ?s = (Inr n, ?s)"
    using quiet_dirs [OF q] by metis
  let ?w = "\<lparr> aw_config = cfg, aw_warc = None, aw_warc_sequence = m, aw_warc_path = ([], []),
                 aw_segment = None, aw_segment_sequence = n,
                 aw_stats = \<lparr> as_documents = 0, as_sealed_segments = 0, as_warc_records = 0,
                             as_warc_bytes = 0, as_warc_files = 0 \<rparr> \<rparr>"
  have "aw_config ?w = cfg" by simp
  from open_warc_quiet [OF q this assms(3)] obtain w1 s1 name acc where
    o: "open_warc S (?w, ?s) = (Inr (), w1, s1)" "quiet cfg s1" "aw_config w1 = cfg"
    "aw_warc w1 = Some ((sc_warc_dir cfg, name), acc)" by blast
  obtain w2 s2 where "open_segment (w1, s1) = (Inr (), w2, s2)" "live cfg (w2, s2)"
    using open_segment_quiet [OF o(2-4)] by blast
  then show ?thesis
    using c n o by (simp add: archive_open_def next_warc_sequence_def next_spool_sequence_def io_def)
qed

lemma archive_seal_quiet:
  assumes "live cfg (w, s)"
  shows "\<exists>w' s'. archive_seal S (w, s) = (Inr (), w', s')"
proof -
  obtain w1 s1 where c: "seal_segment (w, s) = (Inr (), w1, s1)" "quiet cfg s1" "aw_config w1 = cfg"
    "aw_warc w1 = aw_warc w" using seal_segment_quiet [OF assms] by blast
  obtain name acc where "aw_warc w1 = Some ((sc_warc_dir cfg, name), acc)" using c assms by (auto simp: live_def)
  from finish_warc_quiet [OF c(2,3) this] obtain s2 where
    "finish_warc S (w1, s1) = (Inr (), w1 \<lparr> aw_warc := None \<rparr>, s2)" by blast
  with c(1) show ?thesis by (simp add: archive_seal_def)
qed

lemma archive_run_works:
  assumes "fs_answers s = []" "fs_write_faults s = []" "se_zstd_new S (sc_compression_level cfg) = None"
    and "list_all (\<lambda>p. frame_of (se_codec S) (snd p) \<noteq> None) pages"
  obtains w0 s1 w2 s2 w3 s3 where "archive_open S cfg s = (Inr w0, s1)" "live cfg (w0, s1)"
    "write_pages S pages (w0, s1) = (Inr (), w2, s2)" "archive_seal S (w2, s2) = (Inr (), w3, s3)"
proof -
  obtain w0 s1 where o: "archive_open S cfg s = (Inr w0, s1)" "live cfg (w0, s1)"
    using archive_open_quiet [OF assms(1-3)] by blast
  have "\<forall>p \<in> set pages. frame_of (se_codec S) (snd p) \<noteq> None" using assms(4) by (simp add: list_all_iff)
  then obtain w2 s2 where w: "write_pages S pages (w0, s1) = (Inr (), w2, s2)" "live cfg (w2, s2)"
    using write_pages_quiet [OF o(2) assms(3)] by blast
  then show thesis using o archive_seal_quiet [OF w(2)] that by blast
qed

text \<open>When the operating system answers every call and every document fits a frame, a run of
  the archive writer goes through from the first call to the last: opening, every page and the
  final seal succeed, on any contents of the two directories.\<close>

theorem archive_run_succeeds:
  assumes "fs_answers s = []" "fs_write_faults s = []" "se_zstd_new S (sc_compression_level cfg) = None"
    and "list_all (\<lambda>p. frame_of (se_codec S) (snd p) \<noteq> None) pages"
  shows "\<exists>w0 s1 w2 s2 w3 s3. archive_open S cfg s = (Inr w0, s1) \<and>
    write_pages S pages (w0, s1) = (Inr (), w2, s2) \<and> archive_seal S (w2, s2) = (Inr (), w3, s3)"
  by (rule archive_run_works [OF assms]) blast

section \<open>Concrete runs\<close>

definition toy_doc :: "rstr \<Rightarrow> document" where
  "toy_doc u = document_new length u [] [] 0 []"

definition toy_codec :: "document codec" where
  "toy_codec = \<lparr> encode = (\<lambda>d. if d = toy_doc (doc_url d) then Inr (doc_url d) else Inl ''unsupported''),
     decode = (\<lambda>bs. Inr (toy_doc bs)) \<rparr>"

definition toy_storage :: storage_env where
  "toy_storage = \<lparr> se_hash = (\<lambda>bs. 0), se_zstd = (\<lambda>l bs. bs), se_zstd_new = (\<lambda>l. None),
     se_version = str ''1'', se_clock = (\<lambda>n. 0), se_codec = toy_codec \<rparr>"

definition toy_config :: storage_config where
  "toy_config = \<lparr> sc_warc_dir = str ''w'', sc_spool_dir = str ''s'', sc_compression_level = 6,
     sc_warc_max_bytes = 5, sc_segment_bytes = 5 \<rparr>"

text \<open>A disk with one sealed segment of an earlier run.\<close>

definition toy_disk :: fs where
  "toy_disk = \<lparr> fs_files = [((str ''s'', sealed_segment_name 3), [1, 0, 0, 0, 120])], fs_dirs = [str ''s''],
     fs_answers = [], fs_write_faults = [], fs_read_answers = [] \<rparr>"

definition toy_pages :: "(fetched_page \<times> document) list" where
  "toy_pages = [(toy_page, toy_doc [97]), (toy_page, toy_doc [98])]"

lemma toy_codec_ok: "codec_ok toy_codec"
  by (auto simp: codec_ok_def toy_codec_def split: if_splits)

lemma toy_ready:
  "fs_answers toy_disk = []" "fs_write_faults toy_disk = []"
  "se_zstd_new toy_storage (sc_compression_level toy_config) = None"
  "list_all (\<lambda>p. frame_of (se_codec toy_storage) (snd p) \<noteq> None) toy_pages"
  by (simp_all add: toy_disk_def toy_storage_def toy_pages_def frame_of_def toy_codec_def toy_doc_def
      document_new_def u32_max_def)

lemma toy_numbers:
  "numbered_below parse_segment_sequence (sc_spool_dir toy_config) 4 toy_disk"
  "numbered_below parse_warc_sequence (sc_warc_dir toy_config) 4 toy_disk"
  by (simp_all add: numbered_below_def toy_disk_def fs_names_def toy_config_def parse_sealed_segment_name u64_max_def
      str_def)

theorem archive_run_succeeds_witness:
  "\<exists>w0 s1 w2 s2 w3 s3. archive_open toy_storage toy_config toy_disk = (Inr w0, s1) \<and>
    write_pages toy_storage toy_pages (w0, s1) = (Inr (), w2, s2) \<and>
    archive_seal toy_storage (w2, s2) = (Inr (), w3, s3)"
  by (rule archive_run_succeeds [OF toy_ready])

theorem archive_run_exact_witness:
  "\<exists>s3 n dss. concat dss = [toy_doc [97], toy_doc [98]] \<and>
    numbered_below parse_segment_sequence (str ''s'') n toy_disk \<and>
    sealed_log toy_codec s3 (str ''s'') n dss \<and>
    fs_file s3 (str ''s'', sealed_segment_name 3) = Some [1, 0, 0, 0, 120]"
proof -
  obtain w0 s1 w2 s2 w3 s3 where r: "archive_open toy_storage toy_config toy_disk = (Inr w0, s1)"
    "write_pages toy_storage toy_pages (w0, s1) = (Inr (), w2, s2)"
    "archive_seal toy_storage (w2, s2) = (Inr (), w3, s3)"
    by (rule archive_run_works [OF toy_ready])
  have b: "(0 :: nat) < 4" "4 + length toy_pages + 1 < u64_max" by (simp_all add: toy_pages_def u64_max_def)
  obtain n dss where "numbered_below parse_segment_sequence (sc_spool_dir toy_config) n toy_disk"
    "concat dss = map snd toy_pages" "sealed_log (se_codec toy_storage) s3 (sc_spool_dir toy_config) n dss"
    and kept: "\<forall>p. fs_file toy_disk p \<noteq> None \<longrightarrow> fs_file s3 p = fs_file toy_disk p"
    using archive_run_exact [OF r toy_numbers b] by blast
  moreover have "fs_file toy_disk (str ''s'', sealed_segment_name 3) = Some [1, 0, 0, 0, 120]"
    by (simp add: toy_disk_def fs_file_def)
  then have "fs_file s3 (str ''s'', sealed_segment_name 3) = Some [1, 0, 0, 0, 120]" using kept by simp
  ultimately show ?thesis by (auto simp: toy_config_def toy_storage_def toy_pages_def)
qed

lemma toy_hex: "hex 4 0 = str ''0000''" "hex 8 0 = str ''00000000''" "hex 12 0 = str ''000000000000''"
  by code_simp+

lemma toy_record_id:
  "record_id (\<lambda>bs. 0) u t = str ''urn:uuid:00000000-0000-0000-0000-000000000000''"
  by (simp add: record_id_def content_hash_def toy_hex Let_def)

lemma toy_iso: "iso8601 0 = str ''1970-01-01T00:00:00Z''"
proof -
  have "civil_from_days 0 = (1970, 1, 1)" by code_simp
  moreover have "pad_int 4 1970 = str ''1970''" "pad_int 2 1 = str ''01''" "pad_int 2 0 = str ''00''" by code_simp+
  ultimately show ?thesis by (simp add: iso8601_def)
qed

lemma toy_record_size: "length (warc_record toy_storage toy_page (toy_doc [c])) < 1000"
  by (simp add: warc_record_def Let_def utf8_def utf8_char_def toy_storage_def warc_header_def toy_doc_def toy_record_id
      toy_iso http_payload_def toy_page_def crlf_def byte_len_def show_nat_small show_nat_step)

lemma toy_warcinfo_size: "n < 10 \<Longrightarrow> length (warcinfo_bytes toy_storage n) < 1000"
  by (simp add: warcinfo_bytes_def warcinfo_record_def Let_def utf8_def utf8_char_def toy_storage_def toy_hex toy_iso
      crlf_def byte_len_def show_nat_small show_nat_step warc_name_def pad_left_def content_hash_def)

text \<open>A writer whose byte count has reached the limit.\<close>

definition toy_writer :: archive_writer where
  "toy_writer = \<lparr> aw_config = toy_config, aw_warc = Some ((str ''w'', warc_name 1), []), aw_warc_sequence = 2,
     aw_warc_path = (str ''w'', warc_name 1),
     aw_segment = Some \<lparr> seg_written = [], seg_open_path = (str ''s'', open_segment_name 4),
       seg_sealed_path = (str ''s'', sealed_segment_name 4), seg_bytes = 0 \<rparr>,
     aw_segment_sequence = 5,
     aw_stats = \<lparr> as_documents = 0, as_sealed_segments = 0, as_warc_records = 0, as_warc_bytes = 5, as_warc_files = 0 \<rparr> \<rparr>"

theorem warc_rolls_every_page_witness:
  "\<exists>w' s'. write_pages toy_storage toy_pages (toy_writer, toy_disk \<lparr> fs_dirs := [str ''s'', str ''w''] \<rparr>) = (Inr (), w', s') \<and>
     aw_warc_sequence w' = 4 \<and> aw_warc w' = Some ((str ''w'', warc_name 3), warcinfo_bytes toy_storage 3)"
proof -
  let ?s = "toy_disk \<lparr> fs_dirs := [str ''s'', str ''w''] \<rparr>"
  have "live toy_config (toy_writer, ?s)"
    by (simp add: live_def quiet_def toy_writer_def toy_disk_def toy_config_def)
  moreover have "\<forall>p \<in> set toy_pages. frame_of (se_codec toy_storage) (snd p) \<noteq> None"
    using toy_ready(4) by (simp add: list_all_iff)
  ultimately obtain w' s' where r: "write_pages toy_storage toy_pages (toy_writer, ?s) = (Inr (), w', s')"
    using write_pages_quiet toy_ready(3) by blast
  have w: "sc_warc_max_bytes (aw_config toy_writer) = 5" "as_warc_bytes (aw_stats toy_writer) = 5"
    "aw_warc_sequence toy_writer = 2" "sc_warc_dir (aw_config toy_writer) = str ''w''"
    by (simp_all add: toy_writer_def toy_config_def)
  have "rolled_bytes toy_storage toy_pages 2 < 4000"
    using toy_record_size [of 97] toy_record_size [of 98] toy_warcinfo_size [of 2] toy_warcinfo_size [of 3]
    by (simp add: toy_pages_def numeral_2_eq_2 numeral_3_eq_3)
  then have room: "as_warc_bytes (aw_stats toy_writer) + rolled_bytes toy_storage toy_pages (aw_warc_sequence toy_writer) < 2 ^ 64"
    unfolding w by simp
  have "aw_warc_sequence w' = 2 + length toy_pages \<and> (\<forall>q. toy_pages \<noteq> [] \<longrightarrow> aw_warc_sequence w' = Suc q \<longrightarrow>
      aw_warc w' = Some ((str ''w'', warc_name q), warcinfo_bytes toy_storage q))"
    by (rule warc_rolls_every_page [OF r _ room, unfolded w]) (simp_all add: toy_pages_def u64_max_def)
  then have "aw_warc_sequence w' = 4 \<and> aw_warc w' = Some ((str ''w'', warc_name 3), warcinfo_bytes toy_storage 3)"
    by (simp add: toy_pages_def)
  then show ?thesis using r by blast
qed

end
