(* ===== verification/Handoff.thy ===== *)
theory Handoff
  imports Archive Index_Spool "HOL-Library.Multiset"
begin

text \<open>
  The two sides of the spool together: what the crawler's archive writer
  (\<open>crates/crawler/src/storage.rs\<close>) seals is what the indexer
  (\<open>crates/indexer/src/spool.rs\<close>) lists and reads, in order and whatever the short reads are.
\<close>

text \<open>Reading segments one after the other with a visitor that keeps the documents.\<close>

definition collect :: "document \<Rightarrow> document list \<Rightarrow> (indexer_error + unit) \<times> document list" where
  "collect d acc = (Inr (), acc @ [d])"

fun read_segments :: "document codec \<Rightarrow> path list \<Rightarrow> document list \<Rightarrow> fs \<Rightarrow>
    (indexer_error + document list) \<times> fs" where
  "read_segments C [] acc s = (Inr acc, s)"
| "read_segments C (p # ps) acc s =
     (case for_each_document C p collect acc s of
        (Inl e, _, s) \<Rightarrow> (Inl e, s)
      | (Inr _, acc, s) \<Rightarrow> read_segments C ps acc s)"

lemma visit_collect: "visit_all collect ds acc = (Inr (), acc @ ds)"
  by (induction ds arbitrary: acc) (simp_all add: collect_def)

lemma read_segments_log:
  assumes "codec_ok C"
  shows "readable s \<Longrightarrow> list_all2 (\<lambda>p ds. \<exists>bs. fs_file s p = Some bs \<and> frames_of C ds = Some bs) ps dss \<Longrightarrow>
    \<exists>s'. read_segments C ps acc s = (Inr (acc @ concat dss), s')"
proof (induction ps arbitrary: dss acc s)
  case Nil
  then show ?case by simp
next
  case (Cons p ps)
  obtain ds dss' bs where d: "dss = ds # dss'" "fs_file s p = Some bs" "frames_of C ds = Some bs"
    "list_all2 (\<lambda>p ds. \<exists>bs. fs_file s p = Some bs \<and> frames_of C ds = Some bs) ps dss'"
    using Cons.prems(2) by (auto simp: list_all2_Cons1)
  have a: "fs_answers s = []" "list_all (\<lambda>a. \<forall>e. a \<noteq> Fails e) (fs_read_answers s)"
    using Cons.prems(1) by (simp_all add: readable_iff)
  obtain s1 where s1: "for_each_document C p collect acc s =
      (case visit_all collect ds acc of (Inr _, x) \<Rightarrow> (Inr (length ds), x, s1) | (Inl e, x) \<Rightarrow> (Inl e, x, s1))"
    "fs_files s1 = fs_files s" "fs_answers s1 = []" "list_all (\<lambda>a. \<forall>e. a \<noteq> Fails e) (fs_read_answers s1)"
    by (rule for_each_document_segment [OF assms d(2,3) a])
  have "fs_file s1 = fs_file s" using s1(2) by (simp add: fs_file_def fun_eq_iff)
  then have "list_all2 (\<lambda>p ds. \<exists>bs. fs_file s1 p = Some bs \<and> frames_of C ds = Some bs) ps dss'" using d(4) by simp
  from Cons.IH [OF _ this, of "acc @ ds"] s1 d(1) show ?case by (simp add: readable_iff visit_collect)
qed

lemma not_sealed_warc: "\<not> is_sealed (warc_name m)"
proof
  assume "is_sealed (warc_name m)"
  then obtain r where "warc_name m = r @ sealed_suffix"
    by (auto simp: is_sealed_def ends_with_def strip_suffix_Some_iff split: option.splits)
  then have "last (warc_name m) = last sealed_suffix" by (simp add: sealed_suffix_def)
  then show False by (simp add: warc_name_def sealed_suffix_def)
qed

lemma segment_sort_key_sealed: "m \<le> u64_max \<Longrightarrow> segment_sort_key (d, sealed_segment_name m) = m"
  by (simp add: segment_sort_key_def parse_sealed_segment_name)

text \<open>The listing of a directory whose sealed segments are exactly \<open>n\<close>, ..., \<open>n + k - 1\<close>.\<close>

lemma sealed_segments_range:
  assumes "d \<in> set (fs_dirs s)" "fs_answers s = []" "n + k \<le> u64_max"
    and sealed: "\<And>name. is_sealed name \<Longrightarrow>
      fs_file s (d, name) \<noteq> None \<longleftrightarrow> (\<exists>i < k. name = sealed_segment_name (n + i))"
  shows "sealed_segments d s = (Inr (map (\<lambda>i. (d, sealed_segment_name (n + i))) [0..<k]), s)"
proof -
  let ?xs = "map (Pair d) (filter is_sealed (fs_names s d))"
  let ?ys = "map (\<lambda>i. (d, sealed_segment_name (n + i))) [0..<k]"
  have key: "segment_sort_key (d, sealed_segment_name (n + i)) = n + i" if "i < k" for i
    using that assms(3) by (intro segment_sort_key_sealed) simp
  have "inj_on (\<lambda>i. (d, sealed_segment_name (n + i))) {0..<k}"
  proof (rule inj_onI)
    fix i j assume ij: "i \<in> {0..<k}" "j \<in> {0..<k}"
      "(d, sealed_segment_name (n + i)) = (d, sealed_segment_name (n + j))"
    have "n + i = segment_sort_key (d, sealed_segment_name (n + i))" by (rule key [symmetric]) (use ij(1) in simp)
    also have "\<dots> = segment_sort_key (d, sealed_segment_name (n + j))" by (simp only: ij(3))
    also have "\<dots> = n + j" by (rule key) (use ij(2) in simp)
    finally show "i = j" by simp
  qed
  then have dy: "distinct ?ys" by (simp add: distinct_map)
  have dx: "distinct ?xs" by (simp add: distinct_map inj_on_def distinct_fs_names)
  have "name \<in> set (filter is_sealed (fs_names s d)) \<longleftrightarrow> (\<exists>i < k. name = sealed_segment_name (n + i))" for name
    using sealed [of name] by (auto simp: fs_names_iff)
  then have "set ?xs = set ?ys" by (auto simp: image_iff)
  then have m: "mset ?xs = mset ?ys" using set_eq_iff_mset_eq_distinct [OF dx dy] by blast
  have keys: "map segment_sort_key ?ys = [n..<n + k]"
    by (rule nth_equalityI) (simp_all add: key)
  have "inj_on segment_sort_key (set ?xs)"
    unfolding \<open>set ?xs = set ?ys\<close> using dy keys by (metis distinct_map distinct_upt)
  then have "sort_key segment_sort_key ?xs = ?ys"
    using m keys sort_key_inj_key_eq [of ?xs ?ys segment_sort_key] by simp
  moreover have "read_dir d s = (Inr (fs_names s d), s)" using assms(1,2) by (simp add: read_dir_def fs_call_def)
  ultimately show ?thesis using assms(1) by (simp add: sealed_segments_def)
qed

text \<open>The indexer lists the newly sealed segments, when there were none before, and reads their
  documents.\<close>

lemma handoff_lists:
  assumes "sealed_log C s3 d n dss" "n + length dss \<le> u64_max"
    and "agree_outside (warc_paths wd m \<union> segment_paths d n (n + length dss)) s0 s3"
    and "\<And>name. is_sealed name \<Longrightarrow> fs_file s0 (d, name) = None"
    and "fs_files s = fs_files s3" "d \<in> set (fs_dirs s)" "readable s"
  obtains ps where "sealed_segments d s = (Inr ps, s)"
    "list_all2 (\<lambda>p ds. \<exists>bs. fs_file s p = Some bs \<and> frames_of C ds = Some bs) ps dss"
proof -
  have s: "fs_file s = fs_file s3" using assms(5) by (simp add: fs_file_def fun_eq_iff)
  let ?ps = "map (\<lambda>i. (d, sealed_segment_name (n + i))) [0..<length dss]"
  have sealed: "fs_file s (d, name) \<noteq> None \<longleftrightarrow> (\<exists>i < length dss. name = sealed_segment_name (n + i))"
    if name: "is_sealed name" for name
  proof
    assume "fs_file s (d, name) \<noteq> None"
    then have "(d, name) \<in> warc_paths wd m \<union> segment_paths d n (n + length dss)"
      using assms(3,4) name s unfolding agree_outside_def by metis
    then obtain k where "name = sealed_segment_name k" "n \<le> k" "k < n + length dss"
      using name not_sealed_warc by (auto simp: warc_paths_def segment_paths_iff)
    then show "\<exists>i < length dss. name = sealed_segment_name (n + i)"
      by (intro exI [of _ "k - n"]) auto
  next
    assume "\<exists>i < length dss. name = sealed_segment_name (n + i)"
    then show "fs_file s (d, name) \<noteq> None" using assms(1) s by (auto simp: sealed_log_def)
  qed
  have "fs_answers s = []" using assms(7) by (simp add: readable_def)
  from sealed_segments_range [OF assms(6) this assms(2) sealed]
  have "sealed_segments d s = (Inr ?ps, s)" by blast
  moreover have "list_all2 (\<lambda>p ds. \<exists>bs. fs_file s p = Some bs \<and> frames_of C ds = Some bs) ?ps dss"
    using assms(1) s by (auto simp: list_all2_conv_all_nth sealed_log_def)
  ultimately show thesis by (rule that)
qed

lemma handoff_reads:
  assumes "concat dss = docs" "sealed_log C s3 d n dss" "n + length dss \<le> u64_max"
    and "agree_outside (warc_paths wd m \<union> segment_paths d n (n + length dss)) s0 s3"
    and "\<And>name. is_sealed name \<Longrightarrow> fs_file s0 (d, name) = None" "codec_ok C"
    and "fs_files s = fs_files s3" "d \<in> set (fs_dirs s)" "readable s"
  shows "\<exists>ps s'. sealed_segments d s = (Inr ps, s) \<and> read_segments C ps [] s = (Inr docs, s')"
proof -
  obtain ps where ps: "sealed_segments d s = (Inr ps, s)"
    "list_all2 (\<lambda>p ds. \<exists>bs. fs_file s p = Some bs \<and> frames_of C ds = Some bs) ps dss"
    by (rule handoff_lists [OF assms(2-5,7-9)])
  from read_segments_log [OF assms(6,9) ps(2), of "[]"] ps(1) assms(1) show ?thesis by auto
qed

text \<open>The indexer reads exactly what the crawler sealed: when a run of the archive writer over
  a spool with no sealed segments reports success, the indexer lists the sealed segments in the
  order they were written and their documents are the documents of the run, in order, each once,
  whatever short or interrupted reads the operating system gives.\<close>

theorem handoff_exact:
  assumes "archive_open S cfg s0 = (Inr w0, s1)" "write_pages S pages (w0, s1) = (Inr u, w2, s2)"
    "archive_seal S (w2, s2) = (Inr v, w3, s3)"
    and "numbered_below parse_segment_sequence (sc_spool_dir cfg) b s0"
    "numbered_below parse_warc_sequence (sc_warc_dir cfg) b s0" "0 < b" "b + length pages + 1 < u64_max"
    and "filter is_sealed (fs_names s0 (sc_spool_dir cfg)) = []" "codec_ok (se_codec S)"
    and "fs_files s = fs_files s3" "sc_spool_dir cfg \<in> set (fs_dirs s)" "readable s"
  shows "\<exists>ps s'. sealed_segments (sc_spool_dir cfg) s = (Inr ps, s) \<and>
    read_segments (se_codec S) ps [] s = (Inr (map snd pages), s')"
proof -
  let ?d = "sc_spool_dir cfg"
  obtain n m dss where r: "numbered_below parse_segment_sequence ?d n s0"
    "numbered_below parse_warc_sequence (sc_warc_dir cfg) m s0"
    "concat dss = map snd pages" "sealed_log (se_codec S) s3 ?d n dss" "n + length dss \<le> u64_max"
    "agree_outside (warc_paths (sc_warc_dir cfg) m \<union> segment_paths ?d n (n + length dss)) s0 s3"
    by (rule archive_run [OF assms(1-7)])
  have "fs_file s0 (?d, name) = None" if "is_sealed name" for name
    using assms(8) that by (force simp: filter_empty_conv fs_names_iff)
  from handoff_reads [OF r(3-6) this assms(9-12)] show ?thesis by blast
qed

section \<open>A torn segment\<close>

lemma finish_warc_other:
  assumes "finish_warc S (w, s) = (r, w', s')" "warc_ok wd m w" "q \<notin> warc_paths wd m"
  shows "fs_file s' q = fs_file s q"
proof (cases "aw_warc w")
  case None
  then show ?thesis using assms(1) by (simp add: finish_warc_def)
next
  case (Some pa)
  obtain p acc where pa: "pa = (p, acc)" by (cases pa)
  have "q \<noteq> p" using assms(2,3) Some pa by (auto simp: warc_ok_def)
  then show ?thesis using assms(1) Some pa
    by (auto simp: finish_warc_def state_then_def split: prod.splits sum.splits
        dest!: file_write_other [of _ _ _ _ _ q] sync_all_files)
qed

lemma write_spool_torn:
  assumes "aw_segment w = Some sg" "encode (se_codec S) doc = Inr p" "length p \<le> u32_max"
    and "fs_write_faults s = [None, Some j]"
  shows "write_spool S doc (w, s) = (Inl (Spool (SpoolIo (IoError ''write''))),
    w \<lparr> aw_segment := Some (sg \<lparr> seg_written := seg_written sg @ le_bytes 4 (length p) @ take j p \<rparr>) \<rparr>,
    s \<lparr> fs_write_faults := [] \<rparr>)"
  using assms by (simp add: write_spool_def segment_write_def write_frame_def)

text \<open>C35: a write that fails inside a frame does not stop the segment from being published: when the
  writer is dropped, the segment is renamed to its sealed name with the torn frame at its end. The
  indexer lists it, reads its whole documents, and fails with a truncation error, on every drain:
  the promise that a half-written frame is never seen does not hold on this path.\<close>

theorem drop_publishes_torn_frame:
  assumes "open_ok (se_codec S) d k ds w" "warc_ok wd m w" "codec_ok (se_codec S)"
    and "encode (se_codec S) doc = Inr p" "length p \<le> u32_max" "j < length p"
    and "fs_write_faults s = [None, Some j]" "fs_answers s = []" "d \<in> set (fs_dirs s)"
    and "write_spool S doc (w, s) = (r, a)" "archive_drop S a = (w', s')"
    and "fs_files s4 = fs_files s'" "readable s4"
  shows "r = Inl (Spool (SpoolIo (IoError ''write''))) \<and>
    fst (for_each_document (se_codec S) (d, sealed_segment_name k) collect [] s4) =
      Inl (IdxSpool (Truncated (length p) j))"
proof -
  let ?C = "se_codec S"
  let ?torn = "take (4 + j) (le_bytes 4 (length p) @ p)"
  obtain sg where sg: "aw_segment w = Some sg" "seg_open_path sg = (d, open_segment_name k)"
    "seg_sealed_path sg = (d, sealed_segment_name k)" "frames_of ?C ds = Some (seg_written sg)"
    using assms(1) by (auto simp: open_ok_def)
  let ?sg = "sg \<lparr> seg_written := seg_written sg @ ?torn \<rparr>"
  let ?w = "w \<lparr> aw_segment := Some ?sg \<rparr>" and ?s = "s \<lparr> fs_write_faults := [] \<rparr>"
  have a: "r = Inl (Spool (SpoolIo (IoError ''write'')))" "a = (?w, ?s)"
    using write_spool_torn [OF sg(1) assms(4,5,7)] assms(10) by simp_all
  obtain r1 w1 s1 where sl: "seal_segment (?w, ?s) = (r1, w1, s1)" by (metis prod.exhaust)
  have run: "segment_seal ?sg ?s = (Inr (), fs_set (d, sealed_segment_name k) (seg_written ?sg)
      (fs_delete (d, open_segment_name k) (fs_set (d, open_segment_name k) (seg_written ?sg) ?s)))"
    using assms(8,9) sg(2,3)
    by (simp add: segment_seal_def file_write_def sync_all_def fs_rename_def fs_call_def)
  have s1: "fs_file s1 (d, sealed_segment_name k) = Some (seg_written sg @ ?torn)"
    and w1: "aw_config w1 = aw_config w" "aw_warc w1 = aw_warc w" "aw_warc_sequence w1 = aw_warc_sequence w"
    using sl run by (auto simp: seal_segment_def Let_def)
  obtain r2 where "finish_warc S (w1, s1) = (r2, w', s')"
    using assms(11) a(2) sl by (metis archive_drop_def prod.collapse snd_conv)
  from finish_warc_other [OF this warc_ok_same [OF assms(2) w1] segment_not_warc(1)]
  have "fs_file s' (d, sealed_segment_name k) = Some (seg_written sg @ ?torn)" using s1 by simp
  then have s4: "fs_file s4 (d, sealed_segment_name k) = Some (seg_written sg @ ?torn)"
    using assms(12) by (simp add: fs_file_def)
  have "fs_answers s4 = []" using assms(13) by (simp add: readable_def)
  then have opened: "file_read (d, sealed_segment_name k) s4 = (Inr (seg_written sg @ ?torn), s4)"
    using s4 by (simp add: file_read_def fs_call_def)
  have nf: "no_fail \<lparr> unread = seg_written sg @ ?torn, answers = fs_read_answers s4 \<rparr>"
    using assms(13) by (auto simp: readable_iff no_fail_def list_all_iff)
  have k: "0 < 4 + j" "4 + j < 4 + length p" using assms(6) by simp_all
  have un: "unread \<lparr> unread = seg_written sg @ ?torn, answers = fs_read_answers s4 \<rparr> = seg_written sg @ ?torn" by simp
  obtain r' where "for_each_frame ?C collect 0 \<lparr> unread = seg_written sg @ ?torn, answers = fs_read_answers s4 \<rparr> [] =
     (Inl (IdxSpool (Truncated (length p) j)), r', [] @ ds)"
    using for_each_frame_torn [OF assms(3) nf sg(4) assms(4,5) k un visit_collect [of ds "[]"], of 0] by auto
  then show ?thesis using a(1) opened by (simp add: for_each_document_def)
qed

section \<open>Concrete runs\<close>

definition toy_spool :: fs where
  "toy_spool = \<lparr> fs_files = [((str ''s'', open_segment_name 3), [9])], fs_dirs = [str ''s''],
     fs_answers = [], fs_write_faults = [], fs_read_answers = [] \<rparr>"

theorem handoff_exact_witness:
  "\<exists>s ps s'. sealed_segments (str ''s'') s = (Inr ps, s) \<and> fs_read_answers s = [Gives 0, Interrupts] \<and>
    read_segments toy_codec ps [] s = (Inr [toy_doc [97], toy_doc [98]], s')"
proof -
  have quiet: "fs_answers toy_spool = []" "fs_write_faults toy_spool = []" by (simp_all add: toy_spool_def)
  obtain w0 s1 w2 s2 w3 s3 where r: "archive_open toy_storage toy_config toy_spool = (Inr w0, s1)"
    "write_pages toy_storage toy_pages (w0, s1) = (Inr (), w2, s2)"
    "archive_seal toy_storage (w2, s2) = (Inr (), w3, s3)"
    by (rule archive_run_works [OF quiet toy_ready(3,4)])
  have numbers: "numbered_below parse_segment_sequence (sc_spool_dir toy_config) 4 toy_spool"
    "numbered_below parse_warc_sequence (sc_warc_dir toy_config) 4 toy_spool"
    by (simp_all add: numbered_below_def toy_spool_def fs_names_def toy_config_def parse_open_segment_name u64_max_def
        str_def)
  have rest: "(0 :: nat) < 4" "4 + length toy_pages + 1 < u64_max"
    "filter is_sealed (fs_names toy_spool (sc_spool_dir toy_config)) = []" "codec_ok (se_codec toy_storage)"
    using toy_codec_ok by (simp_all add: toy_pages_def u64_max_def toy_spool_def fs_names_def toy_storage_def)
  let ?s = "s3 \<lparr> fs_answers := [], fs_dirs := [str ''s''], fs_read_answers := [Gives 0, Interrupts] \<rparr>"
  have disk: "fs_files ?s = fs_files s3" "sc_spool_dir toy_config \<in> set (fs_dirs ?s)" "readable ?s"
    by (simp_all add: toy_config_def readable_def)
  have "sc_spool_dir toy_config = str ''s''" "se_codec toy_storage = toy_codec"
    "map snd toy_pages = [toy_doc [97], toy_doc [98]]"
    by (simp_all add: toy_config_def toy_storage_def toy_pages_def)
  moreover have "fs_read_answers ?s = [Gives 0, Interrupts]" by simp
  ultimately show ?thesis
    using handoff_exact [OF r numbers rest(1-4) disk] by metis
qed

theorem drop_publishes_torn_frame_witness:
  "\<exists>w s r a. write_spool toy_storage (toy_doc [97, 98]) (w, s) = (r, a) \<and>
    fst (for_each_document toy_codec (str ''s'', sealed_segment_name 4) collect []
      (snd (archive_drop toy_storage a))) = Inl (IdxSpool (Truncated 2 1))"
proof -
  let ?w = "toy_writer \<lparr> aw_warc := None \<rparr>" and ?s = "toy_spool \<lparr> fs_write_faults := [None, Some 1] \<rparr>"
  let ?S = toy_storage
  obtain r a where ra: "write_spool ?S (toy_doc [97, 98]) (?w, ?s) = (r, a)" by (metis prod.exhaust)
  obtain w' s' where d: "archive_drop ?S a = (w', s')" by (metis prod.exhaust)
  have h: "open_ok (se_codec ?S) (str ''s'') 4 [] ?w" "warc_ok (str ''w'') 0 ?w" "codec_ok (se_codec ?S)"
    "encode (se_codec ?S) (toy_doc [97, 98]) = Inr [97, 98]" "length [97, 98 :: nat] \<le> u32_max" "1 < length [97, 98 :: nat]"
    "fs_write_faults ?s = [None, Some 1]" "fs_answers ?s = []" "str ''s'' \<in> set (fs_dirs ?s)"
    using toy_codec_ok
    by (simp_all add: open_ok_def warc_ok_def toy_writer_def toy_config_def toy_storage_def toy_codec_def toy_doc_def
        u32_max_def toy_spool_def)
  let ?sg = "\<lparr> seg_written = [], seg_open_path = (str ''s'', open_segment_name 4),
       seg_sealed_path = (str ''s'', sealed_segment_name 4), seg_bytes = 0 \<rparr>"
  have sg: "aw_segment ?w = Some ?sg" by (simp add: toy_writer_def)
  obtain bs where "a = (?w \<lparr> aw_segment := Some (?sg \<lparr> seg_written := bs \<rparr>) \<rparr>, ?s \<lparr> fs_write_faults := [] \<rparr>)"
    using write_spool_torn [OF sg h(4,5,7)] ra [symmetric] by auto
  then have "readable s'"
    using d by (auto simp: archive_drop_def seal_segment_def segment_seal_def Let_def finish_warc_def file_write_def
        sync_all_def fs_rename_def fs_call_def readable_def toy_spool_def toy_writer_def fs_set_def fs_delete_def
        split: option.splits)
  from drop_publishes_torn_frame [OF h ra d refl this]
  have "fst (for_each_document (se_codec ?S) (str ''s'', sealed_segment_name 4) collect [] s') =
      Inl (IdxSpool (Truncated 2 1))" by simp
  then show ?thesis using ra d by (metis snd_conv toy_storage_def storage_env.select_convs(6))
qed

end
