(* ===== verification/Crawl_Absorb.thy ===== *)
theory Crawl_Absorb
  imports Crawl_Visit Dedup Handoff "HOL-Library.Signed_Division"
begin

text \<open>
  What the crawl loop of \<open>crates/crawler/src/main.rs\<close> does with one finished visit. The loop owns
  the frontier, the filter of seen URLs, the robots cache, the archive and the counters
  (\<open>crawl_state\<close>); \<open>absorb\<close> applies the outcome of a visit to them and \<open>schedule\<close> decides which of
  the discovered links are queued. The clock is an argument.

  The lemmas give the effect of an absorbed visit on each part: the jobs it queues, the filter, the
  archive and the counters.
\<close>

section \<open>Data\<close>

record crawl_stats =
  cr_queued :: nat
  cr_fetched :: nat
  cr_indexed :: nat
  cr_failed :: nat
  cr_disallowed :: nat
  cr_sitemaps :: nat
  cr_skipped_offsite :: nat
  cr_skipped_assets :: nat
  cr_redirected_offsite :: nat

definition crawl_stats_default :: crawl_stats where
  "crawl_stats_default =
     \<lparr> cr_queued = 0, cr_fetched = 0, cr_indexed = 0, cr_failed = 0, cr_disallowed = 0, cr_sitemaps = 0,
       cr_skipped_offsite = 0, cr_skipped_assets = 0, cr_redirected_offsite = 0 \<rparr>"

record settings =
  st_max_depth :: nat
  st_politeness_delay_ms :: nat
  st_scope :: crawl_scope
  st_drop_offsite_redirects :: bool

text \<open>What the crawl is given, and what the loop owns.\<close>

record ('u, 'd, 'b, 'w) crawl_env =
  ce_frontier :: "('u, 'd) frontier_env"
  ce_robots :: "robots_entry codec"
  ce_bloom :: "'b bloom_api"
  ce_filter :: "'b codec"
  ce_storage :: storage_env
  ce_visit :: "'w visit_env"

abbreviation ce_url :: "('u, 'd, 'b, 'w) crawl_env \<Rightarrow> 'u url_api" where
  "ce_url C \<equiv> fe_url (ce_frontier C)"

abbreviation ce_kv :: "('u, 'd, 'b, 'w) crawl_env \<Rightarrow> 'd kv_api" where
  "ce_kv C \<equiv> fe_kv (ce_frontier C)"

record ('d, 'b) crawl_state =
  cs_db :: 'd
  cs_frontier :: frontier
  cs_seen :: "'b seen_urls"
  cs_writer :: archive_writer
  cs_fs :: fs
  cs_stats :: crawl_stats

section \<open>Queueing URLs\<close>

text \<open>One counter, a \<open>u64\<close>, counted up by one.\<close>

definition count_up ::
    "((nat \<Rightarrow> nat) \<Rightarrow> crawl_stats \<Rightarrow> crawl_stats) \<Rightarrow> ('d, 'b) crawl_state \<Rightarrow> ('d, 'b) crawl_state" where
  "count_up upd s = s \<lparr> cs_stats := upd (\<lambda>n. wrap_add_u64 n 1) (cs_stats s) \<rparr>"

definition push_job ::
    "('u, 'd, 'b, 'w) crawl_env \<Rightarrow> crawl_job \<Rightarrow> ('d, 'b) crawl_state \<Rightarrow>
     (crawl_error + unit) \<times> ('d, 'b) crawl_state" where
  "push_job C job s =
     (case frontier_push (ce_frontier C) job (cs_db s, cs_frontier s) of
        (r, d, fr) \<Rightarrow> (r, s \<lparr> cs_db := d, cs_frontier := fr \<rparr>))"

text \<open>A URL is queued the first time it is offered; the answer says whether it was.\<close>

definition offer_url ::
    "('u, 'd, 'b, 'w) crawl_env \<Rightarrow> rstr \<Rightarrow> nat \<Rightarrow> ('d, 'b) crawl_state \<Rightarrow>
     (crawl_error + bool) \<times> ('d, 'b) crawl_state" where
  "offer_url C url depth s =
     (case check_and_insert (ce_bloom C) url (cs_seen s) of
        (new, seen) \<Rightarrow>
          (if new then
             state_then (push_job C \<lparr> job_url = url, job_depth = depth \<rparr> (s \<lparr> cs_seen := seen \<rparr>))
               (\<lambda>_ s. (Inr True, count_up cr_queued_update s))
           else (Inr False, s \<lparr> cs_seen := seen \<rparr>)))"

fun schedule ::
    "('u, 'd, 'b, 'w) crawl_env \<Rightarrow> settings \<Rightarrow> rstr list \<Rightarrow> nat \<Rightarrow> nat \<Rightarrow> ('d, 'b) crawl_state \<Rightarrow>
     (crawl_error + nat) \<times> ('d, 'b) crawl_state" where
  "schedule C S [] depth discovered s = (Inr discovered, s)"
| "schedule C S (raw # links) depth discovered s =
     (case canonical_url (ce_url C) raw of
        None \<Rightarrow> schedule C S links depth discovered s
      | Some url \<Rightarrow>
          if \<not> scope_allows (ce_url C) (st_scope S) url then
            schedule C S links depth discovered (count_up cr_skipped_offsite_update s)
          else if \<not> is_probably_page (ce_url C) url then
            schedule C S links depth discovered (count_up cr_skipped_assets_update s)
          else
            state_then (offer_url C url depth s) (\<lambda>new s.
              schedule C S links depth (if new then wrap_add_u64 discovered 1 else discovered) s))"

section \<open>Absorbing a finished visit\<close>

definition sitemap_depth :: nat where
  "sitemap_depth = 1"

definition final_url_of :: "visited \<Rightarrow> rstr option" where
  "final_url_of v =
     (case v of VisitedPage page _ \<Rightarrow> Some (fp_final_url page) | VisitedSitemap url _ \<Rightarrow> Some url)"

definition learn_robots ::
    "('u, 'd, 'b, 'w) crawl_env \<Rightarrow> int \<Rightarrow> outcome \<Rightarrow> ('d, 'b) crawl_state \<Rightarrow>
     (crawl_error + unit) \<times> ('d, 'b) crawl_state" where
  "learn_robots C now out s =
     (case oc_rules out of
        None \<Rightarrow> (Inr (), s)
      | Some rules \<Rightarrow>
          (let ttl = (case oc_rules_ttl_ms out of Some ttl \<Rightarrow> ttl | None \<Rightarrow> cache_ttl_ms)
           in case cache_put_for (ce_kv C) (ce_robots C) (oc_host out) rules now ttl (cs_db s) of
                (r, d) \<Rightarrow> (r, s \<lparr> cs_db := d \<rparr>)))"

text \<open>The time a host is deferred to. The cast of the delay to \<open>i64\<close> keeps its bits.\<close>

definition defer_until :: "settings \<Rightarrow> int \<Rightarrow> nat option \<Rightarrow> int" where
  "defer_until S now crawl_delay =
     sat_add_i64 now (as_i64 (politeness_delay_ms (st_politeness_delay_ms S) crawl_delay))"

definition defer_visited ::
    "('u, 'd, 'b, 'w) crawl_env \<Rightarrow> settings \<Rightarrow> int \<Rightarrow> outcome \<Rightarrow> ('d, 'b) crawl_state \<Rightarrow>
     (crawl_error + unit) \<times> ('d, 'b) crawl_state" where
  "defer_visited C S now out s =
     (case defer_host (ce_frontier C) (oc_host out) (defer_until S now (oc_crawl_delay_s out)) now (cs_db s) of
        (r, d) \<Rightarrow> (r, s \<lparr> cs_db := d \<rparr>))"

definition archive_page ::
    "('u, 'd, 'b, 'w) crawl_env \<Rightarrow> fetched_page \<Rightarrow> document \<Rightarrow> ('d, 'b) crawl_state \<Rightarrow>
     (crawl_error + unit) \<times> ('d, 'b) crawl_state" where
  "archive_page C page doc s =
     (case write_page (ce_storage C) page doc (cs_writer s, cs_fs s) of
        (r, w, f) \<Rightarrow> (r, s \<lparr> cs_writer := w, cs_fs := f \<rparr>))"

definition page_document :: "('u, 'd, 'b, 'w) crawl_env \<Rightarrow> int \<Rightarrow> fetched_page \<Rightarrow> parsed_page \<Rightarrow> document" where
  "page_document C now page parsed =
     document_new (se_hash (ce_storage C)) (fp_final_url page) (pp_title parsed) (pp_text parsed)
       (now sdiv 1000) (pp_links parsed)"

definition absorb_page ::
    "('u, 'd, 'b, 'w) crawl_env \<Rightarrow> settings \<Rightarrow> int \<Rightarrow> crawl_job \<Rightarrow> fetched_page \<Rightarrow> parsed_page \<Rightarrow>
     ('d, 'b) crawl_state \<Rightarrow> (crawl_error + unit) \<times> ('d, 'b) crawl_state" where
  "absorb_page C S now job page parsed s =
     state_then (archive_page C page (page_document C now page parsed) (count_up cr_fetched_update s)) (\<lambda>_ s.
       let s = count_up cr_indexed_update s
       in if job_depth job < st_max_depth S
          then state_then (schedule C S (pp_links parsed) (job_depth job + 1) 0 s) (\<lambda>_ s. (Inr (), s))
          else (Inr (), s))"

text \<open>Whether a visit landed outside the scope of the crawl.\<close>

definition landed_offsite :: "('u, 'd, 'b, 'w) crawl_env \<Rightarrow> settings \<Rightarrow> visited \<Rightarrow> bool" where
  "landed_offsite C S v =
     (case final_url_of v of
        Some url \<Rightarrow> scope_restricted (st_scope S) \<and> \<not> scope_allows (ce_url C) (st_scope S) url
      | None \<Rightarrow> False)"

definition absorb_visited ::
    "('u, 'd, 'b, 'w) crawl_env \<Rightarrow> settings \<Rightarrow> int \<Rightarrow> crawl_job \<Rightarrow> visited \<Rightarrow> ('d, 'b) crawl_state \<Rightarrow>
     (crawl_error + unit) \<times> ('d, 'b) crawl_state" where
  "absorb_visited C S now job v s =
     (let offsite = landed_offsite C S v; s = (if offsite then count_up cr_redirected_offsite_update s else s)
      in if offsite \<and> st_drop_offsite_redirects S then (Inr (), s)
         else case v of
                VisitedSitemap url links \<Rightarrow>
                  state_then (schedule C S links sitemap_depth 0 (count_up cr_sitemaps_update s)) (\<lambda>_ s. (Inr (), s))
              | VisitedPage page parsed \<Rightarrow> absorb_page C S now job page parsed s)"

definition absorb ::
    "('u, 'd, 'b, 'w) crawl_env \<Rightarrow> settings \<Rightarrow> int \<Rightarrow> outcome \<Rightarrow> ('d, 'b) crawl_state \<Rightarrow>
     (crawl_error + unit) \<times> ('d, 'b) crawl_state" where
  "absorb C S now out s =
     state_then (learn_robots C now out s) (\<lambda>_ s.
     state_then (defer_visited C S now out s) (\<lambda>_ s.
     state_then (if oc_sitemaps out = [] then (Inr 0, s) else schedule C S (oc_sitemaps out) 0 0 s) (\<lambda>_ s.
       case oc_result out of
         Inr v \<Rightarrow> absorb_visited C S now (oc_job out) v s
       | Inl e \<Rightarrow>
           if e = DisallowedByRobots then (Inr (), count_up cr_disallowed_update s)
           else (Inr (), count_up cr_failed_update s))))"

section \<open>What queueing does\<close>

text \<open>The counters of the frontier can take \<open>n\<close> more URLs without overflowing.\<close>

definition has_room :: "nat \<Rightarrow> ('d, 'b) crawl_state \<Rightarrow> bool" where
  "has_room n s \<longleftrightarrow> fr_sequence (cs_frontier s) + n \<le> u64_max \<and>
     fr_pending (cs_frontier s) + n \<le> u64_max \<and> fr_hosts (cs_frontier s) + n \<le> u64_max"

definition crawl_ok :: "('u, 'd, 'b, 'w) crawl_env \<Rightarrow> 'd kv_view \<Rightarrow> ('d, 'b) crawl_state \<Rightarrow> bool" where
  "crawl_ok C V s \<longleftrightarrow> frontier_env_ok (ce_frontier C) V \<and> frontier_inv (ce_frontier C) V (cs_db s, cs_frontier s)"

definition queued :: "('u, 'd, 'b, 'w) crawl_env \<Rightarrow> 'd kv_view \<Rightarrow> ('d, 'b) crawl_state \<Rightarrow> crawl_job multiset" where
  "queued C V s = frontier_jobs (ce_frontier C) V (cs_db s, cs_frontier s)"

definition known_hosts :: "'d kv_view \<Rightarrow> ('d, 'b) crawl_state \<Rightarrow> bytes set" where
  "known_hosts V s = dom (hosts_view V (cs_db s))"

text \<open>A change of the state that queues \<open>js\<close>, and may use up room for \<open>n\<close> URLs.\<close>

definition queues ::
    "('u, 'd, 'b, 'w) crawl_env \<Rightarrow> 'd kv_view \<Rightarrow> nat \<Rightarrow> crawl_job list \<Rightarrow> ('d, 'b) crawl_state \<Rightarrow>
     ('d, 'b) crawl_state \<Rightarrow> bool" where
  "queues C V n js s s' \<longleftrightarrow> crawl_ok C V s' \<and> queued C V s' = queued C V s + mset js \<and>
     known_hosts V s \<subseteq> known_hosts V s' \<and> (\<forall>m. has_room (n + m) s \<longrightarrow> has_room m s')"

lemma queues_refl: "crawl_ok C V s \<Longrightarrow> queues C V n [] s s"
  by (simp add: queues_def has_room_def)

lemma queues_trans:
  "queues C V n js s s' \<Longrightarrow> queues C V n' js' s' s'' \<Longrightarrow> queues C V (n + n') (js @ js') s s''"
  by (auto simp: queues_def add.assoc)

lemma queues_mono: "queues C V n js s s' \<Longrightarrow> n \<le> n' \<Longrightarrow> queues C V n' js s s'"
  by (auto simp: queues_def has_room_def)

lemma queues_same:
  assumes "queues C V n js s s'" "cs_db t = cs_db s" "cs_frontier t = cs_frontier s"
    "cs_db t' = cs_db s'" "cs_frontier t' = cs_frontier s'"
  shows "queues C V n js t t'"
  using assms by (simp add: queues_def crawl_ok_def queued_def known_hosts_def has_room_def)

lemma queues_nothing:
  "crawl_ok C V s \<Longrightarrow> cs_db t = cs_db s \<Longrightarrow> cs_frontier t = cs_frontier s \<Longrightarrow> queues C V n [] s t"
  by (rule queues_mono [of _ _ 0], rule queues_same [OF queues_refl]) simp_all

lemma push_job_Inr:
  assumes "push_job C job s = (Inr u, s')" "crawl_ok C V s" "has_room 1 s"
  shows "queues C V 1 [job] s s' \<and> s' = s \<lparr> cs_db := cs_db s', cs_frontier := cs_frontier s' \<rparr>"
proof -
  let ?E = "ce_frontier C" and ?fr = "cs_frontier s"
  obtain d fr where p: "frontier_push ?E job (cs_db s, ?fr) = (Inr u, d, fr)"
    "s' = s \<lparr> cs_db := d, cs_frontier := fr \<rparr>"
    using assms(1) by (auto simp: push_job_def split: prod.splits)
  have ok: "frontier_env_ok ?E V" "frontier_inv ?E V (cs_db s, ?fr)" using assms(2) by (auto simp: crawl_ok_def)
  have room: "fr_sequence ?fr < u64_max" "fr_pending ?fr < u64_max" "fr_hosts ?fr < u64_max"
    using assms(3) by (auto simp: has_room_def)
  note jobs = frontier_push_jobs [OF ok _ p(1)]
  obtain h v where k: "fr_sequence fr = Suc (fr_sequence ?fr)" "frontier_inv ?E V (d, fr)"
    "pending_view V d = (pending_view V (cs_db s))(frontier_key h (Suc (fr_sequence ?fr)) \<mapsto> v)"
    "frontier_key h (Suc (fr_sequence ?fr)) \<notin> dom (pending_view V (cs_db s))"
    "dom (hosts_view V d) = insert h (dom (hosts_view V (cs_db s)))"
    by (rule frontier_push_keeps [OF ok p(1) room])
  have fin: "finite (dom (hosts_view V (cs_db s)))" "finite (dom (pending_view V (cs_db s)))"
    using view_finite [OF frontier_env_okD(1) [OF ok(1)]] by (simp_all add: hosts_view_def pending_view_def)
  have "fr_pending fr = Suc (fr_pending ?fr)" "fr_hosts fr \<le> Suc (fr_hosts ?fr)"
    using frontier_invD(3,4) [OF ok(2)] frontier_invD(3,4) [OF k(2)] k(3-5) fin by (auto simp: card_insert_if)
  then have "has_room m s'" if "has_room (1 + m) s" for m
    using that k(1) by (auto simp: has_room_def p(2))
  then have "queues C V 1 [job] s s'"
    using jobs room k(5) ok(1)
    by (auto simp: queues_def crawl_ok_def queued_def known_hosts_def frontier_room_def p(2))
  then show ?thesis using p(2) by simp
qed

text \<open>What only archiving a page changes.\<close>

definition same_archive :: "('d, 'b) crawl_state \<Rightarrow> ('d, 'b) crawl_state \<Rightarrow> bool" where
  "same_archive s s' \<longleftrightarrow> cs_writer s' = cs_writer s \<and> cs_fs s' = cs_fs s \<and>
     cr_indexed (cs_stats s') = cr_indexed (cs_stats s)"

lemma same_archive_trans: "same_archive s s' \<Longrightarrow> same_archive s' s'' \<Longrightarrow> same_archive s s''"
  by (simp add: same_archive_def)

text \<open>An offered URL is queued exactly when the filter reports it new.\<close>

lemma offer_url_Inr:
  assumes "offer_url C url depth s = (Inr new, s')" "crawl_ok C V s" "has_room 1 s"
  obtains seen' where "check_and_insert (ce_bloom C) url (cs_seen s) = (new, seen')" "cs_seen s' = seen'"
    "queues C V 1 (if new then [\<lparr> job_url = url, job_depth = depth \<rparr>] else []) s s'" "same_archive s s'"
proof -
  obtain b seen' where c: "check_and_insert (ce_bloom C) url (cs_seen s) = (b, seen')" by fastforce
  show thesis
  proof (cases b)
    case False
    then have s': "\<not> new" "s' = s \<lparr> cs_seen := seen' \<rparr>" using assms(1) c by (auto simp: offer_url_def)
    show ?thesis
    proof (rule that)
      show "queues C V 1 (if new then [\<lparr> job_url = url, job_depth = depth \<rparr>] else []) s s'"
        using queues_same [OF queues_refl [OF assms(2)]] s' by simp
    qed (use c s' False in \<open>simp_all add: same_archive_def\<close>)
  next
    case True
    obtain u s1 where p: "push_job C \<lparr> job_url = url, job_depth = depth \<rparr> (s \<lparr> cs_seen := seen' \<rparr>) = (Inr u, s1)"
      "new" "s' = count_up cr_queued_update s1"
      using assms(1) c True by (auto simp: offer_url_def dest!: state_then_Inr_iff [THEN iffD1])
    have "crawl_ok C V (s \<lparr> cs_seen := seen' \<rparr>)" "has_room 1 (s \<lparr> cs_seen := seen' \<rparr>)"
      using assms(2,3) by (simp_all add: crawl_ok_def has_room_def)
    from push_job_Inr [OF p(1) this]
    have q: "queues C V 1 [\<lparr> job_url = url, job_depth = depth \<rparr>] (s \<lparr> cs_seen := seen' \<rparr>) s1"
      "s1 = s \<lparr> cs_seen := seen', cs_db := cs_db s1, cs_frontier := cs_frontier s1 \<rparr>" by simp_all
    have sel: "cs_seen s1 = seen'" "cs_writer s1 = cs_writer s" "cs_fs s1 = cs_fs s" "cs_stats s1 = cs_stats s"
      by (subst q(2), simp)+
    show ?thesis
    proof (rule that)
      show "queues C V 1 (if new then [\<lparr> job_url = url, job_depth = depth \<rparr>] else []) s s'"
        using queues_same [OF q(1), of s s'] p(2,3) by (simp add: count_up_def)
    qed (use c p True sel in \<open>simp_all add: count_up_def same_archive_def\<close>)
  qed
qed

text \<open>The URL that a discovered link stands for, if the crawl follows it.\<close>

definition followable :: "('u, 'd, 'b, 'w) crawl_env \<Rightarrow> settings \<Rightarrow> rstr \<Rightarrow> rstr option" where
  "followable C S raw =
     (case canonical_url (ce_url C) raw of
        None \<Rightarrow> None
      | Some url \<Rightarrow>
          if scope_allows (ce_url C) (st_scope S) url \<and> is_probably_page (ce_url C) url then Some url else None)"

definition jobs_at :: "nat \<Rightarrow> rstr list \<Rightarrow> crawl_job list" where
  "jobs_at depth = map (\<lambda>url. \<lparr> job_url = url, job_depth = depth \<rparr>)"

lemma jobs_at_simps [simp]:
  "jobs_at depth [] = []" "jobs_at depth (u # us) = \<lparr> job_url = u, job_depth = depth \<rparr> # jobs_at depth us"
  by (simp_all add: jobs_at_def)

text \<open>Scheduling queues, at the given depth, the followable links that the filter reports new.\<close>

lemma schedule_Inr:
  "schedule C S links depth n s = (Inr m, s') \<Longrightarrow> crawl_ok C V s \<Longrightarrow> has_room (length links) s \<Longrightarrow>
   \<exists>new. check_urls (ce_bloom C) (List.map_filter (followable C S) links) (cs_seen s) = (new, cs_seen s') \<and>
     queues C V (length links) (jobs_at depth new) s s' \<and> same_archive s s'"
proof (induction C S links depth n s arbitrary: m rule: schedule.induct)
  case (1 C S depth discovered s)
  then show ?case by (simp add: queues_refl same_archive_def List.map_filter_simps)
next
  case (2 C S raw links depth discovered s)
  have room: "has_room (length links) s" "has_room 1 s" using "2.prems"(3) by (auto simp: has_room_def)
  have skip: ?case if f: "followable C S raw = None" and t: "cs_db t = cs_db s" "cs_frontier t = cs_frontier s"
      "cs_seen t = cs_seen s" "same_archive s t" and r: "\<exists>new. check_urls (ce_bloom C)
        (List.map_filter (followable C S) links) (cs_seen t) = (new, cs_seen s') \<and>
        queues C V (length links) (jobs_at depth new) t s' \<and> same_archive t s'" for t
  proof -
    obtain new where new: "check_urls (ce_bloom C) (List.map_filter (followable C S) links) (cs_seen t) = (new, cs_seen s')"
      "queues C V (length links) (jobs_at depth new) t s'" "same_archive t s'" using r by blast
    have "queues C V (length (raw # links)) (jobs_at depth new) s s'"
      using queues_mono [OF queues_same [OF new(2)]] t by simp
    then show ?thesis
      using new f t(3) same_archive_trans [OF t(4)] by (auto simp: List.map_filter_simps)
  qed
  show ?case
  proof (cases "canonical_url (ce_url C) raw")
    case None
    then have "schedule C S links depth discovered s = (Inr m, s')" using "2.prems"(1) by simp
    from "2.IH"(1) [OF None this "2.prems"(2) room(1)] show ?thesis
      by (rule skip [rotated 5]) (simp_all add: followable_def None same_archive_def)
  next
    case (Some url)
    consider (off) "\<not> scope_allows (ce_url C) (st_scope S) url"
      | (asset) "scope_allows (ce_url C) (st_scope S) url" "\<not> is_probably_page (ce_url C) url"
      | (go) "scope_allows (ce_url C) (st_scope S) url" "is_probably_page (ce_url C) url" by blast
    then show ?thesis
    proof cases
      case off
      let ?t = "count_up cr_skipped_offsite_update s"
      have t: "crawl_ok C V ?t" "has_room (length links) ?t"
        using "2.prems"(2) room by (simp_all add: count_up_def crawl_ok_def has_room_def)
      have "schedule C S links depth discovered ?t = (Inr m, s')" using "2.prems"(1) Some off by simp
      from "2.IH"(2) [OF Some off this t] show ?thesis
        by (rule skip [of ?t, rotated 5]) (use Some off in \<open>simp_all add: followable_def count_up_def same_archive_def\<close>)
    next
      case asset
      let ?t = "count_up cr_skipped_assets_update s"
      have t: "crawl_ok C V ?t" "has_room (length links) ?t"
        using "2.prems"(2) room by (simp_all add: count_up_def crawl_ok_def has_room_def)
      have "schedule C S links depth discovered ?t = (Inr m, s')" using "2.prems"(1) Some asset by simp
      have "\<not> \<not> scope_allows (ce_url C) (st_scope S) url" using asset(1) by simp
      from "2.IH"(3) [OF Some this asset(2) \<open>schedule C S links depth discovered ?t = (Inr m, s')\<close> t] show ?thesis
        by (rule skip [of ?t, rotated 5]) (use Some asset in \<open>simp_all add: followable_def count_up_def same_archive_def\<close>)
    next
      case go
      obtain new1 s1 where o1: "offer_url C url depth s = (Inr new1, s1)"
        "schedule C S links depth (if new1 then wrap_add_u64 discovered 1 else discovered) s1 = (Inr m, s')"
        using "2.prems"(1) Some go by (auto dest!: state_then_Inr_iff [THEN iffD1])
      obtain seen' where c: "check_and_insert (ce_bloom C) url (cs_seen s) = (new1, seen')" "cs_seen s1 = seen'"
        "queues C V 1 (if new1 then [\<lparr> job_url = url, job_depth = depth \<rparr>] else []) s s1" "same_archive s s1"
        using offer_url_Inr [OF o1(1) "2.prems"(2) room(2)] by blast
      have "crawl_ok C V s1" "has_room (length links) s1"
        using c(3) "2.prems"(3) by (simp_all add: queues_def)
      moreover have "\<not> \<not> scope_allows (ce_url C) (st_scope S) url" "\<not> \<not> is_probably_page (ce_url C) url"
        using go by simp_all
      ultimately obtain new2 where n: "check_urls (ce_bloom C) (List.map_filter (followable C S) links) (cs_seen s1) = (new2, cs_seen s')"
        "queues C V (length links) (jobs_at depth new2) s1 s'" "same_archive s1 s'"
        using "2.IH"(4) [OF Some _ _ o1(2)] by blast
      have f: "followable C S raw = Some url" using Some go by (simp add: followable_def)
      have "queues C V (1 + length links)
          ((if new1 then [\<lparr> job_url = url, job_depth = depth \<rparr>] else []) @ jobs_at depth new2) s s'"
        by (rule queues_trans [OF c(3) n(2)])
      then have "queues C V (length (raw # links)) (jobs_at depth (if new1 then url # new2 else new2)) s s'"
        by (cases new1) simp_all
      then show ?thesis
        using c n f same_archive_trans [OF c(4) n(3)] by (auto simp: List.map_filter_simps)
    qed
  qed
qed

section \<open>What absorbing a visit does\<close>

lemma db_change_queues:
  assumes "crawl_ok C V s" "frontier_inv (ce_frontier C) V (d, cs_frontier s)"
    and "pending_view V d = pending_view V (cs_db s)" "hosts_view V d = (hosts_view V (cs_db s))(k \<mapsto> v) \<or> hosts_view V d = hosts_view V (cs_db s)"
  shows "queues C V 0 [] s (s \<lparr> cs_db := d \<rparr>)"
  using assms by (auto simp: queues_def crawl_ok_def queued_def frontier_jobs_def known_hosts_def has_room_def)

lemma learn_robots_Inr:
  assumes "learn_robots C now out s = (Inr u, s')" "crawl_ok C V s"
  shows "queues C V 0 [] s s' \<and> cs_seen s' = cs_seen s \<and> same_archive s s'"
proof (cases "oc_rules out")
  case None
  then show ?thesis using assms by (simp add: learn_robots_def queues_refl same_archive_def)
next
  case (Some rules)
  obtain bs d where p: "db_put (ce_kv C) CfRobots (utf8 (oc_host out)) bs (cs_db s) = (Inr u, d)" "s' = s \<lparr> cs_db := d \<rparr>"
    using assms(1) Some by (auto simp: learn_robots_def cache_put_for_def Let_def split: prod.splits sum.splits)
  have ok: "frontier_env_ok (ce_frontier C) V" "frontier_inv (ce_frontier C) V (cs_db s, cs_frontier s)"
    using assms(2) by (auto simp: crawl_ok_def)
  from db_put_Inr [OF frontier_env_okD(1) [OF ok(1)] p(1)]
  have v: "pending_view V d = pending_view V (cs_db s)" "hosts_view V d = hosts_view V (cs_db s)"
    "stored_sequence V d = stored_sequence V (cs_db s)"
    by (simp_all add: pending_view_def hosts_view_def stored_sequence_def)
  then have "frontier_inv (ce_frontier C) V (d, cs_frontier s)"
    using ok(2) by (simp add: frontier_inv_def frontier_db_ok_def)
  then show ?thesis using db_change_queues [OF assms(2)] v p(2) by (simp add: same_archive_def)
qed

lemma defer_visited_Inr:
  assumes "defer_visited C S now out s = (Inr u, s')" "crawl_ok C V s" "utf8 (oc_host out) \<in> known_hosts V s"
  shows "queues C V 0 [] s s' \<and> cs_seen s' = cs_seen s \<and> same_archive s s'"
proof -
  obtain d where p: "defer_host (ce_frontier C) (oc_host out) (defer_until S now (oc_crawl_delay_s out)) now (cs_db s) = (Inr u, d)"
    "s' = s \<lparr> cs_db := d \<rparr>"
    using assms(1) by (auto simp: defer_visited_def split: prod.splits)
  have ok: "frontier_env_ok (ce_frontier C) V" "frontier_inv (ce_frontier C) V (cs_db s, cs_frontier s)"
    using assms(2) by (auto simp: crawl_ok_def)
  note kv = frontier_env_okD(1) [OF ok(1)]
  obtain v where v: "hosts_view V d = (hosts_view V (cs_db s))(utf8 (oc_host out) \<mapsto> v)"
    "pending_view V d = pending_view V (cs_db s)"
    using defer_host_Inr [OF kv p(1)] by metis
  have "frontier_inv (ce_frontier C) V (d, cs_frontier s)"
    by (rule defer_host_keeps [OF kv ok(2) _ p(1)]) (use assms(3) in \<open>simp add: known_hosts_def\<close>)
  then have "queues C V 0 [] s s'"
    using db_change_queues [OF assms(2) _ v(2)] v(1) p(2) by blast
  then show ?thesis using p(2) by (simp add: same_archive_def)
qed

text \<open>What a visit archives, and the links it makes the crawl follow with their depth.\<close>

definition dropped_offsite :: "('u, 'd, 'b, 'w) crawl_env \<Rightarrow> settings \<Rightarrow> visited \<Rightarrow> bool" where
  "dropped_offsite C S v \<longleftrightarrow> landed_offsite C S v \<and> st_drop_offsite_redirects S"

definition archived_by ::
    "('u, 'd, 'b, 'w) crawl_env \<Rightarrow> settings \<Rightarrow> int \<Rightarrow> outcome \<Rightarrow> (fetched_page \<times> document) option" where
  "archived_by C S now out =
     (case oc_result out of
        Inr v \<Rightarrow>
          (case v of
             VisitedPage page parsed \<Rightarrow>
               if dropped_offsite C S v then None else Some (page, page_document C now page parsed)
           | VisitedSitemap _ _ \<Rightarrow> None)
      | Inl _ \<Rightarrow> None)"

definition outcome_links :: "outcome \<Rightarrow> rstr list" where
  "outcome_links out =
     (case oc_result out of
        Inr (VisitedPage _ parsed) \<Rightarrow> pp_links parsed
      | Inr (VisitedSitemap _ links) \<Rightarrow> links
      | Inl _ \<Rightarrow> [])"

definition followed :: "('u, 'd, 'b, 'w) crawl_env \<Rightarrow> settings \<Rightarrow> outcome \<Rightarrow> rstr list \<times> nat" where
  "followed C S out =
     (case oc_result out of
        Inr v \<Rightarrow>
          (if dropped_offsite C S v then ([], 0)
           else case v of
             VisitedPage _ parsed \<Rightarrow>
               if job_depth (oc_job out) < st_max_depth S then (pp_links parsed, job_depth (oc_job out) + 1) else ([], 0)
           | VisitedSitemap _ links \<Rightarrow> (links, sitemap_depth))
      | Inl _ \<Rightarrow> ([], 0))"

definition outcome_urls :: "outcome \<Rightarrow> nat" where
  "outcome_urls out = length (oc_sitemaps out) + length (outcome_links out)"

text \<open>The effect on the archive: nothing, or one page written and counted.\<close>

definition archives ::
    "('u, 'd, 'b, 'w) crawl_env \<Rightarrow> (fetched_page \<times> document) option \<Rightarrow> ('d, 'b) crawl_state \<Rightarrow>
     ('d, 'b) crawl_state \<Rightarrow> bool" where
  "archives C entry s s' \<longleftrightarrow>
     (case entry of
        None \<Rightarrow> same_archive s s'
      | Some (page, doc) \<Rightarrow>
          write_page (ce_storage C) page doc (cs_writer s, cs_fs s) = (Inr (), cs_writer s', cs_fs s') \<and>
          cr_indexed (cs_stats s') = wrap_add_u64 (cr_indexed (cs_stats s)) 1)"

lemma archives_same: "same_archive s t \<Longrightarrow> archives C e t t' \<Longrightarrow> same_archive t' s' \<Longrightarrow> archives C e s s'"
  by (auto simp: archives_def same_archive_def split: option.splits)

lemma absorb_page_Inr:
  assumes "absorb_page C S now job page parsed s = (Inr u, s')" "crawl_ok C V s" "has_room (length (pp_links parsed)) s"
  defines "links \<equiv> (if job_depth job < st_max_depth S then pp_links parsed else [])"
  shows "\<exists>new. check_urls (ce_bloom C) (List.map_filter (followable C S) links) (cs_seen s) = (new, cs_seen s') \<and>
     queues C V (length links) (jobs_at (job_depth job + 1) new) s s' \<and>
     archives C (Some (page, page_document C now page parsed)) s s'"
proof -
  let ?doc = "page_document C now page parsed"
  let ?s = "count_up cr_fetched_update s"
  obtain u1 s1 where a: "archive_page C page ?doc ?s = (Inr u1, s1)"
    "(if job_depth job < st_max_depth S
      then state_then (schedule C S (pp_links parsed) (job_depth job + 1) 0 (count_up cr_indexed_update s1)) (\<lambda>_ s. (Inr (), s))
      else (Inr (), count_up cr_indexed_update s1)) = (Inr u, s')"
    using assms(1) by (auto simp: absorb_page_def Let_def dest!: state_then_Inr_iff [THEN iffD1])
  obtain w f where wf: "write_page (ce_storage C) page ?doc (cs_writer s, cs_fs s) = (Inr u1, w, f)"
    "s1 = ?s \<lparr> cs_writer := w, cs_fs := f \<rparr>"
    using a(1) by (auto simp: archive_page_def count_up_def split: prod.splits)
  let ?t = "count_up cr_indexed_update s1"
  have t: "cs_db ?t = cs_db s" "cs_frontier ?t = cs_frontier s" "cs_seen ?t = cs_seen s"
    by (simp_all add: count_up_def wf(2))
  have ar: "archives C (Some (page, ?doc)) s ?t" using wf by (simp add: archives_def count_up_def)
  have ok: "crawl_ok C V ?t" "has_room (length (pp_links parsed)) ?t"
    using assms(2,3) t by (simp_all add: crawl_ok_def has_room_def)
  show ?thesis
  proof (cases "job_depth job < st_max_depth S")
    case False
    then have "s' = ?t" using a(2) by simp
    then show ?thesis
      using False t ar queues_same [OF queues_refl [OF assms(2)], of s ?t]
      by (simp add: links_def List.map_filter_simps)
  next
    case True
    obtain m where sch: "schedule C S (pp_links parsed) (job_depth job + 1) 0 ?t = (Inr m, s')"
      using a(2) True by (auto dest!: state_then_Inr_iff [THEN iffD1])
    from schedule_Inr [OF this ok] obtain new where n:
      "check_urls (ce_bloom C) (List.map_filter (followable C S) (pp_links parsed)) (cs_seen ?t) = (new, cs_seen s')"
      "queues C V (length (pp_links parsed)) (jobs_at (job_depth job + 1) new) ?t s'" "same_archive ?t s'" by blast
    have "archives C (Some (page, ?doc)) s s'"
      using archives_same [OF _ ar n(3)] by (simp add: same_archive_def)
    then show ?thesis
      using True n queues_same [OF n(2), of s s'] t by (simp add: links_def)
  qed
qed

lemma absorb_visited_Inr:
  assumes "absorb_visited C S now (oc_job out) v s = (Inr u, s')" "oc_result out = Inr v"
    and "crawl_ok C V s" "has_room (length (outcome_links out)) s"
  shows "\<exists>new. check_urls (ce_bloom C) (List.map_filter (followable C S) (fst (followed C S out))) (cs_seen s) = (new, cs_seen s') \<and>
     queues C V (length (outcome_links out)) (jobs_at (snd (followed C S out)) new) s s' \<and>
     archives C (archived_by C S now out) s s'"
proof -
  let ?t = "if landed_offsite C S v then count_up cr_redirected_offsite_update s else s"
  have t: "cs_db ?t = cs_db s" "cs_frontier ?t = cs_frontier s" "cs_seen ?t = cs_seen s" "same_archive s ?t"
    by (simp_all add: count_up_def same_archive_def)
  have tok: "crawl_ok C V ?t" "has_room (length (outcome_links out)) ?t"
    using assms(3,4) t by (simp_all add: crawl_ok_def has_room_def)
  show ?thesis
  proof (cases "dropped_offsite C S v")
    case True
    then have s': "s' = ?t" using assms(1) by (auto simp: absorb_visited_def Let_def dropped_offsite_def)
    have "archived_by C S now out = None" "followed C S out = ([], 0)"
      using True assms(2) by (auto simp: archived_by_def followed_def split: visited.split)
    moreover have "queues C V (length (outcome_links out)) [] s ?t"
      by (rule queues_nothing [OF assms(3) t(1,2)])
    ultimately show ?thesis
      using t(3,4) unfolding s' by (simp add: archives_def List.map_filter_simps)
  next
    case False
    note keep = this
    show ?thesis
    proof (cases v)
      case (VisitedPage page parsed)
      have r: "absorb_page C S now (oc_job out) page parsed ?t = (Inr u, s')"
        using assms(1) keep VisitedPage by (simp add: absorb_visited_def Let_def dropped_offsite_def split: if_splits)
      have links: "outcome_links out = pp_links parsed" using assms(2) VisitedPage by (simp add: outcome_links_def)
      let ?links = "if job_depth (oc_job out) < st_max_depth S then pp_links parsed else []"
      have "has_room (length (pp_links parsed)) ?t" using tok(2) links by simp
      from absorb_page_Inr [OF r tok(1) this] obtain new where n:
        "check_urls (ce_bloom C) (List.map_filter (followable C S) ?links) (cs_seen ?t) = (new, cs_seen s')"
        "queues C V (length ?links) (jobs_at (job_depth (oc_job out) + 1) new) ?t s'"
        "archives C (Some (page, page_document C now page parsed)) ?t s'" by blast
      have "queues C V (length (outcome_links out)) (jobs_at (job_depth (oc_job out) + 1) new) s s'"
        by (rule queues_mono [OF queues_same [OF n(2)]]) (simp_all add: t links)
      moreover have "archives C (archived_by C S now out) s s'"
        using archives_same [OF t(4) n(3)] keep assms(2) VisitedPage by (simp add: archived_by_def same_archive_def)
      moreover have "fst (followed C S out) = ?links" "new \<noteq> [] \<Longrightarrow> snd (followed C S out) = job_depth (oc_job out) + 1"
        using keep assms(2) VisitedPage n(1) by (auto simp: followed_def List.map_filter_simps split: if_splits)
      ultimately show ?thesis using n(1) t(3) by (cases new) auto
    next
      case (VisitedSitemap url links)
      let ?t2 = "count_up cr_sitemaps_update ?t"
      have t2: "cs_db ?t2 = cs_db s" "cs_frontier ?t2 = cs_frontier s" "cs_seen ?t2 = cs_seen s" "same_archive s ?t2"
        by (simp_all add: count_up_def same_archive_def)
      have l: "outcome_links out = links" "followed C S out = (links, sitemap_depth)" "archived_by C S now out = None"
        using keep assms(2) VisitedSitemap by (simp_all add: outcome_links_def followed_def archived_by_def)
      obtain m where sch: "schedule C S links sitemap_depth 0 ?t2 = (Inr m, s')"
        using assms(1) keep VisitedSitemap
        by (auto simp: absorb_visited_def Let_def dropped_offsite_def split: if_splits dest!: state_then_Inr_iff [THEN iffD1])
      have "crawl_ok C V ?t2" "has_room (length links) ?t2"
        using assms(3,4) t2 l by (simp_all add: crawl_ok_def has_room_def)
      from schedule_Inr [OF sch this] obtain new where n:
        "check_urls (ce_bloom C) (List.map_filter (followable C S) links) (cs_seen ?t2) = (new, cs_seen s')"
        "queues C V (length links) (jobs_at sitemap_depth new) ?t2 s'" "same_archive ?t2 s'" by blast
      have "queues C V (length links) (jobs_at sitemap_depth new) s s'"
        by (rule queues_same [OF n(2)]) (simp_all add: t2)
      then show ?thesis
        using n(1) l t2(3) same_archive_trans [OF t2(4) n(3)] by (simp add: archives_def)
    qed
  qed
qed

text \<open>The whole effect of an absorbed visit: it queues, at depth zero, the new sitemaps that the
  host declares and then, at their depth, the new links that it follows; it archives its page.\<close>

lemma absorb_Inr:
  assumes "absorb C S now out s = (Inr u, s')" "crawl_ok C V s" "has_room (outcome_urls out) s"
    and "utf8 (oc_host out) \<in> known_hosts V s"
  obtains new1 new2 seen1 where
    "check_urls (ce_bloom C) (List.map_filter (followable C S) (oc_sitemaps out)) (cs_seen s) = (new1, seen1)"
    "check_urls (ce_bloom C) (List.map_filter (followable C S) (fst (followed C S out))) seen1 = (new2, cs_seen s')"
    "queues C V (outcome_urls out) (jobs_at 0 new1 @ jobs_at (snd (followed C S out)) new2) s s'"
    "archives C (archived_by C S now out) s s'"
proof -
  let ?B = "ce_bloom C" and ?f = "List.map_filter (followable C S)"
  let ?rest = "\<lambda>s. (case oc_result out of
         Inr v \<Rightarrow> absorb_visited C S now (oc_job out) v s
       | Inl e \<Rightarrow>
           if e = DisallowedByRobots then (Inr (), count_up cr_disallowed_update s)
           else (Inr (), count_up cr_failed_update s))"
  obtain u1 s1 u2 s2 n s3 where r: "learn_robots C now out s = (Inr u1, s1)"
    "defer_visited C S now out s1 = (Inr u2, s2)"
    "(if oc_sitemaps out = [] then (Inr 0, s2) else schedule C S (oc_sitemaps out) 0 0 s2) = (Inr n, s3)"
    "?rest s3 = (Inr u, s')"
    using assms(1) unfolding absorb_def by (blast dest!: state_then_Inr_iff [THEN iffD1])
  have q1: "queues C V 0 [] s s1" "cs_seen s1 = cs_seen s" "same_archive s s1"
    using learn_robots_Inr [OF r(1) assms(2)] by simp_all
  have "crawl_ok C V s1" "utf8 (oc_host out) \<in> known_hosts V s1" using q1(1) assms(4) by (auto simp: queues_def)
  from defer_visited_Inr [OF r(2) this]
  have q2: "queues C V 0 [] s1 s2" "cs_seen s2 = cs_seen s" "same_archive s1 s2" using q1 by simp_all
  have q12: "queues C V 0 [] s s2" using queues_trans [OF q1(1) q2(1)] by simp
  have room2: "has_room (outcome_urls out) s2" using q12 assms(3) by (simp add: queues_def)
  have ok2: "crawl_ok C V s2" "has_room (length (oc_sitemaps out)) s2"
    using q12 room2 by (simp_all add: queues_def outcome_urls_def has_room_def)
  have "\<exists>new1. check_urls ?B (?f (oc_sitemaps out)) (cs_seen s2) = (new1, cs_seen s3) \<and>
      queues C V (length (oc_sitemaps out)) (jobs_at 0 new1) s2 s3 \<and> same_archive s2 s3"
  proof (cases "oc_sitemaps out = []")
    case True
    then show ?thesis using r(3) queues_refl [OF ok2(1)] by (simp add: List.map_filter_simps same_archive_def)
  next
    case False
    then have "schedule C S (oc_sitemaps out) 0 0 s2 = (Inr n, s3)" using r(3) by simp
    from schedule_Inr [OF this ok2] show ?thesis by blast
  qed
  then obtain new1 where q3: "check_urls ?B (?f (oc_sitemaps out)) (cs_seen s2) = (new1, cs_seen s3)"
    "queues C V (length (oc_sitemaps out)) (jobs_at 0 new1) s2 s3" "same_archive s2 s3" by blast
  have q13: "queues C V (length (oc_sitemaps out)) (jobs_at 0 new1) s s3" using queues_trans [OF q12 q3(2)] by simp
  have ok3: "crawl_ok C V s3" "has_room (length (outcome_links out)) s3"
    using q13 assms(3) by (simp_all add: queues_def outcome_urls_def)
  have "\<exists>new2. check_urls ?B (?f (fst (followed C S out))) (cs_seen s3) = (new2, cs_seen s') \<and>
      queues C V (length (outcome_links out)) (jobs_at (snd (followed C S out)) new2) s3 s' \<and>
      archives C (archived_by C S now out) s3 s'"
  proof (cases "oc_result out")
    case (Inr v)
    then have "absorb_visited C S now (oc_job out) v s3 = (Inr u, s')" using r(4) by simp
    from absorb_visited_Inr [OF this Inr ok3] show ?thesis .
  next
    case (Inl e)
    then have "cs_db s' = cs_db s3" "cs_frontier s' = cs_frontier s3" "cs_seen s' = cs_seen s3" "same_archive s3 s'"
      using r(4) by (auto simp: count_up_def same_archive_def split: if_splits)
    then show ?thesis
      using Inl queues_nothing [OF ok3(1), of s']
      by (simp add: followed_def archived_by_def archives_def List.map_filter_simps)
  qed
  then obtain new2 where q4: "check_urls ?B (?f (fst (followed C S out))) (cs_seen s3) = (new2, cs_seen s')"
    "queues C V (length (outcome_links out)) (jobs_at (snd (followed C S out)) new2) s3 s'"
    "archives C (archived_by C S now out) s3 s'" by blast
  have sa: "same_archive s s3" using same_archive_trans q1(3) q2(3) q3(3) by blast
  have "queues C V (outcome_urls out) (jobs_at 0 new1 @ jobs_at (snd (followed C S out)) new2) s s'"
    using queues_trans [OF q13 q4(2)] by (simp add: outcome_urls_def)
  moreover have "archives C (archived_by C S now out) s s'"
    by (rule archives_same [OF sa q4(3)]) (simp add: same_archive_def)
  ultimately show thesis using that q3(1) q4(1) q2(2) by metis
qed

end
