(* ===== verification/Crawl_Loop.thy ===== *)
theory Crawl_Loop
  imports Crawl_Absorb
begin

text \<open>
  The crawl loop of \<open>crates/crawler/src/main.rs\<close> as a step relation. The loop and the visits, which
  run in tasks of their own, meet in a channel. What the code does in one turn is a function
  (\<open>absorb_one\<close>, \<open>decide\<close>, \<open>dispatch_one\<close>, \<open>publish\<close>, \<open>stop\<close>); \<open>crawl_step\<close> chooses which visit
  ends, which arm of the select is taken, and what the clock says. The label of a step says what it
  did.

  The capacity of the channel, twice the number of workers, is never reached, because no more
  visits than workers are under way (\<open>Crawl_Safety\<close>); a send therefore never waits. An error
  ends the loop as the \<open>?\<close> operator does, and dropping the archive writer seals what is open.
\<close>

section \<open>Data\<close>

record crawler_cli =
  cc_seeds :: "rstr list"
  cc_seed_file :: "path option"
  cc_max_depth :: nat
  cc_workers :: nat
  cc_per_host_concurrency :: nat
  cc_politeness_delay_ms :: nat
  cc_max_pages :: nat
  cc_expected_urls :: nat
  cc_rocksdb_dir :: rstr
  cc_warc_dir :: rstr
  cc_spool_dir :: rstr
  cc_bloom_path :: path
  cc_stats_path :: path
  cc_block_cache_mb :: nat
  cc_write_buffer_mb :: nat
  cc_max_body_mib :: nat
  cc_segment_mib :: nat
  cc_user_agent :: rstr
  cc_stay_on_site :: bool
  cc_allow_host :: "rstr list"
  cc_drop_offsite_redirects :: bool

text \<open>The defaults of the command line, when no environment variable overrides one.\<close>

definition crawler_cli_default :: crawler_cli where
  "crawler_cli_default =
     \<lparr> cc_seeds = [], cc_seed_file = None, cc_max_depth = 3, cc_workers = 32, cc_per_host_concurrency = 2,
       cc_politeness_delay_ms = 1000, cc_max_pages = 0, cc_expected_urls = 5000000,
       cc_rocksdb_dir = str ''data/rocksdb'', cc_warc_dir = str ''data/warc'', cc_spool_dir = str ''data/spool'',
       cc_bloom_path = (str ''data'', str ''urls.bloom''), cc_stats_path = (str ''data'', str ''crawl-stats.json''),
       cc_block_cache_mb = 32, cc_write_buffer_mb = 16, cc_max_body_mib = 8, cc_segment_mib = 8,
       cc_user_agent = str ''MJLsearchBot/0.1 (+https://example.invalid/bot)'', cc_stay_on_site = False,
       cc_allow_host = [], cc_drop_offsite_redirects = False \<rparr>"

text \<open>A visit under way: its job, the host, the cached rules and the delay they ask for.\<close>

type_synonym visit_task = "crawl_job \<times> rstr \<times> robots_rules option \<times> nat option"

datatype phase =
  Absorbing
| Deciding
| Dispatching
| Publishing
| Waiting
| Stopping
| Ended "crawl_error + crawl_stats"

record ('d, 'b) loop_state =
  ls_state :: "('d, 'b) crawl_state"
  ls_in_flight :: "rstr \<Rightarrow> nat option"
  ls_total :: nat
  ls_shutting_down :: bool
  ls_tasks :: "visit_task list"
  ls_channel :: "outcome list"
  ls_phase :: phase

datatype event = Dispatched crawl_job | Finished outcome | Absorbed int outcome | Quiet

section \<open>One turn of the loop\<close>

text \<open>Updates the in-flight accounting for a completed visit.\<close>

definition bookkeep :: "rstr \<Rightarrow> (rstr \<Rightarrow> nat option) \<times> nat \<Rightarrow> (rstr \<Rightarrow> nat option) \<times> nat" where
  "bookkeep host acc =
     (case acc of (in_flight, m) \<Rightarrow>
        (case in_flight host of
           None \<Rightarrow> in_flight
         | Some n \<Rightarrow>
             if n - 1 = 0 then in_flight(host := None) else in_flight(host \<mapsto> n - 1),
         m - 1))"

text \<open>The end of \<open>run\<close>: its locals are dropped, and the archive writer seals what is open.\<close>

definition end_run ::
    "('u, 'd, 'b, 'w) crawl_env \<Rightarrow> crawl_error + crawl_stats \<Rightarrow> ('d, 'b) crawl_state \<Rightarrow> ('d, 'b) loop_state \<Rightarrow>
     ('d, 'b) loop_state" where
  "end_run C r s ls =
     (case archive_drop (ce_storage C) (cs_writer s, cs_fs s) of
        (w, f) \<Rightarrow> ls \<lparr> ls_state := s \<lparr> cs_writer := w, cs_fs := f \<rparr>, ls_phase := Ended r \<rparr>)"

text \<open>An outcome taken from the channel; the loop goes on to absorb what else is there.\<close>

definition absorb_one ::
    "('u, 'd, 'b, 'w) crawl_env \<Rightarrow> settings \<Rightarrow> int \<Rightarrow> outcome \<Rightarrow> ('d, 'b) loop_state \<Rightarrow> ('d, 'b) loop_state" where
  "absorb_one C S now out ls =
     (case bookkeep (oc_host out) (ls_in_flight ls, ls_total ls) of
        (in_flight, n) \<Rightarrow>
          (let ls = ls \<lparr> ls_in_flight := in_flight, ls_total := n, ls_channel := tl (ls_channel ls) \<rparr>
           in case absorb C S now out (ls_state ls) of
                (Inl e, s) \<Rightarrow> end_run C (Inl e) s ls
              | (Inr _, s) \<Rightarrow> ls \<lparr> ls_state := s, ls_phase := Absorbing \<rparr>))"

definition decide :: "crawler_cli \<Rightarrow> ('d, 'b) loop_state \<Rightarrow> ('d, 'b) loop_state" where
  "decide cli ls =
     (let shutting_down = ls_shutting_down ls \<or>
            (0 < cc_max_pages cli \<and> cc_max_pages cli \<le> cr_indexed (cs_stats (ls_state ls)))
      in ls \<lparr> ls_shutting_down := shutting_down,
              ls_phase := (if shutting_down \<and> ls_total ls = 0 then Stopping else Dispatching) \<rparr>)"

definition saturated :: "crawler_cli \<Rightarrow> (rstr \<Rightarrow> nat option) \<Rightarrow> rstr \<Rightarrow> bool" where
  "saturated cli in_flight host =
     (case in_flight host of Some n \<Rightarrow> cc_per_host_concurrency cli \<le> n | None \<Rightarrow> False)"

text \<open>One turn of the dispatch loop; \<open>None\<close> would be a pop that never returns.\<close>

definition dispatch_one ::
    "('u, 'd, 'b, 'w) crawl_env \<Rightarrow> crawler_cli \<Rightarrow> int \<Rightarrow> ('d, 'b) loop_state \<Rightarrow>
     (event \<times> ('d, 'b) loop_state) option" where
  "dispatch_one C cli now ls =
     (let s = ls_state ls
      in if ls_shutting_down ls \<or> cc_workers cli \<le> ls_total ls then Some (Quiet, ls \<lparr> ls_phase := Publishing \<rparr>)
         else case pop_ready (ce_frontier C) now 128 (saturated cli (ls_in_flight ls)) (cs_db s, cs_frontier s) of
           None \<Rightarrow> None
         | Some (r, d, fr) \<Rightarrow>
             (let s = s \<lparr> cs_db := d, cs_frontier := fr \<rparr>; ls = ls \<lparr> ls_state := s \<rparr>
              in case r of
                   Inl e \<Rightarrow> Some (Quiet, end_run C (Inl e) s ls)
                 | Inr None \<Rightarrow> Some (Quiet, ls \<lparr> ls_phase := Publishing \<rparr>)
                 | Inr (Some job) \<Rightarrow>
                     (case host_of (ce_url C) (job_url job) of
                        None \<Rightarrow> Some (Quiet, ls)
                      | Some host \<Rightarrow>
                          (case cache_get (ce_kv C) (ce_robots C) d host now of
                             Inl e \<Rightarrow> Some (Quiet, end_run C (Inl e) s ls)
                           | Inr rules \<Rightarrow>
                               (let n = (case ls_in_flight ls host of Some n \<Rightarrow> n | None \<Rightarrow> 0)
                                in Some (Dispatched job,
                                     ls \<lparr> ls_in_flight := (ls_in_flight ls)(host \<mapsto> n + 1),
                                          ls_total := ls_total ls + 1,
                                          ls_tasks := ls_tasks ls @
                                            [(job, host, rules, Option.bind rules crawl_delay_s)] \<rparr>))))))"

section \<open>Progress and the end\<close>

definition json_field :: "string \<Rightarrow> rstr \<Rightarrow> rstr" where
  "json_field name v = [34] @ str name @ [34] @ str '':'' @ v"

definition stats_json :: "crawl_stats \<Rightarrow> nat \<Rightarrow> nat \<Rightarrow> int \<Rightarrow> rstr" where
  "stats_json stats frontier_pending hosts now =
     str ''{'' @
     json_field ''queued'' (show_nat (cr_queued stats)) @ str '','' @
     json_field ''fetched'' (show_nat (cr_fetched stats)) @ str '','' @
     json_field ''indexed'' (show_nat (cr_indexed stats)) @ str '','' @
     json_field ''failed'' (show_nat (cr_failed stats)) @ str '','' @
     json_field ''disallowed'' (show_nat (cr_disallowed stats)) @ str '','' @
     json_field ''sitemaps'' (show_nat (cr_sitemaps stats)) @ str '','' @
     json_field ''skipped_offsite'' (show_nat (cr_skipped_offsite stats)) @ str '','' @
     json_field ''skipped_assets'' (show_nat (cr_skipped_assets stats)) @ str '','' @
     json_field ''redirected_offsite'' (show_nat (cr_redirected_offsite stats)) @ str '','' @
     json_field ''frontier_pending'' (show_nat frontier_pending) @ str '','' @
     json_field ''hosts'' (show_nat hosts) @ str '','' @
     json_field ''updated_at'' (show_int (now sdiv 1000)) @ str ''}''"

definition write_stats_file ::
    "path \<Rightarrow> crawl_stats \<Rightarrow> nat \<Rightarrow> nat \<Rightarrow> int \<Rightarrow> fs \<Rightarrow> (crawl_error + unit) \<times> fs" where
  "write_stats_file path stats frontier_pending hosts now f =
     (case replace_file path (str ''json.tmp'') (utf8 (stats_json stats frontier_pending hosts now)) f of
        (r, f) \<Rightarrow> (map_err Io r, f))"

text \<open>The progress file is saved whole.\<close>

abbreviation progress_json :: "crawl_stats \<times> nat \<times> nat \<times> int \<Rightarrow> nat list" where
  "progress_json c \<equiv> utf8 (stats_json (fst c) (fst (snd c)) (fst (snd (snd c))) (snd (snd (snd c))))"

lemma write_stats_file_file:
  "write_stats_file p stats pending hosts now s = (Inr u, s') \<Longrightarrow>
     fs_file s' p = Some (utf8 (stats_json stats pending hosts now))"
  "write_stats_file p stats pending hosts now s = (Inl x, s') \<Longrightarrow> fs_file s' p = fs_file s p"
  using replace_file_Inr [OF _ dotted_tmp(2)] replace_file_Inl [OF _ dotted_tmp(2)]
  by (auto simp: write_stats_file_def map_err_def simp del: str_simps split: prod.splits sum.splits)

interpretation progress_file: atomic_save
    "\<lambda>p c. write_stats_file p (fst c) (fst (snd c)) (fst (snd (snd c))) (snd (snd (snd c)))" "\<lambda>p c. p"
    "\<lambda>p c bs. bs = progress_json c"
  by unfold_locales (auto dest: write_stats_file_file)

text \<open>So a reader of the progress file never sees a document that is written in part: whatever fails
  and whatever goes on beside, the file is what it was or the whole of one of the reports.\<close>

lemma progress_never_torn:
  assumes "save_all (\<lambda>c. write_stats_file p (fst c) (fst (snd c)) (fst (snd (snd c))) (snd (snd (snd c)))) calls None s =
      (last_saved, s')" "saves_to p (\<lambda>_. p) calls"
  shows "fs_file s' p = fs_file s p \<or> (\<exists>c \<in> snd ` set calls. fs_file s' p = Some (progress_json c))"
  using progress_file.never_torn [OF assms] by blast

definition write_progress :: "crawler_cli \<Rightarrow> int \<Rightarrow> ('d, 'b) crawl_state \<Rightarrow> (crawl_error + unit) \<times> ('d, 'b) crawl_state" where
  "write_progress cli now s =
     (case write_stats_file (cc_stats_path cli) (cs_stats s) (fr_pending (cs_frontier s)) (fr_hosts (cs_frontier s))
             now (cs_fs s) of
        (r, f) \<Rightarrow> (r, s \<lparr> cs_fs := f \<rparr>))"

text \<open>Progress is published when two seconds have passed (\<open>due\<close>); a failure is only logged.\<close>

definition publish :: "crawler_cli \<Rightarrow> bool \<Rightarrow> int \<Rightarrow> ('d, 'b) loop_state \<Rightarrow> ('d, 'b) loop_state" where
  "publish cli due now ls =
     ls \<lparr> ls_state := (if due then snd (write_progress cli now (ls_state ls)) else ls_state ls),
         ls_phase := (if ls_total ls = 0 \<and> \<not> ls_shutting_down ls \<and> fr_pending (cs_frontier (ls_state ls)) = 0
                      then Stopping else Waiting) \<rparr>"

definition save_seen ::
    "('u, 'd, 'b, 'w) crawl_env \<Rightarrow> ('d, 'b) crawl_state \<Rightarrow> (crawl_error + unit) \<times> ('d, 'b) crawl_state" where
  "save_seen C s = (case seen_save (ce_filter C) (cs_seen s) (cs_fs s) of (r, f) \<Rightarrow> (r, s \<lparr> cs_fs := f \<rparr>))"

definition seal_archive ::
    "('u, 'd, 'b, 'w) crawl_env \<Rightarrow> ('d, 'b) crawl_state \<Rightarrow> (crawl_error + unit) \<times> ('d, 'b) crawl_state" where
  "seal_archive C s =
     (case archive_seal (ce_storage C) (cs_writer s, cs_fs s) of
        (r, w, f) \<Rightarrow> (r, s \<lparr> cs_writer := w, cs_fs := f \<rparr>))"

text \<open>The shutdown: the spool is sealed, the filter is saved, the last progress is written.\<close>

definition shut_down ::
    "('u, 'd, 'b, 'w) crawl_env \<Rightarrow> crawler_cli \<Rightarrow> int \<Rightarrow> ('d, 'b) crawl_state \<Rightarrow>
     (crawl_error + crawl_stats) \<times> ('d, 'b) crawl_state" where
  "shut_down C cli now s =
     state_then (seal_archive C s) (\<lambda>_ s.
     state_then (save_seen C s) (\<lambda>_ s.
     state_then (write_progress cli now s) (\<lambda>_ s. (Inr (cs_stats s), s))))"

definition stop ::
    "('u, 'd, 'b, 'w) crawl_env \<Rightarrow> crawler_cli \<Rightarrow> int \<Rightarrow> ('d, 'b) loop_state \<Rightarrow> ('d, 'b) loop_state" where
  "stop C cli now ls = (case shut_down C cli now (ls_state ls) of (r, s) \<Rightarrow> end_run C r s ls)"

section \<open>The steps\<close>

definition running :: "('d, 'b) loop_state \<Rightarrow> bool" where
  "running ls \<longleftrightarrow> (case ls_phase ls of Ended _ \<Rightarrow> False | _ \<Rightarrow> True)"

inductive crawl_step ::
    "('u, 'd, 'b, 'w) crawl_env \<Rightarrow> crawler_cli \<Rightarrow> settings \<Rightarrow> ('d, 'b) loop_state \<Rightarrow> event \<Rightarrow>
     ('d, 'b) loop_state \<Rightarrow> bool" for C cli S where
  visit_ends: "running ls \<Longrightarrow> ls_tasks ls = ts1 @ (job, host, rules, delay) # ts2 \<Longrightarrow>
    visit (ce_url C) (ce_visit C) job host rules delay w = (out, w') \<Longrightarrow>
    crawl_step C cli S ls (Finished out) (ls \<lparr> ls_tasks := ts1 @ ts2, ls_channel := ls_channel ls @ [out] \<rparr>)"
| absorbs: "ls_phase ls = Absorbing \<Longrightarrow> ls_channel ls = out # rest \<Longrightarrow>
    crawl_step C cli S ls (Absorbed now out) (absorb_one C S now out ls)"
| drained: "ls_phase ls = Absorbing \<Longrightarrow> ls_channel ls = [] \<Longrightarrow>
    crawl_step C cli S ls Quiet (ls \<lparr> ls_phase := Deciding \<rparr>)"
| decides: "ls_phase ls = Deciding \<Longrightarrow> crawl_step C cli S ls Quiet (decide cli ls)"
| dispatches: "ls_phase ls = Dispatching \<Longrightarrow> dispatch_one C cli now ls = Some (ev, ls') \<Longrightarrow>
    crawl_step C cli S ls ev ls'"
| publishes: "ls_phase ls = Publishing \<Longrightarrow> crawl_step C cli S ls Quiet (publish cli due now ls)"
| interrupted: "ls_phase ls = Waiting \<Longrightarrow> \<not> ls_shutting_down ls \<Longrightarrow>
    crawl_step C cli S ls Quiet (ls \<lparr> ls_shutting_down := True, ls_phase := Absorbing \<rparr>)"
| receives: "ls_phase ls = Waiting \<Longrightarrow> 0 < ls_total ls \<or> ls_shutting_down ls \<Longrightarrow> ls_channel ls = out # rest \<Longrightarrow>
    crawl_step C cli S ls (Absorbed now out) (absorb_one C S now out ls)"
| timer: "ls_phase ls = Waiting \<Longrightarrow> crawl_step C cli S ls Quiet (ls \<lparr> ls_phase := Absorbing \<rparr>)"
| stops: "ls_phase ls = Stopping \<Longrightarrow> crawl_step C cli S ls Quiet (stop C cli now ls)"

text \<open>The visits under way and the outcomes that wait in the channel.\<close>

definition under_way :: "('d, 'b) loop_state \<Rightarrow> (crawl_job \<times> rstr) list" where
  "under_way ls = map (\<lambda>(job, host, _). (job, host)) (ls_tasks ls) @
     map (\<lambda>out. (oc_job out, oc_host out)) (ls_channel ls)"

end
