(* ===== verification/Crawl_Safety.thy ===== *)
theory Crawl_Safety
  imports Crawl_Loop
begin

text \<open>
  What the crawl loop keeps: the accounting of the visits under way and their bounds, the page
  budget, that no URL is visited twice, and where a crawl may go. The invariants are proved over
  the runs of \<open>crawl_step\<close>, for any answers of the network, the clock and the select.
\<close>

section \<open>Runs\<close>

text \<open>As long as the counters of the frontier have room for the URLs of the waiting outcomes.\<close>

definition roomy :: "('d, 'b) loop_state \<Rightarrow> bool" where
  "roomy ls \<longleftrightarrow> list_all (\<lambda>out. has_room (outcome_urls out) (ls_state ls)) (ls_channel ls)"

inductive crawl_run ::
    "('u, 'd, 'b, 'w) crawl_env \<Rightarrow> crawler_cli \<Rightarrow> settings \<Rightarrow> ('d, 'b) loop_state \<Rightarrow> event list \<Rightarrow>
     ('d, 'b) loop_state \<Rightarrow> bool" for C cli S ls0 where
  starts: "crawl_run C cli S ls0 [] ls0"
| steps: "crawl_run C cli S ls0 evs ls \<Longrightarrow> roomy ls \<Longrightarrow> crawl_step C cli S ls ev ls' \<Longrightarrow>
    crawl_run C cli S ls0 (evs @ [ev]) ls'"

text \<open>A loop that runs, or has ended well.\<close>

definition alive :: "('d, 'b) loop_state \<Rightarrow> bool" where
  "alive ls \<longleftrightarrow> (case ls_phase ls of Ended (Inl _) \<Rightarrow> False | _ \<Rightarrow> True)"

definition visits :: "('d, 'b) loop_state \<Rightarrow> (crawl_job \<times> rstr) multiset" where
  "visits ls = mset (under_way ls)"

abbreviation visited_hosts :: "('d, 'b) loop_state \<Rightarrow> rstr multiset" where
  "visited_hosts ls \<equiv> image_mset snd (visits ls)"

section \<open>The effect of a turn on the visits\<close>

lemma running_simps [simp]:
  "ls_phase ls = Absorbing \<Longrightarrow> running ls" "ls_phase ls = Deciding \<Longrightarrow> running ls"
  "ls_phase ls = Dispatching \<Longrightarrow> running ls" "ls_phase ls = Publishing \<Longrightarrow> running ls"
  "ls_phase ls = Waiting \<Longrightarrow> running ls" "ls_phase ls = Stopping \<Longrightarrow> running ls"
  "ls_phase ls = Ended r \<Longrightarrow> \<not> running ls"
  by (simp_all add: running_def)

lemma running_alive: "running ls \<Longrightarrow> alive ls"
  by (auto simp: running_def alive_def split: phase.splits)

lemma end_run_sel [simp]:
  "ls_phase (end_run C r s ls) = Ended r" "ls_total (end_run C r s ls) = ls_total ls"
  "ls_in_flight (end_run C r s ls) = ls_in_flight ls" "under_way (end_run C r s ls) = under_way ls"
  "ls_shutting_down (end_run C r s ls) = ls_shutting_down ls"
  "cs_stats (ls_state (end_run C r s ls)) = cs_stats s" "cs_db (ls_state (end_run C r s ls)) = cs_db s"
  "cs_frontier (ls_state (end_run C r s ls)) = cs_frontier s" "cs_seen (ls_state (end_run C r s ls)) = cs_seen s"
  "ls_tasks (end_run C r s ls) = ls_tasks ls" "ls_channel (end_run C r s ls) = ls_channel ls"
  by (simp_all add: end_run_def under_way_def split: prod.split)

lemma not_alive_end [simp]: "\<not> alive (end_run C (Inl e) s ls)"
  by (simp add: alive_def)

text \<open>A step either fails the crawl, or moves a visit along: one finishes, one is absorbed, one is
  dispatched, or none is touched.\<close>

lemma dispatch_one_cases:
  assumes "dispatch_one C cli now ls = Some (ev, ls')" "alive ls'" "ls_phase ls = Dispatching"
  obtains (full) "ev = Quiet" "ls' = ls \<lparr> ls_phase := Publishing \<rparr>"
  | (empty) d fr where
      "pop_ready (ce_frontier C) now 128 (saturated cli (ls_in_flight ls)) (cs_db (ls_state ls), cs_frontier (ls_state ls)) =
         Some (Inr None, d, fr)"
      "ev = Quiet" "ls' = ls \<lparr> ls_state := (ls_state ls) \<lparr> cs_db := d, cs_frontier := fr \<rparr>, ls_phase := Publishing \<rparr>"
  | (homeless) d fr job where
      "pop_ready (ce_frontier C) now 128 (saturated cli (ls_in_flight ls)) (cs_db (ls_state ls), cs_frontier (ls_state ls)) =
         Some (Inr (Some job), d, fr)" "host_of (ce_url C) (job_url job) = None"
      "ev = Quiet" "ls' = ls \<lparr> ls_state := (ls_state ls) \<lparr> cs_db := d, cs_frontier := fr \<rparr> \<rparr>"
  | (go) d fr job host rules where
      "\<not> ls_shutting_down ls" "ls_total ls < cc_workers cli"
      "pop_ready (ce_frontier C) now 128 (saturated cli (ls_in_flight ls)) (cs_db (ls_state ls), cs_frontier (ls_state ls)) =
         Some (Inr (Some job), d, fr)" "host_of (ce_url C) (job_url job) = Some host"
      "ev = Dispatched job"
      "ls' = ls \<lparr> ls_state := (ls_state ls) \<lparr> cs_db := d, cs_frontier := fr \<rparr>,
          ls_in_flight := (ls_in_flight ls)(host \<mapsto> (case ls_in_flight ls host of Some n \<Rightarrow> n | None \<Rightarrow> 0) + 1),
          ls_total := ls_total ls + 1,
          ls_tasks := ls_tasks ls @ [(job, host, rules, Option.bind rules crawl_delay_s)] \<rparr>"
proof (cases "ls_shutting_down ls \<or> cc_workers cli \<le> ls_total ls")
  case True
  then show thesis using assms(1) full by (auto simp: dispatch_one_def)
next
  case False
  obtain r d fr where p: "pop_ready (ce_frontier C) now 128 (saturated cli (ls_in_flight ls))
      (cs_db (ls_state ls), cs_frontier (ls_state ls)) = Some (r, d, fr)"
    using assms(1) False by (auto simp: dispatch_one_def Let_def split: option.splits)
  note run = assms(1) [unfolded dispatch_one_def Let_def p option.case prod.case]
  show thesis
  proof (cases r)
    case (Inl e)
    then show thesis using run False assms(2) by auto
  next
    case (Inr j)
    show thesis
    proof (cases j)
      case None
      show thesis by (rule empty) (use None p run False Inr in auto)
    next
      case (Some job)
      show thesis
      proof (cases "host_of (ce_url C) (job_url job)")
        case None
        show thesis by (rule homeless) (use None p run False Inr Some in auto)
      next
        case host: (Some host)
        show thesis
        proof (cases "cache_get (ce_kv C) (ce_robots C) d host now")
          case (Inl e)
          then show thesis using run False Inr Some host assms(2) by auto
        next
          case rules: (Inr rules)
          show thesis
            by (rule go) (use run False Inr Some host rules p in auto)
        qed
      qed
    qed
  qed
qed

lemma shut_down_sel:
  assumes "shut_down C cli now s = (r, s')"
  shows "cs_db s' = cs_db s \<and> cs_frontier s' = cs_frontier s \<and> cs_seen s' = cs_seen s \<and> cs_stats s' = cs_stats s \<and>
    (\<forall>stats. r = Inr stats \<longrightarrow> stats = cs_stats s)"
  using assms
  by (auto simp: shut_down_def seal_archive_def save_seen_def write_progress_def state_then_def
      split: prod.splits sum.splits)

lemma publish_sel [simp]:
  "cs_db (ls_state (publish cli due now ls)) = cs_db (ls_state ls)"
  "cs_frontier (ls_state (publish cli due now ls)) = cs_frontier (ls_state ls)"
  "cs_seen (ls_state (publish cli due now ls)) = cs_seen (ls_state ls)"
  "cs_stats (ls_state (publish cli due now ls)) = cs_stats (ls_state ls)"
  "ls_total (publish cli due now ls) = ls_total ls" "ls_in_flight (publish cli due now ls) = ls_in_flight ls"
  "under_way (publish cli due now ls) = under_way ls" "ls_shutting_down (publish cli due now ls) = ls_shutting_down ls"
  "ls_phase (publish cli due now ls) \<in> {Stopping, Waiting}"
  by (simp_all add: publish_def write_progress_def under_way_def split: prod.split)

text \<open>Absorbing takes one visit off the books.\<close>

definition as_entry :: "nat \<Rightarrow> nat option" where
  "as_entry n = (if n = 0 then None else Some n)"

definition in_flight_ok :: "('d, 'b) loop_state \<Rightarrow> bool" where
  "in_flight_ok ls \<longleftrightarrow> ls_total ls = size (visits ls) \<and> (\<forall>h. ls_in_flight ls h = as_entry (count (visited_hosts ls) h))"

lemma visits_simps:
  "ls_channel ls = out # rest \<Longrightarrow> visits ls = add_mset (oc_job out, oc_host out) (visits (ls \<lparr> ls_channel := rest \<rparr>))"
  "ls_tasks ls' = ls_tasks ls \<Longrightarrow> ls_channel ls' = ls_channel ls \<Longrightarrow> visits ls' = visits ls"
  by (simp_all add: visits_def under_way_def)

lemma absorb_one_cases:
  assumes "absorb_one C S now out ls = ls'" "alive ls'" "ls_channel ls = out # rest"
  obtains s where "absorb C S now out (ls_state ls) = (Inr (), s)" "ls_state ls' = s" "ls_phase ls' = Absorbing"
    "visits ls = add_mset (oc_job out, oc_host out) (visits ls')" "ls_tasks ls' = ls_tasks ls" "ls_channel ls' = rest"
    "ls_shutting_down ls' = ls_shutting_down ls" "in_flight_ok ls \<Longrightarrow> in_flight_ok ls'"
proof -
  obtain m n where bk: "bookkeep (oc_host out) (ls_in_flight ls, ls_total ls) = (m, n)" by fastforce
  obtain r s where a: "absorb C S now out (ls_state ls) = (r, s)" by fastforce
  have r: "r = Inr ()" using assms(1,2) bk a by (cases r) (auto simp: absorb_one_def Let_def)
  have ls': "ls' = ls \<lparr> ls_in_flight := m, ls_total := n, ls_channel := rest, ls_state := s, ls_phase := Absorbing \<rparr>"
    using assms(1,3) bk a r by (simp add: absorb_one_def Let_def)
  have v: "visits ls = add_mset (oc_job out, oc_host out) (visits ls')"
    using assms(3) by (simp add: ls' visits_def under_way_def)
  have "in_flight_ok ls'" if ok: "in_flight_ok ls"
  proof -
    define c where "c = count (visited_hosts ls') (oc_host out)"
    have "ls_in_flight ls (oc_host out) = Some (Suc c)"
      using ok by (simp add: in_flight_ok_def v as_entry_def c_def)
    then have "ls_in_flight ls' = (ls_in_flight ls)(oc_host out := as_entry c)" "ls_total ls' = ls_total ls - 1"
      using bk by (cases c; auto simp: bookkeep_def as_entry_def ls')+
    then show ?thesis using ok by (simp add: in_flight_ok_def v c_def)
  qed
  then show thesis using that [of s] a r v by (simp add: ls')
qed

section \<open>The invariant of the loop\<close>

text \<open>The host of a visit is that of its job, and the frontier knows it.\<close>

definition visit_known :: "('u, 'd, 'b, 'w) crawl_env \<Rightarrow> 'd kv_view \<Rightarrow> ('d, 'b) crawl_state \<Rightarrow> crawl_job \<times> rstr \<Rightarrow> bool" where
  "visit_known C V s v \<longleftrightarrow> host_of (ce_url C) (job_url (fst v)) = Some (snd v) \<and> list_all host_char (snd v) \<and>
     snd v \<in> known_hosts V s"

definition loop_inv :: "('u, 'd, 'b, 'w) crawl_env \<Rightarrow> 'd kv_view \<Rightarrow> crawler_cli \<Rightarrow> ('d, 'b) loop_state \<Rightarrow> bool" where
  "loop_inv C V cli ls \<longleftrightarrow> crawl_ok C V (ls_state ls) \<and> in_flight_ok ls \<and>
     (\<forall>v \<in># visits ls. visit_known C V (ls_state ls) v) \<and>
     size (visits ls) \<le> cc_workers cli \<and>
     (\<forall>h. count (visited_hosts ls) h \<le> max 1 (cc_per_host_concurrency cli)) \<and>
     (0 < cc_max_pages cli \<longrightarrow>
        cr_indexed (cs_stats (ls_state ls)) + size (visits ls) \<le> cc_max_pages cli - 1 + cc_workers cli \<and>
        (ls_phase ls = Dispatching \<and> \<not> ls_shutting_down ls \<longrightarrow> cr_indexed (cs_stats (ls_state ls)) < cc_max_pages cli))"

lemma loop_invD:
  assumes "loop_inv C V cli ls"
  shows "crawl_ok C V (ls_state ls)" "in_flight_ok ls" "\<And>v. v \<in># visits ls \<Longrightarrow> visit_known C V (ls_state ls) v"
    "size (visits ls) \<le> cc_workers cli" "count (visited_hosts ls) h \<le> max 1 (cc_per_host_concurrency cli)"
    "0 < cc_max_pages cli \<Longrightarrow>
       cr_indexed (cs_stats (ls_state ls)) + size (visits ls) \<le> cc_max_pages cli - 1 + cc_workers cli"
    "0 < cc_max_pages cli \<Longrightarrow> ls_phase ls = Dispatching \<Longrightarrow> \<not> ls_shutting_down ls \<Longrightarrow>
       cr_indexed (cs_stats (ls_state ls)) < cc_max_pages cli"
  using assms by (simp_all add: loop_inv_def)

text \<open>A step that touches neither the books nor the frontier and the counters.\<close>

lemma loop_inv_same:
  assumes "loop_inv C V cli ls" "visits ls' = visits ls" "ls_total ls' = ls_total ls" "ls_in_flight ls' = ls_in_flight ls"
    "cs_db (ls_state ls') = cs_db (ls_state ls)" "cs_frontier (ls_state ls') = cs_frontier (ls_state ls)"
    "cs_stats (ls_state ls') = cs_stats (ls_state ls)"
    "ls_phase ls' = Dispatching \<Longrightarrow> \<not> ls_shutting_down ls' \<Longrightarrow> 0 < cc_max_pages cli \<Longrightarrow>
       cr_indexed (cs_stats (ls_state ls)) < cc_max_pages cli"
  shows "loop_inv C V cli ls'"
  using assms by (simp add: loop_inv_def crawl_ok_def in_flight_ok_def visit_known_def known_hosts_def)

lemma archives_indexed: "archives C e s s' \<Longrightarrow> cr_indexed (cs_stats s') \<le> cr_indexed (cs_stats s) + 1"
  by (auto simp: archives_def same_archive_def wrap_add_u64_def split: option.splits)

lemma absorb_one_effect:
  assumes "absorb_one C S now out ls = ls'" "alive ls'" "ls_channel ls = out # rest" "loop_inv C V cli ls" "roomy ls"
  obtains new1 new2 seen1 where
    "check_urls (ce_bloom C) (List.map_filter (followable C S) (oc_sitemaps out)) (cs_seen (ls_state ls)) = (new1, seen1)"
    "check_urls (ce_bloom C) (List.map_filter (followable C S) (fst (followed C S out))) seen1 = (new2, cs_seen (ls_state ls'))"
    "queues C V (outcome_urls out) (jobs_at 0 new1 @ jobs_at (snd (followed C S out)) new2) (ls_state ls) (ls_state ls')"
    "archives C (archived_by C S now out) (ls_state ls) (ls_state ls')"
proof -
  obtain s where a: "absorb C S now out (ls_state ls) = (Inr (), s)" "ls_state ls' = s"
    by (rule absorb_one_cases [OF assms(1-3)])
  have "(oc_job out, oc_host out) \<in># visits ls" using assms(3) by (simp add: visits_def under_way_def)
  then have "utf8 (oc_host out) \<in> known_hosts V (ls_state ls)"
    using loop_invD(3) [OF assms(4)] by (fastforce simp: visit_known_def host_char_utf8)
  moreover have "has_room (outcome_urls out) (ls_state ls)" using assms(3,5) by (simp add: roomy_def)
  ultimately show thesis using absorb_Inr [OF a(1) loop_invD(1) [OF assms(4)]] that a(2) by metis
qed

lemma absorb_one_inv:
  assumes "absorb_one C S now out ls = ls'" "alive ls'" "ls_channel ls = out # rest" "loop_inv C V cli ls" "roomy ls"
  shows "loop_inv C V cli ls'"
proof -
  have v: "visits ls = add_mset (oc_job out, oc_host out) (visits ls')" "in_flight_ok ls'" "ls_phase ls' = Absorbing"
    using absorb_one_cases [OF assms(1-3)] loop_invD(2) [OF assms(4)] by metis+
  obtain js where e: "queues C V (outcome_urls out) js (ls_state ls) (ls_state ls')"
    "archives C (archived_by C S now out) (ls_state ls) (ls_state ls')"
    using absorb_one_effect [OF assms] by metis
  have "crawl_ok C V (ls_state ls')" "known_hosts V (ls_state ls) \<subseteq> known_hosts V (ls_state ls')"
    using e(1) by (simp_all add: queues_def)
  moreover have "visit_known C V (ls_state ls') x" if "x \<in># visits ls'" for x
    using loop_invD(3) [OF assms(4), of x] that calculation(2) by (auto simp: v(1) visit_known_def)
  moreover have "count (visited_hosts ls') h \<le> max 1 (cc_per_host_concurrency cli)" for h
    using loop_invD(5) [OF assms(4), of h] by (simp add: v(1) split: if_splits)
  ultimately show ?thesis
    using loop_invD(4-6) [OF assms(4)] v archives_indexed [OF e(2)]
    by (auto simp: loop_inv_def)
qed

text \<open>A dispatch puts one visit on the books.\<close>

lemma dispatch_in_flight:
  assumes "in_flight_ok ls" "visits ls' = add_mset (job, host) (visits ls)" "ls_total ls' = ls_total ls + 1"
    "ls_in_flight ls' = (ls_in_flight ls)(host \<mapsto> (case ls_in_flight ls host of Some n \<Rightarrow> n | None \<Rightarrow> 0) + 1)"
  shows "in_flight_ok ls'"
proof -
  have "(case ls_in_flight ls host of Some n \<Rightarrow> n | None \<Rightarrow> 0) = count (visited_hosts ls) host"
    using assms(1) by (simp add: in_flight_ok_def as_entry_def)
  then have "ls_in_flight ls' = (ls_in_flight ls)(host \<mapsto> count (visited_hosts ls) host + 1)" using assms(4) by simp
  moreover define H where "H = visited_hosts ls"
  ultimately have "ls_in_flight ls' h = as_entry (count (add_mset host H) h)" "ls_total ls' = size (visits ls')" for h
    using assms(1-3) by (simp_all add: in_flight_ok_def as_entry_def count_eq_zero_iff)
  then show ?thesis by (simp add: in_flight_ok_def assms(2) H_def)
qed

lemma dispatch_inv:
  assumes "loop_inv C V cli ls" "ls_phase ls = Dispatching" "dispatch_one C cli now ls = Some (ev, ls')" "alive ls'"
  shows "loop_inv C V cli ls'"
proof -
  let ?s = "ls_state ls" and ?E = "ce_frontier C"
  let ?pop = "pop_ready ?E now 128 (saturated cli (ls_in_flight ls)) (cs_db ?s, cs_frontier ?s)"
  have env: "frontier_env_ok ?E V" "frontier_inv ?E V (cs_db ?s, cs_frontier ?s)"
    using loop_invD(1) [OF assms(1)] by (simp_all add: crawl_ok_def)
  have budget: "0 < cc_max_pages cli \<Longrightarrow> \<not> ls_shutting_down ls \<Longrightarrow> cr_indexed (cs_stats ?s) < cc_max_pages cli"
    using loop_invD(7) [OF assms(1)] assms(2) by blast
  show ?thesis
    using assms(3,4,2)
  proof (cases rule: dispatch_one_cases)
    case full
    then show ?thesis by (intro loop_inv_same [OF assms(1)]) (simp_all add: visits_def under_way_def)
  next
    case (empty d fr)
    have "(d, fr) = (cs_db ?s, cs_frontier ?s)" by (rule pop_ready_none [OF env empty(1)])
    then show ?thesis using empty by (intro loop_inv_same [OF assms(1)]) (simp_all add: visits_def under_way_def)
  next
    case (homeless d fr job)
    then show ?thesis using pop_ready_job [OF env homeless(1)] by auto
  next
    case (go d fr job host rules)
    obtain h where h: "host_of (ce_url C) (job_url job) = Some h" "list_all host_char h"
      "host_ready ?E now (saturated cli (ls_in_flight ls)) (cs_db ?s) h" "h \<in> dom (hosts_view V (cs_db ?s))"
      "hosts_view V d = hosts_view V (cs_db ?s)"
      by (rule pop_ready_job [OF env go(3)])
    have host: "host = h" using h(1) go(4) by simp
    have v: "visits ls' = add_mset (job, host) (visits ls)" by (simp add: go(6) visits_def under_way_def)
    have st: "ls_state ls' = ?s \<lparr> cs_db := d, cs_frontier := fr \<rparr>" by (simp add: go(6))
    note old = loop_invD(2) [OF assms(1)]
    have "ls_in_flight ls host = as_entry (count (visited_hosts ls) host)" using old by (simp add: in_flight_ok_def)
    moreover have "\<not> saturated cli (ls_in_flight ls) host" using h(3) host by (simp add: host_ready_def)
    ultimately have free: "count (visited_hosts ls) host < max 1 (cc_per_host_concurrency cli)"
      by (auto simp: saturated_def as_entry_def split: if_splits)
    have "in_flight_ok ls'" by (rule dispatch_in_flight [OF old v]) (simp_all add: go(6))
    moreover have "crawl_ok C V (ls_state ls')"
      using pop_ready_takes [OF env go(3)] env(1) by (simp add: crawl_ok_def st)
    moreover have "visit_known C V (ls_state ls') x" if "x \<in># visits ls'" for x
      using that loop_invD(3) [OF assms(1), of x] h host by (auto simp: v visit_known_def known_hosts_def st)
    moreover have "count (visited_hosts ls') k \<le> max 1 (cc_per_host_concurrency cli)" for k
      using loop_invD(5) [OF assms(1), of k] free by (cases "host = k") (simp_all add: v)
    moreover have "size (visits ls) < cc_workers cli" using old go(2) by (simp add: in_flight_ok_def)
    ultimately show ?thesis
      using budget go(1) by (auto simp: loop_inv_def v st)
  qed
qed

lemma visit_ends_visits:
  assumes "ls_tasks ls = ts1 @ (job, host, rules, delay) # ts2" "oc_job out = job" "oc_host out = host"
  shows "visits (ls \<lparr> ls_tasks := ts1 @ ts2, ls_channel := ls_channel ls @ [out] \<rparr>) = visits ls"
  using assms by (simp add: visits_def under_way_def)

lemma loop_inv_step:
  assumes "crawl_step C cli S ls ev ls'" "roomy ls" "loop_inv C V cli ls" "alive ls'"
  shows "loop_inv C V cli ls'"
  using assms
proof (cases rule: crawl_step.cases)
  case (visit_ends ts1 job host rules delay ts2 w out w')
  have "oc_job out = job" "oc_host out = host" using visit_cases [OF visit_ends(5)] by metis+
  note v = visit_ends_visits [OF visit_ends(4) this]
  show ?thesis
    unfolding visit_ends(2) by (rule loop_inv_same [OF assms(3)]) (use loop_invD(7) [OF assms(3)] v in simp_all)
next
  case (absorbs out rest now)
  then show ?thesis using absorb_one_inv assms by metis
next
  case drained
  then show ?thesis by (intro loop_inv_same [OF assms(3)]) (simp_all add: visits_def under_way_def)
next
  case decides
  then show ?thesis
    by (intro loop_inv_same [OF assms(3)]) (auto simp: visits_def under_way_def decide_def Let_def split: if_splits)
next
  case (dispatches now)
  then show ?thesis using dispatch_inv assms by blast
next
  case (publishes due now)
  then show ?thesis
    using publish_sel(9) [of cli due now ls] by (intro loop_inv_same [OF assms(3)]) (auto simp: visits_def)
next
  case interrupted
  then show ?thesis by (intro loop_inv_same [OF assms(3)]) (simp_all add: visits_def under_way_def)
next
  case (receives out rest now)
  then show ?thesis using absorb_one_inv assms by metis
next
  case timer
  then show ?thesis by (intro loop_inv_same [OF assms(3)]) (simp_all add: visits_def under_way_def)
next
  case (stops now)
  obtain r s where s: "shut_down C cli now (ls_state ls) = (r, s)" by fastforce
  have "ls' = end_run C r s ls" using stops s by (simp add: stop_def)
  then show ?thesis
    using shut_down_sel [OF s] by (intro loop_inv_same [OF assms(3)]) (simp_all add: visits_def)
qed

lemma step_from_alive: "crawl_step C cli S ls ev ls' \<Longrightarrow> alive ls"
  by (cases rule: crawl_step.cases) (auto intro: running_alive)

lemma loop_inv_run:
  "crawl_run C cli S ls0 evs ls \<Longrightarrow> loop_inv C V cli ls0 \<Longrightarrow> alive ls \<Longrightarrow> loop_inv C V cli ls"
proof (induction rule: crawl_run.induct)
  case starts
  then show ?case by blast
next
  case (steps evs ls ev ls')
  then show ?case using loop_inv_step step_from_alive by blast
qed

text \<open>The state the loop starts in: a sound frontier, nothing under way, nothing counted yet.\<close>

definition loop_start ::
    "('u, 'd, 'b, 'w) crawl_env \<Rightarrow> 'd kv_view \<Rightarrow> ('d, 'b) loop_state \<Rightarrow> bool" where
  "loop_start C V ls \<longleftrightarrow> crawl_ok C V (ls_state ls) \<and> ls_in_flight ls = (\<lambda>_. None) \<and> ls_total ls = 0 \<and>
     ls_tasks ls = [] \<and> ls_channel ls = [] \<and> ls_phase ls = Absorbing \<and> \<not> ls_shutting_down ls \<and>
     cr_indexed (cs_stats (ls_state ls)) = 0"

lemma loop_start_inv: "loop_start C V ls \<Longrightarrow> loop_inv C V cli ls"
  by (simp add: loop_start_def loop_inv_def in_flight_ok_def visits_def under_way_def as_entry_def)

section \<open>Bounds on the visits and on the pages\<close>

text \<open>C5: at every moment of a crawl the count the loop keeps of the visits under way is exact, in
  all and for every host; no more visits than \<open>workers\<close> are under way, and for one host no more
  than \<open>per_host_concurrency\<close>, except that a limit of zero lets one through.\<close>

theorem in_flight_bounded:
  assumes "crawl_run C cli S ls0 evs ls" "loop_start C V ls0" "alive ls"
  shows "ls_total ls = size (visits ls) \<and> size (visits ls) \<le> cc_workers cli \<and>
    (\<forall>h. ls_in_flight ls h = as_entry (count (visited_hosts ls) h) \<and>
         count (visited_hosts ls) h \<le> max 1 (cc_per_host_concurrency cli))"
proof -
  note inv = loop_inv_run [OF assms(1) loop_start_inv [OF assms(2)] assms(3)]
  show ?thesis using loop_invD(2,4,5) [OF inv] by (simp add: in_flight_ok_def)
qed

text \<open>C12: a crawl with a page budget archives at most \<open>workers - 1\<close> pages beyond it: the budget is
  checked before a visit is dispatched, and the visits already under way are still absorbed.\<close>

theorem page_budget_bounded:
  assumes "crawl_run C cli S ls0 evs ls" "loop_start C V ls0" "alive ls" "0 < cc_max_pages cli"
  shows "cr_indexed (cs_stats (ls_state ls)) + size (visits ls) \<le> cc_max_pages cli - 1 + cc_workers cli"
  using loop_invD(6) [OF loop_inv_run [OF assms(1) loop_start_inv [OF assms(2)] assms(3)] assms(4)] .

section \<open>What a step does to the jobs\<close>

definition dispatched :: "event list \<Rightarrow> crawl_job list" where
  "dispatched evs = List.map_filter (\<lambda>ev. case ev of Dispatched job \<Rightarrow> Some job | _ \<Rightarrow> None) evs"

lemma map_filter_append: "List.map_filter f (xs @ ys) = List.map_filter f xs @ List.map_filter f ys"
  by (simp add: List.map_filter_def)

lemma map_filter_set: "y \<in> set (List.map_filter f xs) \<Longrightarrow> \<exists>x \<in> set xs. f x = Some y"
  by (auto simp: List.map_filter_def)

lemma dispatched_simps [simp]:
  "dispatched [] = []" "dispatched (evs @ evs') = dispatched evs @ dispatched evs'"
  "dispatched [Dispatched job] = [job]" "dispatched [Absorbed now out] = []" "dispatched [Quiet] = []"
  "dispatched [Finished out] = []"
  by (simp_all add: dispatched_def List.map_filter_simps map_filter_append)

text \<open>A step takes a job from the queue to a visit, or absorbs an outcome, or leaves the queue and
  the filter alone.\<close>

lemma step_jobs:
  assumes "crawl_step C cli S ls ev ls'" "alive ls'" "loop_inv C V cli ls" "roomy ls"
  obtains (take) job where "ev = Dispatched job"
      "queued C V (ls_state ls) = add_mset job (queued C V (ls_state ls'))" "cs_seen (ls_state ls') = cs_seen (ls_state ls)"
  | (absorb) now out rest where "ev = Absorbed now out" "absorb_one C S now out ls = ls'" "ls_channel ls = out # rest"
  | (other) "dispatched [ev] = []" "queued C V (ls_state ls') = queued C V (ls_state ls)"
      "cs_seen (ls_state ls') = cs_seen (ls_state ls)"
  using assms(1)
proof (cases rule: crawl_step.cases)
  case (visit_ends ts1 job host rules delay ts2 w out w')
  then show ?thesis by (intro other) simp_all
next
  case (absorbs out rest now)
  then show ?thesis using absorb by blast
next
  case drained
  then show ?thesis by (intro other) simp_all
next
  case decides
  then show ?thesis by (intro other) (simp_all add: decide_def Let_def)
next
  case (dispatches now)
  let ?E = "ce_frontier C" and ?s = "ls_state ls"
  have env: "frontier_env_ok ?E V" "frontier_inv ?E V (cs_db ?s, cs_frontier ?s)"
    using loop_invD(1) [OF assms(3)] by (simp_all add: crawl_ok_def)
  show ?thesis
    using dispatches(2) assms(2) dispatches(1)
  proof (cases rule: dispatch_one_cases)
    case full
    then show ?thesis by (intro other) simp_all
  next
    case (empty d fr)
    have "(d, fr) = (cs_db ?s, cs_frontier ?s)" by (rule pop_ready_none [OF env empty(1)])
    then show ?thesis using empty by (intro other) simp_all
  next
    case (homeless d fr job)
    then show ?thesis using pop_ready_job [OF env homeless(1)] by auto
  next
    case (go d fr job host rules)
    then show ?thesis using pop_ready_takes [OF env go(3)] by (intro take) (simp_all add: queued_def)
  qed
next
  case (publishes due now)
  then show ?thesis by (intro other) (simp_all add: queued_def)
next
  case interrupted
  then show ?thesis by (intro other) simp_all
next
  case (receives out rest now)
  then show ?thesis using absorb by blast
next
  case timer
  then show ?thesis by (intro other) simp_all
next
  case (stops now)
  obtain r s where s: "shut_down C cli now (ls_state ls) = (r, s)" by fastforce
  have "ls' = end_run C r s ls" using stops s by (simp add: stop_def)
  then show ?thesis using stops shut_down_sel [OF s] by (intro other) (simp_all add: queued_def)
qed

section \<open>No URL is visited twice\<close>

text \<open>Every URL queued or dispatched is there once, and the filter knows it.\<close>

definition once_each :: "('u, 'd, 'b, 'w) crawl_env \<Rightarrow> ('d, 'b) crawl_state \<Rightarrow> crawl_job multiset \<Rightarrow> bool" where
  "once_each C s js \<longleftrightarrow>
     (\<forall>u. count (image_mset job_url js) u \<le> 1) \<and>
     (\<forall>job \<in># js. bloom_contains (ce_bloom C) (seen_filter (cs_seen s)) (job_url job))"

lemma check_urls_spec:
  assumes "bloom_ok B" "check_urls B us st = (new, st')"
  shows "distinct new" "set new \<subseteq> set us" "\<And>u. u \<in> set new \<Longrightarrow> \<not> bloom_contains B (seen_filter st) u"
    "\<And>u. u \<in> set us \<Longrightarrow> bloom_contains B (seen_filter st') u"
    "\<And>u. bloom_contains B (seen_filter st) u \<Longrightarrow> bloom_contains B (seen_filter st') u"
  using seen.check_all_spec [OF assms(1), of us st new st'] assms(2) by (auto simp: check_urls_seen)

lemma once_each_add:
  assumes "bloom_ok (ce_bloom C)" "once_each C s js" "check_urls (ce_bloom C) us (cs_seen s) = (new, cs_seen s')"
  shows "once_each C s' (js + mset (jobs_at depth new))"
proof -
  note c = check_urls_spec [OF assms(1,3)]
  have u: "image_mset job_url (mset (jobs_at depth new)) = mset new"
    by (simp add: jobs_at_def comp_def flip: mset_map)
  have one: "count (image_mset job_url js) u + count (mset new) u \<le> 1" for u
  proof (cases "u \<in> set new")
    case True
    then have "u \<notin># image_mset job_url js" using c(3) assms(2) by (auto simp: once_each_def)
    then have "count (image_mset job_url js) u = 0" by (simp only: not_in_iff)
    then show ?thesis using c(1) True by (simp add: distinct_count_atmost_1)
  next
    case False
    then have "count (mset new) u = 0" by (simp only: not_in_iff [symmetric] set_mset_mset not_False_eq_True)
    moreover have "count (image_mset job_url js) u \<le> 1" using assms(2) by (simp add: once_each_def)
    ultimately show ?thesis by linarith
  qed
  have "bloom_contains (ce_bloom C) (seen_filter (cs_seen s')) (job_url job)"
    if "job \<in># js + mset (jobs_at depth new)" for job
    using that assms(2) c(2,4,5) by (auto simp: once_each_def jobs_at_def)
  then show ?thesis using one by (simp add: once_each_def u)
qed

lemma absorb_once:
  assumes "absorb_one C S now out ls = ls'" "alive ls'" "ls_channel ls = out # rest" "loop_inv C V cli ls" "roomy ls"
    and "bloom_ok (ce_bloom C)" "once_each C (ls_state ls) (js + queued C V (ls_state ls))"
  shows "once_each C (ls_state ls') (js + queued C V (ls_state ls'))"
proof -
  obtain new1 new2 seen1 where e:
    "check_urls (ce_bloom C) (List.map_filter (followable C S) (oc_sitemaps out)) (cs_seen (ls_state ls)) = (new1, seen1)"
    "check_urls (ce_bloom C) (List.map_filter (followable C S) (fst (followed C S out))) seen1 = (new2, cs_seen (ls_state ls'))"
    "queues C V (outcome_urls out) (jobs_at 0 new1 @ jobs_at (snd (followed C S out)) new2) (ls_state ls) (ls_state ls')"
    by (rule absorb_one_effect [OF assms(1-5)])
  let ?s1 = "(ls_state ls) \<lparr> cs_seen := seen1 \<rparr>"
  have "once_each C ?s1 (js + queued C V (ls_state ls) + mset (jobs_at 0 new1))"
    by (rule once_each_add [OF assms(6,7)]) (use e(1) in simp)
  from once_each_add [OF assms(6) this, of _ new2 "ls_state ls'"] e(2)
  have "once_each C (ls_state ls') (js + queued C V (ls_state ls) + mset (jobs_at 0 new1) +
      mset (jobs_at (snd (followed C S out)) new2))" by simp
  then show ?thesis using e(3) by (simp add: queues_def add_ac)
qed

lemma once_run:
  assumes "crawl_run C cli S ls0 evs ls" "loop_start C V ls0" "bloom_ok (ce_bloom C)"
    and "once_each C (ls_state ls0) (queued C V (ls_state ls0))" "alive ls"
  shows "once_each C (ls_state ls) (mset (dispatched evs) + queued C V (ls_state ls))"
  using assms(1,5)
proof (induction rule: crawl_run.induct)
  case starts
  then show ?case using assms(4) by simp
next
  case (steps evs ls ev ls')
  have al: "alive ls" using steps.hyps(3) by (rule step_from_alive)
  have inv: "loop_inv C V cli ls" by (rule loop_inv_run [OF steps.hyps(1) loop_start_inv [OF assms(2)] al])
  note IH = steps.IH [OF al]
  show ?case
    using steps.hyps(3) steps.prems inv steps.hyps(2)
  proof (cases rule: step_jobs)
    case (take job)
    then show ?thesis using IH by (simp add: once_each_def)
  next
    case (absorb now out rest)
    then show ?thesis using absorb_once [OF absorb(2) steps.prems absorb(3) inv steps.hyps(2) assms(3) IH] by simp
  next
    case other
    then show ?thesis using IH by (simp add: once_each_def)
  qed
qed

lemma once_each_distinct:
  assumes "once_each C s (mset js + ks)"
  shows "distinct (map job_url js)"
  unfolding distinct_count_atmost_1
proof
  fix u
  have "count (image_mset job_url (mset js)) u + count (image_mset job_url ks) u \<le> 1"
    using assms by (simp add: once_each_def)
  then have "count (mset (map job_url js)) u \<le> 1" by simp
  then show "count (mset (map job_url js)) u = (if u \<in> set (map job_url js) then 1 else 0)"
    using count_greater_zero_iff [of "mset (map job_url js)" u]
    by (auto simp: count_eq_zero_iff simp del: count_greater_zero_iff)
qed

section \<open>Where a crawl goes\<close>

text \<open>A job that scheduling may queue: a canonical URL in scope that may be a page, at a depth within
  the limit, or at depth one when a sitemap lists it.\<close>

definition follow_ok :: "('u, 'd, 'b, 'w) crawl_env \<Rightarrow> settings \<Rightarrow> crawl_job \<Rightarrow> bool" where
  "follow_ok C S job \<longleftrightarrow> canonical_url (ce_url C) (job_url job) = Some (job_url job) \<and>
     scope_allows (ce_url C) (st_scope S) (job_url job) \<and> is_probably_page (ce_url C) (job_url job) \<and>
     job_depth job \<le> max (st_max_depth S) sitemap_depth"

lemma followable_ok:
  assumes "url_ok (ce_url C)" "u \<in> set (List.map_filter (followable C S) links)" "depth \<le> max (st_max_depth S) sitemap_depth"
  shows "follow_ok C S \<lparr> job_url = u, job_depth = depth \<rparr>"
proof -
  obtain raw where "followable C S raw = Some u" using map_filter_set [OF assms(2)] by blast
  then have "canonical_url (ce_url C) raw = Some u" "scope_allows (ce_url C) (st_scope S) u" "is_probably_page (ce_url C) u"
    by (auto simp: followable_def split: option.splits if_splits)
  then show ?thesis using assms(3) canonical_url_fixed [OF assms(1)] by (simp add: follow_ok_def)
qed

lemma check_urls_subset: "check_urls B us st = (new, st') \<Longrightarrow> set new \<subseteq> set us"
proof (induction us arbitrary: st new)
  case (Cons u us)
  obtain b st1 where b: "check_and_insert B u st = (b, st1)" by fastforce
  obtain new1 where n: "check_urls B us st1 = (new1, st')" "new = (if b then u # new1 else new1)"
    using Cons.prems b by (auto split: prod.splits)
  then show ?case using Cons.IH [OF n(1)] by auto
qed simp

lemma absorb_follow:
  assumes "absorb_one C S now out ls = ls'" "alive ls'" "ls_channel ls = out # rest" "loop_inv C V cli ls" "roomy ls"
    and "url_ok (ce_url C)"
  obtains js where "queued C V (ls_state ls') = queued C V (ls_state ls) + mset js" "list_all (follow_ok C S) js"
proof -
  obtain new1 new2 seen1 where e:
    "check_urls (ce_bloom C) (List.map_filter (followable C S) (oc_sitemaps out)) (cs_seen (ls_state ls)) = (new1, seen1)"
    "check_urls (ce_bloom C) (List.map_filter (followable C S) (fst (followed C S out))) seen1 = (new2, cs_seen (ls_state ls'))"
    "queues C V (outcome_urls out) (jobs_at 0 new1 @ jobs_at (snd (followed C S out)) new2) (ls_state ls) (ls_state ls')"
    by (rule absorb_one_effect [OF assms(1-5)])
  have "snd (followed C S out) \<le> max (st_max_depth S) sitemap_depth"
    by (auto simp: followed_def split: sum.split visited.split)
  then have "list_all (follow_ok C S) (jobs_at 0 new1 @ jobs_at (snd (followed C S out)) new2)"
    using check_urls_subset [OF e(1)] check_urls_subset [OF e(2)] followable_ok [OF assms(6)]
    by (fastforce simp: list_all_iff jobs_at_def)
  moreover have "queued C V (ls_state ls') = queued C V (ls_state ls) +
      mset (jobs_at 0 new1 @ jobs_at (snd (followed C S out)) new2)" using e(3) by (simp add: queues_def)
  ultimately show thesis using that by blast
qed

lemma scope_run:
  assumes "crawl_run C cli S ls0 evs ls" "loop_start C V ls0" "url_ok (ce_url C)" "alive ls"
  shows "\<forall>job \<in># mset (dispatched evs) + queued C V (ls_state ls). job \<in># queued C V (ls_state ls0) \<or> follow_ok C S job"
  using assms(1,4)
proof (induction rule: crawl_run.induct)
  case starts
  then show ?case by simp
next
  case (steps evs ls ev ls')
  have al: "alive ls" using steps.hyps(3) by (rule step_from_alive)
  have inv: "loop_inv C V cli ls" by (rule loop_inv_run [OF steps.hyps(1) loop_start_inv [OF assms(2)] al])
  note IH = steps.IH [OF al]
  show ?case
    using steps.hyps(3) steps.prems inv steps.hyps(2)
  proof (cases rule: step_jobs)
    case (take job)
    then show ?thesis using IH by auto
  next
    case (absorb now out rest)
    obtain js where "queued C V (ls_state ls') = queued C V (ls_state ls) + mset js" "list_all (follow_ok C S) js"
      by (rule absorb_follow [OF absorb(2) steps.prems absorb(3) inv steps.hyps(2) assms(3)])
    then show ?thesis using IH absorb(1) by (auto simp: list_all_iff)
  next
    case other
    then show ?thesis using IH by simp
  qed
qed

end
