(* ===== verification/Crawl_Start.thy ===== *)
theory Crawl_Start
  imports Crawl_Safety
begin

text \<open>
  The start of a crawl: \<open>run\<close> of \<open>crates/crawler/src/main.rs\<close> up to its loop, with the opening of the
  database (\<open>db.rs\<close>) and of the HTTP client (\<open>fetcher.rs\<close>). RocksDB's open call, the parser of
  header values and the builder of the HTTP client are third-party code and enter as parameters.

  The theorem at the end says what the loop starts with: a sound frontier and nothing under way,
  so that the bounds of \<open>Crawl_Safety\<close> apply, and the seeds in the queue, each once.
\<close>

section \<open>Opening the database and the client\<close>

record db_config =
  dbc_block_cache_mb :: nat
  dbc_write_buffer_mb :: nat
  dbc_max_open_files :: int

definition db_config_default :: db_config where
  "db_config_default = \<lparr> dbc_block_cache_mb = 32, dbc_write_buffer_mb = 16, dbc_max_open_files = 512 \<rparr>"

text \<open>The options the crawler sets; \<open>None\<close> is RocksDB's default.\<close>

record rocks_options =
  ro_create_if_missing :: bool
  ro_create_missing_column_families :: bool
  ro_max_open_files :: "int option"
  ro_write_buffer_size :: "nat option"
  ro_point_lookup_mb :: "nat option"

definition rocks_default :: rocks_options where
  "rocks_default = \<lparr> ro_create_if_missing = False, ro_create_missing_column_families = False,
     ro_max_open_files = None, ro_write_buffer_size = None, ro_point_lookup_mb = None \<rparr>"

definition mib :: "nat \<Rightarrow> nat" where
  "mib v = v * 1024 * 1024 mod 2 ^ 64"

definition column_families :: "column_family list" where
  "column_families = [CfFrontierPending, CfFrontierHosts, CfRobots, CfMeta]"

type_synonym 'd rocks_open = "rocks_options \<Rightarrow> rstr \<Rightarrow> (column_family \<times> rocks_options) list \<Rightarrow> string + 'd"

definition db_open :: "'d rocks_open \<Rightarrow> rstr \<Rightarrow> db_config \<Rightarrow> fs \<Rightarrow> (crawl_error + 'd) \<times> fs" where
  "db_open R path config s =
     state_then (io (create_dir_all path s)) (\<lambda>_ s.
       (let options = rocks_default
              \<lparr> ro_create_if_missing := True, ro_create_missing_column_families := True,
                ro_max_open_files := Some (dbc_max_open_files config),
                ro_write_buffer_size := Some (mib (dbc_write_buffer_mb config)),
                ro_point_lookup_mb := Some (dbc_block_cache_mb config) \<rparr>;
            cf_options = rocks_default
              \<lparr> ro_write_buffer_size := Some (mib (dbc_write_buffer_mb config)),
                ro_point_lookup_mb := Some (dbc_block_cache_mb config) \<rparr>
        in (map_err Backend (R options path (map (\<lambda>name. (name, cf_options)) column_families)), s)))"

text \<open>The client: the user agent, the default headers, the two timeouts in milliseconds, the limit
  on redirects and the size of the connection pool. The error is a message and its causes.\<close>

record client_api =
  cl_header_ok :: "rstr \<Rightarrow> bool"
  cl_build :: "rstr \<Rightarrow> (string \<times> rstr) list \<Rightarrow> nat \<Rightarrow> nat \<Rightarrow> nat \<Rightarrow> nat \<Rightarrow> (rstr \<times> rstr list) option"

definition fetcher_new :: "client_api \<Rightarrow> fetch_config \<Rightarrow> crawl_error + unit" where
  "fetcher_new B config =
     (if \<not> cl_header_ok B (fc_accept config) then Inl (InvalidHeader ''Accept'' (fc_accept config))
      else if \<not> cl_header_ok B (fc_accept_language config) then
        Inl (InvalidHeader ''Accept-Language'' (fc_accept_language config))
      else
        (case cl_build B (fc_user_agent config)
                [(''Accept'', fc_accept config), (''Accept-Language'', fc_accept_language config)]
                (fc_timeout_ms config) (fc_connect_timeout_ms config) 5 (fc_max_concurrent_per_host config) of
           Some (message, causes) \<Rightarrow> Inl (http_error message causes)
         | None \<Rightarrow> Inr ()))"

section \<open>Seeds\<close>

text \<open>The whole of a file as text: bytes that are not UTF-8 are an error.\<close>

definition read_to_string :: "path \<Rightarrow> fs \<Rightarrow> (io_error + rstr) \<times> fs" where
  "read_to_string p s =
     (case file_read p s of
        (Inl e, s) \<Rightarrow> (Inl e, s)
      | (Inr bs, s) \<Rightarrow>
          (if utf8 (utf8_lossy bs) = bs then Inr (utf8_lossy bs)
           else Inl (IoError ''stream did not contain valid UTF-8''), s))"

definition seed_lines :: "rstr \<Rightarrow> rstr list" where
  "seed_lines contents = filter (\<lambda>line. line \<noteq> [] \<and> \<not> starts_with (str ''#'') line) (map trim (lines contents))"

definition collect_seeds :: "crawler_cli \<Rightarrow> fs \<Rightarrow> (crawl_error + rstr list) \<times> fs" where
  "collect_seeds cli s =
     state_then (case cc_seed_file cli of
         None \<Rightarrow> (Inr (cc_seeds cli), s)
       | Some path \<Rightarrow> state_then (io (read_to_string path s)) (\<lambda>contents s. (Inr (cc_seeds cli @ seed_lines contents), s)))
       (\<lambda>seeds s.
          (if seeds = [] then Inl (Io (IoError ''no seeds: pass URLs as arguments or a list with --seed-file''))
           else Inr seeds, s))"

text \<open>A seed that cannot be crawled is skipped; the others are queued at depth zero.\<close>

fun queue_seeds ::
    "('u, 'd, 'b, 'w) crawl_env \<Rightarrow> rstr list \<Rightarrow> ('d, 'b) crawl_state \<Rightarrow> (crawl_error + unit) \<times> ('d, 'b) crawl_state" where
  "queue_seeds C [] s = (Inr (), s)"
| "queue_seeds C (seed # seeds) s =
     (case normalize_seed (ce_url C) seed of
        Inr url \<Rightarrow> state_then (offer_url C url 0 s) (\<lambda>_ s. queue_seeds C seeds s)
      | Inl _ \<Rightarrow> queue_seeds C seeds s)"

section \<open>The start of the loop\<close>

definition crawl_fetch_config :: "rstr \<Rightarrow> crawler_cli \<Rightarrow> fetch_config" where
  "crawl_fetch_config version cli = (fetch_config_default version)
     \<lparr> fc_max_concurrent_per_host := cc_per_host_concurrency cli, fc_user_agent := cc_user_agent cli,
       fc_max_body_bytes := mib (cc_max_body_mib cli) \<rparr>"

definition crawl_storage_config :: "crawler_cli \<Rightarrow> storage_config" where
  "crawl_storage_config cli = storage_config_default
     \<lparr> sc_warc_dir := cc_warc_dir cli, sc_spool_dir := cc_spool_dir cli, sc_segment_bytes := mib (cc_segment_mib cli) \<rparr>"

definition crawl_settings :: "'u url_api \<Rightarrow> crawler_cli \<Rightarrow> rstr list \<Rightarrow> settings" where
  "crawl_settings U cli seeds =
     \<lparr> st_max_depth = cc_max_depth cli, st_politeness_delay_ms = cc_politeness_delay_ms cli,
       st_scope = crawl_scope_new U (cc_stay_on_site cli) seeds (cc_allow_host cli),
       st_drop_offsite_redirects = cc_drop_offsite_redirects cli \<rparr>"

text \<open>Everything \<open>run\<close> opens before the loop. An error after the archive is open drops its writer,
  which seals the empty segment. With no workers (\<open>--workers 0\<close>) the code panics when it makes the
  channel of the outcomes; that panic is not modelled, and the loop is that of at least one worker.\<close>

definition crawl_begin ::
    "'d rocks_open \<Rightarrow> client_api \<Rightarrow> rstr \<Rightarrow> ('u, 'd, 'b, 'w) crawl_env \<Rightarrow> crawler_cli \<Rightarrow> fs \<Rightarrow>
     (crawl_error + settings \<times> ('d, 'b) loop_state) \<times> fs" where
  "crawl_begin R B version C cli f =
     state_then (db_open R (cc_rocksdb_dir cli) (db_config_default
         \<lparr> dbc_block_cache_mb := cc_block_cache_mb cli, dbc_write_buffer_mb := cc_write_buffer_mb cli \<rparr>) f) (\<lambda>db f.
     state_then (collect_seeds cli f) (\<lambda>seeds f.
     state_then (case frontier_open (ce_frontier C) db of (r, db) \<Rightarrow> (and_then r (\<lambda>fr. Inr (fr, db)), f)) (\<lambda>(fr, db) f.
     state_then (seen_open (ce_bloom C) (ce_filter C) (cc_bloom_path cli)
         \<lparr> expected_urls = cc_expected_urls cli, false_positive_rate = 1 / 100 \<rparr> f) (\<lambda>seen f.
     state_then (archive_open (ce_storage C) (crawl_storage_config cli) f) (\<lambda>writer f.
       (let s = \<lparr> cs_db = db, cs_frontier = fr, cs_seen = seen, cs_writer = writer, cs_fs = f,
                  cs_stats = crawl_stats_default \<rparr>
        in case state_then (fetcher_new B (crawl_fetch_config version cli), s) (\<lambda>_ s. queue_seeds C seeds s) of
             (Inl e, s) \<Rightarrow> (Inl e, snd (archive_drop (ce_storage C) (cs_writer s, cs_fs s)))
           | (Inr _, s) \<Rightarrow>
               (Inr (crawl_settings (ce_url C) cli seeds,
                     \<lparr> ls_state = s, ls_in_flight = (\<lambda>_. None), ls_total = 0, ls_shutting_down = False,
                       ls_tasks = [], ls_channel = [], ls_phase = Absorbing \<rparr>), cs_fs s)))))))"

text \<open>What \<open>main\<close> exits with.\<close>

definition crawler_exit :: "crawl_error + crawl_stats \<Rightarrow> exit_code" where
  "crawler_exit r = (case r of Inr _ \<Rightarrow> SUCCESS | Inl _ \<Rightarrow> FAILURE)"

section \<open>What the loop starts with\<close>

definition seed_url :: "'u url_api \<Rightarrow> rstr \<Rightarrow> rstr option" where
  "seed_url U seed = (case normalize_seed U seed of Inr url \<Rightarrow> Some url | Inl _ \<Rightarrow> None)"

lemma queue_seeds_Inr:
  "queue_seeds C seeds s = (Inr u, s') \<Longrightarrow> crawl_ok C V s \<Longrightarrow> has_room (length seeds) s \<Longrightarrow>
   \<exists>new. check_urls (ce_bloom C) (List.map_filter (seed_url (ce_url C)) seeds) (cs_seen s) = (new, cs_seen s') \<and>
     queues C V (length seeds) (jobs_at 0 new) s s' \<and> same_archive s s'"
proof (induction C seeds s rule: queue_seeds.induct)
  case (1 C s)
  then show ?case by (simp add: queues_refl same_archive_def List.map_filter_simps)
next
  case (2 C seed seeds s)
  have room: "has_room (length seeds) s" "has_room 1 s" using "2.prems"(3) by (auto simp: has_room_def)
  show ?case
  proof (cases "normalize_seed (ce_url C) seed")
    case (Inl e)
    then have "queue_seeds C seeds s = (Inr u, s')" using "2.prems"(1) by simp
    from "2.IH"(1) [OF Inl this "2.prems"(2) room(1)] obtain new where n:
      "check_urls (ce_bloom C) (List.map_filter (seed_url (ce_url C)) seeds) (cs_seen s) = (new, cs_seen s')"
      "queues C V (length seeds) (jobs_at 0 new) s s'" "same_archive s s'" by blast
    have "queues C V (length (seed # seeds)) (jobs_at 0 new) s s'" by (rule queues_mono [OF n(2)]) simp
    moreover have "seed_url (ce_url C) seed = None" using Inl by (simp add: seed_url_def)
    ultimately show ?thesis using n(1,3) by (auto simp: List.map_filter_simps)
  next
    case (Inr url)
    obtain new1 s1 where o1: "offer_url C url 0 s = (Inr new1, s1)" "queue_seeds C seeds s1 = (Inr u, s')"
      using "2.prems"(1) Inr by (auto dest!: state_then_Inr_iff [THEN iffD1])
    obtain seen' where c: "check_and_insert (ce_bloom C) url (cs_seen s) = (new1, seen')" "cs_seen s1 = seen'"
      "queues C V 1 (if new1 then [\<lparr> job_url = url, job_depth = 0 \<rparr>] else []) s s1" "same_archive s s1"
      using offer_url_Inr [OF o1(1) "2.prems"(2) room(2)] by blast
    have "crawl_ok C V s1" "has_room (length seeds) s1" using c(3) "2.prems"(3) by (simp_all add: queues_def)
    from "2.IH"(2) [OF Inr o1(2) this] obtain new2 where n:
      "check_urls (ce_bloom C) (List.map_filter (seed_url (ce_url C)) seeds) (cs_seen s1) = (new2, cs_seen s')"
      "queues C V (length seeds) (jobs_at 0 new2) s1 s'" "same_archive s1 s'" by blast
    have "queues C V (1 + length seeds) ((if new1 then [\<lparr> job_url = url, job_depth = 0 \<rparr>] else []) @ jobs_at 0 new2) s s'"
      by (rule queues_trans [OF c(3) n(2)])
    then have "queues C V (length (seed # seeds)) (jobs_at 0 (if new1 then url # new2 else new2)) s s'"
      by (cases new1) simp_all
    moreover have "seed_url (ce_url C) seed = Some url" using Inr by (simp add: seed_url_def)
    ultimately show ?thesis
      using c n same_archive_trans [OF c(4) n(3)] by (auto simp: List.map_filter_simps)
  qed
qed

text \<open>A sound database, as a crawl leaves it, with room for \<open>n\<close> more URLs.\<close>

definition sound_db :: "('u, 'd) frontier_env \<Rightarrow> 'd kv_view \<Rightarrow> nat \<Rightarrow> 'd \<Rightarrow> bool" where
  "sound_db E V n d \<longleftrightarrow> frontier_db_ok E V d \<and> stored_sequence V d + n \<le> u64_max \<and>
     card (dom (pending_view V d)) + n \<le> u64_max \<and> card (dom (hosts_view V d)) + n \<le> u64_max"

text \<open>The database that the crawl opens, and the file system after that.\<close>

definition opens_db :: "'d rocks_open \<Rightarrow> crawler_cli \<Rightarrow> fs \<Rightarrow> (crawl_error + 'd) \<times> fs" where
  "opens_db R cli f = db_open R (cc_rocksdb_dir cli) (db_config_default
     \<lparr> dbc_block_cache_mb := cc_block_cache_mb cli, dbc_write_buffer_mb := cc_write_buffer_mb cli \<rparr>) f"

text \<open>A crawl that starts on the file system \<open>f\<close> from a sound database, which may hold the queue of an
  earlier crawl, with at most \<open>n\<close> seeds: those of the command line and of the seed file as it is read
  there. \<open>begins_fresh\<close> is the case of a database without queued URLs.\<close>

definition begins_sound ::
    "'d rocks_open \<Rightarrow> ('u, 'd, 'b, 'w) crawl_env \<Rightarrow> 'd kv_view \<Rightarrow> crawler_cli \<Rightarrow> fs \<Rightarrow> nat \<Rightarrow> bool" where
  "begins_sound R C V cli f n \<longleftrightarrow>
     frontier_env_ok (ce_frontier C) V \<and> url_ok (ce_url C) \<and> bloom_ok (ce_bloom C) \<and>
     (case opens_db R cli f of
        (Inl _, _) \<Rightarrow> True
      | (Inr db, f1) \<Rightarrow> sound_db (ce_frontier C) V n db \<and>
          (case collect_seeds cli f1 of (Inl _, _) \<Rightarrow> True | (Inr seeds, _) \<Rightarrow> length seeds \<le> n))"

definition begins_fresh ::
    "'d rocks_open \<Rightarrow> ('u, 'd, 'b, 'w) crawl_env \<Rightarrow> 'd kv_view \<Rightarrow> crawler_cli \<Rightarrow> fs \<Rightarrow> nat \<Rightarrow> bool" where
  "begins_fresh R C V cli f n \<longleftrightarrow> begins_sound R C V cli f n \<and>
     (case opens_db R cli f of (Inl _, _) \<Rightarrow> True | (Inr db, _) \<Rightarrow> pending_view V db = Map.empty)"

lemma begins_fresh_sound: "begins_fresh R C V cli f n \<Longrightarrow> begins_sound R C V cli f n"
  by (simp add: begins_fresh_def)

lemma crawl_begin_Inr:
  assumes "crawl_begin R B version C cli f = (Inr (S, ls0), f')" "begins_sound R C V cli f n"
  obtains seeds new seen0 db fr f1 f2 f3 w where "S = crawl_settings (ce_url C) cli seeds" "loop_start C V ls0"
    "check_urls (ce_bloom C) (List.map_filter (seed_url (ce_url C)) seeds) seen0 = (new, cs_seen (ls_state ls0))"
    "queued C V (ls_state ls0) = frontier_jobs (ce_frontier C) V (db, fr) + mset (jobs_at 0 new)"
    "db_open R (cc_rocksdb_dir cli) (db_config_default
       \<lparr> dbc_block_cache_mb := cc_block_cache_mb cli, dbc_write_buffer_mb := cc_write_buffer_mb cli \<rparr>) f = (Inr db, f1)"
    "collect_seeds cli f1 = (Inr seeds, f2)"
    "seen_open (ce_bloom C) (ce_filter C) (cc_bloom_path cli)
       \<lparr> expected_urls = cc_expected_urls cli, false_positive_rate = 1 / 100 \<rparr> f2 = (Inr seen0, f3)"
    "archive_open (ce_storage C) (crawl_storage_config cli) f3 = (Inr w, cs_fs (ls_state ls0))"
    "cs_writer (ls_state ls0) = w"
proof -
  let ?E = "ce_frontier C"
  have ok: "frontier_env_ok ?E V" "kv_ok (fe_kv ?E) V"
    using assms(2) by (simp_all add: begins_sound_def frontier_env_ok_def)
  obtain db f1 seeds f2 fr db2 seen0 f3 w f4 u s where c:
    "db_open R (cc_rocksdb_dir cli) (db_config_default
         \<lparr> dbc_block_cache_mb := cc_block_cache_mb cli, dbc_write_buffer_mb := cc_write_buffer_mb cli \<rparr>) f = (Inr db, f1)"
    "collect_seeds cli f1 = (Inr seeds, f2)" "frontier_open ?E db = (Inr fr, db2)"
    "seen_open (ce_bloom C) (ce_filter C) (cc_bloom_path cli)
         \<lparr> expected_urls = cc_expected_urls cli, false_positive_rate = 1 / 100 \<rparr> f2 = (Inr seen0, f3)"
    "archive_open (ce_storage C) (crawl_storage_config cli) f3 = (Inr w, f4)"
    and q: "queue_seeds C seeds \<lparr> cs_db = db2, cs_frontier = fr, cs_seen = seen0, cs_writer = w, cs_fs = f4,
                  cs_stats = crawl_stats_default \<rparr> = (Inr u, s)"
    and r: "S = crawl_settings (ce_url C) cli seeds"
    "ls0 = \<lparr> ls_state = s, ls_in_flight = (\<lambda>_. None), ls_total = 0, ls_shutting_down = False,
                       ls_tasks = [], ls_channel = [], ls_phase = Absorbing \<rparr>"
    using assms(1)
    by (auto simp: crawl_begin_def Let_def and_then_Inr_iff split: prod.splits sum.splits
        dest!: state_then_Inr_iff [THEN iffD1])
  let ?s0 = "\<lparr> cs_db = db2, cs_frontier = fr, cs_seen = seen0, cs_writer = w, cs_fs = f4, cs_stats = crawl_stats_default \<rparr>"
  have sound: "sound_db ?E V n db" and n: "length seeds \<le> n"
    using assms(2) c(1,2) by (simp_all add: begins_sound_def opens_db_def)
  note op = frontier_open_Inr [OF ok(2) c(3)]
  have "frontier_inv ?E V (db2, fr)" using frontier_open_inv [OF ok(2) _ c(3)] sound by (simp add: sound_db_def)
  then have s0: "crawl_ok C V ?s0" "queued C V ?s0 = frontier_jobs ?E V (db, fr)" "has_room (length seeds) ?s0"
    using ok(1) op sound n by (auto simp: crawl_ok_def queued_def frontier_jobs_def has_room_def sound_db_def)
  from queue_seeds_Inr [OF q s0(1,3)] obtain new where new:
    "check_urls (ce_bloom C) (List.map_filter (seed_url (ce_url C)) seeds) seen0 = (new, cs_seen s)"
    "queues C V (length seeds) (jobs_at 0 new) ?s0 s" "same_archive ?s0 s" by auto
  have start: "loop_start C V ls0"
    using new(2,3) by (simp add: loop_start_def r(2) queues_def same_archive_def crawl_stats_default_def)
  show thesis
    by (rule that [OF r(1) start _ _ c(1,2,4)])
      (use new r(2) s0(2) c(5) in \<open>simp_all add: queues_def same_archive_def\<close>)
qed

lemma crawl_begin_fresh:
  assumes "crawl_begin R B version C cli f = (Inr (S, ls0), f')" "begins_fresh R C V cli f n"
  obtains seeds new seen0 where "S = crawl_settings (ce_url C) cli seeds" "loop_start C V ls0"
    "check_urls (ce_bloom C) (List.map_filter (seed_url (ce_url C)) seeds) seen0 = (new, cs_seen (ls_state ls0))"
    "queued C V (ls_state ls0) = mset (jobs_at 0 new)"
proof -
  obtain seeds new seen0 db fr f1 where b: "S = crawl_settings (ce_url C) cli seeds" "loop_start C V ls0"
    "check_urls (ce_bloom C) (List.map_filter (seed_url (ce_url C)) seeds) seen0 = (new, cs_seen (ls_state ls0))"
    and q: "queued C V (ls_state ls0) = frontier_jobs (ce_frontier C) V (db, fr) + mset (jobs_at 0 new)"
    "opens_db R cli f = (Inr db, f1)"
    unfolding opens_db_def using crawl_begin_Inr [OF assms(1) begins_fresh_sound [OF assms(2)]] by metis
  have "frontier_jobs (ce_frontier C) V (db, fr) = {#}"
    using assms(2) q(2) by (simp add: begins_fresh_def frontier_jobs_def)
  then have b4: "queued C V (ls_state ls0) = mset (jobs_at 0 new)" using q(1) by simp
  show thesis by (rule that [OF b b4])
qed

text \<open>A queued seed is canonical and inside the scope, whose hosts are those of the seeds.\<close>

lemma host_of_canonical:
  assumes "url_ok U" "canonical_url U raw = Some s"
  shows "host_of U s = host_of U raw"
proof -
  obtain u v where "url_parse U raw = Some u" "v = strip_tracking_params U (url_set_fragment U None u)"
    "url_parse U s = Some v"
    using canonical_url_Some [OF assms] by metis
  then show ?thesis
    by (simp add: host_of_def strip_other_components [OF assms(1)] url_ok_fragment(3) [OF assms(1)])
qed

lemma seed_in_scope:
  assumes "url_ok U" "seed \<in> set seeds" "seed_url U seed = Some url" "host_of U url \<noteq> None"
  shows "canonical_url U url = Some url \<and> scope_allows U (crawl_scope_new U r seeds allowed) url"
proof -
  have c: "canonical_url U seed = Some url"
    using assms(3) by (auto simp: seed_url_def normalize_seed_def split: option.splits if_splits sum.splits)
  then have "host_of U url = host_of U seed" by (rule host_of_canonical [OF assms(1)])
  then show ?thesis
    using canonical_url_fixed [OF assms(1) c] assms(2,4) by (auto simp: scope_allows_def scope_new_hosts)
qed

lemma queued_has_host:
  assumes "crawl_ok C V s" "job \<in># queued C V s"
  shows "host_of (ce_url C) (job_url job) \<noteq> None"
proof -
  have fin: "finite (dom (pending_view V (cs_db s)))"
    using assms(1) view_finite [OF frontier_env_okD(1), of "ce_frontier C" V "cs_db s"]
    by (simp add: crawl_ok_def pending_view_def)
  then obtain k v where k: "pending_view V (cs_db s) k = Some v" "job = job_in (ce_frontier C) v"
    using assms(2) by (auto simp: queued_def frontier_jobs_def)
  then have "entry_ok (ce_frontier C) (hosts_view V (cs_db s)) (fr_sequence (cs_frontier s)) k v"
    using frontier_invD(1) assms(1) by (metis crawl_ok_def)
  then show ?thesis using k(2) by (auto simp: entry_ok_def job_in_def)
qed

text \<open>C4: a crawl from a database without queued URLs, with the seeds of its command line and of its
  seed file, whatever its pages, sitemaps and redirects say, visits no
  URL twice, and every URL it visits is canonical and inside the crawl's scope; unless it
  was queued at depth zero, as seeds are, it does not name an asset and is at most \<open>max_depth\<close> links
  deep, or at depth one when a sitemap listed it.\<close>

theorem fresh_crawl_in_scope_once:
  assumes "crawl_begin R B version C cli f = (Inr (S, ls0), f')" "begins_fresh R C V cli f n"
    and "crawl_run C cli S ls0 evs ls" "alive ls"
  shows "distinct (map job_url (dispatched evs)) \<and>
    list_all (\<lambda>job. canonical_url (ce_url C) (job_url job) = Some (job_url job) \<and>
       scope_allows (ce_url C) (st_scope S) (job_url job) \<and>
       (job_depth job = 0 \<or>
        is_probably_page (ce_url C) (job_url job) \<and> job_depth job \<le> max (cc_max_depth cli) sitemap_depth))
      (dispatched evs)"
proof -
  obtain seeds new seen0 where b: "S = crawl_settings (ce_url C) cli seeds" "loop_start C V ls0"
    "check_urls (ce_bloom C) (List.map_filter (seed_url (ce_url C)) seeds) seen0 = (new, cs_seen (ls_state ls0))"
    "queued C V (ls_state ls0) = mset (jobs_at 0 new)"
    by (rule crawl_begin_fresh [OF assms(1,2)])
  have env: "url_ok (ce_url C)" "bloom_ok (ce_bloom C)" using assms(2) by (simp_all add: begins_fresh_def begins_sound_def)
  have "once_each C ((ls_state ls0) \<lparr> cs_seen := seen0 \<rparr>) {#}" by (simp add: once_each_def)
  from once_each_add [OF env(2) this, of _ new "ls_state ls0" 0] b(3)
  have "once_each C (ls_state ls0) (queued C V (ls_state ls0))" by (simp add: b(4))
  from once_run [OF assms(3) b(2) env(2) this assms(4)]
  have "distinct (map job_url (dispatched evs))" by (rule once_each_distinct)
  moreover have "canonical_url (ce_url C) (job_url job) = Some (job_url job) \<and>
       scope_allows (ce_url C) (st_scope S) (job_url job) \<and>
       (job_depth job = 0 \<or>
        is_probably_page (ce_url C) (job_url job) \<and> job_depth job \<le> max (cc_max_depth cli) sitemap_depth)"
    if job: "job \<in> set (dispatched evs)" for job
  proof -
    have "job \<in># queued C V (ls_state ls0) \<or> follow_ok C S job"
      using scope_run [OF assms(3) b(2) env(1) assms(4)] job by simp
    then show ?thesis
    proof
      assume q: "job \<in># queued C V (ls_state ls0)"
      then have url: "job_url job \<in> set new" "job_depth job = 0" by (auto simp: b(4) jobs_at_def)
      then have "job_url job \<in> set (List.map_filter (seed_url (ce_url C)) seeds)"
        using check_urls_subset [OF b(3)] by blast
      from map_filter_set [OF this] obtain seed where
        "seed \<in> set seeds" "seed_url (ce_url C) seed = Some (job_url job)" by (elim bexE)
      moreover have "host_of (ce_url C) (job_url job) \<noteq> None"
        using queued_has_host [OF _ q] b(2) by (simp add: loop_start_def)
      ultimately show ?thesis using seed_in_scope [OF env(1)] url(2) b(1) by (simp add: crawl_settings_def)
    next
      assume "follow_ok C S job"
      then show ?thesis by (simp add: follow_ok_def b(1) crawl_settings_def)
    qed
  qed
  ultimately show ?thesis by (simp add: list_all_iff)
qed

end
