(* ===== verification/Crawl_Archive.thy ===== *)
theory Crawl_Archive
  imports Crawl_Start
begin

text \<open>
  What a crawl leaves for the indexer. A run of the loop writes pages, the progress file and, at
  its end, the filter; the theorem composes the loop of \<open>crates/crawler/src/main.rs\<close> with the
  archive of \<open>storage.rs\<close> and the reader of \<open>crates/indexer/src/spool.rs\<close>: the indexer reads exactly
  the pages the crawl has counted, in the order in which it absorbed them.
\<close>

section \<open>Files beside the archive\<close>

lemma patched_fs:
  assumes "finite F"
  shows "\<exists>s. \<forall>p. fs_file s p = (if p \<in> F then g p else fs_file s0 p)"
  using assms
proof (induction F)
  case empty
  then show ?case by auto
next
  case (insert q F)
  then obtain s where s: "\<forall>p. fs_file s p = (if p \<in> F then g p else fs_file s0 p)" by blast
  show ?case
  proof (cases "g q")
    case None
    then show ?thesis using s by (intro exI [of _ "fs_delete q s"]) auto
  next
    case (Some bs)
    then show ?thesis using s by (intro exI [of _ "fs_set q bs s"]) auto
  qed
qed

lemma agree_patch:
  assumes "finite F" "agree_outside F f f'" "agree_outside A s0 f"
  obtains s0' where "agree_outside F s0 s0'" "agree_outside A s0' f'"
proof -
  obtain s where s: "\<forall>p. fs_file s p = (if p \<in> F then fs_file f' p else fs_file s0 p)"
    using patched_fs [OF assms(1)] by blast
  show thesis
    by (rule that [of s]) (use s assms(2,3) in \<open>auto simp: agree_outside_def\<close>)
qed

text \<open>A write elsewhere keeps the state of an archive run.\<close>

lemma run_ok_elsewhere:
  assumes "run_ok C s0 d n wd m docs (w, f)" "agree_outside F f f'" "finite F" "\<And>p. p \<in> F \<Longrightarrow> fst p \<noteq> d"
  obtains s0' where "agree_outside F s0 s0'" "run_ok C s0' d n wd m docs (w, f')"
proof -
  obtain dss ds where r: "warc_ok wd m w" "aw_warc_sequence w \<le> m + length docs + 1" "docs = concat dss @ ds"
    "length dss \<le> length docs" "sealed_log C f d n dss" "open_ok C d (n + length dss) ds w"
    "agree_outside (warc_paths wd m \<union> segment_paths d n (Suc (n + length dss))) s0 f"
    using assms(1) by (auto simp: run_ok_def)
  obtain s0' where s0': "agree_outside F s0 s0'"
    "agree_outside (warc_paths wd m \<union> segment_paths d n (Suc (n + length dss))) s0' f'"
    by (rule agree_patch [OF assms(3,2) r(7)])
  have "sealed_log C f' d n dss" using sealed_log_agree [OF r(5) assms(2)] assms(4) by force
  then have "run_ok C s0' d n wd m docs (w, f')" using r s0'(2) by (auto simp: run_ok_def)
  then show thesis using that s0'(1) by blast
qed

text \<open>The files the loop writes beside the archive, with their temporary names.\<close>

definition stats_files :: "crawler_cli \<Rightarrow> path set" where
  "stats_files cli = {cc_stats_path cli, (fst (cc_stats_path cli), with_extension (snd (cc_stats_path cli)) (str ''json.tmp''))}"

definition filter_files :: "path \<Rightarrow> path set" where
  "filter_files p = {p, (fst p, with_extension (snd p) (str ''bloom.tmp''))}"

lemma write_progress_files:
  "write_progress cli now s = (r, s') \<Longrightarrow> agree_outside (stats_files cli) (cs_fs s) (cs_fs s') \<and> cs_writer s' = cs_writer s"
  by (auto simp: write_progress_def write_stats_file_def agree_outside_def stats_files_def
      split: prod.splits dest!: replace_file_other)

lemma save_seen_files:
  assumes "save_seen C s = (r, s')"
  shows "agree_outside (filter_files (seen_path (cs_seen s))) (cs_fs s) (cs_fs s') \<and> cs_writer s' = cs_writer s"
proof -
  obtain r1 f where f: "seen_save (ce_filter C) (cs_seen s) (cs_fs s) = (r1, f)" "s' = s \<lparr> cs_fs := f \<rparr>"
    using assms by (auto simp: save_seen_def split: prod.splits)
  then show ?thesis
    by (auto simp: seen_save_def agree_outside_def filter_files_def map_err_def
        split: prod.splits sum.splits dest!: replace_file_other)
qed

section \<open>The archive over a run\<close>

text \<open>The pages a run archives, in the order in which it absorbs them.\<close>

definition archived_pages ::
    "('u, 'd, 'b, 'w) crawl_env \<Rightarrow> settings \<Rightarrow> event list \<Rightarrow> (fetched_page \<times> document) list" where
  "archived_pages C S evs =
     List.map_filter (\<lambda>ev. case ev of Absorbed now out \<Rightarrow> archived_by C S now out | _ \<Rightarrow> None) evs"

lemma archived_pages_simps [simp]:
  "archived_pages C S [] = []" "archived_pages C S (evs @ evs') = archived_pages C S evs @ archived_pages C S evs'"
  "archived_pages C S [Dispatched job] = []" "archived_pages C S [Quiet] = []" "archived_pages C S [Finished out] = []"
  "archived_pages C S [Absorbed now out] = (case archived_by C S now out of None \<Rightarrow> [] | Some p \<Rightarrow> [p])"
  by (simp_all add: archived_pages_def List.map_filter_simps map_filter_append split: option.split)

text \<open>A step that leaves the loop running absorbs an outcome, or touches the progress file at most.\<close>

lemma step_archive:
  assumes "crawl_step C cli S ls ev ls'" "running ls'" "loop_inv C V cli ls" "roomy ls"
  obtains (absorb) now out where "ev = Absorbed now out" "archives C (archived_by C S now out) (ls_state ls) (ls_state ls')"
  | (other) "archived_pages C S [ev] = []" "cs_writer (ls_state ls') = cs_writer (ls_state ls)"
      "agree_outside (stats_files cli) (cs_fs (ls_state ls)) (cs_fs (ls_state ls'))"
      "cr_indexed (cs_stats (ls_state ls')) = cr_indexed (cs_stats (ls_state ls))"
  using assms(1)
proof (cases rule: crawl_step.cases)
  case (visit_ends ts1 job host rules delay ts2 w out w')
  then show ?thesis by (intro other) simp_all
next
  case (absorbs out rest now)
  then show ?thesis using absorb_one_effect [OF _ running_alive [OF assms(2)] _ assms(3,4)] absorb by metis
next
  case drained
  then show ?thesis by (intro other) simp_all
next
  case decides
  then show ?thesis by (intro other) (simp_all add: decide_def Let_def)
next
  case (dispatches now)
  show ?thesis
    using dispatches(2) running_alive [OF assms(2)] dispatches(1)
  proof (cases rule: dispatch_one_cases)
    case full
    then show ?thesis by (intro other) simp_all
  next
    case (empty d fr)
    then show ?thesis by (intro other) simp_all
  next
    case (homeless d fr job)
    then show ?thesis by (intro other) simp_all
  next
    case (go d fr job host rules)
    then show ?thesis by (intro other) simp_all
  qed
next
  case (publishes due now)
  obtain r s where w: "write_progress cli now (ls_state ls) = (r, s)" by fastforce
  then show ?thesis
    using publishes write_progress_files [OF w] publish_sel(4) [of cli due now ls]
    by (intro other) (simp_all add: publish_def)
next
  case interrupted
  then show ?thesis by (intro other) simp_all
next
  case (receives out rest now)
  then show ?thesis using absorb_one_effect [OF _ running_alive [OF assms(2)] _ assms(3,4)] absorb by metis
next
  case timer
  then show ?thesis by (intro other) simp_all
next
  case (stops now)
  obtain r s where s: "shut_down C cli now (ls_state ls) = (r, s)" by fastforce
  have "ls' = end_run C r s ls" using stops s by (simp add: stop_def)
  then show ?thesis using assms(2) by (simp add: running_def)
qed

text \<open>The progress file lies outside the spool directory.\<close>

definition archive_inv ::
    "('u, 'd, 'b, 'w) crawl_env \<Rightarrow> crawler_cli \<Rightarrow> fs \<Rightarrow> nat \<Rightarrow> nat \<Rightarrow> (fetched_page \<times> document) list \<Rightarrow>
     ('d, 'b) crawl_state \<Rightarrow> bool" where
  "archive_inv C cli f0 n m pages s \<longleftrightarrow>
     (\<exists>s0. agree_outside (stats_files cli) f0 s0 \<and>
        run_ok (se_codec (ce_storage C)) s0 (cc_spool_dir cli) n (cc_warc_dir cli) m (map snd pages) (cs_writer s, cs_fs s)) \<and>
     cr_indexed (cs_stats s) = length pages"

lemma stats_files_facts: "finite (stats_files cli)" "p \<in> stats_files cli \<Longrightarrow> fst p = fst (cc_stats_path cli)"
  by (auto simp: stats_files_def)

lemma archive_inv_archives:
  assumes "archive_inv C cli f0 n m pages s" "archives C entry s s'"
    and "max n m + length pages + 1 < u64_max"
  shows "archive_inv C cli f0 n m (pages @ (case entry of None \<Rightarrow> [] | Some p \<Rightarrow> [p])) s'"
proof (cases entry)
  case None
  then show ?thesis using assms(1,2) by (simp add: archives_def archive_inv_def same_archive_def)
next
  case (Some e)
  obtain page doc where e: "e = (page, doc)" by (cases e)
  have w: "write_page (ce_storage C) page doc (cs_writer s, cs_fs s) = (Inr (), cs_writer s', cs_fs s')"
    "cr_indexed (cs_stats s') = wrap_add_u64 (cr_indexed (cs_stats s)) 1"
    using assms(2) Some e by (simp_all add: archives_def)
  obtain s0 where s0: "agree_outside (stats_files cli) f0 s0"
    "run_ok (se_codec (ce_storage C)) s0 (cc_spool_dir cli) n (cc_warc_dir cli) m (map snd pages) (cs_writer s, cs_fs s)"
    and i: "cr_indexed (cs_stats s) = length pages"
    using assms(1) by (auto simp: archive_inv_def)
  have "run_ok (se_codec (ce_storage C)) s0 (cc_spool_dir cli) n (cc_warc_dir cli) m (map snd pages @ [doc])
      (cs_writer s', cs_fs s')"
    by (rule write_page_Inr [OF w(1) s0(2)]) (use assms(3) in simp_all)
  moreover have "cr_indexed (cs_stats s') = Suc (length pages)"
    using w(2) i assms(3) by (simp add: wrap_add_u64_def u64_max_def)
  ultimately show ?thesis using s0(1) Some e by (auto simp: archive_inv_def)
qed

lemma archive_inv_elsewhere:
  assumes "archive_inv C cli f0 n m pages s" "cs_writer s' = cs_writer s"
    and "agree_outside (stats_files cli) (cs_fs s) (cs_fs s')" "cr_indexed (cs_stats s') = cr_indexed (cs_stats s)"
    and "fst (cc_stats_path cli) \<noteq> cc_spool_dir cli"
  shows "archive_inv C cli f0 n m pages s'"
proof -
  obtain s0 where s0: "agree_outside (stats_files cli) f0 s0"
    "run_ok (se_codec (ce_storage C)) s0 (cc_spool_dir cli) n (cc_warc_dir cli) m (map snd pages) (cs_writer s, cs_fs s)"
    using assms(1) by (auto simp: archive_inv_def)
  obtain s1 where s1: "agree_outside (stats_files cli) s0 s1"
    "run_ok (se_codec (ce_storage C)) s1 (cc_spool_dir cli) n (cc_warc_dir cli) m (map snd pages) (cs_writer s, cs_fs s')"
    by (rule run_ok_elsewhere [OF s0(2) assms(3) stats_files_facts(1)])
      (use stats_files_facts(2) assms(5) in fastforce)
  then show ?thesis
    using agree_outside_trans [OF s0(1) s1(1)] assms(1,2,4) by (auto simp: archive_inv_def)
qed

lemma archive_run_inv:
  assumes "crawl_run C cli S ls0 evs ls" "loop_start C V ls0" "running ls"
    and "archive_inv C cli f0 n m [] (ls_state ls0)" "fst (cc_stats_path cli) \<noteq> cc_spool_dir cli"
    and "max n m + length (archived_pages C S evs) + 1 < u64_max"
  shows "archive_inv C cli f0 n m (archived_pages C S evs) (ls_state ls)"
  using assms(1,3,6)
proof (induction rule: crawl_run.induct)
  case starts
  then show ?case using assms(4) by simp
next
  case (steps evs ls ev ls')
  have run: "running ls" using steps.hyps(3) by (cases rule: crawl_step.cases) auto
  have inv: "loop_inv C V cli ls"
    by (rule loop_inv_run [OF steps.hyps(1) loop_start_inv [OF assms(2)] running_alive [OF run]])
  have room: "max n m + length (archived_pages C S evs) + 1 < u64_max" using steps.prems(2) by simp
  note IH = steps.IH [OF run room]
  show ?case
    using steps.hyps(3) steps.prems(1) inv steps.hyps(2)
  proof (cases rule: step_archive)
    case (absorb now out)
    then show ?thesis using archive_inv_archives [OF IH absorb(2) room] by simp
  next
    case other
    then show ?thesis using archive_inv_elsewhere [OF IH other(2-4) assms(5)] by simp
  qed
qed

section \<open>The start and the end of a run\<close>

lemma fs_call_files:
  assumes "fs_call g s = (r, s')" "\<And>s r s'. g s = (r, s') \<Longrightarrow> fs_files s' = fs_files s"
  shows "fs_files s' = fs_files s"
proof (cases "fs_answers s")
  case Nil
  then show ?thesis using assms by (simp add: fs_call_def)
next
  case (Cons a as)
  then show ?thesis
    using assms(1) assms(2) [of "s \<lparr> fs_answers := as \<rparr>" r s'] by (cases a) (auto simp: fs_call_def)
qed

lemma create_dir_all_disk: "create_dir_all d s = (r, s') \<Longrightarrow> fs_files s' = fs_files s"
  unfolding create_dir_all_def by (erule fs_call_files) auto

lemma file_read_files: "file_read p s = (r, s') \<Longrightarrow> fs_files s' = fs_files s"
  unfolding file_read_def by (erule fs_call_files) (auto split: option.splits)

lemma db_open_files: "db_open R p cfg s = (r, s') \<Longrightarrow> fs_files s' = fs_files s"
  by (cases "create_dir_all p s")
    (auto simp: db_open_def io_def Let_def map_err_def state_then_def dest: create_dir_all_disk
      split: prod.splits sum.splits)

lemma read_to_string_files: "read_to_string p s = (r, s') \<Longrightarrow> fs_files s' = fs_files s"
  by (auto simp: read_to_string_def dest: file_read_files split: prod.splits sum.splits)

lemma collect_seeds_files: "collect_seeds cli s = (r, s') \<Longrightarrow> fs_files s' = fs_files s"
  by (cases "cc_seed_file cli")
    (auto simp: collect_seeds_def io_def map_err_def state_then_def dest: read_to_string_files
      split: prod.splits sum.splits if_splits)

lemma seen_open_files:
  "seen_open B F p cfg s = (Inr seen, s') \<Longrightarrow> fs_files s' = fs_files s \<and> seen_path seen = p"
  by (auto simp: seen_open_def Let_def dest: file_read_files split: prod.splits)

lemma check_urls_path: "check_urls B us st = (new, st') \<Longrightarrow> seen_path st' = seen_path st"
proof (induction us arbitrary: st new)
  case (Cons u us)
  obtain b st1 where b: "check_and_insert B u st = (b, st1)" by fastforce
  obtain new1 where n: "check_urls B us st1 = (new1, st')" using Cons.prems b by (auto split: prod.splits)
  have "seen_path st1 = seen_path st" using b by (auto simp: check_and_insert_def split: if_splits)
  then show ?case using Cons.IH [OF n] by simp
qed simp

lemma seen_path_run:
  "crawl_run C cli S ls0 evs ls \<Longrightarrow> loop_start C V ls0 \<Longrightarrow> alive ls \<Longrightarrow>
   seen_path (cs_seen (ls_state ls)) = seen_path (cs_seen (ls_state ls0))"
proof (induction rule: crawl_run.induct)
  case starts
  then show ?case by simp
next
  case (steps evs ls ev ls')
  have al: "alive ls" using steps.hyps(3) by (rule step_from_alive)
  have inv: "loop_inv C V cli ls" by (rule loop_inv_run [OF steps.hyps(1) loop_start_inv [OF steps.prems(1)] al])
  have IH: "seen_path (cs_seen (ls_state ls)) = seen_path (cs_seen (ls_state ls0))" using steps.IH steps.prems(1) al by blast
  show ?case
    using steps.hyps(3) steps.prems(2) inv steps.hyps(2)
  proof (cases rule: step_jobs)
    case (take job)
    then show ?thesis using IH by simp
  next
    case (absorb now out rest)
    obtain new1 new2 seen1 where
      "check_urls (ce_bloom C) (List.map_filter (followable C S) (oc_sitemaps out)) (cs_seen (ls_state ls)) = (new1, seen1)"
      "check_urls (ce_bloom C) (List.map_filter (followable C S) (fst (followed C S out))) seen1 = (new2, cs_seen (ls_state ls'))"
      by (rule absorb_one_effect [OF absorb(2) steps.prems(2) absorb(3) inv steps.hyps(2)])
    then show ?thesis using IH by (simp add: check_urls_path)
  next
    case other
    then show ?thesis using IH by simp
  qed
qed

text \<open>A crawl that ends well ends by the shutdown.\<close>

lemma ended_well:
  assumes "crawl_run C cli S ls0 evs ls" "ls_phase ls = Ended (Inr stats)" "ls_phase ls0 = Absorbing"
  obtains evs' ls1 now where "evs = evs' @ [Quiet]" "crawl_run C cli S ls0 evs' ls1" "ls_phase ls1 = Stopping"
    "ls = stop C cli now ls1"
  using assms(1)
proof (cases rule: crawl_run.cases)
  case starts
  then show thesis using assms(2,3) by simp
next
  case (steps evs' ls1 ev)
  have al: "alive ls" using assms(2) by (simp add: alive_def)
  from steps(4) show thesis
  proof (cases rule: crawl_step.cases)
    case (visit_ends ts1 job host rules delay ts2 w out w')
    then show thesis using assms(2) by (simp add: running_def)
  next
    case (absorbs out rest now)
    have "ls_phase ls = Absorbing" by (rule absorb_one_cases [OF absorbs(2) [symmetric] al absorbs(4)])
    then show thesis using assms(2) by simp
  next
    case drained
    then show thesis using assms(2) by simp
  next
    case decides
    then show thesis using assms(2) by (simp add: decide_def Let_def split: if_splits)
  next
    case (dispatches now)
    from dispatches(2) al dispatches(1) show thesis
      by (cases rule: dispatch_one_cases) (use assms(2) dispatches(1) in auto)
  next
    case (publishes due now)
    then show thesis using assms(2) publish_sel(9) [of cli due now ls1] by simp
  next
    case interrupted
    then show thesis using assms(2) by simp
  next
    case (receives out rest now)
    have "ls_phase ls = Absorbing" by (rule absorb_one_cases [OF receives(2) [symmetric] al receives(5)])
    then show thesis using assms(2) by simp
  next
    case timer
    then show thesis using assms(2) by simp
  next
    case (stops now)
    then show thesis using that steps by blast
  qed
qed

lemma crawl_begin_archive:
  assumes "crawl_begin R B version C cli f = (Inr (S, ls0), f')" "begins_sound R C V cli f k"
    and "numbered_below parse_segment_sequence (cc_spool_dir cli) b f"
    and "numbered_below parse_warc_sequence (cc_warc_dir cli) b f" "0 < b" "b < u64_max"
  obtains n m where "archive_inv C cli f n m [] (ls_state ls0)" "n \<le> b" "m \<le> b"
    "seen_path (cs_seen (ls_state ls0)) = cc_bloom_path cli" "ls_phase ls0 = Absorbing"
proof -
  let ?cfg = "crawl_storage_config cli"
  obtain seeds new seen0 db f1 f2 f3 where c: "loop_start C V ls0"
    "check_urls (ce_bloom C) (List.map_filter (seed_url (ce_url C)) seeds) seen0 = (new, cs_seen (ls_state ls0))"
    "db_open R (cc_rocksdb_dir cli) (db_config_default
       \<lparr> dbc_block_cache_mb := cc_block_cache_mb cli, dbc_write_buffer_mb := cc_write_buffer_mb cli \<rparr>) f = (Inr db, f1)"
    "collect_seeds cli f1 = (Inr seeds, f2)"
    "seen_open (ce_bloom C) (ce_filter C) (cc_bloom_path cli)
       \<lparr> expected_urls = cc_expected_urls cli, false_positive_rate = 1 / 100 \<rparr> f2 = (Inr seen0, f3)"
    "archive_open (ce_storage C) ?cfg f3 = (Inr (cs_writer (ls_state ls0)), cs_fs (ls_state ls0))"
    using crawl_begin_Inr [OF assms(1,2)] by metis
  have dirs: "sc_spool_dir ?cfg = cc_spool_dir cli" "sc_warc_dir ?cfg = cc_warc_dir cli"
    by (simp_all add: crawl_storage_config_def storage_config_default_def)
  have files: "fs_files f3 = fs_files f"
    using db_open_files [OF c(3)] collect_seeds_files [OF c(4)] seen_open_files [OF c(5)] by simp
  have "numbered_below parse_segment_sequence (sc_spool_dir ?cfg) b f3"
    "numbered_below parse_warc_sequence (sc_warc_dir ?cfg) b f3"
    using assms(3,4) dirs by (simp_all add: numbered_below_files [OF files])
  from archive_open_Inr [OF c(6) this assms(5,6)] obtain n m where nm: "n \<le> b" "m \<le> b"
    "run_ok (se_codec (ce_storage C)) f3 (cc_spool_dir cli) n (cc_warc_dir cli) m []
       (cs_writer (ls_state ls0), cs_fs (ls_state ls0))"
    unfolding dirs by blast
  have "agree_outside (stats_files cli) f f3" using files by (simp add: agree_outside_def fs_file_def)
  then have "archive_inv C cli f n m [] (ls_state ls0)"
    using nm(3) c(1) by (auto simp: archive_inv_def loop_start_def)
  moreover have "seen_path (cs_seen (ls_state ls0)) = cc_bloom_path cli"
    using check_urls_path [OF c(2)] seen_open_files [OF c(5)] by simp
  ultimately show thesis using that nm(1,2) c(1) by (simp add: loop_start_def)
qed

text \<open>After a seal nothing is open, and dropping the writer does nothing.\<close>

lemma archive_drop_sealed:
  assumes "archive_seal S a = (Inr u, w', s')"
  shows "archive_drop S (w', s'') = (w', s'')"
proof -
  obtain w s where a: "a = (w, s)" by (cases a)
  obtain u1 w1 s1 where c: "seal_segment (w, s) = (Inr u1, w1, s1)" "finish_warc S (w1, s1) = (Inr u, w', s')"
    using assms by (auto simp: archive_seal_def a dest!: state_then_Inr_iff [THEN iffD1])
  have "aw_segment w1 = None" using c(1) by (auto simp: seal_segment_def Let_def split: option.splits prod.splits sum.splits)
  then have "aw_segment w' = None" "aw_warc w' = None"
    using c(2) by (auto simp: finish_warc_def split: option.splits prod.splits)
  then show ?thesis by (simp add: archive_drop_def seal_segment_def finish_warc_def)
qed

lemma shut_down_Inr:
  fixes s s' :: "('d, 'b) crawl_state"
  assumes "shut_down C cli now s = (Inr stats, s')"
  obtains s1 :: "('d, 'b) crawl_state" where
    "archive_seal (ce_storage C) (cs_writer s, cs_fs s) = (Inr (), cs_writer s1, cs_fs s1)"
    "agree_outside (filter_files (seen_path (cs_seen s)) \<union> stats_files cli) (cs_fs s1) (cs_fs s')"
    "cs_writer s' = cs_writer s1" "stats = cs_stats s"
proof -
  let ?F = "filter_files (seen_path (cs_seen s)) \<union> stats_files cli"
  obtain u1 s1 u2 s2 u3 where r: "seal_archive C s = (Inr u1, s1)" "save_seen C s1 = (Inr u2, s2)"
    "write_progress cli now s2 = (Inr u3, s')"
    using assms by (auto simp: shut_down_def dest!: state_then_Inr_iff [THEN iffD1])
  have s1: "archive_seal (ce_storage C) (cs_writer s, cs_fs s) = (Inr (), cs_writer s1, cs_fs s1)" "cs_seen s1 = cs_seen s"
    using r(1) by (auto simp: seal_archive_def split: prod.splits)
  note f1 = save_seen_files [OF r(2), unfolded s1(2)] and f2 = write_progress_files [OF r(3)]
  show thesis
  proof (rule that [OF s1(1)])
    show "agree_outside ?F (cs_fs s1) (cs_fs s')"
      by (rule agree_outside_trans [OF agree_outside_mono [OF conjunct1 [OF f1]] agree_outside_mono [OF conjunct1 [OF f2]]])
        simp_all
    show "cs_writer s' = cs_writer s1" using f1 f2 by simp
    show "stats = cs_stats s" using shut_down_sel [OF assms] by simp
  qed
qed

text \<open>A crawl that ends well leaves its pages in sealed segments, beside files of other directories.\<close>

lemma crawl_ended_log:
  fixes ls :: "('d, 'b) loop_state"
  assumes "crawl_begin R B version C cli f = (Inr (S, ls0), f')" "begins_sound R C V cli f k"
    and "crawl_run C cli S ls0 evs ls" "ls_phase ls = Ended (Inr stats)"
    and "numbered_below parse_segment_sequence (cc_spool_dir cli) b f"
    "numbered_below parse_warc_sequence (cc_warc_dir cli) b f" "0 < b"
    "b + length (archived_pages C S evs) + 1 < u64_max"
    and "fst (cc_stats_path cli) \<noteq> cc_spool_dir cli" "fst (cc_bloom_path cli) \<noteq> cc_spool_dir cli"
  obtains n m s0 dss where "n \<le> b" "concat dss = map snd (archived_pages C S evs)"
    "length dss \<le> Suc (length (archived_pages C S evs))" "cr_indexed stats = length (archived_pages C S evs)"
    "sealed_log (se_codec (ce_storage C)) (cs_fs (ls_state ls)) (cc_spool_dir cli) n dss"
    "agree_outside (filter_files (cc_bloom_path cli) \<union> stats_files cli) f s0"
    "agree_outside (warc_paths (cc_warc_dir cli) m \<union> segment_paths (cc_spool_dir cli) n (n + length dss)) s0
       (cs_fs (ls_state ls))"
proof -
  let ?C = "se_codec (ce_storage C)" and ?d = "cc_spool_dir cli" and ?pages = "archived_pages C S evs"
  have start: "loop_start C V ls0" using crawl_begin_Inr [OF assms(1,2)] by metis
  obtain n m where nm: "archive_inv C cli f n m [] (ls_state ls0)" "n \<le> b" "m \<le> b"
    "seen_path (cs_seen (ls_state ls0)) = cc_bloom_path cli" "ls_phase ls0 = Absorbing"
    by (rule crawl_begin_archive [OF assms(1,2,5,6,7)]) (use assms(8) in simp)
  obtain evs' ls1 now where e: "evs = evs' @ [Quiet]" "crawl_run C cli S ls0 evs' ls1" "ls_phase ls1 = Stopping"
    "ls = stop C cli now ls1" by (rule ended_well [OF assms(3,4) nm(5)])
  have pages: "archived_pages C S evs' = ?pages" by (simp add: e(1))
  have run: "running ls1" using e(3) by simp
  have room: "max n m + length (archived_pages C S evs') + 1 < u64_max" using assms(8) nm(2,3) pages by simp
  obtain s0 where s0: "agree_outside (stats_files cli) f s0"
    "run_ok ?C s0 ?d n (cc_warc_dir cli) m (map snd ?pages) (cs_writer (ls_state ls1), cs_fs (ls_state ls1))"
    "cr_indexed (cs_stats (ls_state ls1)) = length ?pages"
    using archive_run_inv [OF e(2) start run nm(1) assms(9) room] unfolding pages archive_inv_def by blast
  have path: "seen_path (cs_seen (ls_state ls1)) = cc_bloom_path cli"
    using seen_path_run [OF e(2) start running_alive [OF run]] nm(4) by simp
  obtain r s2 where sd: "shut_down C cli now (ls_state ls1) = (r, s2)" by fastforce
  then have r: "r = Inr stats" using assms(4) e(4) by (simp add: stop_def)
  let ?F = "filter_files (cc_bloom_path cli) \<union> stats_files cli"
  obtain s1 :: "('d, 'b) crawl_state" where s1:
    "archive_seal (ce_storage C) (cs_writer (ls_state ls1), cs_fs (ls_state ls1)) = (Inr (), cs_writer s1, cs_fs s1)"
    "agree_outside ?F (cs_fs s1) (cs_fs s2)" "cs_writer s2 = cs_writer s1" "stats = cs_stats (ls_state ls1)"
    using shut_down_Inr [OF sd [unfolded r]] path by metis
  have "n + length (map snd ?pages) + 1 < u64_max" using room pages by simp
  from archive_seal_Inr [OF s1(1) s0(2) this] obtain dss where dss: "concat dss = map snd ?pages"
    "sealed_log ?C (cs_fs s1) ?d n dss" "length dss \<le> Suc (length (map snd ?pages))"
    "agree_outside (warc_paths (cc_warc_dir cli) m \<union> segment_paths ?d n (n + length dss)) s0 (cs_fs s1)" by blast
  have F: "finite ?F" "\<And>p. p \<in> ?F \<Longrightarrow> fst p \<noteq> ?d"
    using assms(9,10) by (auto simp: filter_files_def stats_files_def)
  obtain s0' where s0': "agree_outside ?F s0 s0'"
    "agree_outside (warc_paths (cc_warc_dir cli) m \<union> segment_paths ?d n (n + length dss)) s0' (cs_fs s2)"
    by (rule agree_patch [OF F(1) s1(2) dss(4)])
  have end_fs: "cs_fs (ls_state ls) = cs_fs s2"
    using archive_drop_sealed [OF s1(1), of "cs_fs s2"] s1(3) sd by (simp add: e(4) stop_def end_run_def)
  have log: "sealed_log ?C (cs_fs s2) ?d n dss" using sealed_log_agree [OF dss(2) s1(2)] F(2) by force
  have agree: "agree_outside ?F f s0'" using s0(1) s0'(1) by (auto simp: agree_outside_def)
  show thesis
    by (rule that [OF nm(2) dss(1)]) (use dss(3) s0(3) s1(4) log agree s0'(2) end_fs in simp_all)
qed

lemma crawl_ended_listed:
  fixes ls :: "('d, 'b) loop_state"
  assumes "crawl_begin R B version C cli f = (Inr (S, ls0), f')" "begins_sound R C V cli f k"
    and "crawl_run C cli S ls0 evs ls" "ls_phase ls = Ended (Inr stats)"
    and "numbered_below parse_segment_sequence (cc_spool_dir cli) b f"
    "numbered_below parse_warc_sequence (cc_warc_dir cli) b f" "0 < b"
    "b + length (archived_pages C S evs) + 1 < u64_max"
    and "fst (cc_stats_path cli) \<noteq> cc_spool_dir cli" "fst (cc_bloom_path cli) \<noteq> cc_spool_dir cli"
    and "filter is_sealed (fs_names f (cc_spool_dir cli)) = []"
    and "fs_files s = fs_files (cs_fs (ls_state ls))" "cc_spool_dir cli \<in> set (fs_dirs s)" "readable s"
  obtains ps dss where "sealed_segments (cc_spool_dir cli) s = (Inr ps, s)"
    "list_all2 (\<lambda>p ds. \<exists>bs. fs_file s p = Some bs \<and> frames_of (se_codec (ce_storage C)) ds = Some bs) ps dss"
    "concat dss = map snd (archived_pages C S evs)" "cr_indexed stats = length (archived_pages C S evs)"
proof -
  let ?d = "cc_spool_dir cli"
  obtain n m s0 dss where l: "n \<le> b" "concat dss = map snd (archived_pages C S evs)"
    "length dss \<le> Suc (length (archived_pages C S evs))" "cr_indexed stats = length (archived_pages C S evs)"
    "sealed_log (se_codec (ce_storage C)) (cs_fs (ls_state ls)) ?d n dss"
    "agree_outside (filter_files (cc_bloom_path cli) \<union> stats_files cli) f s0"
    "agree_outside (warc_paths (cc_warc_dir cli) m \<union> segment_paths ?d n (n + length dss)) s0 (cs_fs (ls_state ls))"
    by (rule crawl_ended_log [OF assms(1-10)])
  have none: "fs_file s0 (?d, name) = None" if "is_sealed name" for name
  proof -
    have "fs_file f (?d, name) = None" using assms(11) that by (force simp: filter_empty_conv fs_names_iff)
    moreover have "(?d, name) \<notin> filter_files (cc_bloom_path cli) \<union> stats_files cli"
      using assms(9,10) by (cases "cc_stats_path cli"; cases "cc_bloom_path cli") (auto simp: filter_files_def stats_files_def)
    ultimately show ?thesis using l(6) by (simp add: agree_outside_def)
  qed
  have room: "n + length dss \<le> u64_max" using l(1,3) assms(8) by simp
  obtain ps where "sealed_segments ?d s = (Inr ps, s)"
    "list_all2 (\<lambda>p ds. \<exists>bs. fs_file s p = Some bs \<and> frames_of (se_codec (ce_storage C)) ds = Some bs) ps dss"
    by (rule handoff_lists [OF l(5) room l(7) none assms(12-14)])
  then show thesis using l(2,4) by (rule that)
qed

text \<open>C3: what a crawl counts is what the indexer reads: when a crawl from a sound database, fresh or with
  the queue an earlier crawl left, its seeds from the command line or a seed file, into a
  spool without sealed segments, ends well, its count of indexed pages is the number of pages it
  archived, and the indexer that lists and reads the spool afterwards gets the documents of exactly
  these pages, in the order in which their visits were absorbed, each once.\<close>

theorem crawl_handoff_exact:
  fixes ls :: "('d, 'b) loop_state"
  assumes "crawl_begin R B version C cli f = (Inr (S, ls0), f')" "begins_sound R C V cli f k"
    and "crawl_run C cli S ls0 evs ls" "ls_phase ls = Ended (Inr stats)"
    and "numbered_below parse_segment_sequence (cc_spool_dir cli) b f"
    "numbered_below parse_warc_sequence (cc_warc_dir cli) b f" "0 < b"
    "b + length (archived_pages C S evs) + 1 < u64_max"
    and "fst (cc_stats_path cli) \<noteq> cc_spool_dir cli" "fst (cc_bloom_path cli) \<noteq> cc_spool_dir cli"
    and "filter is_sealed (fs_names f (cc_spool_dir cli)) = []" "codec_ok (se_codec (ce_storage C))"
    and "fs_files s = fs_files (cs_fs (ls_state ls))" "cc_spool_dir cli \<in> set (fs_dirs s)" "readable s"
  shows "cr_indexed stats = length (archived_pages C S evs) \<and>
    (\<exists>ps s'. sealed_segments (cc_spool_dir cli) s = (Inr ps, s) \<and>
       read_segments (se_codec (ce_storage C)) ps [] s = (Inr (map snd (archived_pages C S evs)), s'))"
proof -
  obtain ps dss where l: "sealed_segments (cc_spool_dir cli) s = (Inr ps, s)"
    "list_all2 (\<lambda>p ds. \<exists>bs. fs_file s p = Some bs \<and> frames_of (se_codec (ce_storage C)) ds = Some bs) ps dss"
    "concat dss = map snd (archived_pages C S evs)" "cr_indexed stats = length (archived_pages C S evs)"
    by (rule crawl_ended_listed [OF assms(1-11,13-15)])
  from read_segments_log [OF assms(12,15) l(2), of "[]"] l(1,3,4) show ?thesis by auto
qed

end
