(* ===== verification/Crawl_Schedule.thy ===== *)
theory Crawl_Schedule
  imports Crawl_Absorb
begin

text \<open>
  What \<open>schedule\<close> of \<open>crates/crawler/src/main.rs\<close> promises in full, and the time \<open>absorb\<close> defers a
  host to. Every URL that enters the frontier during a crawl passes through \<open>schedule\<close>.
\<close>

section \<open>The counters\<close>

text \<open>Links that canonicalise but leave the scope, and links in scope that name an asset.\<close>

definition offsite_link :: "('u, 'd, 'b, 'w) crawl_env \<Rightarrow> settings \<Rightarrow> rstr \<Rightarrow> bool" where
  "offsite_link C S raw =
     (case canonical_url (ce_url C) raw of
        Some url \<Rightarrow> \<not> scope_allows (ce_url C) (st_scope S) url
      | None \<Rightarrow> False)"

definition asset_link :: "('u, 'd, 'b, 'w) crawl_env \<Rightarrow> settings \<Rightarrow> rstr \<Rightarrow> bool" where
  "asset_link C S raw =
     (case canonical_url (ce_url C) raw of
        Some url \<Rightarrow> scope_allows (ce_url C) (st_scope S) url \<and> \<not> is_probably_page (ce_url C) url
      | None \<Rightarrow> False)"

text \<open>The counters of \<open>schedule\<close> can count \<open>k\<close> more links without wrapping.\<close>

definition countable :: "nat \<Rightarrow> crawl_stats \<Rightarrow> bool" where
  "countable k st \<longleftrightarrow> cr_queued st + k < 2 ^ 64 \<and> cr_skipped_offsite st + k < 2 ^ 64 \<and> cr_skipped_assets st + k < 2 ^ 64"

text \<open>The statistics with \<open>q\<close> URLs queued, \<open>f\<close> links left out as off-site and \<open>a\<close> as assets.\<close>

definition counted :: "nat \<Rightarrow> nat \<Rightarrow> nat \<Rightarrow> crawl_stats \<Rightarrow> crawl_stats" where
  "counted q f a st = st \<lparr> cr_queued := cr_queued st + q, cr_skipped_offsite := cr_skipped_offsite st + f,
     cr_skipped_assets := cr_skipped_assets st + a \<rparr>"

lemma counted_0 [simp]: "counted 0 0 0 st = st"
  by (simp add: counted_def)

lemma counted_counted [simp]: "counted q f a (counted q' f' a' st) = counted (q' + q) (f' + f) (a' + a) st"
  by (simp add: counted_def)

lemma count_up_counted:
  assumes "countable (Suc k) (cs_stats s)"
  shows "cs_stats (count_up cr_queued_update s) = counted 1 0 0 (cs_stats s)"
    "cs_stats (count_up cr_skipped_offsite_update s) = counted 0 1 0 (cs_stats s)"
    "cs_stats (count_up cr_skipped_assets_update s) = counted 0 0 1 (cs_stats s)"
  using assms by (simp_all add: count_up_def counted_def countable_def wrap_add_u64_def)

lemma countable_counted: "countable (Suc k) st \<Longrightarrow> q + f + a \<le> 1 \<Longrightarrow> countable k (counted q f a st)"
  by (auto simp: countable_def counted_def)

lemma offer_url_counts:
  assumes "offer_url C url depth s = (Inr new, s')" "countable (Suc k) (cs_stats s)"
  shows "check_and_insert (ce_bloom C) url (cs_seen s) = (new, cs_seen s') \<and>
    cs_stats s' = counted (if new then 1 else 0) 0 0 (cs_stats s)"
proof -
  obtain b seen' where c: "check_and_insert (ce_bloom C) url (cs_seen s) = (b, seen')" by fastforce
  show ?thesis
  proof (cases b)
    case False
    then show ?thesis using assms(1) c by (auto simp: offer_url_def)
  next
    case True
    obtain s1 where p: "push_job C \<lparr> job_url = url, job_depth = depth \<rparr> (s \<lparr> cs_seen := seen' \<rparr>) = (Inr (), s1)"
      "new" "s' = count_up cr_queued_update s1"
      using assms(1) c True by (auto simp: offer_url_def dest!: state_then_Inr_iff [THEN iffD1])
    have sel: "cs_seen s1 = seen'" "cs_stats s1 = cs_stats s"
      using p(1) by (auto simp: push_job_def split: prod.splits)
    then have "cs_stats s' = counted 1 0 0 (cs_stats s)"
      using count_up_counted(1) [of k s1] assms(2) p(3) by simp
    then show ?thesis using c True p sel by (simp add: count_up_def)
  qed
qed

lemma schedule_counts:
  "schedule C S links depth n s = (Inr m, s') \<Longrightarrow> n + length links < 2 ^ 64 \<Longrightarrow> countable (length links) (cs_stats s) \<Longrightarrow>
   \<exists>new. check_urls (ce_bloom C) (List.map_filter (followable C S) links) (cs_seen s) = (new, cs_seen s') \<and>
     m = n + length new \<and> cs_stats s' = counted (length new) (length (filter (offsite_link C S) links))
       (length (filter (asset_link C S) links)) (cs_stats s)"
proof (induction links arbitrary: n s)
  case Nil
  then show ?case by (simp add: List.map_filter_simps)
next
  case (Cons raw links)
  have room: "countable (Suc (length links)) (cs_stats s)" "n + length links < 2 ^ 64" "n + 1 < 2 ^ 64"
    using Cons.prems(2,3) by simp_all
  note fate = followable_def offsite_link_def asset_link_def
  show ?case
  proof (cases "canonical_url (ce_url C) raw")
    case None
    then have "schedule C S links depth n s = (Inr m, s')" using Cons.prems(1) by simp
    moreover have "countable (length links) (cs_stats s)" using room(1) by (simp add: countable_def)
    ultimately show ?thesis using Cons.IH [of n s] room(2) None by (simp add: fate List.map_filter_simps)
  next
    case (Some url)
    consider (off) "\<not> scope_allows (ce_url C) (st_scope S) url"
      | (asset) "scope_allows (ce_url C) (st_scope S) url" "\<not> is_probably_page (ce_url C) url"
      | (go) "scope_allows (ce_url C) (st_scope S) url" "is_probably_page (ce_url C) url" by blast
    then show ?thesis
    proof cases
      case off
      let ?t = "count_up cr_skipped_offsite_update s"
      have st: "cs_stats ?t = counted 0 1 0 (cs_stats s)" "cs_seen ?t = cs_seen s"
        using count_up_counted(2) [OF room(1)] by (simp_all add: count_up_def)
      have "schedule C S links depth n ?t = (Inr m, s')" using Cons.prems(1) Some off by simp
      moreover have "countable (length links) (cs_stats ?t)" using countable_counted [OF room(1)] st(1) by simp
      ultimately show ?thesis
        using Cons.IH [of n ?t] room(2) Some off st by (auto simp: fate List.map_filter_simps)
    next
      case asset
      let ?t = "count_up cr_skipped_assets_update s"
      have st: "cs_stats ?t = counted 0 0 1 (cs_stats s)" "cs_seen ?t = cs_seen s"
        using count_up_counted(3) [OF room(1)] by (simp_all add: count_up_def)
      have "schedule C S links depth n ?t = (Inr m, s')" using Cons.prems(1) Some asset by simp
      moreover have "countable (length links) (cs_stats ?t)" using countable_counted [OF room(1)] st(1) by simp
      ultimately show ?thesis
        using Cons.IH [of n ?t] room(2) Some asset st by (auto simp: fate List.map_filter_simps)
    next
      case go
      obtain new s1 where o: "offer_url C url depth s = (Inr new, s1)"
        "schedule C S links depth (if new then wrap_add_u64 n 1 else n) s1 = (Inr m, s')"
        using Cons.prems(1) Some go by (auto dest!: state_then_Inr_iff [THEN iffD1])
      note c = offer_url_counts [OF o(1) room(1)]
      have n: "(if new then wrap_add_u64 n 1 else n) = n + (if new then 1 else 0)"
        using room(3) by (simp add: wrap_add_u64_def)
      have "countable (length links) (cs_stats s1)" using countable_counted [OF room(1)] c by simp
      moreover have "n + (if new then 1 else 0) + length links < 2 ^ 64" using Cons.prems(2) by simp
      ultimately show ?thesis
        using Cons.IH [OF o(2) [unfolded n]] c Some go by (auto simp: fate List.map_filter_simps)
    qed
  qed
qed

text \<open>C9: scheduling a list of links that goes through queues, at the given depth, exactly the
  canonical forms of the links that stay in scope, do not name an asset and that the filter of seen
  URLs does not contain when it comes to them, each once and nothing else: all that the filter did
  not contain, when it has no false positives. It answers how many these are, adds them to \<open>queued\<close>, and
  counts the links that leave the scope and those that name an asset. Afterwards the filter contains
  all of them. The archive is untouched.\<close>

theorem schedule_exact:
  assumes "schedule C S links depth 0 s = (Inr m, s')" "crawl_ok C V s" "has_room (length links) s"
    and "countable (length links) (cs_stats s)" "length links < 2 ^ 64" "bloom_ok (ce_bloom C)"
    and "new = new_urls (ce_bloom C) (List.map_filter (followable C S) links) (seen_filter (cs_seen s))"
  shows "queued C V s' = queued C V s + mset (jobs_at depth new) \<and> m = length new \<and> distinct new \<and>
    (\<forall>u \<in> set new. (\<exists>raw \<in> set links. followable C S raw = Some u) \<and>
       \<not> bloom_contains (ce_bloom C) (seen_filter (cs_seen s)) u) \<and>
    (bloom_exact (ce_bloom C) \<longrightarrow> set new = {u. (\<exists>raw \<in> set links. followable C S raw = Some u) \<and>
       \<not> bloom_contains (ce_bloom C) (seen_filter (cs_seen s)) u}) \<and>
    (\<forall>raw \<in> set links. \<forall>u. followable C S raw = Some u \<longrightarrow>
       bloom_contains (ce_bloom C) (seen_filter (cs_seen s')) u) \<and>
    cs_stats s' = counted (length new) (length (filter (offsite_link C S) links))
      (length (filter (asset_link C S) links)) (cs_stats s) \<and>
    cs_writer s' = cs_writer s \<and> cs_fs s' = cs_fs s"
proof -
  let ?us = "List.map_filter (followable C S) links"
  obtain new0 where n: "check_urls (ce_bloom C) ?us (cs_seen s) = (new0, cs_seen s')"
    "m = length new0" "cs_stats s' = counted (length new0) (length (filter (offsite_link C S) links))
      (length (filter (asset_link C S) links)) (cs_stats s)"
    using schedule_counts [OF assms(1) _ assms(4)] assms(5) by auto
  have new: "new0 = new" using check_urls_new [OF n(1)] assms(7) by simp
  have q: "queues C V (length links) (jobs_at depth new) s s'" "same_archive s s'"
    using schedule_Inr [OF assms(1-3)] n(1) new by auto
  have m: "set ?us = {u. \<exists>raw \<in> set links. followable C S raw = Some u}"
    by (force simp: List.map_filter_def)
  have c: "seen.check_all (ce_bloom C) ?us (cs_seen s) = (new, cs_seen s')" using n(1) new by (simp add: check_urls_seen)
  note all = seen.check_all_spec [OF assms(6) c]
  have exact: "bloom_exact (ce_bloom C) \<longrightarrow> set new = {u. (\<exists>raw \<in> set links. followable C S raw = Some u) \<and>
       \<not> bloom_contains (ce_bloom C) (seen_filter (cs_seen s)) u}"
    using new_urls_exact [of "ce_bloom C" ?us "seen_filter (cs_seen s)"] m unfolding assms(7) by simp
  have "queued C V s' = queued C V s + mset (jobs_at depth new)" using q(1) by (simp add: queues_def)
  moreover have "cs_writer s' = cs_writer s" "cs_fs s' = cs_fs s" using q(2) by (simp_all add: same_archive_def)
  moreover have "\<forall>u \<in> set new. (\<exists>raw \<in> set links. followable C S raw = Some u) \<and>
       \<not> bloom_contains (ce_bloom C) (seen_filter (cs_seen s)) u"
    "\<forall>raw \<in> set links. \<forall>u. followable C S raw = Some u \<longrightarrow> bloom_contains (ce_bloom C) (seen_filter (cs_seen s')) u"
    using all m by auto
  moreover have "distinct new" using all by blast
  moreover note n(2,3) [unfolded new] exact
  ultimately show ?thesis by (intro conjI)
qed

section \<open>The politeness of a host\<close>

text \<open>C18: after a visit its host is deferred by the politeness delay, the longer of the configured one and
  the \<open>Crawl-delay\<close> of the site, if this delay is below \<open>2 ^ 63\<close> milliseconds; a longer delay, which
  a \<open>robots.txt\<close> can ask for, turns negative in the cast and defers the host to a time that has
  passed, so that it may be asked again at once.\<close>

theorem defer_until_spec:
  assumes "0 \<le> now" "now \<le> i64_max" "st_politeness_delay_ms S \<le> u64_max"
  shows "let delay = politeness_delay_ms (st_politeness_delay_ms S) crawl_delay
    in if delay < 2 ^ 63 then defer_until S now crawl_delay = min i64_max (now + int delay)
       else defer_until S now crawl_delay < now"
proof -
  let ?d = "politeness_delay_ms (st_politeness_delay_ms S) crawl_delay"
  have "?d < 2 ^ 64"
    using assms(3) by (auto simp: politeness_delay_ms_def sat_mul_u64_def u64_max_def split: option.split)
  then show ?thesis
    using assms(1,2) by (auto simp: defer_until_def as_i64_def sat_add_i64_def i64_max_def i64_min_def Let_def)
qed

definition patient :: settings where
  "patient = \<lparr> st_max_depth = 1, st_politeness_delay_ms = 1000, st_scope = scope_unrestricted,
     st_drop_offsite_redirects = False \<rparr>"

theorem defer_until_spec_witness:
  "defer_until patient 5000 (Some 3) = 8000 \<and> defer_until patient 5000 (Some (10 ^ 17)) < 5000"
  using defer_until_spec [of 5000 patient "Some 3"] defer_until_spec [of 5000 patient "Some (10 ^ 17)"]
  by (simp add: patient_def politeness_delay_ms_def sat_mul_u64_def u64_max_def i64_max_def Let_def)

end
