(* ===== verification/Crawl_Ends.thy ===== *)
theory Crawl_Ends
  imports Crawl_Safety
begin

text \<open>
  How the crawl loop comes to its end: told to stop, it ends after finitely many turns, those apart
  in which it waits for a visit that is still under way; and from every state it can reach, the end
  can be reached.
\<close>

section \<open>The shutdown\<close>

text \<open>A turn of the timer while a visit runs: nothing has changed when it is over.\<close>

definition idle_turn :: "('d, 'b) loop_state \<Rightarrow> ('d, 'b) loop_state \<Rightarrow> bool" where
  "idle_turn ls ls' \<longleftrightarrow> ls_phase ls = Waiting \<and> ls_tasks ls \<noteq> [] \<and> ls' = ls \<lparr> ls_phase := Absorbing \<rparr>"

text \<open>How far the loop is from the turn that finishes, absorbs or ends something, by what is left.\<close>

fun phase_rank :: "bool \<Rightarrow> bool \<Rightarrow> phase \<Rightarrow> nat" where
  "phase_rank tasks outcomes Stopping = 1"
| "phase_rank tasks outcomes (Ended r) = 0"
| "phase_rank True outcomes Absorbing = 6"
| "phase_rank True outcomes Deciding = 5"
| "phase_rank True outcomes Dispatching = 4"
| "phase_rank True outcomes Publishing = 3"
| "phase_rank True outcomes Waiting = 2"
| "phase_rank False True Deciding = 6"
| "phase_rank False True Dispatching = 5"
| "phase_rank False True Publishing = 4"
| "phase_rank False True Waiting = 3"
| "phase_rank False True Absorbing = 2"
| "phase_rank False False Dispatching = 6"
| "phase_rank False False Publishing = 5"
| "phase_rank False False Waiting = 4"
| "phase_rank False False Absorbing = 3"
| "phase_rank False False Deciding = 2"

definition left_to_do :: "('d, 'b) loop_state \<Rightarrow> nat \<times> nat" where
  "left_to_do ls = (2 * length (ls_tasks ls) + length (ls_channel ls),
     phase_rank (ls_tasks ls \<noteq> []) (ls_channel ls \<noteq> []) (ls_phase ls))"

lemma ls_total_zero: "in_flight_ok ls \<Longrightarrow> ls_total ls = 0 \<longleftrightarrow> ls_tasks ls = [] \<and> ls_channel ls = []"
  by (simp add: in_flight_ok_def visits_def under_way_def)

lemma absorb_one_sel:
  assumes "ls_channel ls = out # rest"
  shows "ls_tasks (absorb_one C S now out ls) = ls_tasks ls" "ls_channel (absorb_one C S now out ls) = rest"
    "ls_shutting_down (absorb_one C S now out ls) = ls_shutting_down ls"
    "ls_phase (absorb_one C S now out ls) = Absorbing \<or> (\<exists>e. ls_phase (absorb_one C S now out ls) = Ended (Inl e))"
  using assms by (auto simp: absorb_one_def Let_def split: prod.splits sum.splits)

lemma stop_sel [simp]:
  "ls_tasks (stop C cli now ls) = ls_tasks ls" "ls_channel (stop C cli now ls) = ls_channel ls"
  "\<exists>r. ls_phase (stop C cli now ls) = Ended r" "ls_shutting_down (stop C cli now ls) = ls_shutting_down ls"
  by (simp_all add: stop_def split: prod.split)

lemma decide_sel [simp]:
  "ls_tasks (decide cli ls) = ls_tasks ls" "ls_channel (decide cli ls) = ls_channel ls"
  "ls_shutting_down ls \<Longrightarrow> ls_shutting_down (decide cli ls)"
  "ls_shutting_down ls \<Longrightarrow> ls_phase (decide cli ls) = (if ls_total ls = 0 then Stopping else Dispatching)"
  by (simp_all add: decide_def Let_def)

lemma publish_sel2 [simp]:
  "ls_tasks (publish cli due now ls) = ls_tasks ls" "ls_channel (publish cli due now ls) = ls_channel ls"
  "ls_shutting_down ls \<Longrightarrow> ls_phase (publish cli due now ls) = Waiting"
  by (simp_all add: publish_def)

lemma dispatch_one_shutdown:
  "ls_shutting_down ls \<Longrightarrow> dispatch_one C cli now ls = Some (Quiet, ls \<lparr> ls_phase := Publishing \<rparr>)"
  by (simp add: dispatch_one_def)

lemma shutdown_step:
  assumes "crawl_step C cli S ls ev ls'" "in_flight_ok ls" "ls_shutting_down ls" "\<not> idle_turn ls ls'"
  shows "(left_to_do ls', left_to_do ls) \<in> less_than <*lex*> less_than" "ls_shutting_down ls'"
proof -
  note zero = ls_total_zero [OF assms(2)]
  have "(left_to_do ls', left_to_do ls) \<in> less_than <*lex*> less_than \<and> ls_shutting_down ls'"
    using assms(1)
  proof (cases rule: crawl_step.cases)
    case (absorbs out rest now)
    then show ?thesis using absorb_one_sel [of ls out rest C S now] assms(3) by (simp add: left_to_do_def)
  next
    case drained
    then show ?thesis using assms(3) by (cases "ls_tasks ls = []") (simp_all add: left_to_do_def)
  next
    case decides
    then show ?thesis using zero assms(3) by (cases "ls_tasks ls = []"; cases "ls_channel ls = []") (simp_all add: left_to_do_def)
  next
    case (dispatches now)
    then have "ls' = ls \<lparr> ls_phase := Publishing \<rparr>" using dispatch_one_shutdown [OF assms(3), of C cli now] by simp
    then show ?thesis using dispatches(1) assms(3)
      by (cases "ls_tasks ls = []"; cases "ls_channel ls = []") (simp_all add: left_to_do_def)
  next
    case (publishes due now)
    then show ?thesis using assms(3)
      by (cases "ls_tasks ls = []"; cases "ls_channel ls = []") (simp_all add: left_to_do_def)
  next
    case (receives out rest now)
    then show ?thesis using absorb_one_sel [of ls out rest C S now] assms(3) by (simp add: left_to_do_def)
  next
    case timer
    then have "ls_tasks ls = []" using assms(4) by (simp add: idle_turn_def)
    then show ?thesis using timer assms(3) by (cases "ls_channel ls = []") (simp_all add: left_to_do_def)
  next
    case (stops now)
    obtain r where "ls_phase (stop C cli now ls) = Ended r" using stop_sel(3) by blast
    then show ?thesis using stops assms(3) by (simp add: left_to_do_def)
  qed (use assms(3) in \<open>auto simp: left_to_do_def\<close>)
  then show "(left_to_do ls', left_to_do ls) \<in> less_than <*lex*> less_than" "ls_shutting_down ls'" by auto
qed

definition shutdown_turns :: "('u, 'd, 'b, 'w) crawl_env \<Rightarrow> crawler_cli \<Rightarrow> settings \<Rightarrow>
    (('d, 'b) loop_state \<times> ('d, 'b) loop_state) set" where
  "shutdown_turns C cli S = {(ls', ls). in_flight_ok ls \<and> ls_shutting_down ls \<and>
     (\<exists>ev. crawl_step C cli S ls ev ls') \<and> \<not> idle_turn ls ls'}"

lemma shutdown_turns_wf: "wf (shutdown_turns C cli S)"
proof (rule wf_subset)
  show "wf (inv_image (less_than <*lex*> less_than) left_to_do)" by auto
  show "shutdown_turns C cli S \<subseteq> inv_image (less_than <*lex*> less_than) left_to_do"
    using shutdown_step(1) by (fastforce simp: shutdown_turns_def inv_image_def)
qed

section \<open>The way to the end\<close>

text \<open>Steps one after the other, whatever the counters of the frontier hold.\<close>

inductive crawl_path ::
    "('u, 'd, 'b, 'w) crawl_env \<Rightarrow> crawler_cli \<Rightarrow> settings \<Rightarrow> ('d, 'b) loop_state \<Rightarrow> event list \<Rightarrow>
     ('d, 'b) loop_state \<Rightarrow> bool" for C cli S where
  here: "crawl_path C cli S ls [] ls"
| onward: "crawl_step C cli S ls ev ls1 \<Longrightarrow> crawl_path C cli S ls1 evs ls' \<Longrightarrow> crawl_path C cli S ls (ev # evs) ls'"

inductive_simps crawl_path_simps:
  "crawl_path C cli S ls [] ls'" "crawl_path C cli S ls (ev # evs) ls'"

definition can_end ::
    "('u, 'd, 'b, 'w) crawl_env \<Rightarrow> crawler_cli \<Rightarrow> settings \<Rightarrow> ('d, 'b) loop_state \<Rightarrow> bool" where
  "can_end C cli S ls \<longleftrightarrow> (\<exists>evs ls'. crawl_path C cli S ls evs ls' \<and> \<not> running ls')"

lemma can_end_here: "\<not> running ls \<Longrightarrow> can_end C cli S ls"
  unfolding can_end_def by (metis crawl_path_simps(1))

lemma can_end_step: "crawl_step C cli S ls ev ls' \<Longrightarrow> can_end C cli S ls' \<Longrightarrow> can_end C cli S ls"
  unfolding can_end_def by (metis crawl_path_simps(2))

lemma in_flight_ok_same:
  "in_flight_ok ls \<Longrightarrow> visits ls' = visits ls \<Longrightarrow> ls_total ls' = ls_total ls \<Longrightarrow> ls_in_flight ls' = ls_in_flight ls \<Longrightarrow>
   in_flight_ok ls'"
  by (simp add: in_flight_ok_def)

lemma in_flight_ok_dispatch:
  assumes "dispatch_one C cli now ls = Some (ev, ls')" "alive ls'" "ls_phase ls = Dispatching" "in_flight_ok ls"
  shows "in_flight_ok ls'"
  using assms(1-3)
proof (cases rule: dispatch_one_cases)
  case (go d fr job host rules)
  have "visits ls' = add_mset (job, host) (visits ls)" by (simp add: go(6) visits_def under_way_def)
  from dispatch_in_flight [OF assms(4) this] show ?thesis by (simp add: go(6))
qed (use assms(4) in \<open>auto simp: in_flight_ok_def visits_def under_way_def\<close>)

lemma in_flight_ok_step:
  assumes "crawl_step C cli S ls ev ls'" "in_flight_ok ls" "alive ls'"
  shows "in_flight_ok ls'"
  using assms(1)
proof (cases rule: crawl_step.cases)
  case (visit_ends ts1 job host rules delay ts2 w out w')
  have "oc_job out = job" "oc_host out = host" using visit_cases [OF visit_ends(5)] by metis+
  from visit_ends_visits [OF visit_ends(4) this] show ?thesis
    using visit_ends(2) by (intro in_flight_ok_same [OF assms(2)]) simp_all
next
  case (absorbs out rest now)
  then show ?thesis using absorb_one_cases [OF refl, of C S now out ls rest] assms by metis
next
  case (dispatches now)
  then show ?thesis using in_flight_ok_dispatch assms by metis
next
  case (receives out rest now)
  then show ?thesis using absorb_one_cases [OF refl, of C S now out ls rest] assms by metis
next
  case (stops now)
  then show ?thesis
    by (intro in_flight_ok_same [OF assms(2)]) (simp_all add: visits_def under_way_def stop_def split: prod.split)
qed (intro in_flight_ok_same [OF assms(2)]; simp add: visits_def under_way_def decide_def publish_def Let_def)+

lemma not_alive: "\<not> alive ls \<Longrightarrow> \<not> running ls"
  using running_alive by blast

text \<open>A loop that shuts down has a turn that brings it on.\<close>

lemma shutdown_turn_exists:
  assumes "running ls" "ls_shutting_down ls"
  obtains ev ls' where "crawl_step C cli S ls ev ls'" "\<not> idle_turn ls ls'"
proof (cases "ls_tasks ls")
  case (Cons t ts)
  obtain job host rules delay where t: "t = (job, host, rules, delay)" by (metis prod_cases4)
  obtain out w' where v: "visit (ce_url C) (ce_visit C) job host rules delay undefined = (out, w')" by fastforce
  let ?ls' = "ls \<lparr> ls_tasks := [] @ ts, ls_channel := ls_channel ls @ [out] \<rparr>"
  have "crawl_step C cli S ls (Finished out) ?ls'"
    by (rule crawl_step.visit_ends [OF assms(1) _ v]) (simp add: Cons t)
  moreover have "ls_tasks ?ls' \<noteq> ls_tasks (ls \<lparr> ls_phase := Absorbing \<rparr>)" by (simp add: Cons)
  then have "\<not> idle_turn ls ?ls'" unfolding idle_turn_def by metis
  ultimately show thesis by (rule that)
next
  case Nil
  then have idle: "\<not> idle_turn ls ls'" for ls' by (simp add: idle_turn_def)
  have "\<exists>ev ls'. crawl_step C cli S ls ev ls'"
  proof (cases "ls_phase ls")
    case Absorbing
    then show ?thesis
      using crawl_step.drained [of ls C cli S] crawl_step.absorbs [of ls _ _ C cli S] by (cases "ls_channel ls") metis+
  next
    case Deciding
    show ?thesis by (intro exI) (rule crawl_step.decides [OF Deciding])
  next
    case Dispatching
    show ?thesis by (intro exI) (rule crawl_step.dispatches [OF Dispatching dispatch_one_shutdown [OF assms(2)]])
  next
    case Publishing
    show ?thesis by (intro exI) (rule crawl_step.publishes [OF Publishing])
  next
    case Waiting
    show ?thesis by (intro exI) (rule crawl_step.timer [OF Waiting])
  next
    case Stopping
    show ?thesis by (intro exI) (rule crawl_step.stops [OF Stopping])
  next
    case (Ended r)
    then show ?thesis using assms(1) by simp
  qed
  then show thesis using that idle by blast
qed

lemma can_end_shutdown:
  "in_flight_ok ls \<Longrightarrow> ls_shutting_down ls \<Longrightarrow> can_end C cli S ls"
proof (induction ls rule: wf_induct_rule [OF shutdown_turns_wf [of C cli S]])
  case (1 ls)
  show ?case
  proof (cases "running ls")
    case True
    obtain ev ls' where s: "crawl_step C cli S ls ev ls'" "\<not> idle_turn ls ls'"
      by (rule shutdown_turn_exists [OF True 1(3)])
    have "can_end C cli S ls'"
    proof (cases "alive ls'")
      case alive: True
      have "(ls', ls) \<in> shutdown_turns C cli S" using s 1(2,3) by (auto simp: shutdown_turns_def)
      from 1(1) [OF this in_flight_ok_step [OF s(1) 1(2) alive] shutdown_step(2) [OF s(1) 1(2,3) s(2)]] show ?thesis .
    qed (use not_alive can_end_here in blast)
    then show ?thesis by (rule can_end_step [OF s(1)])
  qed (rule can_end_here)
qed

text \<open>The phases before, from the last to the first.\<close>

lemma can_end_stopping: "ls_phase ls = Stopping \<Longrightarrow> can_end C cli S ls"
  by (rule can_end_step [OF crawl_step.stops [where now = 0]], assumption, rule can_end_here)
    (metis running_simps(7) stop_sel(3))

lemma can_end_waiting:
  assumes "ls_phase ls = Waiting" "in_flight_ok ls"
  shows "can_end C cli S ls"
proof (cases "ls_shutting_down ls")
  case False
  let ?ls = "ls \<lparr> ls_shutting_down := True, ls_phase := Absorbing \<rparr>"
  have "in_flight_ok ?ls" by (rule in_flight_ok_same [OF assms(2)]) (simp_all add: visits_def under_way_def)
  from can_end_shutdown [OF this] have "can_end C cli S ?ls" by simp
  then show ?thesis by (rule can_end_step [OF crawl_step.interrupted [OF assms(1) False]])
qed (rule can_end_shutdown [OF assms(2)])

lemma can_end_publishing:
  assumes "ls_phase ls = Publishing" "in_flight_ok ls"
  shows "can_end C cli S ls"
proof -
  let ?ls = "publish cli False 0 ls"
  have "in_flight_ok ?ls" by (rule in_flight_ok_same [OF assms(2)]) (simp_all add: visits_def)
  then have "can_end C cli S ?ls" using publish_sel(9) [of cli False 0 ls] can_end_stopping can_end_waiting by auto
  then show ?thesis by (rule can_end_step [OF crawl_step.publishes [OF assms(1)]])
qed

lemma dispatch_one_total:
  assumes "kv_ok (fe_kv (ce_frontier C)) V"
  obtains ev ls' where "dispatch_one C cli now ls = Some (ev, ls')"
    "ls_phase ls' = Dispatching \<and> ls_phase ls = Dispatching \<longrightarrow>
       card (dom (pending_view V (cs_db (ls_state ls')))) < card (dom (pending_view V (cs_db (ls_state ls))))"
proof -
  let ?s = "ls_state ls"
  obtain r d fr where p: "pop_ready (ce_frontier C) now 128 (saturated cli (ls_in_flight ls)) (cs_db ?s, cs_frontier ?s) =
      Some (r, d, fr)"
    "\<forall>job. r = Inr (Some job) \<longrightarrow> card (dom (pending_view V d)) < card (dom (pending_view V (cs_db ?s)))"
    by (rule pop_ready_total [OF assms])
  have "\<exists>ev ls'. dispatch_one C cli now ls = Some (ev, ls')"
    using p(1) by (auto simp: dispatch_one_def Let_def split: sum.split option.split)
  then obtain ev ls' where d: "dispatch_one C cli now ls = Some (ev, ls')" by blast
  moreover have "ls_phase ls' = Dispatching \<and> ls_phase ls = Dispatching \<longrightarrow>
      card (dom (pending_view V (cs_db (ls_state ls')))) < card (dom (pending_view V (cs_db ?s)))"
    using d p by (auto simp: dispatch_one_def Let_def split: if_splits sum.splits option.splits)
  ultimately show thesis by (rule that)
qed

lemma can_end_dispatching:
  assumes "kv_ok (fe_kv (ce_frontier C)) V"
  shows "ls_phase ls = Dispatching \<Longrightarrow> in_flight_ok ls \<Longrightarrow> can_end C cli S ls"
proof (induction "card (dom (pending_view V (cs_db (ls_state ls))))" arbitrary: ls rule: less_induct)
  case less
  obtain ev ls' where d: "dispatch_one C cli 0 ls = Some (ev, ls')"
    "ls_phase ls' = Dispatching \<and> ls_phase ls = Dispatching \<longrightarrow>
       card (dom (pending_view V (cs_db (ls_state ls')))) < card (dom (pending_view V (cs_db (ls_state ls))))"
    by (rule dispatch_one_total [OF assms])
  have "can_end C cli S ls'"
  proof (cases "alive ls'")
    case True
    note ok = in_flight_ok_dispatch [OF d(1) True less.prems]
    from d(1) True less.prems(1) show ?thesis
    proof (cases rule: dispatch_one_cases)
      case (homeless d fr job)
      then show ?thesis using less.hyps d(2) ok less.prems(1) by simp
    next
      case (go d fr job host rules)
      then show ?thesis using less.hyps d(2) ok less.prems(1) by simp
    qed (use ok in \<open>auto intro!: can_end_publishing\<close>)
  qed (use not_alive can_end_here in blast)
  then show ?case by (rule can_end_step [OF crawl_step.dispatches [OF less.prems(1) d(1)]])
qed

lemma can_end_deciding:
  assumes "kv_ok (fe_kv (ce_frontier C)) V" "ls_phase ls = Deciding" "in_flight_ok ls"
  shows "can_end C cli S ls"
proof -
  have "in_flight_ok (decide cli ls)"
    by (rule in_flight_ok_same [OF assms(3)]) (simp_all add: visits_def under_way_def decide_def Let_def)
  moreover have "ls_phase (decide cli ls) \<in> {Stopping, Dispatching}" by (simp add: decide_def Let_def)
  ultimately have "can_end C cli S (decide cli ls)" using can_end_stopping can_end_dispatching [OF assms(1)] by blast
  then show ?thesis by (rule can_end_step [OF crawl_step.decides [OF assms(2)]])
qed

lemma can_end_absorbing:
  assumes "kv_ok (fe_kv (ce_frontier C)) V"
  shows "ls_phase ls = Absorbing \<Longrightarrow> in_flight_ok ls \<Longrightarrow> can_end C cli S ls"
proof (induction "length (ls_channel ls)" arbitrary: ls rule: less_induct)
  case less
  show ?case
  proof (cases "ls_channel ls")
    case Nil
    have "in_flight_ok (ls \<lparr> ls_phase := Deciding \<rparr>)"
      by (rule in_flight_ok_same [OF less.prems(2)]) (simp_all add: visits_def under_way_def)
    from can_end_deciding [OF assms _ this] have "can_end C cli S (ls \<lparr> ls_phase := Deciding \<rparr>)" by simp
    then show ?thesis by (rule can_end_step [OF crawl_step.drained [OF less.prems(1) Nil]])
  next
    case (Cons out rest)
    let ?ls = "absorb_one C S 0 out ls"
    note s = crawl_step.absorbs [OF less.prems(1) Cons, of C cli S 0]
    have "can_end C cli S ?ls"
    proof (cases "alive ?ls")
      case True
      from in_flight_ok_step [OF s less.prems(2) True] absorb_one_sel(2,4) [OF Cons, of C S 0] True less.hyps [of ?ls] Cons
      show ?thesis by (auto simp: alive_def)
    qed (use not_alive can_end_here in blast)
    then show ?thesis by (rule can_end_step [OF s])
  qed
qed

lemma can_end_ok:
  assumes "kv_ok (fe_kv (ce_frontier C)) V" "in_flight_ok ls"
  shows "can_end C cli S ls"
  using can_end_absorbing [OF assms(1) _ assms(2)] can_end_deciding [OF assms(1) _ assms(2)]
    can_end_dispatching [OF assms(1) _ assms(2)] can_end_publishing [OF _ assms(2)] can_end_waiting [OF _ assms(2)]
    can_end_stopping
  by (cases "ls_phase ls") (auto intro: can_end_here)

section \<open>The properties\<close>

text \<open>C10: a crawl that has been told to stop, by a signal or by its page budget, ends: it cannot turn
  for ever, but for the turns of its timer while a visit is still running. Whatever is dispatched is
  waited for, what has finished is absorbed, and nothing new is begun.\<close>

theorem shutdown_terminates:
  "wf {(ls', ls). in_flight_ok ls \<and> ls_shutting_down ls \<and> (\<exists>ev. crawl_step C cli S ls ev ls') \<and>
     \<not> (ls_phase ls = Waiting \<and> ls_tasks ls \<noteq> [] \<and> ls' = ls \<lparr> ls_phase := Absorbing \<rparr>)}"
  using shutdown_turns_wf [of C cli S] unfolding shutdown_turns_def idle_turn_def .

text \<open>C11: no deadlock: from every state a crawl reaches, whatever the network, the clock, the database
  and the disk have answered so far, it can come to its end.\<close>

theorem crawl_can_end:
  assumes "crawl_run C cli S ls0 evs ls" "loop_start C V ls0" "running ls"
  shows "\<exists>evs' ls' r. crawl_path C cli S ls evs' ls' \<and> ls_phase ls' = Ended r"
proof -
  have inv: "loop_inv C V cli ls" by (rule loop_inv_run [OF assms(1) loop_start_inv [OF assms(2)] running_alive [OF assms(3)]])
  have "kv_ok (fe_kv (ce_frontier C)) V"
    using frontier_env_okD(1) loop_invD(1) [OF inv] by (auto simp: crawl_ok_def)
  from can_end_ok [OF this loop_invD(2) [OF inv], of cli S] obtain evs' ls' where
    "crawl_path C cli S ls evs' ls'" "\<not> running ls'" by (auto simp: can_end_def)
  moreover from this(2) obtain r where "ls_phase ls' = Ended r" by (auto simp: running_def split: phase.splits)
  ultimately show ?thesis by blast
qed

end
