(* ===== verification/Crawl_Example.thy ===== *)
theory Crawl_Example
  imports Crawl_Archive Crawl_Schedule Crawl_Ends
begin

text \<open>
  A whole crawl of one page, named by a seed file, over concrete functions for everything that is not the program's own:
  the URL and database models of \<open>Url\<close> and \<open>Db\<close>, a network that has no \<open>robots.txt\<close> and answers
  every later request with the same short page, a tokenizer that reports no elements, and a file system on which every call
  succeeds. The theorems of the crawl are applied to it.
\<close>

section \<open>The environment\<close>

definition ex_url :: rstr where
  "ex_url = str ''http://a.b/x''"

definition ex_final :: rstr where
  "ex_final = str ''http://a.b/''"

definition ex_job :: crawl_job where
  "ex_job = \<lparr> job_url = ex_url, job_depth = 0 \<rparr>"

definition ex_parsed :: parsed_page where
  "ex_parsed = \<lparr> pp_title = ex_final, pp_text = [], pp_links = [], pp_meta_description = None \<rparr>"

definition ex_doc :: document where
  "ex_doc = document_new (\<lambda>_. 0) ex_final ex_final [] 0 []"

definition ex_codec :: "document codec" where
  "ex_codec = \<lparr> encode = (\<lambda>d. if d = ex_doc then Inr [7] else Inl ''unsupported''), decode = (\<lambda>_. Inr ex_doc) \<rparr>"

definition ex_net :: "nat fetch_env" where
  "ex_net = toy_fetch_env (\<lambda>n. if n = 0 then toy_response 404 [] else toy_response 200 (str ''hi''))"

definition ex_visit_env :: "nat visit_env" where
  "ex_visit_env = \<lparr> ve_fetch = ex_net, ve_config = fetch_config_default [], ve_rewriter = (\<lambda>_. ([], None)) \<rparr>"

definition ex_env :: "(muri, mini_db, rstr list, nat) crawl_env" where
  "ex_env =
     \<lparr> ce_frontier = mini_frontier_env,
       ce_robots = \<lparr> encode = (\<lambda>_. Inr [1]), decode = (\<lambda>_. Inl ''unsupported'') \<rparr>,
       ce_bloom = list_bloom, ce_filter = list_bloom_codec,
       ce_storage = toy_storage \<lparr> se_codec := ex_codec \<rparr>,
       ce_visit = ex_visit_env \<rparr>"

definition ex_cli :: crawler_cli where
  "ex_cli =
     \<lparr> cc_seeds = [], cc_seed_file = Some (str ''e'', str ''l''), cc_max_depth = 1, cc_workers = 2, cc_per_host_concurrency = 1,
       cc_politeness_delay_ms = 10, cc_max_pages = 1, cc_expected_urls = 10, cc_rocksdb_dir = str ''r'',
       cc_warc_dir = str ''w'', cc_spool_dir = str ''s'', cc_bloom_path = (str ''d'', str ''b''),
       cc_stats_path = (str ''d'', str ''j''), cc_block_cache_mb = 32, cc_write_buffer_mb = 16, cc_max_body_mib = 8,
       cc_segment_mib = 8, cc_user_agent = [], cc_stay_on_site = False, cc_allow_host = [],
       cc_drop_offsite_redirects = False \<rparr>"

definition ex_rocks :: "mini_db rocks_open" where
  "ex_rocks = (\<lambda>_ _ _. Inr [])"

definition ex_client :: client_api where
  "ex_client = \<lparr> cl_header_ok = (\<lambda>_. True), cl_build = (\<lambda>_ _ _ _ _ _. None) \<rparr>"

definition ex_seed_text :: rstr where
  "ex_seed_text = str ''# one page'' @ [10] @ ex_url @ [10]"

definition ex_disk :: fs where
  "ex_disk = \<lparr> fs_files = [((str ''e'', str ''l''), ex_seed_text)], fs_dirs = [], fs_answers = [], fs_write_faults = [], fs_read_answers = [] \<rparr>"

lemma ex_env_sel [simp]:
  "ce_frontier ex_env = mini_frontier_env" "ce_bloom ex_env = list_bloom" "ce_filter ex_env = list_bloom_codec"
  "ce_storage ex_env = toy_storage \<lparr> se_codec := ex_codec \<rparr>" "fe_url mini_frontier_env = mini_url"
  "fe_kv mini_frontier_env = mini_kv" "ce_visit ex_env = ex_visit_env"
  by (simp_all add: ex_env_def mini_frontier_env_def)

lemma ex_fresh_db: "frontier_db_ok mini_frontier_env mini_view []"
  by (simp add: frontier_db_ok_def stored_sequence_def pending_view_def hosts_view_def mini_view_def dom_def)

lemma ex_opens_db: "opens_db ex_rocks ex_cli ex_disk = (Inr [], ex_disk \<lparr> fs_dirs := [str ''r''] \<rparr>)"
  by (simp add: opens_db_def db_open_def io_def create_dir_all_def fs_call_def ex_disk_def ex_rocks_def ex_cli_def Let_def
      del: str_simps)

lemma ex_collect_seeds:
  "collect_seeds ex_cli (ex_disk \<lparr> fs_dirs := [str ''r''] \<rparr>) = (Inr [ex_url], ex_disk \<lparr> fs_dirs := [str ''r''] \<rparr>)"
proof -
  let ?f = "ex_disk \<lparr> fs_dirs := [str ''r''] \<rparr>"
  have t: "utf8 ex_seed_text = ex_seed_text" "utf8_lossy ex_seed_text = ex_seed_text" "seed_lines ex_seed_text = [ex_url]"
    by code_simp+
  have "file_read (str ''e'', str ''l'') ?f = (Inr ex_seed_text, ?f)"
    by (simp add: file_read_def fs_call_def ex_disk_def fs_file_def del: str_simps)
  then have "read_to_string (str ''e'', str ''l'') ?f = (Inr ex_seed_text, ?f)"
    by (simp add: read_to_string_def t del: str_simps)
  then show ?thesis
    by (simp add: collect_seeds_def ex_cli_def io_def t(3) del: str_simps)
qed

lemma ex_begins_fresh: "begins_fresh ex_rocks ex_env mini_view ex_cli ex_disk 1"
proof -
  have "sound_db mini_frontier_env mini_view 1 []" "pending_view mini_view [] = Map.empty"
    using ex_fresh_db
    by (simp_all add: sound_db_def stored_sequence_def pending_view_def hosts_view_def mini_view_def
        u64_max_def fun_eq_iff dom_def)
  then show ?thesis
    using mini_frontier_env_ok mini_url_ok
    by (simp add: begins_fresh_def begins_sound_def ex_opens_db ex_collect_seeds list_bloom_ok del: str_simps)
qed

section \<open>The start\<close>

definition ex_db0 :: mini_db where
  "ex_db0 = [((CfMeta, meta_host_count), be_bytes 8 0), ((CfMeta, meta_pending_count), be_bytes 8 0)]"

definition ex_db1 :: mini_db where
  "ex_db1 =
     [((CfMeta, meta_host_count), be_bytes 8 1), ((CfFrontierHosts, str ''a.b''), [0, 0]),
      ((CfMeta, meta_pending_count), be_bytes 8 1), ((CfMeta, meta_frontier_seq), be_bytes 8 1),
      ((CfFrontierPending, frontier_key (str ''a.b'') 1), 0 # ex_url)] @ ex_db0"

lemma ex_frontier_open:
  "frontier_open mini_frontier_env [] = (Inr \<lparr> fr_sequence = 0, fr_pending = 0, fr_hosts = 0 \<rparr>, ex_db0)"
  by code_simp

lemma ex_push:
  "frontier_push mini_frontier_env ex_job (ex_db0, \<lparr> fr_sequence = 0, fr_pending = 0, fr_hosts = 0 \<rparr>) =
     (Inr (), ex_db1, \<lparr> fr_sequence = 1, fr_pending = 1, fr_hosts = 1 \<rparr>)"
  by (simp add: frontier_push_def Let_def) code_simp

lemma ex_seed: "normalize_seed mini_url ex_url = Inr ex_url"
  by code_simp

definition ex_seen :: "rstr list \<Rightarrow> nat \<Rightarrow> rstr list seen_urls" where
  "ex_seen known n = \<lparr> seen_config = \<lparr> expected_urls = 10, false_positive_rate = 1 / 100 \<rparr>, seen_filter = known,
     seen_path = (str ''d'', str ''b''), seen_inserted = n \<rparr>"

definition ex_state ::
    "mini_db \<Rightarrow> nat \<Rightarrow> archive_writer \<Rightarrow> fs \<Rightarrow> crawl_stats \<Rightarrow> (mini_db, rstr list) crawl_state" where
  "ex_state d pending w f stats =
     \<lparr> cs_db = d, cs_frontier = \<lparr> fr_sequence = 1, fr_pending = pending, fr_hosts = 1 \<rparr>,
       cs_seen = ex_seen [ex_url] 1, cs_writer = w, cs_fs = f, cs_stats = stats \<rparr>"

definition ex_loop :: "(mini_db, rstr list) crawl_state \<Rightarrow> phase \<Rightarrow> (mini_db, rstr list) loop_state" where
  "ex_loop s ph = \<lparr> ls_state = s, ls_in_flight = (\<lambda>_. None), ls_total = 0, ls_shutting_down = False,
     ls_tasks = [], ls_channel = [], ls_phase = ph \<rparr>"

definition ex_settings :: settings where
  "ex_settings = crawl_settings mini_url ex_cli [ex_url]"

abbreviation ex_config :: storage_config where
  "ex_config \<equiv> crawl_storage_config ex_cli"

abbreviation ex_queued :: crawl_stats where
  "ex_queued \<equiv> crawl_stats_default \<lparr> cr_queued := 1 \<rparr>"

lemma ex_begin:
  obtains w f where
    "crawl_begin ex_rocks ex_client [] ex_env ex_cli ex_disk =
       (Inr (ex_settings, ex_loop (ex_state ex_db1 1 w f ex_queued) Absorbing), f)"
    "live ex_config (w, f)"
proof -
  let ?f1 = "ex_disk \<lparr> fs_dirs := [str ''r''] \<rparr>"
  let ?fr = "\<lparr> fr_sequence = 0, fr_pending = 0, fr_hosts = 0 \<rparr>"
  have db: "db_open ex_rocks (cc_rocksdb_dir ex_cli) cfg ex_disk = (Inr [], ?f1)" for cfg
    by (simp add: db_open_def io_def create_dir_all_def fs_call_def ex_disk_def ex_rocks_def ex_cli_def Let_def
        del: str_simps)
  note seeds = ex_collect_seeds
  have seen: "seen_open list_bloom list_bloom_codec (cc_bloom_path ex_cli)
      \<lparr> expected_urls = cc_expected_urls ex_cli, false_positive_rate = 1 / 100 \<rparr> ?f1 = (Inr (ex_seen [] 0), ?f1)"
  proof -
    have "str ''d'' \<noteq> str ''e''" by simp
    then show ?thesis
      by (simp add: seen_open_def file_read_def fs_call_def ex_disk_def fs_file_def dedup_fresh_def list_bloom_def
          ex_seen_def ex_cli_def del: str_simps)
  qed
  have quiet: "fs_answers ?f1 = []" "fs_write_faults ?f1 = []"
    "se_zstd_new (toy_storage \<lparr> se_codec := ex_codec \<rparr>) (sc_compression_level ex_config) = None"
    by (simp_all add: ex_disk_def toy_storage_def)
  obtain w f where o: "archive_open (toy_storage \<lparr> se_codec := ex_codec \<rparr>) ex_config ?f1 = (Inr w, f)"
    "live ex_config (w, f)"
    using archive_open_quiet [OF quiet] by blast
  have client: "fetcher_new ex_client cfg = Inr ()" for cfg by (simp add: fetcher_new_def ex_client_def)
  have queue: "queue_seeds ex_env [ex_url] \<lparr> cs_db = ex_db0, cs_frontier = ?fr, cs_seen = ex_seen [] 0,
      cs_writer = w, cs_fs = f, cs_stats = crawl_stats_default \<rparr> = (Inr (), ex_state ex_db1 1 w f ex_queued)"
    using ex_push
    by (simp add: ex_seed offer_url_def check_and_insert_def push_job_def count_up_def list_bloom_def ex_seen_def
        ex_state_def ex_job_def wrap_add_u64_def crawl_stats_default_def del: str_simps)
  show thesis
    by (rule that [OF _ o(2)])
      (simp add: crawl_begin_def db seeds ex_frontier_open seen o(1) client queue Let_def ex_settings_def ex_loop_def
        ex_state_def del: str_simps One_nat_def queue_seeds.simps)
qed

section \<open>The visit\<close>

definition ex_rules :: robots_rules where
  "ex_rules = allow_all"

definition ex_out :: outcome where
  "ex_out = \<lparr> oc_host = str ''a.b'', oc_job = ex_job, oc_rules = Some ex_rules, oc_rules_ttl_ms = Some cache_ttl_ms,
     oc_crawl_delay_s = None, oc_sitemaps = [], oc_result = Inr (VisitedPage toy_page ex_parsed) \<rparr>"

lemma ex_fetch:
  assumes "0 < n"
  shows "fetch_inner ex_net (fetch_config_default []) url req 0 n = (Inr toy_page, [], n + 1)"
proof -
  let ?resp = "toy_response 200 (str ''hi'')"
  have lossy: "utf8_lossy [104, 105] = [104, 105]" by code_simp
  have "handle_response ex_net (fetch_config_default []) req ?resp = Inr toy_page" for req
    unfolding ex_net_def
    by (simp add: lossy toy_response_def handle_response_def is_html_content_type_def decode_body_def
        gunzip_if_compressed_def gzip_magic_def charset_of_def fetch_config_default_def toy_page_def Let_def)
  moreover have "fn_get ex_net url n = (Responded ?resp, n + 1)"
    using assms by (simp add: ex_net_def toy_fetch_env_def)
  ultimately have "fetch_attempt ex_net (fetch_config_default []) url req n = (Inr toy_page, n + 1)"
    by (simp add: fetch_attempt_def)
  from fetch_inner_step [OF this, of 0] show ?thesis by simp
qed

lemma ex_visit: "visit mini_url ex_visit_env ex_job (str ''a.b'') None None 0 = (ex_out, 2)"
proof -
  let ?N = ex_visit_env
  have N: "ve_fetch ?N = ex_net" "ve_config ?N = fetch_config_default []" "ve_rewriter ?N = (\<lambda>_. ([], None))"
    by (simp_all add: ex_visit_env_def)
  have "fetch_attempt ex_net (fetch_config_default []) url False 0 = (Inl (failure_terminal (HttpStatus 404)), 1)" for url
    by (simp add: fetch_attempt_def ex_net_def toy_fetch_env_def toy_response_def handle_response_def
        is_retryable_status_def Let_def)
  from fetch_inner_step [OF this, where attempt = 0]
  have robots: "fetch_robots ?N url 0 = (Inr None, 1)" for url
    by (simp add: fetch_robots_def N fetch_text_def failure_terminal_def)
  obtain u where "robots_url mini_url ex_url = Some u"
  proof -
    have "robots_url mini_url ex_url \<noteq> None" by code_simp
    then show ?thesis using that by blast
  qed
  then have learn: "learn_rules mini_url ?N ex_job None 0 = (Some (allow_all, cache_ttl_ms, None), 1)"
    using robots [of u] by (simp add: learn_rules_def ex_job_def)
  have url: "canonical_url mini_url ex_final = Some ex_final" "classify mini_url ex_final None = KindPage" by code_simp+
  have sel: "fp_final_url toy_page = ex_final" "fp_content_type toy_page = None"
    by (simp_all add: toy_page_def ex_final_def)
  have "canonical_final_url mini_url toy_page = toy_page"
    by (simp add: canonical_final_url_def sel url(1))
  moreover have "parse_html mini_url (\<lambda>_. ([], None)) body ex_final = Inr ex_parsed" for body
    by (simp add: parse_html_def parse_start_def collapse_whitespace_def resolve_links_def ex_parsed_def Let_def
        del: str_simps split: option.split)
  moreover have "fetch ex_net (fetch_config_default []) ex_url 1 = (Inr toy_page, [], 2)"
    using ex_fetch [of 1] by (simp add: fetch_def)
  ultimately have page: "visit_page mini_url ?N ex_url 1 = (Inr (VisitedPage toy_page ex_parsed), 2)"
    by (simp add: visit_page_def N sel url(2))
  have "robots_allows allow_all (request_path mini_url ex_url)" by code_simp
  moreover have "job_url ex_job = ex_url" "sitemaps allow_all = []" by (simp_all add: ex_job_def allow_all_def)
  ultimately show ?thesis
    by (simp add: visit_def learn page ex_out_def ex_rules_def del: str_simps One_nat_def)
qed

section \<open>Dispatching\<close>

definition ex_db2 :: mini_db where
  "ex_db2 =
     ((CfMeta, meta_pending_count), be_bytes 8 0) #
     filter (\<lambda>e. fst e \<noteq> (CfFrontierPending, frontier_key (str ''a.b'') 1)) ex_db1"

lemma ex_forget:
  "frontier_forget mini_frontier_env (frontier_key (str ''a.b'') 1) (ex_db1, \<lparr> fr_sequence = 1, fr_pending = 1, fr_hosts = 1 \<rparr>) =
     (Inr (), ex_db2, \<lparr> fr_sequence = 1, fr_pending = 0, fr_hosts = 1 \<rparr>)"
  by (simp add: frontier_forget_def Let_def) code_simp

lemma ex_pop:
  assumes "\<not> skip (str ''a.b'')"
  shows "pop_ready mini_frontier_env 0 128 skip (ex_db1, \<lparr> fr_sequence = 1, fr_pending = 1, fr_hosts = 1 \<rparr>) =
     Some (Inr (Some ex_job), ex_db2, \<lparr> fr_sequence = 1, fr_pending = 0, fr_hosts = 1 \<rparr>)"
proof -
  let ?E = mini_frontier_env and ?key = "frontier_key (str ''a.b'') 1"
  have "pop_scan ?E ex_db1 None = [Inr (?key, 0 # ex_url)]" "frontier_key_host ?key = Some (str ''a.b'')"
    "utf8_lossy (str ''a.b'') = str ''a.b''" "host_state_of ?E ex_db1 (str ''a.b'') = Inr (Some host_state_default)"
    "decode (fe_job ?E) (0 # ex_url) = Inr ex_job" "next_allowed_at_ms host_state_default = 0"
    "db_cf (fe_kv ?E) ex_db1 CfFrontierPending = Inr CfFrontierPending"
    by code_simp+
  then show ?thesis using assms ex_forget by (simp add: pop_ready_def pop_loop_step del: str_simps)
qed

lemma ex_pop_none:
  "pop_ready mini_frontier_env 0 128 skip (ex_db2, fr) = Some (Inr None, ex_db2, fr)"
proof -
  let ?E = mini_frontier_env
  have "pop_scan ?E ex_db2 None = []" "db_cf (fe_kv ?E) ex_db2 CfFrontierPending = Inr CfFrontierPending"
    by code_simp+
  then show ?thesis by (simp add: pop_ready_def pop_loop_step)
qed


section \<open>The run\<close>

text \<open>The loop while the visit of the page is under way.\<close>

definition ex_busy ::
    "(mini_db, rstr list) crawl_state \<Rightarrow> visit_task list \<Rightarrow> outcome list \<Rightarrow> phase \<Rightarrow> (mini_db, rstr list) loop_state" where
  "ex_busy s tasks outs ph = \<lparr> ls_state = s, ls_in_flight = [str ''a.b'' \<mapsto> 1], ls_total = 1, ls_shutting_down = False,
     ls_tasks = tasks, ls_channel = outs, ls_phase = ph \<rparr>"

abbreviation ex_done :: crawl_stats where
  "ex_done \<equiv> crawl_stats_default \<lparr> cr_queued := 1, cr_fetched := 1, cr_indexed := 1 \<rparr>"

lemma ex_loop_sel [simp]:
  "ls_phase (ex_loop s ph) = ph" "ls_channel (ex_loop s ph) = []" "ex_loop s ph \<lparr> ls_phase := ph' \<rparr> = ex_loop s ph'"
  "ls_phase (ex_busy s ts outs ph) = ph" "ls_channel (ex_busy s ts outs ph) = outs" "ls_tasks (ex_busy s ts outs ph) = ts"
  "ls_total (ex_busy s ts outs ph) = 1" "ls_state (ex_busy s ts outs ph) = s"
  by (simp_all add: ex_loop_def ex_busy_def)

lemma ex_cli_sel [simp]:
  "cc_max_pages ex_cli = 1" "cc_workers ex_cli = 2" "cc_per_host_concurrency ex_cli = 1"
  by (simp_all add: ex_cli_def)

lemma ex_dispatch:
  "dispatch_one ex_env ex_cli 0 (ex_loop (ex_state ex_db1 1 w f ex_queued) Dispatching) =
     Some (Dispatched ex_job, ex_busy (ex_state ex_db2 0 w f ex_queued) [(ex_job, str ''a.b'', None, None)] [] Dispatching)"
proof -
  have host: "host_of mini_url ex_url = Some (str ''a.b'')" by code_simp
  have job: "job_url ex_job = ex_url" by (simp add: ex_job_def)
  have "map_of ex_db2 (CfRobots, utf8 (str ''a.b'')) = None" by code_simp
  then have cache: "cache_get mini_kv (ce_robots ex_env) ex_db2 (str ''a.b'') 0 = Inr None"
    by (simp add: cache_get_def db_get_def db_cf_def mini_kv_def del: str_simps)
  have pop: "pop_ready mini_frontier_env 0 128 (saturated ex_cli (\<lambda>_. None))
       (ex_db1, \<lparr> fr_sequence = 1, fr_pending = 1, fr_hosts = 1 \<rparr>) =
     Some (Inr (Some ex_job), ex_db2, \<lparr> fr_sequence = 1, fr_pending = 0, fr_hosts = 1 \<rparr>)"
    by (rule ex_pop) (simp add: saturated_def)
  show ?thesis
    by (simp add: dispatch_one_def ex_loop_def ex_busy_def ex_state_def pop host job cache Let_def
        del: str_simps One_nat_def)
qed

lemma ex_dispatch_none:
  "dispatch_one ex_env ex_cli 0 (ex_busy (ex_state ex_db2 0 w f stats) [] outs Dispatching) =
     Some (Quiet, ex_busy (ex_state ex_db2 0 w f stats) [] outs Publishing)"
  by (simp add: dispatch_one_def ex_busy_def ex_state_def ex_pop_none Let_def del: str_simps One_nat_def)

lemma ex_page_document: "page_document ex_env 0 toy_page ex_parsed = ex_doc"
  by (simp add: page_document_def ex_doc_def ex_parsed_def toy_page_def ex_final_def toy_storage_def)

lemma ex_onsite:
  "landed_offsite ex_env ex_settings (VisitedPage toy_page ex_parsed) = False"
  "st_drop_offsite_redirects ex_settings = False" "pp_links ex_parsed = []"
proof -
  have "scope_allows mini_url (st_scope ex_settings) ex_final" by code_simp
  then show "landed_offsite ex_env ex_settings (VisitedPage toy_page ex_parsed) = False"
    by (simp add: landed_offsite_def final_url_of_def toy_page_def ex_final_def)
qed (simp_all add: ex_settings_def crawl_settings_def ex_cli_def ex_parsed_def)

lemma ex_absorb:
  assumes "live ex_config (w, f)"
  obtains d w' f' where "absorb ex_env ex_settings 0 ex_out (ex_state ex_db2 0 w f ex_queued) =
      (Inr (), ex_state d 0 w' f' ex_done)" "live ex_config (w', f')"
proof -
  let ?S = "toy_storage \<lparr> se_codec := ex_codec \<rparr>"
  have "se_zstd_new ?S (sc_compression_level ex_config) = None" by (simp add: toy_storage_def)
  from write_warc_record_quiet [OF assms this, of toy_page ex_doc] obtain w1 f1 where
    w1: "write_warc_record ?S toy_page ex_doc (w, f) = (Inr (), w1, f1)" "live ex_config (w1, f1)" by blast
  have "frame_of (se_codec ?S) ex_doc \<noteq> None" by (simp add: frame_of_def ex_codec_def u32_max_def)
  from write_spool_quiet [OF w1(2) this] obtain w2 f2 where
    w2: "write_spool ?S ex_doc (w1, f1) = (Inr (), w2, f2)" "live ex_config (w2, f2)" by blast
  have page: "write_page ?S toy_page ex_doc (w, f) = (Inr (), w2, f2)" by (simp add: write_page_def w1 w2)
  have "\<exists>d1. cache_put_for mini_kv (ce_robots ex_env) (str ''a.b'') ex_rules 0 cache_ttl_ms ex_db2 = (Inr (), d1)"
    by (simp add: cache_put_for_def ex_env_def db_put_def db_cf_def mini_kv_def del: str_simps)
  then obtain d1 where d1: "cache_put_for mini_kv (ce_robots ex_env) (str ''a.b'') ex_rules 0 cache_ttl_ms ex_db2 = (Inr (), d1)"
    by blast
  have "\<exists>d2. defer_host mini_frontier_env (str ''a.b'') until 0 d1 = (Inr (), d2)" for until
    by (simp add: defer_host_def set_host_state_def mini_frontier_env_def mini_host_codec_def db_put_def db_cf_def
        mini_kv_def del: str_simps)
  then obtain d2 where d2: "defer_host mini_frontier_env (str ''a.b'') (defer_until ex_settings 0 None) 0 d1 = (Inr (), d2)"
    by blast
  have out: "oc_host ex_out = str ''a.b''" "oc_job ex_out = ex_job" "oc_rules ex_out = Some ex_rules"
    "oc_rules_ttl_ms ex_out = Some cache_ttl_ms" "oc_crawl_delay_s ex_out = None" "oc_sitemaps ex_out = []"
    "oc_result ex_out = Inr (VisitedPage toy_page ex_parsed)" by (simp_all add: ex_out_def)
  show thesis
    by (rule that [OF _ w2(2)])
      (simp add: absorb_def learn_robots_def defer_visited_def absorb_visited_def absorb_page_def archive_page_def
        ex_page_document page d1 d2 out ex_onsite ex_state_def count_up_def wrap_add_u64_def crawl_stats_default_def Let_def
        del: str_simps One_nat_def)
qed


lemma replace_file_quiet:
  assumes "quiet cfg s" "fst p \<noteq> []"
  obtains s' where "replace_file p ext bs s = (Inr (), s')" "quiet cfg s'"
proof -
  have "\<exists>s'. replace_file p ext bs s = (Inr (), s') \<and> quiet cfg s'"
    using assms
    by (auto simp: replace_file_def create_dir_all_def file_write_def fs_rename_def fs_call_def Let_def quiet_def
      fs_delete_sel)
  then show thesis using that by blast
qed

lemma ex_stop:
  assumes "live ex_config (w, f)"
  obtains s where "shut_down ex_env ex_cli 0 (ex_state d 0 w f ex_done) = (Inr ex_done, s)"
proof -
  let ?S = "toy_storage \<lparr> se_codec := ex_codec \<rparr>"
  obtain w1 f1 where c: "seal_segment (w, f) = (Inr (), w1, f1)" "quiet ex_config f1" "aw_config w1 = ex_config"
    "aw_warc w1 = aw_warc w" using seal_segment_quiet [OF assms] by blast
  obtain name acc where "aw_warc w1 = Some ((sc_warc_dir ex_config, name), acc)" using c assms by (auto simp: live_def)
  from finish_warc_quiet [OF c(2,3) this] obtain f2 where
    f2: "finish_warc ?S (w1, f1) = (Inr (), w1 \<lparr> aw_warc := None \<rparr>, f2)" "quiet ex_config f2" by blast
  have dir: "fst (str ''d'', name) \<noteq> []" for name by simp
  obtain f3 where f3: "replace_file (str ''d'', str ''b'') (str ''bloom.tmp'') ex_url f2 = (Inr (), f3)" "quiet ex_config f3"
    by (rule replace_file_quiet [OF f2(2) dir])
  obtain f4 where f4: "replace_file (str ''d'', str ''j'') (str ''json.tmp'') (utf8 (stats_json ex_done 0 1 0)) f3 = (Inr (), f4)"
    by (rule replace_file_quiet [OF f3(2) dir])
  show thesis
    by (rule that)
      (simp add: shut_down_def seal_archive_def archive_seal_def c(1) f2(1) save_seen_def seen_save_def ex_state_def
        ex_seen_def list_bloom_codec_def f3(1) write_progress_def write_stats_file_def ex_cli_def f4
        del: str_simps One_nat_def)
qed

abbreviation ex_task :: visit_task where
  "ex_task \<equiv> (ex_job, str ''a.b'', None, None)"

abbreviation ex_loop0 :: "archive_writer \<Rightarrow> fs \<Rightarrow> (mini_db, rstr list) loop_state" where
  "ex_loop0 w f \<equiv> ex_loop (ex_state ex_db1 1 w f ex_queued) Absorbing"

abbreviation ex_taken :: "archive_writer \<Rightarrow> fs \<Rightarrow> (mini_db, rstr list) crawl_state" where
  "ex_taken w f \<equiv> ex_state ex_db2 0 w f ex_queued"

lemma ex_run_dispatch:
  "crawl_run ex_env ex_cli ex_settings (ex_loop0 w f) [Quiet, Quiet, Dispatched ex_job]
     (ex_busy (ex_taken w f) [ex_task] [] Dispatching)"
proof -
  let ?run = "crawl_run ex_env ex_cli ex_settings (ex_loop0 w f)" and ?s = "ex_state ex_db1 1 w f ex_queued"
  have room: "roomy (ex_loop ?s ph)" for ph by (simp add: roomy_def ex_loop_def)
  have "crawl_step ex_env ex_cli ex_settings (ex_loop0 w f) Quiet (ex_loop ?s Deciding)"
    using crawl_step.drained [of "ex_loop0 w f" ex_env ex_cli ex_settings] by simp
  from crawl_run.steps [OF crawl_run.starts room this]
  have r1: "?run [Quiet] (ex_loop ?s Deciding)" by simp
  have "decide ex_cli (ex_loop ?s Deciding) = ex_loop ?s Dispatching"
    by (simp add: decide_def ex_loop_def ex_state_def crawl_stats_default_def)
  then have "crawl_step ex_env ex_cli ex_settings (ex_loop ?s Deciding) Quiet (ex_loop ?s Dispatching)"
    using crawl_step.decides [of "ex_loop ?s Deciding" ex_env ex_cli ex_settings] by simp
  from crawl_run.steps [OF r1 room this]
  have r2: "?run [Quiet, Quiet] (ex_loop ?s Dispatching)" by simp
  have "crawl_step ex_env ex_cli ex_settings (ex_loop ?s Dispatching) (Dispatched ex_job)
     (ex_busy (ex_taken w f) [ex_task] [] Dispatching)"
    by (rule crawl_step.dispatches [OF _ ex_dispatch]) (simp add: ex_loop_def)
  from crawl_run.steps [OF r2 room this] show ?thesis by simp
qed

lemma ex_run_absorb:
  assumes "live ex_config (w, f)"
  obtains d w' f' where
    "crawl_run ex_env ex_cli ex_settings (ex_loop0 w f)
       [Quiet, Quiet, Dispatched ex_job, Finished ex_out, Quiet, Quiet, Absorbed 0 ex_out]
       (ex_loop (ex_state d 0 w' f' ex_done) Absorbing)" "live ex_config (w', f')"
proof -
  let ?run = "crawl_run ex_env ex_cli ex_settings (ex_loop0 w f)" and ?s = "ex_taken w f"
  let ?step = "crawl_step ex_env ex_cli ex_settings"
  have "oc_sitemaps ex_out = []" "outcome_links ex_out = []"
    by (simp_all add: ex_out_def outcome_links_def ex_parsed_def)
  then have room: "roomy (ex_busy ?s ts [] ph)" "roomy (ex_busy ?s ts [ex_out] ph)" for ts ph
    by (simp_all add: roomy_def ex_busy_def has_room_def outcome_urls_def ex_state_def u64_max_def)
  have "?step (ex_busy ?s [ex_task] [] Dispatching) (Finished ex_out) (ex_busy ?s [] [ex_out] Dispatching)"
    using crawl_step.visit_ends [of "ex_busy ?s [ex_task] [] Dispatching" "[]" ex_job "str ''a.b''" None None "[]" ex_env 0
        ex_out 2 ex_cli ex_settings]
    by (simp add: running_def ex_visit del: str_simps) (simp add: ex_busy_def)
  from crawl_run.steps [OF ex_run_dispatch room(1) this]
  have r4: "?run [Quiet, Quiet, Dispatched ex_job, Finished ex_out] (ex_busy ?s [] [ex_out] Dispatching)" by simp
  have "?step (ex_busy ?s [] [ex_out] Dispatching) Quiet (ex_busy ?s [] [ex_out] Publishing)"
    by (rule crawl_step.dispatches [OF _ ex_dispatch_none]) (simp add: ex_busy_def)
  from crawl_run.steps [OF r4 room(2) this]
  have r5: "?run [Quiet, Quiet, Dispatched ex_job, Finished ex_out, Quiet] (ex_busy ?s [] [ex_out] Publishing)" by simp
  have "publish ex_cli False 0 (ex_busy ?s [] [ex_out] Publishing) = ex_busy ?s [] [ex_out] Waiting"
    by (simp add: publish_def ex_busy_def)
  then have "?step (ex_busy ?s [] [ex_out] Publishing) Quiet (ex_busy ?s [] [ex_out] Waiting)"
    using crawl_step.publishes [of "ex_busy ?s [] [ex_out] Publishing" ex_env ex_cli ex_settings False 0] by simp
  from crawl_run.steps [OF r5 room(2) this]
  have r6: "?run [Quiet, Quiet, Dispatched ex_job, Finished ex_out, Quiet, Quiet] (ex_busy ?s [] [ex_out] Waiting)" by simp
  obtain d w' f' where a: "absorb ex_env ex_settings 0 ex_out ?s = (Inr (), ex_state d 0 w' f' ex_done)"
    "live ex_config (w', f')" by (rule ex_absorb [OF assms])
  have "oc_host ex_out = str ''a.b''" by (simp add: ex_out_def)
  then have "absorb_one ex_env ex_settings 0 ex_out (ex_busy ?s [] [ex_out] Waiting) =
      ex_loop (ex_state d 0 w' f' ex_done) Absorbing"
    by (simp add: absorb_one_def bookkeep_def ex_busy_def a(1) ex_loop_def Let_def fun_eq_iff del: str_simps One_nat_def)
  then have "?step (ex_busy ?s [] [ex_out] Waiting) (Absorbed 0 ex_out) (ex_loop (ex_state d 0 w' f' ex_done) Absorbing)"
    using crawl_step.receives [of "ex_busy ?s [] [ex_out] Waiting" ex_out "[]" ex_env ex_cli ex_settings 0] by simp
  from crawl_run.steps [OF r6 room(2) this] show thesis by (intro that [OF _ a(2)]) simp
qed


lemma ex_run_end:
  assumes "live ex_config (w, f)"
  obtains evs ls where "crawl_run ex_env ex_cli ex_settings (ex_loop0 w f) evs ls" "ls_phase ls = Ended (Inr ex_done)"
    "evs = [Quiet, Quiet, Dispatched ex_job, Finished ex_out, Quiet, Quiet, Absorbed 0 ex_out, Quiet, Quiet, Quiet]"
proof -
  let ?run = "crawl_run ex_env ex_cli ex_settings (ex_loop0 w f)" and ?step = "crawl_step ex_env ex_cli ex_settings"
  let ?evs = "[Quiet, Quiet, Dispatched ex_job, Finished ex_out, Quiet, Quiet, Absorbed 0 ex_out]"
  obtain d w1 f1 where r7: "?run ?evs (ex_loop (ex_state d 0 w1 f1 ex_done) Absorbing)" "live ex_config (w1, f1)"
    by (rule ex_run_absorb [OF assms])
  let ?s = "ex_state d 0 w1 f1 ex_done"
  let ?ls = "ex_loop ?s Stopping \<lparr> ls_shutting_down := True \<rparr>"
  have room: "roomy (ex_loop s ph)" "roomy ?ls" for s ph by (simp_all add: roomy_def)
  have "?step (ex_loop ?s Absorbing) Quiet (ex_loop ?s Deciding)"
    using crawl_step.drained [of "ex_loop ?s Absorbing" ex_env ex_cli ex_settings] by simp
  from crawl_run.steps [OF r7(1) room(1) this] have r8: "?run (?evs @ [Quiet]) (ex_loop ?s Deciding)" .
  have "decide ex_cli (ex_loop ?s Deciding) = ?ls"
    by (simp add: decide_def ex_loop_def ex_state_def crawl_stats_default_def)
  then have "?step (ex_loop ?s Deciding) Quiet ?ls"
    using crawl_step.decides [of "ex_loop ?s Deciding" ex_env ex_cli ex_settings] by simp
  from crawl_run.steps [OF r8 room(1) this] have r9: "?run ((?evs @ [Quiet]) @ [Quiet]) ?ls" .
  obtain s where s: "shut_down ex_env ex_cli 0 ?s = (Inr ex_done, s)" by (rule ex_stop [OF r7(2)])
  have "ls_phase (stop ex_env ex_cli 0 ?ls) = Ended (Inr ex_done)"
    using s by (simp add: stop_def end_run_def ex_loop_def split: prod.split)
  moreover have "?step ?ls Quiet (stop ex_env ex_cli 0 ?ls)" by (rule crawl_step.stops) (simp add: ex_loop_def)
  note crawl_run.steps [OF r9 room(2) this]
  ultimately show thesis by (intro that) auto
qed

section \<open>The theorems of the crawl at work\<close>

lemma ex_start:
  assumes "crawl_begin ex_rocks ex_client [] ex_env ex_cli ex_disk = (Inr (ex_settings, ex_loop0 w f), f)"
  shows "loop_start ex_env mini_view (ex_loop0 w f)"
  by (rule crawl_begin_Inr [OF assms begins_fresh_sound [OF ex_begins_fresh]])

theorem in_flight_bounded_witness:
  "\<exists>ls :: (mini_db, rstr list) loop_state. ls_total ls = 1 \<and> size (visits ls) = 1 \<and> ls_in_flight ls (str ''a.b'') = Some 1"
proof -
  obtain w f where b: "crawl_begin ex_rocks ex_client [] ex_env ex_cli ex_disk = (Inr (ex_settings, ex_loop0 w f), f)"
    by (rule ex_begin)
  let ?ls = "ex_busy (ex_taken w f) [ex_task] [] Dispatching"
  have "alive ?ls" by (simp add: alive_def)
  from in_flight_bounded [OF ex_run_dispatch ex_start [OF b] this]
  have "ls_total ?ls = size (visits ?ls)" by (rule conjunct1)
  then show ?thesis by (intro exI [of _ ?ls]) (simp add: ex_busy_def)
qed

theorem page_budget_bounded_witness:
  "\<exists>ls :: (mini_db, rstr list) loop_state. cr_indexed (cs_stats (ls_state ls)) = 1 \<and> cr_indexed (cs_stats (ls_state ls)) + size (visits ls) \<le> 2"
proof -
  obtain w f where b: "crawl_begin ex_rocks ex_client [] ex_env ex_cli ex_disk = (Inr (ex_settings, ex_loop0 w f), f)"
    "live ex_config (w, f)" by (rule ex_begin)
  obtain d w1 f1 where r: "crawl_run ex_env ex_cli ex_settings (ex_loop0 w f)
      [Quiet, Quiet, Dispatched ex_job, Finished ex_out, Quiet, Quiet, Absorbed 0 ex_out]
      (ex_loop (ex_state d 0 w1 f1 ex_done) Absorbing)" by (rule ex_run_absorb [OF b(2)])
  let ?ls = "ex_loop (ex_state d 0 w1 f1 ex_done) Absorbing"
  have "alive ?ls" by (simp add: alive_def)
  from page_budget_bounded [OF r ex_start [OF b(1)] this]
  have "cr_indexed (cs_stats (ls_state ?ls)) + size (visits ?ls) \<le> 2" by simp
  then show ?thesis by (intro exI [of _ ?ls]) (simp add: ex_loop_def ex_state_def)
qed

theorem crawl_can_end_witness:
  "\<exists>(ls :: (mini_db, rstr list) loop_state) evs' ls' r. ls_total ls = 1 \<and>
     crawl_path ex_env ex_cli ex_settings ls evs' ls' \<and> ls_phase ls' = Ended r"
proof -
  obtain w f where b: "crawl_begin ex_rocks ex_client [] ex_env ex_cli ex_disk = (Inr (ex_settings, ex_loop0 w f), f)"
    by (rule ex_begin)
  let ?ls = "ex_busy (ex_taken w f) [ex_task] [] Dispatching"
  have "running ?ls" by simp
  from crawl_can_end [OF ex_run_dispatch ex_start [OF b] this]
  obtain evs' ls' r where "crawl_path ex_env ex_cli ex_settings ?ls evs' ls'" "ls_phase ls' = Ended r" by blast
  moreover have "ls_total ?ls = 1" by (simp add: ex_busy_def)
  ultimately show ?thesis by blast
qed

theorem fresh_crawl_in_scope_once_witness:
  "canonical_url mini_url ex_url = Some ex_url \<and> scope_allows mini_url (st_scope ex_settings) ex_url"
proof -
  obtain w f where b: "crawl_begin ex_rocks ex_client [] ex_env ex_cli ex_disk = (Inr (ex_settings, ex_loop0 w f), f)"
    "live ex_config (w, f)" by (rule ex_begin)
  obtain evs ls where r: "crawl_run ex_env ex_cli ex_settings (ex_loop0 w f) evs ls" "ls_phase ls = Ended (Inr ex_done)"
    "evs = [Quiet, Quiet, Dispatched ex_job, Finished ex_out, Quiet, Quiet, Absorbed 0 ex_out, Quiet, Quiet, Quiet]"
    by (rule ex_run_end [OF b(2)])
  have "dispatched evs = [ex_job]" by (simp add: r(3) dispatched_def List.map_filter_simps)
  moreover have "alive ls" by (simp add: alive_def r(2))
  ultimately show ?thesis
    using fresh_crawl_in_scope_once [OF b(1) ex_begins_fresh r(1)] by (simp add: ex_job_def)
qed

theorem crawl_handoff_exact_witness:
  "\<exists>ps s s'. sealed_segments (str ''s'') s = (Inr ps, s) \<and> read_segments ex_codec ps [] s = (Inr [ex_doc], s')"
proof -
  obtain w f where b: "crawl_begin ex_rocks ex_client [] ex_env ex_cli ex_disk = (Inr (ex_settings, ex_loop0 w f), f)"
    "live ex_config (w, f)" by (rule ex_begin)
  obtain evs ls where r: "crawl_run ex_env ex_cli ex_settings (ex_loop0 w f) evs ls" "ls_phase ls = Ended (Inr ex_done)"
    "evs = [Quiet, Quiet, Dispatched ex_job, Finished ex_out, Quiet, Quiet, Absorbed 0 ex_out, Quiet, Quiet, Quiet]"
    by (rule ex_run_end [OF b(2)])
  have pages: "archived_pages ex_env ex_settings evs = [(toy_page, ex_doc)]"
    by (simp add: r(3) archived_pages_def archived_by_def dropped_offsite_def ex_onsite ex_out_def ex_page_document
        List.map_filter_simps)
  let ?s = "\<lparr> fs_files = fs_files (cs_fs (ls_state ls)), fs_dirs = [str ''s''], fs_answers = [], fs_write_faults = [],
    fs_read_answers = [] \<rparr>"
  have dirs: "cc_spool_dir ex_cli = str ''s''" "cc_warc_dir ex_cli = str ''w''" "fst (cc_stats_path ex_cli) = str ''d''"
    "fst (cc_bloom_path ex_cli) = str ''d''" by (simp_all add: ex_cli_def)
  have "str ''s'' \<noteq> str ''e''" "str ''w'' \<noteq> str ''e''" by simp_all
  then have names: "fs_names ex_disk (str ''s'') = []" "fs_names ex_disk (str ''w'') = []"
    by (simp_all add: ex_disk_def fs_names_def del: str_simps)
  have apart: "str ''d'' \<noteq> str ''s''" by simp
  have "codec_ok ex_codec" by (simp add: codec_ok_def ex_codec_def)
  from crawl_handoff_exact [OF b(1) begins_fresh_sound [OF ex_begins_fresh] r(1,2), of 1 ?s] this show ?thesis
    by (simp add: numbered_below_def names dirs apart pages u64_max_def readable_def del: str_simps) blast
qed

text \<open>The seed listed twice beside a link that is no URL: one URL is queued.\<close>

definition ex_opened :: "(mini_db, rstr list) crawl_state" where
  "ex_opened = \<lparr> cs_db = ex_db0, cs_frontier = \<lparr> fr_sequence = 0, fr_pending = 0, fr_hosts = 0 \<rparr>, cs_seen = ex_seen [] 0,
     cs_writer = toy_writer, cs_fs = ex_disk, cs_stats = crawl_stats_default \<rparr>"

theorem schedule_exact_witness:
  "\<exists>s'. schedule ex_env ex_settings [ex_url, str ''no url'', ex_url] 0 0 ex_opened = (Inr 1, s') \<and>
     queued ex_env mini_view s' = add_mset ex_job (queued ex_env mini_view ex_opened) \<and> cr_queued (cs_stats s') = 1"
proof -
  let ?links = "[ex_url, str ''no url'', ex_url]"
  have url: "canonical_url mini_url ex_url = Some ex_url" "canonical_url mini_url (str ''no url'') = None"
    "scope_allows mini_url (st_scope ex_settings) ex_url" "is_probably_page mini_url ex_url" by code_simp+
  obtain s' where s': "schedule ex_env ex_settings ?links 0 0 ex_opened = (Inr 1, s')"
    using ex_push
    by (simp add: url offer_url_def check_and_insert_def push_job_def count_up_def list_bloom_def ex_seen_def ex_opened_def
        ex_job_def wrap_add_u64_def crawl_stats_default_def del: str_simps)
  have "frontier_inv mini_frontier_env mini_view (ex_db0, \<lparr> fr_sequence = 0, fr_pending = 0, fr_hosts = 0 \<rparr>)"
    by (rule frontier_open_inv [OF _ ex_fresh_db ex_frontier_open]) (simp add: mini_frontier_env_def mini_kv_ok)
  then have ok: "crawl_ok ex_env mini_view ex_opened"
    by (simp add: crawl_ok_def ex_opened_def mini_frontier_env_ok)
  have room: "has_room (length ?links) ex_opened" by (simp add: has_room_def ex_opened_def u64_max_def)
  have stats: "countable (length ?links) (cs_stats ex_opened)"
    by (simp add: countable_def ex_opened_def crawl_stats_default_def)
  have len: "length ?links < 2 ^ 64" by simp
  have bloom: "bloom_ok (ce_bloom ex_env)" by (simp add: list_bloom_ok)
  have follow: "List.map_filter (followable ex_env ex_settings) ?links = [ex_url, ex_url]"
    by (simp add: followable_def url List.map_filter_simps del: str_simps)
  have new: "[ex_url] = new_urls (ce_bloom ex_env) (List.map_filter (followable ex_env ex_settings) ?links)
      (seen_filter (cs_seen ex_opened))"
    unfolding follow by (simp add: list_bloom_def ex_opened_def ex_seen_def)
  from schedule_exact [OF s' ok room stats len bloom new] s' show ?thesis
    by (auto simp: jobs_at_def ex_job_def counted_def ex_opened_def crawl_stats_default_def simp del: str_simps)
qed

end
