(* ===== verification/History.thy ===== *)
theory History
  imports Atomic
begin

text \<open>
  \<open>crates/indexer/src/history.rs\<close>: the growth timeline of the index, one bucket for each minute,
  and the file it is kept in. \<open>serde_json\<close> is a codec; a text that is not UTF-8 is one that does
  not decode.
\<close>

definition retention :: nat where
  "retention = 180"

definition bucket_seconds :: int where
  "bucket_seconds = 60"

record bucket =
  bk_at :: int
  bk_documents :: nat

record index_history =
  ih_updated_at :: int
  ih_total_documents :: nat
  ih_buckets :: "bucket list"

definition history_default :: index_history where
  "history_default = \<lparr> ih_updated_at = 0, ih_total_documents = 0, ih_buckets = [] \<rparr>"

text \<open>Subtraction of \<open>i64\<close> wraps in a release build.\<close>

definition wrap_i64 :: "int \<Rightarrow> int" where
  "wrap_i64 x = (x + 9223372036854775808) mod 18446744073709551616 - 9223372036854775808"

definition documents_since :: "index_history \<Rightarrow> int \<Rightarrow> int \<Rightarrow> nat" where
  "documents_since h now seconds =
     (let cutoff = wrap_i64 (now - seconds)
      in foldl wrap_add_u64 0 (map bk_documents (filter (\<lambda>b. cutoff \<le> bk_at b) (ih_buckets h))))"

definition bucket_of :: "int \<Rightarrow> int" where
  "bucket_of now = wrap_i64 (now - now mod bucket_seconds)"

text \<open>The merge into the last bucket.\<close>

definition add_to_buckets :: "int \<Rightarrow> nat \<Rightarrow> bucket list \<Rightarrow> bucket list" where
  "add_to_buckets at documents bs =
     (case rev bs of
        [] \<Rightarrow> bs @ [\<lparr> bk_at = at, bk_documents = documents \<rparr>]
      | b # rest \<Rightarrow>
          if bk_at b = at then rev rest @ [b \<lparr> bk_documents := wrap_add_u64 (bk_documents b) documents \<rparr>]
          else bs @ [\<lparr> bk_at = at, bk_documents = documents \<rparr>])"

definition history_add :: "int \<Rightarrow> nat \<Rightarrow> nat \<Rightarrow> index_history \<Rightarrow> index_history" where
  "history_add now documents total_documents h =
     (let bs = add_to_buckets (bucket_of now) documents (ih_buckets h)
      in \<lparr> ih_updated_at = now, ih_total_documents = total_documents,
           ih_buckets = (if retention < length bs then drop (length bs - retention) bs else bs) \<rparr>)"

definition history_load :: "index_history codec \<Rightarrow> path \<Rightarrow> fs \<Rightarrow> index_history \<times> fs" where
  "history_load C p s =
     (case file_read p s of
        (Inl _, s) \<Rightarrow> (history_default, s)
      | (Inr raw, s) \<Rightarrow> (case decode C raw of Inr h \<Rightarrow> (h, s) | Inl _ \<Rightarrow> (history_default, s)))"

definition history_record ::
    "index_history codec \<Rightarrow> path \<Rightarrow> int \<Rightarrow> nat \<Rightarrow> nat \<Rightarrow> fs \<Rightarrow> (io_error + index_history) \<times> fs" where
  "history_record C p now documents total_documents s =
     (case history_load C p s of
        (h, s) \<Rightarrow>
          (let h = history_add now documents total_documents h;
               json = (case encode C h of Inr bs \<Rightarrow> bs | Inl _ \<Rightarrow> utf8 (str ''{}''))
           in case replace_file p (str ''json.tmp'') json s of
                (Inl e, s) \<Rightarrow> (Inl e, s)
              | (Inr _, s) \<Rightarrow> (Inr h, s)))"

section \<open>The buckets\<close>

text \<open>A timeline is well formed when it has at most \<open>retention\<close> buckets, each starts on a minute,
  and they are in order of time, one for a minute.\<close>

definition history_ok :: "index_history \<Rightarrow> bool" where
  "history_ok h \<longleftrightarrow> length (ih_buckets h) \<le> retention \<and>
     sorted_wrt (<) (map bk_at (ih_buckets h)) \<and> (\<forall>b \<in> set (ih_buckets h). bk_at b mod bucket_seconds = 0)"

definition in_i64 :: "int \<Rightarrow> bool" where
  "in_i64 x \<longleftrightarrow> i64_min + 60 \<le> x \<and> x \<le> i64_max"

lemma wrap_i64_id: "i64_min \<le> x \<Longrightarrow> x \<le> i64_max \<Longrightarrow> wrap_i64 x = x"
  by (simp add: wrap_i64_def i64_min_def i64_max_def)

lemma bucket_of_eq: "in_i64 now \<Longrightarrow> bucket_of now = now - now mod 60"
proof -
  assume "in_i64 now"
  moreover have "0 \<le> now mod 60" "now mod 60 < 60" by simp_all
  ultimately show ?thesis
    unfolding bucket_of_def bucket_seconds_def in_i64_def by (intro wrap_i64_id) linarith+
qed

lemma bucket_of_mod: "in_i64 now \<Longrightarrow> bucket_of now mod bucket_seconds = 0"
  by (simp add: bucket_of_eq bucket_seconds_def minus_mod_eq_mult_div)

lemma bucket_of_le: "in_i64 now \<Longrightarrow> bucket_of now \<le> now"
  by (simp add: bucket_of_eq)

lemma sorted_wrt_drop: "sorted_wrt P xs \<Longrightarrow> sorted_wrt P (drop n xs)"
  by (metis append_take_drop_id sorted_wrt_append)

lemma add_to_buckets_cases:
  obtains (merge) rest b where "bs = rest @ [b]" "bk_at b = at"
      "add_to_buckets at n bs = rest @ [b \<lparr> bk_documents := wrap_add_u64 (bk_documents b) n \<rparr>]"
  | (new) "bs = [] \<or> bk_at (last bs) \<noteq> at" "add_to_buckets at n bs = bs @ [\<lparr> bk_at = at, bk_documents = n \<rparr>]"
proof (cases bs rule: rev_cases)
  case Nil
  then show thesis by (intro new) (simp_all add: add_to_buckets_def)
next
  case (snoc rest b)
  then show thesis using new merge by (cases "bk_at b = at") (auto simp: add_to_buckets_def)
qed

lemma add_to_buckets_ok:
  assumes "sorted_wrt (<) (map bk_at bs)" "\<forall>b \<in> set bs. bk_at b mod 60 = 0" "at mod 60 = 0"
    and "\<forall>b \<in> set bs. bk_at b \<le> at"
  shows "sorted_wrt (<) (map bk_at (add_to_buckets at n bs))"
    and "\<forall>b \<in> set (add_to_buckets at n bs). bk_at b mod 60 = 0 \<and> bk_at b \<le> at"
proof -
  have "sorted_wrt (<) (map bk_at (add_to_buckets at n bs)) \<and>
    (\<forall>b \<in> set (add_to_buckets at n bs). bk_at b mod 60 = 0 \<and> bk_at b \<le> at)"
  proof (cases rule: add_to_buckets_cases [where at = at and n = n and bs = bs])
    case (merge rest b)
    then show ?thesis using assms by (auto simp: sorted_wrt_append)
  next
    case new
    have "bk_at b < at" if b: "b \<in> set bs" for b
    proof -
      obtain rest c where bs: "bs = rest @ [c]" using b by (cases bs rule: rev_cases) auto
      then have "bk_at c < at" using new(1) assms(4) by (auto simp: le_less)
      then show ?thesis using b bs assms(1) by (auto simp: sorted_wrt_append)
    qed
    then show ?thesis using assms new(2) by (auto simp: sorted_wrt_append)
  qed
  then show "sorted_wrt (<) (map bk_at (add_to_buckets at n bs))"
    "\<forall>b \<in> set (add_to_buckets at n bs). bk_at b mod 60 = 0 \<and> bk_at b \<le> at" by blast+
qed

lemma history_add_ok:
  assumes "history_ok h" "in_i64 now" "\<forall>b \<in> set (ih_buckets h). bk_at b \<le> bucket_of now"
  shows "history_ok (history_add now n tot h)"
    and "\<forall>b \<in> set (ih_buckets (history_add now n tot h)). bk_at b \<le> bucket_of now"
proof -
  have h: "sorted_wrt (<) (map bk_at (ih_buckets h))" "\<forall>b \<in> set (ih_buckets h). bk_at b mod 60 = 0"
    using assms(1) by (simp_all add: history_ok_def bucket_seconds_def)
  have at: "bucket_of now mod 60 = 0" using bucket_of_mod [OF assms(2)] by (simp add: bucket_seconds_def)
  let ?bs = "add_to_buckets (bucket_of now) n (ih_buckets h)"
  note a = add_to_buckets_ok [OF h at assms(3), of n]
  have b: "ih_buckets (history_add now n tot h) = drop (length ?bs - retention) ?bs"
    by (simp add: history_add_def Let_def)
  show "\<forall>b \<in> set (ih_buckets (history_add now n tot h)). bk_at b \<le> bucket_of now"
    unfolding b using a(2) set_drop_subset by fastforce
  show "history_ok (history_add now n tot h)"
    unfolding history_ok_def b drop_map [symmetric] bucket_seconds_def
    using a set_drop_subset [of "length ?bs - retention" ?bs] sorted_wrt_drop [OF a(1)] by auto
qed

text \<open>A run of the indexer adds to the timeline at the times its clock shows.\<close>

definition add_all :: "(int \<times> nat \<times> nat) list \<Rightarrow> index_history \<Rightarrow> index_history" where
  "add_all adds h = fold (\<lambda>(now, documents, tot). history_add now documents tot) adds h"

lemma add_all_snoc: "add_all (adds @ [(now, n, tot)]) h = history_add now n tot (add_all adds h)"
  by (simp add: add_all_def)

lemma bucket_of_mono: "in_i64 a \<Longrightarrow> in_i64 b \<Longrightarrow> a \<le> b \<Longrightarrow> bucket_of a \<le> bucket_of b"
  by (simp add: bucket_of_eq minus_mod_eq_mult_div zdiv_mono1)

text \<open>A run of the clock: it never goes back and stays in range.\<close>

definition clock_ok :: "(int \<times> nat \<times> nat) list \<Rightarrow> bool" where
  "clock_ok adds \<longleftrightarrow> sorted_wrt (\<le>) (map fst adds) \<and> list_all (\<lambda>a. in_i64 (fst a)) adds"

lemma clock_ok_snoc:
  assumes "clock_ok (adds @ [a])"
  shows "clock_ok adds" "in_i64 (fst a)" "adds \<noteq> [] \<Longrightarrow> bucket_of (fst (last adds)) \<le> bucket_of (fst a)"
proof -
  show c: "clock_ok adds" "in_i64 (fst a)" using assms by (simp_all add: clock_ok_def sorted_wrt_append)
  show "bucket_of (fst (last adds)) \<le> bucket_of (fst a)" if "adds \<noteq> []"
  proof (rule bucket_of_mono)
    show "in_i64 (fst (last adds))" using c(1) that by (simp add: clock_ok_def list_all_iff)
    show "fst (last adds) \<le> fst a" using assms that by (simp add: clock_ok_def sorted_wrt_append)
  qed (rule c(2))
qed

lemma add_all_ok:
  "clock_ok adds \<Longrightarrow> history_ok (add_all adds history_default) \<and>
    (\<forall>b \<in> set (ih_buckets (add_all adds history_default)). bk_at b \<le> bucket_of (fst (last adds)))"
proof (induction adds rule: rev_induct)
  case Nil
  then show ?case by (simp add: add_all_def history_ok_def history_default_def)
next
  case (snoc a adds)
  obtain now n tot where a: "a = (now, n, tot)" by (metis prod_cases3)
  note c = clock_ok_snoc [OF snoc.prems]
  have IH: "history_ok (add_all adds history_default)" using snoc.IH c(1) by blast
  have late: "\<forall>b \<in> set (ih_buckets (add_all adds history_default)). bk_at b \<le> bucket_of now"
  proof (cases "adds = []")
    case True
    then show ?thesis by (simp add: add_all_def history_default_def)
  next
    case False
    have "bucket_of (fst (last adds)) \<le> bucket_of now" using c(3) [OF False] a by simp
    then show ?thesis using snoc.IH c(1) order_trans by blast
  qed
  have "in_i64 now" using c(2) a by simp
  from history_add_ok [OF IH this late] show ?case by (simp add: a add_all_snoc)
qed

text \<open>C32: for a clock that does not go back, the timeline is at every moment at most three hours of
  minutes in strictly increasing order, one bucket for a minute, and its totals are those of the
  last commit.\<close>

theorem timeline_ok:
  assumes "clock_ok adds"
  shows "history_ok (add_all adds history_default) \<and>
    (adds \<noteq> [] \<longrightarrow> ih_updated_at (add_all adds history_default) = fst (last adds) \<and>
       ih_total_documents (add_all adds history_default) = snd (snd (last adds)))"
proof -
  have "ih_updated_at (add_all adds history_default) = fst (last adds) \<and>
       ih_total_documents (add_all adds history_default) = snd (snd (last adds))" if "adds \<noteq> []"
    using that by (cases adds rule: rev_cases) (auto simp: add_all_snoc history_add_def Let_def)
  then show ?thesis using add_all_ok [OF assms] by blast
qed

section \<open>The unbounded timeline\<close>

definition all_buckets :: "(int \<times> nat \<times> nat) list \<Rightarrow> bucket list" where
  "all_buckets adds = fold (\<lambda>(now, n, _). add_to_buckets (bucket_of now) n) adds []"

lemma all_buckets_snoc: "all_buckets (adds @ [(now, n, tot)]) = add_to_buckets (bucket_of now) n (all_buckets adds)"
  by (simp add: all_buckets_def)

definition cut :: "nat \<Rightarrow> 'a list \<Rightarrow> 'a list" where
  "cut r xs = drop (length xs - r) xs"

lemma cut_snoc: "0 < r \<Longrightarrow> cut r (xs @ [x]) = cut (r - 1) xs @ [x]"
  by (simp add: cut_def)

lemma cut_cut [simp]: "cut r (cut r xs) = cut r xs"
  by (cases "length xs \<le> r") (simp_all add: cut_def)

lemma cut_cut_snoc: "0 < r \<Longrightarrow> cut r (cut r xs @ [x]) = cut r (xs @ [x])"
proof -
  assume r: "0 < r"
  have "cut (r - 1) (cut r xs) = cut (r - 1) xs" by (cases "length xs \<le> r") (auto simp: cut_def)
  then show ?thesis using r by (simp add: cut_snoc)
qed

lemma cut_add_to_buckets:
  assumes "0 < r"
  shows "cut r (add_to_buckets at n (cut r bs)) = cut r (add_to_buckets at n bs)"
proof (cases bs rule: rev_cases)
  case Nil
  then show ?thesis by (simp add: cut_def)
next
  case (snoc rest b)
  have c: "cut r bs = cut (r - 1) rest @ [b]" using assms snoc by (simp add: cut_snoc)
  show ?thesis
  proof (cases "bk_at b = at")
    case True
    let ?b = "b \<lparr> bk_documents := wrap_add_u64 (bk_documents b) n \<rparr>"
    have "add_to_buckets at n (cut r bs) = cut r (rest @ [?b])" "add_to_buckets at n bs = rest @ [?b]"
      using True snoc c assms by (simp_all add: add_to_buckets_def cut_snoc)
    then show ?thesis by simp
  next
    case False
    have "add_to_buckets at n (cut r bs) = cut r bs @ [\<lparr> bk_at = at, bk_documents = n \<rparr>]"
      "add_to_buckets at n bs = bs @ [\<lparr> bk_at = at, bk_documents = n \<rparr>]"
      using False snoc c by (simp_all add: add_to_buckets_def)
    then show ?thesis using assms by (simp add: cut_cut_snoc)
  qed
qed

lemma history_add_cut:
  "ih_buckets (history_add now n tot h) = cut retention (add_to_buckets (bucket_of now) n (ih_buckets h))"
  by (simp add: history_add_def Let_def cut_def)

text \<open>What is kept are the last \<open>retention\<close> buckets of the unbounded timeline.\<close>

lemma add_all_suffix: "ih_buckets (add_all adds history_default) = cut retention (all_buckets adds)"
proof (induction adds rule: rev_induct)
  case Nil
  then show ?case by (simp add: add_all_def history_default_def all_buckets_def cut_def)
next
  case (snoc a adds)
  obtain now n tot where a: "a = (now, n, tot)" by (metis prod_cases3)
  have "(0 :: nat) < retention" by (simp add: retention_def)
  from cut_add_to_buckets [OF this] show ?case
    unfolding a add_all_snoc all_buckets_snoc history_add_cut using snoc.IH by simp
qed

lemma all_buckets_ok:
  "clock_ok adds \<Longrightarrow> sorted_wrt (<) (map bk_at (all_buckets adds)) \<and>
   (\<forall>b \<in> set (all_buckets adds). bk_at b mod 60 = 0 \<and> bk_at b \<le> bucket_of (fst (last adds)))"
proof (induction adds rule: rev_induct)
  case Nil
  then show ?case by (simp add: all_buckets_def)
next
  case (snoc a adds)
  obtain now n tot where a: "a = (now, n, tot)" by (metis prod_cases3)
  note c = clock_ok_snoc [OF snoc.prems]
  have late: "\<forall>b \<in> set (all_buckets adds). bk_at b \<le> bucket_of now"
  proof (cases "adds = []")
    case True
    then show ?thesis by (simp add: all_buckets_def)
  next
    case False
    have "bucket_of (fst (last adds)) \<le> bucket_of now" using c(3) [OF False] a by simp
    then show ?thesis using snoc.IH c(1) order_trans by blast
  qed
  have at: "bucket_of now mod 60 = 0" using bucket_of_mod [of now] c(2) a by (simp add: bucket_seconds_def)
  have old: "sorted_wrt (<) (map bk_at (all_buckets adds))" "\<forall>b \<in> set (all_buckets adds). bk_at b mod 60 = 0"
    using snoc.IH c(1) by blast+
  show ?case unfolding a all_buckets_snoc last_snoc fst_conv
    using add_to_buckets_ok [OF old at late, of n] by blast
qed

text \<open>Minutes that increase strictly are a minute apart.\<close>

lemma minutes_apart:
  "sorted_wrt (<) (map bk_at bs) \<Longrightarrow> \<forall>b \<in> set bs. bk_at b mod 60 = 0 \<Longrightarrow> i + k < length bs \<Longrightarrow>
   bk_at (bs ! i) + 60 * int k \<le> bk_at (bs ! (i + k))"
proof (induction k)
  case 0
  then show ?case by simp
next
  case (Suc k)
  have "bk_at (bs ! (i + k)) < bk_at (bs ! (i + Suc k))"
    using Suc.prems(1,3) by (simp add: sorted_wrt_iff_nth_less)
  moreover have "60 dvd bk_at (bs ! (i + k))" "60 dvd bk_at (bs ! (i + Suc k))"
    using Suc.prems(2,3) by (simp_all add: mod_0_imp_dvd)
  then obtain p q where "bk_at (bs ! (i + k)) = 60 * p" "bk_at (bs ! (i + Suc k)) = 60 * q" by (auto elim!: dvdE)
  ultimately have "bk_at (bs ! (i + k)) + 60 \<le> bk_at (bs ! (i + Suc k))" by simp
  then show ?case using Suc.IH Suc.prems by simp
qed

lemma foldl_wrap_add:
  "sum_list xs + a < 2 ^ 64 \<Longrightarrow> foldl wrap_add_u64 a xs = a + sum_list xs"
  by (induction xs arbitrary: a) (simp_all add: wrap_add_u64_small)

lemma all_buckets_sum:
  "sum_list (map (fst \<circ> snd) adds) < 2 ^ 64 \<Longrightarrow>
   sum_list (map bk_documents (filter (\<lambda>b. c \<le> bk_at b) (all_buckets adds))) =
     sum_list (map (fst \<circ> snd) (filter (\<lambda>a. c \<le> bucket_of (fst a)) adds))"
proof (induction adds arbitrary: c rule: rev_induct)
  case Nil
  then show ?case by (simp add: all_buckets_def)
next
  case (snoc a adds)
  obtain now n tot where a: "a = (now, n, tot)" by (metis prod_cases3)
  have IH: "sum_list (map bk_documents (filter (\<lambda>b. c \<le> bk_at b) (all_buckets adds))) =
     sum_list (map (fst \<circ> snd) (filter (\<lambda>a. c \<le> bucket_of (fst a)) adds))" for c
    by (rule snoc.IH) (use snoc.prems in simp)
  show ?case
  proof (cases rule: add_to_buckets_cases [where at = "bucket_of now" and n = n and bs = "all_buckets adds"])
    case (merge rest b)
    have "bk_documents b \<le> sum_list (map bk_documents (filter (\<lambda>x. bk_at b \<le> bk_at x) (all_buckets adds)))"
      using merge(1) by simp
    also have "\<dots> = sum_list (map (fst \<circ> snd) (filter (\<lambda>a. bk_at b \<le> bucket_of (fst a)) adds))" by (rule IH)
    also have "\<dots> \<le> sum_list (map (fst \<circ> snd) adds)" by (rule sum_list_filter_le_nat)
    finally have "bk_documents b + n < 2 ^ 64" using snoc.prems a by (simp add: comp_def)
    then have w: "wrap_add_u64 (bk_documents b) n = bk_documents b + n" by (rule wrap_add_u64_small)
    show ?thesis using IH [of c] merge by (auto simp: a all_buckets_snoc w comp_def)
  next
    case new
    then show ?thesis using IH [of c] by (auto simp: a all_buckets_snoc comp_def)
  qed
qed

text \<open>For a window of up to 179 minutes the timeline answers exactly: the documents since \<open>now -
  seconds\<close> are the sum of what was recorded in the minutes that start in the window, although the
  timeline keeps only 180 buckets.\<close>

theorem documents_since_exact:
  assumes "clock_ok adds" "adds \<noteq> []" "fst (last adds) \<le> now" "in_i64 now"
    and "sum_list (map (fst \<circ> snd) adds) < 2 ^ 64"
    and "0 \<le> seconds" "seconds \<le> 10740" "i64_min + seconds \<le> now"
  shows "documents_since (add_all adds history_default) now seconds =
    sum_list (map (fst \<circ> snd) (filter (\<lambda>a. now - seconds \<le> bucket_of (fst a)) adds))"
proof -
  let ?R = "all_buckets adds" and ?c = "now - seconds"
  let ?k = "length ?R - retention"
  have c: "wrap_i64 ?c = ?c" using assms(4,6,8) by (intro wrap_i64_id) (simp_all add: in_i64_def)
  have R: "sorted_wrt (<) (map bk_at ?R)" "\<forall>b \<in> set ?R. bk_at b mod 60 = 0"
    "\<forall>b \<in> set ?R. bk_at b \<le> bucket_of (fst (last adds))"
    using all_buckets_ok [OF assms(1)] by blast+
  have last_le: "bucket_of (fst (last adds)) \<le> now"
  proof -
    have "in_i64 (fst (last adds))" using assms(1,2) by (simp add: clock_ok_def list_all_iff)
    from bucket_of_le [OF this] show ?thesis using assms(3) by simp
  qed
  have "filter (\<lambda>b. ?c \<le> bk_at b) (take ?k ?R) = []"
  proof -
    have "bk_at b < ?c" if "b \<in> set (take ?k ?R)" for b
    proof -
      obtain i where i: "i < ?k" "b = ?R ! i" using \<open>b \<in> _\<close> by (auto simp: in_set_conv_nth)
      then have "i + 180 < length ?R" by (simp add: retention_def)
      from minutes_apart [OF R(1,2) this] have "bk_at b + 10800 \<le> bk_at (?R ! (i + 180))" by (simp add: i(2))
      moreover have "?R ! (i + 180) \<in> set ?R" using \<open>i + 180 < length ?R\<close> by (rule nth_mem)
      then have "bk_at (?R ! (i + 180)) \<le> now" using R(3) last_le order_trans by blast
      ultimately show ?thesis using assms(7) by simp
    qed
    then show ?thesis unfolding filter_empty_conv by (meson not_le)
  qed
  moreover have "filter (\<lambda>b. ?c \<le> bk_at b) ?R =
    filter (\<lambda>b. ?c \<le> bk_at b) (take ?k ?R) @ filter (\<lambda>b. ?c \<le> bk_at b) (drop ?k ?R)"
    by (metis append_take_drop_id filter_append)
  ultimately have f: "filter (\<lambda>b. ?c \<le> bk_at b) (ih_buckets (add_all adds history_default)) =
      filter (\<lambda>b. ?c \<le> bk_at b) ?R"
    by (simp add: add_all_suffix cut_def)
  have sum: "sum_list (map bk_documents (filter (\<lambda>b. ?c \<le> bk_at b) ?R)) =
     sum_list (map (fst \<circ> snd) (filter (\<lambda>a. ?c \<le> bucket_of (fst a)) adds))"
    by (rule all_buckets_sum [OF assms(5)])
  have "sum_list (map (fst \<circ> snd) (filter (\<lambda>a. ?c \<le> bucket_of (fst a)) adds)) \<le> sum_list (map (fst \<circ> snd) adds)"
    by (rule sum_list_filter_le_nat)
  then have "sum_list (map bk_documents (filter (\<lambda>b. ?c \<le> bk_at b) ?R)) + 0 < 2 ^ 64" using sum assms(5) by simp
  from foldl_wrap_add [OF this] show ?thesis
    unfolding documents_since_def Let_def c f using sum by simp
qed

lemma history_load_files: "history_load C p s = (h, s') \<Longrightarrow> fs_file s' = fs_file s"
  by (auto simp: history_load_def file_read_def fs_call_def
      split: prod.splits sum.splits list.splits fs_answer.splits option.splits)

definition history_json :: "index_history codec \<Rightarrow> index_history \<Rightarrow> nat list" where
  "history_json C h = (case encode C h of Inr bs \<Rightarrow> bs | Inl _ \<Rightarrow> utf8 (str ''{}''))"

lemma history_record_file:
  "history_record C p now n tot s = (Inr h, s') \<Longrightarrow>
     fs_file s' p = Some (history_json C h) \<and> (\<exists>h0. h = history_add now n tot h0)"
  "history_record C p now n tot s = (Inl x, s') \<Longrightarrow> fs_file s' p = fs_file s p"
  using replace_file_Inr [OF _ dotted_tmp(2)] replace_file_Inl [OF _ dotted_tmp(2)]
  by (auto simp: history_record_def history_json_def Let_def dest!: history_load_files split: prod.splits sum.splits)

text \<open>The file of the timeline is at every moment a whole timeline that ends with a commit.\<close>

interpretation history_file: atomic_save
    "\<lambda>e c. history_record (fst e) (snd e) (fst c) (fst (snd c)) (snd (snd c))" "\<lambda>e c. snd e"
    "\<lambda>e c bs. \<exists>h0. bs = history_json (fst e) (history_add (fst c) (fst (snd c)) (snd (snd c)) h0)"
  by unfold_locales (use history_record_file in \<open>metis, metis\<close>)

text \<open>Recording a commit replaces the file of the timeline or leaves it alone: after a success the
  next load returns the timeline that was reported, and after a failure the file is as it was.\<close>

theorem history_record_atomic:
  assumes "codec_ok C" "encode C (history_add now n tot (fst (history_load C p s))) = Inr bs"
    and "history_record C p now n tot s = (r, s')" "fs_answers s' = []"
  shows "case r of Inr h \<Rightarrow> fst (history_load C p s') = h \<and> h = history_add now n tot (fst (history_load C p s))
    | Inl _ \<Rightarrow> fs_file s' p = fs_file s p"
proof -
  obtain h s1 where l: "history_load C p s = (h, s1)" by fastforce
  have s1: "fs_file s1 = fs_file s"
    using l by (auto simp: history_load_def file_read_def fs_call_def
        split: prod.splits sum.splits list.splits fs_answer.splits option.splits)
  obtain r2 s2 where w: "replace_file p (str ''json.tmp'') bs s1 = (r2, s2)" by fastforce
  show ?thesis
  proof (cases r2)
    case (Inl e)
    then show ?thesis
      using assms(2,3) l w s1 replace_file_Inl [OF _ dotted_tmp(2), of p bs s1 e s2]
      by (auto simp: history_record_def Let_def)
  next
    case (Inr u)
    then have "r = Inr (history_add now n tot h)" "s' = s2" using assms(2,3) l w by (auto simp: history_record_def Let_def)
    moreover have "fs_file s2 p = Some bs" using replace_file_Inr [OF _ dotted_tmp(2)] w Inr by blast
    moreover have "decode C bs = Inr (history_add now n tot h)" using assms(1,2) l by (simp add: codec_ok_def)
    ultimately show ?thesis
      using assms(4) l by (simp add: history_load_def file_read_def fs_call_def)
  qed
qed

section \<open>Concrete timelines\<close>

definition toy_adds :: "(int \<times> nat \<times> nat) list" where
  "toy_adds = [(30, 2, 2), (59, 3, 5), (61, 4, 9)]"

lemma toy_clock: "clock_ok toy_adds"
  by (simp add: clock_ok_def toy_adds_def in_i64_def i64_min_def i64_max_def)

theorem timeline_ok_witness: "history_ok (add_all toy_adds history_default) \<and>
    ih_total_documents (add_all toy_adds history_default) = 9"
  using timeline_ok [OF toy_clock] by (simp add: toy_adds_def)

theorem documents_since_exact_witness:
  "documents_since (add_all toy_adds history_default) 70 10 = 4"
proof -
  have h: "toy_adds \<noteq> []" "fst (last toy_adds) \<le> 70" "in_i64 70" "sum_list (map (fst \<circ> snd) toy_adds) < 2 ^ 64"
    "(0 :: int) \<le> 10" "(10 :: int) \<le> 10740" "i64_min + 10 \<le> 70"
    by (simp_all add: toy_adds_def in_i64_def i64_min_def i64_max_def)
  have "bucket_of 30 = 0" "bucket_of 59 = 0" "bucket_of 61 = 60"
    by (simp_all add: bucket_of_eq in_i64_def i64_min_def i64_max_def)
  with documents_since_exact [OF toy_clock h] show ?thesis by (simp add: toy_adds_def)
qed

definition toy_history_codec :: "index_history codec" where
  "toy_history_codec = \<lparr> encode = (\<lambda>h. if h = history_add 30 2 2 history_default then Inr [1] else Inl ''no''),
     decode = (\<lambda>bs. if bs = [1] then Inr (history_add 30 2 2 history_default) else Inl ''no'') \<rparr>"

theorem history_record_atomic_witness:
  "\<exists>s'. history_record toy_history_codec (str ''d'', str ''h.json'') 30 2 2
      \<lparr> fs_files = [((str ''d'', str ''h.json''), [9])], fs_dirs = [str ''d''], fs_answers = [], fs_write_faults = [],
        fs_read_answers = [] \<rparr> = (Inr (history_add 30 2 2 history_default), s') \<and>
    fst (history_load toy_history_codec (str ''d'', str ''h.json'') s') = history_add 30 2 2 history_default"
proof -
  let ?p = "(str ''d'', str ''h.json'')"
  let ?s = "\<lparr> fs_files = [(?p, [9])], fs_dirs = [str ''d''], fs_answers = [], fs_write_faults = [],
        fs_read_answers = [] \<rparr>"
  have ok: "codec_ok toy_history_codec" by (simp add: codec_ok_def toy_history_codec_def)
  have l: "history_load toy_history_codec ?p ?s = (history_default, ?s)"
    by (simp add: history_load_def file_read_def fs_call_def fs_file_def toy_history_codec_def)
  then have e: "encode toy_history_codec (history_add 30 2 2 (fst (history_load toy_history_codec ?p ?s))) = Inr [1]"
    by (simp add: toy_history_codec_def)
  have ext: "with_extension (str ''h.json'') (str ''json.tmp'') = str ''h.json.tmp''" by code_simp
  obtain s' where s': "history_record toy_history_codec ?p 30 2 2 ?s = (Inr (history_add 30 2 2 history_default), s')"
    "fs_answers s' = []"
    using l by (auto simp: history_record_def Let_def toy_history_codec_def replace_file_def ext create_dir_all_def fs_call_def
        file_write_def fs_rename_def fs_file_def fs_set_def fs_delete_def)
  from history_record_atomic [OF ok e s'] s'(1) show ?thesis by auto
qed

end
