(* ===== verification/Drain.thy ===== *)
theory Drain
  imports Index_Writer History Archive
begin

text \<open>
  \<open>crates/indexer/src/drain.rs\<close>: the loop that reads sealed segments, scores them, writes them,
  commits, and only then retires them.

  \<open>drain_env\<close> holds the third-party code (tantivy, the codecs, floating point) and what the
  rest of the world does: \<open>de_clock n\<close> is the time when segment \<open>n\<close> of the run is finished,
  \<open>de_wait n\<close> is what other processes do to the file system during the \<open>n\<close>-th idle sleep;
  \<open>de_log_info\<close> says whether info messages are logged, since the first of them asks the index
  for its size.
\<close>

record drain_config =
  dc_spool_dir :: rstr
  dc_index_dir :: rstr
  dc_writer_heap_bytes :: nat
  dc_commit_docs :: nat
  dc_once :: bool
  dc_poll_interval_ms :: nat
  dc_archive_dir :: "rstr option"
  dc_history_path :: path
  dc_host_authority_path :: path
  dc_graph_limits :: graph_limits

definition drain_config_default :: drain_config where
  "drain_config_default =
     \<lparr> dc_spool_dir = str ''data/spool'', dc_index_dir = str ''data/index/shard-000'',
       dc_writer_heap_bytes = 64 * 1024 * 1024, dc_commit_docs = 2000, dc_once = False, dc_poll_interval_ms = 500,
       dc_archive_dir = None, dc_history_path = (str ''data'', str ''index-history.json''),
       dc_host_authority_path = (str ''data'', str ''host-authority.json''),
       dc_graph_limits = graph_limits_default \<rparr>"

record drain_report =
  rp_segments :: nat
  rp_documents :: nat
  rp_doc_count :: nat

record ('b, 's, 't, 'w, 'f, 'g) drain_env =
  de_schema :: "('b, 's, 't) schema_api"
  de_tantivy :: "('w, 's, 'g) tantivy_api"
  de_codec :: "document codec"
  de_history :: "index_history codec"
  de_hosts :: "(rstr \<Rightarrow> nat option) codec"
  de_float :: "'f float_ops"
  de_widen :: "'f \<Rightarrow> 'g"
  de_clock :: "nat \<Rightarrow> int"
  de_wait :: "nat \<Rightarrow> fs \<Rightarrow> fs"
  de_log_info :: bool

record ('s, 'w) drain_state =
  ds_writer :: "'s doc_writer"
  ds_index :: 'w
  ds_fs :: fs
  ds_report :: drain_report

section \<open>The two passes\<close>

definition graph_visit :: "document \<Rightarrow> link_graph \<Rightarrow> (indexer_error + unit) \<times> link_graph" where
  "graph_visit d g = (Inr (), record_links (doc_url d) (doc_outlinks d) g)"

fun graph_paths :: "document codec \<Rightarrow> path list \<Rightarrow> link_graph \<Rightarrow> fs \<Rightarrow> (indexer_error + link_graph) \<times> fs" where
  "graph_paths C [] g s = (Inr g, s)"
| "graph_paths C (p # ps) g s =
     (case for_each_document C p graph_visit g s of
        (Inl e, _, s) \<Rightarrow> (Inl e, s)
      | (Inr _, g, s) \<Rightarrow> graph_paths C ps g s)"

definition build_authority ::
    "('b, 's, 't, 'w, 'f, 'g) drain_env \<Rightarrow> drain_config \<Rightarrow> path list \<Rightarrow> fs \<Rightarrow>
     (indexer_error + (rstr \<Rightarrow> 'f doc_scores option)) \<times> fs" where
  "build_authority E cfg ready s =
     (case load_host_inlinks (de_hosts E) (dc_host_authority_path cfg) s of
        (inlinks, s) \<Rightarrow>
          (case graph_paths (de_codec E) ready (link_graph_new (dc_graph_limits cfg) inlinks) s of
             (Inl e, s) \<Rightarrow> (Inl e, s)
           | (Inr graph, s) \<Rightarrow>
               (case graph_finish (de_float E) graph of
                  (scores, graph) \<Rightarrow>
                    (case save_host_inlinks (de_hosts E) (dc_host_authority_path cfg) (lg_host_inlinks graph) s of
                       (_, s) \<Rightarrow> (Inr scores, s)))))"

text \<open>The visitor of the second pass: add, and commit when enough is pending.\<close>

definition index_visit ::
    "('b, 's, 't, 'w, 'f, 'g) drain_env \<Rightarrow> drain_config \<Rightarrow> (rstr \<Rightarrow> 'f doc_scores option) \<Rightarrow> document \<Rightarrow>
     's doc_writer \<times> 'w \<Rightarrow> (indexer_error + unit) \<times> 's doc_writer \<times> 'w" where
  "index_visit E cfg scores d st =
     (let none = fl_lit (de_float E) 0;
          document_scores = (case scores (doc_url d) of Some s \<Rightarrow> s
                                                       | None \<Rightarrow> \<lparr> authority = none, host_authority = none \<rparr>)
      in case add_or_update (de_tantivy E) (de_widen E) d document_scores st of
           (Inl e, st) \<Rightarrow> (Inl (IdxIndex e), st)
         | (Inr _, st) \<Rightarrow>
             if dc_commit_docs cfg \<le> dw_pending (fst st)
             then (case writer_commit (de_tantivy E) st of (r, st) \<Rightarrow> (map_err IdxIndex r, st))
             else (Inr (), st))"

section \<open>One segment\<close>

definition drain_segment ::
    "('b, 's, 't, 'w, 'f, 'g) drain_env \<Rightarrow> drain_config \<Rightarrow> (rstr \<Rightarrow> 'f doc_scores option) \<Rightarrow> path \<Rightarrow>
     ('s, 'w) drain_state \<Rightarrow> (indexer_error + unit) \<times> ('s, 'w) drain_state" where
  "drain_segment E cfg scores path st =
     (case writer_doc_count (de_tantivy E) (ds_writer st, ds_index st) of
        Inl e \<Rightarrow> (Inl (IdxIndex e), st)
      | Inr documents_before \<Rightarrow>
     (case for_each_document (de_codec E) path (index_visit E cfg scores) (ds_writer st, ds_index st) (ds_fs st) of
        (Inl e, (dw, w), s) \<Rightarrow> (Inl e, st \<lparr> ds_writer := dw, ds_index := w, ds_fs := s \<rparr>)
      | (Inr n, (dw, w), s) \<Rightarrow>
     (case writer_commit (de_tantivy E) (dw, w) of
        (Inl e, dw, w) \<Rightarrow> (Inl (IdxIndex e), st \<lparr> ds_writer := dw, ds_index := w, ds_fs := s \<rparr>)
      | (Inr _, dw, w) \<Rightarrow>
     (case writer_doc_count (de_tantivy E) (dw, w) of
        Inl e \<Rightarrow> (Inl (IdxIndex e), st \<lparr> ds_writer := dw, ds_index := w, ds_fs := s \<rparr>)
      | Inr doc_count \<Rightarrow>
     (case retire path (dc_archive_dir cfg) s of
        (Inl e, s) \<Rightarrow> (Inl e, st \<lparr> ds_writer := dw, ds_index := w, ds_fs := s \<rparr>)
      | (Inr _, s) \<Rightarrow>
          (let report = ds_report st;
               report = report \<lparr> rp_segments := rp_segments report + 1, rp_documents := rp_documents report + n \<rparr>;
               gained = doc_count - documents_before
           in case history_record (de_history E) (dc_history_path cfg) (de_clock E (rp_segments report)) gained doc_count s of
                (_, s) \<Rightarrow> (Inr (), \<lparr> ds_writer = dw, ds_index = w, ds_fs = s, ds_report = report \<rparr>)))))))"

fun drain_ready ::
    "('b, 's, 't, 'w, 'f, 'g) drain_env \<Rightarrow> drain_config \<Rightarrow> (rstr \<Rightarrow> 'f doc_scores option) \<Rightarrow> path list \<Rightarrow>
     ('s, 'w) drain_state \<Rightarrow> (indexer_error + unit) \<times> ('s, 'w) drain_state" where
  "drain_ready E cfg scores [] st = (Inr (), st)"
| "drain_ready E cfg scores (p # ps) st =
     state_then (drain_segment E cfg scores p st) (\<lambda>_ st. drain_ready E cfg scores ps st)"

section \<open>The loop\<close>

partial_function (option) drain_loop ::
    "('b, 's, 't, 'w, 'f, 'g) drain_env \<Rightarrow> drain_config \<Rightarrow> nat \<Rightarrow> ('s, 'w) drain_state \<Rightarrow>
     ((indexer_error + unit) \<times> ('s, 'w) drain_state) option" where
  "drain_loop E cfg polls st =
     (case sealed_segments (dc_spool_dir cfg) (ds_fs st) of
        (Inl e, s) \<Rightarrow> Some (Inl e, st \<lparr> ds_fs := s \<rparr>)
      | (Inr ready, s) \<Rightarrow>
          if ready = [] then
            (if dc_once cfg then Some (Inr (), st \<lparr> ds_fs := s \<rparr>)
             else drain_loop E cfg (polls + 1) (st \<lparr> ds_fs := de_wait E polls s \<rparr>))
          else
            (case build_authority E cfg ready s of
               (Inl e, s) \<Rightarrow> Some (Inl e, st \<lparr> ds_fs := s \<rparr>)
             | (Inr scores, s) \<Rightarrow>
                 (case drain_ready E cfg scores ready (st \<lparr> ds_fs := s \<rparr>) of
                    (Inl e, st) \<Rightarrow> Some (Inl e, st)
                  | (Inr _, st) \<Rightarrow> drain_loop E cfg polls st)))"

definition drain_run ::
    "('b, 's, 't, 'w, 'f, 'g) drain_env \<Rightarrow> drain_config \<Rightarrow> 'w \<Rightarrow> fs \<Rightarrow>
     ((indexer_error + drain_report) \<times> 'w \<times> fs) option" where
  "drain_run E cfg w s =
     (let config = index_writer_config_default \<lparr> iw_commit_docs := dc_commit_docs cfg,
                     iw_writer_heap_bytes := dc_writer_heap_bytes cfg \<rparr>
      in case doc_writer_open (de_schema E) (de_tantivy E) (dc_index_dir cfg) config w of
           (Inl e, w) \<Rightarrow> Some (Inl (IdxIndex e), w, s)
         | (Inr dw, w) \<Rightarrow>
             (case (if de_log_info E then writer_doc_count (de_tantivy E) (dw, w) else Inr 0) of
                Inl e \<Rightarrow> Some (Inl (IdxIndex e), w, s)
              | Inr _ \<Rightarrow>
             (case drain_loop E cfg 0 \<lparr> ds_writer = dw, ds_index = w, ds_fs = s,
                    ds_report = \<lparr> rp_segments = 0, rp_documents = 0, rp_doc_count = 0 \<rparr> \<rparr> of
                None \<Rightarrow> None
              | Some (Inl e, st) \<Rightarrow> Some (Inl e, ds_index st, ds_fs st)
              | Some (Inr _, st) \<Rightarrow>
                  (case writer_doc_count (de_tantivy E) (ds_writer st, ds_index st) of
                     Inl e \<Rightarrow> Some (Inl (IdxIndex e), ds_index st, ds_fs st)
                   | Inr n \<Rightarrow> Some (Inr ((ds_report st) \<lparr> rp_doc_count := n \<rparr>), ds_index st, ds_fs st)))))"

section \<open>The program\<close>

text \<open>The command line of \<open>main.rs\<close> as \<open>clap\<close> parses it; \<open>usize\<close> is 64 bits.\<close>

record indexer_cli =
  ic_spool_dir :: rstr
  ic_index_dir :: rstr
  ic_commit_docs :: nat
  ic_writer_heap_mib :: nat
  ic_once :: bool
  ic_poll_interval_ms :: nat
  ic_archive_dir :: "rstr option"
  ic_history_path :: path
  ic_host_authority_path :: path
  ic_max_graph_nodes :: nat
  ic_max_graph_edges :: nat

definition indexer_config :: "indexer_cli \<Rightarrow> drain_config" where
  "indexer_config cli =
     \<lparr> dc_spool_dir = ic_spool_dir cli, dc_index_dir = ic_index_dir cli,
       dc_writer_heap_bytes = ic_writer_heap_mib cli * 1024 * 1024 mod 2 ^ 64,
       dc_commit_docs = ic_commit_docs cli, dc_once = ic_once cli, dc_poll_interval_ms = ic_poll_interval_ms cli,
       dc_archive_dir = ic_archive_dir cli, dc_history_path = ic_history_path cli,
       dc_host_authority_path = ic_host_authority_path cli,
       dc_graph_limits = \<lparr> max_nodes = ic_max_graph_nodes cli, max_edges = ic_max_graph_edges cli \<rparr> \<rparr>"

definition indexer_main ::
    "('b, 's, 't, 'w, 'f, 'g) drain_env \<Rightarrow> indexer_cli \<Rightarrow> 'w \<Rightarrow> fs \<Rightarrow> (exit_code \<times> 'w \<times> fs) option" where
  "indexer_main E cli w s =
     (case drain_run E (indexer_config cli) w s of
        None \<Rightarrow> None
      | Some (Inr _, w, s) \<Rightarrow> Some (SUCCESS, w, s)
      | Some (Inl _, w, s) \<Rightarrow> Some (FAILURE, w, s))"

section \<open>Files the pass leaves alone\<close>

lemma history_record_other:
  assumes "history_record C p now n tot s = (r, s')" "fst q \<noteq> fst p"
  shows "fs_file s' q = fs_file s q"
proof -
  obtain h s1 where l: "history_load C p s = (h, s1)" by fastforce
  have s1: "fs_file s1 = fs_file s"
    using l by (auto simp: history_load_def file_read_def fs_call_def
        split: prod.splits sum.splits list.splits fs_answer.splits option.splits)
  obtain bs r2 s2 where w: "replace_file p (str ''json.tmp'') bs s1 = (r2, s2)" "s' = s2"
    using assms(1) l by (auto simp: history_record_def Let_def split: prod.splits sum.splits)
  have "q \<noteq> p" "q \<noteq> (fst p, with_extension (snd p) (str ''json.tmp''))" using assms(2) by auto
  from replace_file_other [OF w(1) this] s1 w(2) show ?thesis by simp
qed

lemma graph_paths_files: "graph_paths C ps g s = (r, s') \<Longrightarrow> fs_files s' = fs_files s"
proof (induction ps arbitrary: g s)
  case Nil
  then show ?case by simp
next
  case (Cons p ps)
  obtain res g1 s1 where f: "for_each_document C p graph_visit g s = (res, g1, s1)" by (metis prod_cases3)
  then have "fs_files s1 = fs_files s" using for_each_document_files [OF f] by simp
  then show ?case using Cons f by (cases res) auto
qed

lemma build_authority_other:
  assumes "build_authority E cfg ready s = (r, s')" "fst q \<noteq> fst (dc_host_authority_path cfg)"
  shows "fs_file s' q = fs_file s q"
proof -
  let ?p = "dc_host_authority_path cfg"
  obtain m s1 where l: "load_host_inlinks (de_hosts E) ?p s = (m, s1)" by fastforce
  have s1: "fs_file s1 = fs_file s"
    using l by (auto simp: load_host_inlinks_def file_read_def fs_call_def
        split: prod.splits sum.splits list.splits fs_answer.splits option.splits)
  obtain r2 s2 where g: "graph_paths (de_codec E) ready (link_graph_new (dc_graph_limits cfg) m) s1 = (r2, s2)" by fastforce
  have s2: "fs_file s2 = fs_file s1" using graph_paths_files [OF g] by (simp add: fs_file_def fun_eq_iff)
  show ?thesis
  proof (cases r2)
    case (Inl e)
    then show ?thesis using assms(1) l g s1 s2 by (simp add: build_authority_def)
  next
    case (Inr graph)
    obtain scores graph' where fin: "graph_finish (de_float E) graph = (scores, graph')" by fastforce
    obtain r3 s3 where w: "save_host_inlinks (de_hosts E) ?p (lg_host_inlinks graph') s2 = (r3, s3)" by fastforce
    have "s' = s3" using assms(1) l g Inr fin w by (simp add: build_authority_def)
    moreover have "q \<noteq> ?p" "q \<noteq> (fst ?p, with_extension (snd ?p) (str ''json.tmp''))" using assms(2) by auto
    then have "fs_file s3 q = fs_file s2 q"
      using w replace_file_other unfolding save_host_inlinks_def Let_def by blast
    ultimately show ?thesis using s1 s2 by simp
  qed
qed

section \<open>What the index holds on the way\<close>

text \<open>The scores a document is written with: zero where the graph has none.\<close>

definition score_of ::
    "('b, 's, 't, 'w, 'f, 'g) drain_env \<Rightarrow> (rstr \<Rightarrow> 'f doc_scores option) \<Rightarrow> document \<Rightarrow> 'f doc_scores" where
  "score_of E scores d = (case scores (doc_url d) of Some s \<Rightarrow> s
      | None \<Rightarrow> \<lparr> authority = fl_lit (de_float E) 0, host_authority = fl_lit (de_float E) 0 \<rparr>)"

text \<open>The visitor is the client of \<open>row_store\<close> that commits when enough is pending.\<close>

lemma index_visit_write:
  "index_visit E cfg scores d st =
     (case rows.put_then (\<lambda>st. dc_commit_docs cfg \<le> dw_pending (fst st)) (de_tantivy E, de_widen E, sc, R, Q) (d, score_of E scores d) st of
        (r, st) \<Rightarrow> (map_err IdxIndex r, st))"
  by (simp add: index_visit_def score_of_def Let_def rows.put_then_def map_err_def split: prod.split sum.split)

text \<open>The index after writing documents one after the other: a row for each URL.\<close>

definition put_docs ::
    "('b, 's, 't, 'w, 'f, 'g) drain_env \<Rightarrow> 's index_schema \<Rightarrow> (rstr \<Rightarrow> 'f doc_scores option) \<Rightarrow> document list \<Rightarrow>
     (rstr \<Rightarrow> 'g row option) \<Rightarrow> rstr \<Rightarrow> 'g row option" where
  "put_docs E sc scores ds m =
     fold (\<lambda>d m. m(doc_url d \<mapsto> doc_row (de_widen E) sc d (score_of E scores d))) ds m"

lemma put_docs_simps [simp]:
  "put_docs E sc scores [] m = m"
  "put_docs E sc scores (d # ds) m =
     put_docs E sc scores ds (m(doc_url d \<mapsto> doc_row (de_widen E) sc d (score_of E scores d)))"
  "put_docs E sc scores (ds @ ds') m = put_docs E sc scores ds' (put_docs E sc scores ds m)"
  by (simp_all add: put_docs_def)

lemma put_docs_from:
  "put_docs E sc scores ds m u = Some r \<Longrightarrow>
     m u = Some r \<or> (\<exists>d \<in> set ds. doc_url d = u \<and> r = doc_row (de_widen E) sc d (score_of E scores d))"
proof (induction ds arbitrary: m)
  case (Cons d ds)
  from Cons.IH Cons.prems show ?case by (fastforce split: if_splits)
qed simp

lemma dom_put_docs [simp]: "dom (put_docs E sc scores ds m) = doc_url ` set ds \<union> dom m"
  by (induction ds arbitrary: m) auto

lemma index_visit_inv:
  assumes "tantivy_ok (de_tantivy E) R Q" "writer_inv sc R Q st" "index_visit E cfg scores d st = (Inr u, st')"
  shows "writer_inv sc R Q st'" "committed_urls sc R (snd st) \<subseteq> committed_urls sc R (snd st')"
    "rows_map sc (virtual_rows R Q (snd st')) = put_docs E sc scores [d] (rows_map sc (virtual_rows R Q (snd st)))"
proof -
  let ?e = "(de_tantivy E, de_widen E, sc, R, Q)" and ?due = "\<lambda>st. dc_commit_docs cfg \<le> dw_pending (fst st)"
  have "rows.put_then ?due ?e (d, score_of E scores d) st = (Inr (), st')"
    using assms(3) by (auto simp: index_visit_write [of _ _ _ _ _ sc R Q] map_err_Inr_iff split: prod.splits)
  from rows.put_then_row [OF _ this] assms(1,2) show "writer_inv sc R Q st'"
    "committed_urls sc R (snd st) \<subseteq> committed_urls sc R (snd st')"
    "rows_map sc (virtual_rows R Q (snd st')) = put_docs E sc scores [d] (rows_map sc (virtual_rows R Q (snd st)))"
    by (simp_all add: committed_urls_def)
qed

lemma index_visit_fail:
  assumes "tantivy_ok (de_tantivy E) R Q" "writer_inv sc R Q st" "index_visit E cfg scores d st = (Inl e, st')"
  shows "committed_urls sc R (snd st) \<subseteq> committed_urls sc R (snd st')"
proof -
  let ?e = "(de_tantivy E, de_widen E, sc, R, Q)" and ?due = "\<lambda>st. dc_commit_docs cfg \<le> dw_pending (fst st)"
  obtain x where "rows.put_then ?due ?e (d, score_of E scores d) st = (Inl x, st')"
    using assms(3) by (auto simp: index_visit_write [of _ _ _ _ _ sc R Q] map_err_def split: prod.splits sum.splits)
  from rows.put_then_failed [OF _ this] assms(1,2) show ?thesis by (simp add: committed_urls_def)
qed

lemma visit_all_indexed:
  assumes "tantivy_ok (de_tantivy E) R Q"
  shows "visit_all (index_visit E cfg scores) ds st = (Inr u, st') \<Longrightarrow> writer_inv sc R Q st \<Longrightarrow>
    writer_inv sc R Q st' \<and> committed_urls sc R (snd st) \<subseteq> committed_urls sc R (snd st') \<and>
    rows_map sc (virtual_rows R Q (snd st')) = put_docs E sc scores ds (rows_map sc (virtual_rows R Q (snd st)))"
proof (induction ds arbitrary: st)
  case Nil
  then show ?case by simp
next
  case (Cons d ds)
  obtain u1 st1 where v: "index_visit E cfg scores d st = (Inr u1, st1)"
    "visit_all (index_visit E cfg scores) ds st1 = (Inr u, st')"
    using Cons.prems(1) by (auto dest!: state_then_Inr_iff [THEN iffD1])
  note i = index_visit_inv [OF assms Cons.prems(2) v(1)]
  from Cons.IH [OF v(2) i(1)] i(2,3) show ?case by (auto simp del: fun_upd_apply)
qed

section \<open>No page is lost\<close>

text \<open>The configuration keeps its own files out of the spool directory.\<close>

definition drain_paths_ok :: "drain_config \<Rightarrow> bool" where
  "drain_paths_ok cfg \<longleftrightarrow> fst (dc_history_path cfg) \<noteq> dc_spool_dir cfg \<and>
     fst (dc_host_authority_path cfg) \<noteq> dc_spool_dir cfg \<and> dc_archive_dir cfg \<noteq> Some (dc_spool_dir cfg)"

text \<open>From one state to the next every well-formed file of the spool is kept or its documents are
  committed, and no committed URL is lost.\<close>

definition seg_safe ::
    "('b, 's, 't, 'w, 'f, 'g) drain_env \<Rightarrow> 's index_schema \<Rightarrow> ('w \<Rightarrow> 'g row list) \<Rightarrow> rstr \<Rightarrow>
     ('s, 'w) drain_state \<Rightarrow> ('s, 'w) drain_state \<Rightarrow> bool" where
  "seg_safe E sc R spool st st' \<longleftrightarrow>
     committed_urls sc R (ds_index st) \<subseteq> committed_urls sc R (ds_index st') \<and>
     (\<forall>q bs ds. fst q = spool \<longrightarrow> fs_file (ds_fs st) q = Some bs \<longrightarrow> frames_of (de_codec E) ds = Some bs \<longrightarrow>
        fs_file (ds_fs st') q = Some bs \<or> doc_url ` set ds \<subseteq> committed_urls sc R (ds_index st'))"

lemma seg_safe_refl: "seg_safe E sc R spool st st"
  by (simp add: seg_safe_def)

lemma seg_safe_trans:
  assumes a: "seg_safe E sc R spool st st'" and b: "seg_safe E sc R spool st' st''"
  shows "seg_safe E sc R spool st st''"
  unfolding seg_safe_def
proof (intro conjI allI impI)
  have mono: "committed_urls sc R (ds_index st') \<subseteq> committed_urls sc R (ds_index st'')"
    using b by (simp add: seg_safe_def)
  then show "committed_urls sc R (ds_index st) \<subseteq> committed_urls sc R (ds_index st'')"
    using a by (auto simp: seg_safe_def)
  fix q bs ds
  assume q: "fst q = spool" "fs_file (ds_fs st) q = Some bs" "frames_of (de_codec E) ds = Some bs"
  have "fs_file (ds_fs st') q = Some bs \<or> doc_url ` set ds \<subseteq> committed_urls sc R (ds_index st')"
    using a q unfolding seg_safe_def by blast
  then show "fs_file (ds_fs st'') q = Some bs \<or> doc_url ` set ds \<subseteq> committed_urls sc R (ds_index st'')"
  proof
    assume "fs_file (ds_fs st') q = Some bs"
    then show ?thesis using b q(1,3) unfolding seg_safe_def by blast
  next
    assume "doc_url ` set ds \<subseteq> committed_urls sc R (ds_index st')"
    then show ?thesis using mono by blast
  qed
qed

lemma seg_safe_files:
  assumes "\<And>q. fst q = spool \<Longrightarrow> fs_file (ds_fs st') q = fs_file (ds_fs st) q"
    and "committed_urls sc R (ds_index st) \<subseteq> committed_urls sc R (ds_index st')"
  shows "seg_safe E sc R spool st st'"
  using assms by (simp add: seg_safe_def)

definition drain_inv ::
    "'s index_schema \<Rightarrow> ('w \<Rightarrow> 'g row list) \<Rightarrow> ('w \<Rightarrow> 'g index_op list) \<Rightarrow> ('s, 'w) drain_state \<Rightarrow> bool" where
  "drain_inv sc R Q st \<longleftrightarrow> writer_inv sc R Q (ds_writer st, ds_index st)"

lemma drain_segment_safe:
  assumes T: "tantivy_ok (de_tantivy E) R Q" and C: "codec_ok (de_codec E)" and cfg: "drain_paths_ok cfg"
    and inv: "drain_inv sc R Q st" and path: "fst path = dc_spool_dir cfg"
    and run: "drain_segment E cfg scores path st = (r, st')"
  shows "seg_safe E sc R (dc_spool_dir cfg) st st' \<and> ((\<exists>u. r = Inr u) \<longrightarrow> drain_inv sc R Q st')"
proof (cases "writer_doc_count (de_tantivy E) (ds_writer st, ds_index st)")
  case (Inl e)
  then show ?thesis using run seg_safe_refl by (auto simp: drain_segment_def)
next
  case (Inr before)
  let ?visit = "index_visit E cfg scores" and ?x = "(ds_writer st, ds_index st)"
  let ?U = "committed_urls sc R (ds_index st)"
  let ?P = "\<lambda>x. writer_inv sc R Q x \<and> ?U \<subseteq> committed_urls sc R (snd x)"
  let ?Q = "\<lambda>x. ?U \<subseteq> committed_urls sc R (snd x)"
  obtain res dw w s where f: "for_each_document (de_codec E) path ?visit ?x (ds_fs st) = (res, (dw, w), s)"
    by (metis prod.exhaust)
  have s: "fs_file s = fs_file (ds_fs st)"
    using for_each_document_files [OF f] by (simp add: fs_file_def fun_eq_iff)
  have keeps: "?Q (dw, w)" "(\<exists>m. res = Inr m) \<longrightarrow> ?P (dw, w)"
  proof -
    have P: "?P x'" if "?P x" "?visit d x = (Inr u, x')" for d x u x'
      using index_visit_inv [OF T _ that(2)] that(1) by blast
    have F: "?Q x'" if "?P x" "?visit d x = (Inl e, x')" for d x e x'
      using index_visit_fail [OF T _ that(2)] that(1) by blast
    have P0: "?P ?x" using inv by (simp add: drain_inv_def)
    show "?Q (dw, w)" by (rule for_each_document_keeps [where P = ?P and Q = ?Q, OF P F _ P0 f]) auto
    show "(\<exists>m. res = Inr m) \<longrightarrow> ?P (dw, w)"
      by (rule for_each_document_keeps [where P = ?P and Q = ?Q, OF P F _ P0 f]) auto
  qed
  show ?thesis
  proof (cases res)
    case (Inl e)
    then have "st' = st \<lparr> ds_writer := dw, ds_index := w, ds_fs := s \<rparr>" "r = Inl e"
      using run Inr f by (auto simp: drain_segment_def)
    then show ?thesis using keeps(1) s by (auto intro!: seg_safe_files)
  next
    case res: (Inr n)
    have invx: "writer_inv sc R Q (dw, w)" "?U \<subseteq> committed_urls sc R w" using keeps(2) res by auto
    obtain rc dw2 w2 where c: "writer_commit (de_tantivy E) (dw, w) = (rc, dw2, w2)" by (metis prod.exhaust)
    show ?thesis
    proof (cases rc)
      case (Inl e)
      then have st': "st' = st \<lparr> ds_writer := dw2, ds_index := w2, ds_fs := s \<rparr>" "r = Inl (IdxIndex e)"
        using run Inr f res c by (auto simp: drain_segment_def)
      have "committed_urls sc R w \<subseteq> committed_urls sc R w2"
        using writer_commit_fail [OF T invx(1), of e "(dw2, w2)"] c Inl by simp
      then show ?thesis using st' invx(2) s by (auto intro!: seg_safe_files)
    next
      case rc: (Inr u)
      note ci = writer_commit_inv [OF T invx(1) c [unfolded rc]]
      have com: "committed_urls sc R w \<subseteq> committed_urls sc R w2"
        using ci(3) invx(1) by (simp add: writer_inv_def committed_urls_def)
      have U2: "?U \<subseteq> committed_urls sc R w2" using invx(2) com by simp
      have written: "doc_url ` set ds \<subseteq> committed_urls sc R w2"
        if "fs_file (ds_fs st) path = Some bs" "frames_of (de_codec E) ds = Some bs" for bs ds
      proof -
        have "visit_all ?visit ds ?x = (Inr (), (dw, w))"
          using for_each_document_Inr(1) [OF C that f [unfolded res]] .
        moreover have "writer_inv sc R Q ?x" using inv by (simp add: drain_inv_def)
        ultimately show ?thesis using visit_all_indexed [OF T] ci(3) by (fastforce simp: committed_urls_def)
      qed
      have inv2: "writer_inv sc R Q (dw2, w2)" by (rule ci(1))
      show ?thesis
      proof (cases "writer_doc_count (de_tantivy E) (dw2, w2)")
        case (Inl e)
        then have st': "st' = st \<lparr> ds_writer := dw2, ds_index := w2, ds_fs := s \<rparr>" "r = Inl (IdxIndex e)"
          using run \<open>writer_doc_count _ (ds_writer st, ds_index st) = Inr before\<close> f res c rc by (auto simp: drain_segment_def)
        then show ?thesis using U2 s by (auto intro!: seg_safe_files)
      next
        case count: (Inr doc_count)
        obtain rr s2 where ret: "retire path (dc_archive_dir cfg) s = (rr, s2)" by fastforce
        have other: "fs_file s2 q = fs_file s q" if "q \<noteq> path" "fst q = dc_spool_dir cfg" for q
          by (rule retire_other [OF ret that(1)]) (use that(2) cfg in \<open>auto simp: drain_paths_ok_def\<close>)
        have safe: "seg_safe E sc R (dc_spool_dir cfg) st st2"
          if fs2: "\<And>q. fst q = dc_spool_dir cfg \<Longrightarrow> fs_file (ds_fs st2) q = fs_file s2 q" and w2: "ds_index st2 = w2" for st2
          unfolding seg_safe_def w2
        proof (intro conjI allI impI U2)
          fix q bs ds assume q: "fst q = dc_spool_dir cfg" "fs_file (ds_fs st) q = Some bs" "frames_of (de_codec E) ds = Some bs"
          show "fs_file (ds_fs st2) q = Some bs \<or> doc_url ` set ds \<subseteq> committed_urls sc R w2"
          proof (cases "q = path")
            case True
            then show ?thesis using written q by blast
          next
            case False
            then show ?thesis using fs2 [OF q(1)] other [OF False q(1)] s q(2) by simp
          qed
        qed
        show ?thesis
        proof (cases rr)
          case (Inl e)
          then have "st' = st \<lparr> ds_writer := dw2, ds_index := w2, ds_fs := s2 \<rparr>" "r = Inl e"
            using run \<open>writer_doc_count _ (ds_writer st, ds_index st) = Inr before\<close> f res c rc count ret
            by (auto simp: drain_segment_def)
          then show ?thesis using safe by simp
        next
          case (Inr u2)
          let ?rep = "(ds_report st) \<lparr> rp_segments := rp_segments (ds_report st) + 1, rp_documents := rp_documents (ds_report st) + n \<rparr>"
          obtain rh s3 where h: "history_record (de_history E) (dc_history_path cfg) (de_clock E (rp_segments ?rep))
              (doc_count - before) doc_count s2 = (rh, s3)" by fastforce
          have st': "st' = \<lparr> ds_writer = dw2, ds_index = w2, ds_fs = s3, ds_report = ?rep \<rparr>" "r = Inr ()"
            using run \<open>writer_doc_count _ (ds_writer st, ds_index st) = Inr before\<close> f res c rc count ret Inr h
            by (auto simp: drain_segment_def Let_def)
          have "fs_file s3 q = fs_file s2 q" if "fst q = dc_spool_dir cfg" for q
            by (rule history_record_other [OF h]) (use that cfg in \<open>auto simp: drain_paths_ok_def\<close>)
          then show ?thesis using safe [of st'] st' inv2 by (simp add: drain_inv_def)
        qed
      qed
    qed
  qed
qed

lemma drain_ready_safe:
  assumes T: "tantivy_ok (de_tantivy E) R Q" and C: "codec_ok (de_codec E)" and cfg: "drain_paths_ok cfg"
  shows "drain_inv sc R Q st \<Longrightarrow> \<forall>p \<in> set ps. fst p = dc_spool_dir cfg \<Longrightarrow> drain_ready E cfg scores ps st = (r, st') \<Longrightarrow>
    seg_safe E sc R (dc_spool_dir cfg) st st' \<and> ((\<exists>u. r = Inr u) \<longrightarrow> drain_inv sc R Q st')"
proof (induction ps arbitrary: st)
  case Nil
  then show ?case using seg_safe_refl by auto
next
  case (Cons p ps)
  obtain r1 st1 where d: "drain_segment E cfg scores p st = (r1, st1)" by fastforce
  have path: "fst p = dc_spool_dir cfg" using Cons.prems(2) by simp
  note one = drain_segment_safe [OF T C cfg Cons.prems(1) path d]
  show ?case
  proof (cases r1)
    case (Inl e)
    then show ?thesis using one d Cons.prems(3) by auto
  next
    case (Inr u)
    have rest: "drain_ready E cfg scores ps st1 = (r, st')" using Cons.prems(3) d Inr by simp
    have ps: "\<forall>p \<in> set ps. fst p = dc_spool_dir cfg" using Cons.prems(2) by simp
    show ?thesis using Cons.IH [OF _ ps rest] one Inr seg_safe_trans by blast
  qed
qed

lemma sealed_segments_paths:
  "sealed_segments d s = (Inr ps, s') \<Longrightarrow> \<forall>p \<in> set ps. fst p = d"
  by (auto simp: sealed_segments_def split: if_splits prod.splits sum.splits)

lemma sealed_segments_files: "sealed_segments d s = (r, s') \<Longrightarrow> fs_file s' = fs_file s"
  by (auto simp: sealed_segments_def read_dir_def fs_call_def
      split: if_splits prod.splits sum.splits list.splits fs_answer.splits)

text \<open>Other processes leave well-formed files of the spool alone while the indexer sleeps.\<close>

definition wait_ok :: "('b, 's, 't, 'w, 'f, 'g) drain_env \<Rightarrow> rstr \<Rightarrow> bool" where
  "wait_ok E spool \<longleftrightarrow> (\<forall>n s q bs ds. fst q = spool \<longrightarrow> fs_file s q = Some bs \<longrightarrow>
     frames_of (de_codec E) ds = Some bs \<longrightarrow> fs_file (de_wait E n s) q = Some bs)"

lemma drain_loop_safe:
  assumes run: "drain_loop E cfg polls st = Some (r, st')" and T: "tantivy_ok (de_tantivy E) R Q"
    and C: "codec_ok (de_codec E)" and cfg: "drain_paths_ok cfg" and wait: "wait_ok E (dc_spool_dir cfg)"
    and inv: "drain_inv sc R Q st"
  shows "seg_safe E sc R (dc_spool_dir cfg) st st'"
proof -
  let ?P = "\<lambda>F cfg' (polls :: nat) st (res :: (indexer_error + unit) \<times> _). cfg' = cfg \<longrightarrow> F = E \<longrightarrow> drain_inv sc R Q st \<longrightarrow>
    seg_safe E sc R (dc_spool_dir cfg) st (snd res)"
  have "?P E cfg polls st (r, st')"
  proof (rule drain_loop.raw_induct [where P = ?P, OF _ run], intro impI)
    fix loop F cfg' st res and polls :: nat
    assume ih: "\<And>F cfg' polls st res. loop F cfg' polls st = Some res \<Longrightarrow> ?P F cfg' polls st res"
    assume step: "(case sealed_segments (dc_spool_dir cfg') (ds_fs st) of
        (Inl e, s) \<Rightarrow> Some (Inl e, st \<lparr> ds_fs := s \<rparr>)
      | (Inr ready, s) \<Rightarrow>
          if ready = [] then
            (if dc_once cfg' then Some (Inr (), st \<lparr> ds_fs := s \<rparr>)
             else loop F cfg' (polls + 1) (st \<lparr> ds_fs := de_wait F polls s \<rparr>))
          else
            (case build_authority F cfg' ready s of
               (Inl e, s) \<Rightarrow> Some (Inl e, st \<lparr> ds_fs := s \<rparr>)
             | (Inr scores, s) \<Rightarrow>
                 (case drain_ready F cfg' scores ready (st \<lparr> ds_fs := s \<rparr>) of
                    (Inl e, st) \<Rightarrow> Some (Inl e, st)
                  | (Inr _, st) \<Rightarrow> loop F cfg' polls st))) = Some res"
    assume eq: "cfg' = cfg" "F = E" and inv: "drain_inv sc R Q st"
    let ?d = "dc_spool_dir cfg"
    obtain rr s where ss: "sealed_segments ?d (ds_fs st) = (rr, s)" by fastforce
    note s = sealed_segments_files [OF ss]
    have same: "seg_safe E sc R ?d st (st \<lparr> ds_fs := x \<rparr>)" if "\<And>q. fst q = ?d \<Longrightarrow> fs_file x q = fs_file s q" for x
      by (rule seg_safe_files) (use that s in auto)
    show "seg_safe E sc R ?d st (snd res)"
    proof (cases rr)
      case (Inl e)
      then show ?thesis using step eq ss same [of s] by auto
    next
      case ready: (Inr ready)
      show ?thesis
      proof (cases "ready = []")
        case True
        show ?thesis
        proof (cases "dc_once cfg")
          case True
          then show ?thesis using step eq ss ready \<open>ready = []\<close> same [of s] by auto
        next
          case False
          let ?st = "st \<lparr> ds_fs := de_wait E polls s \<rparr>"
          have "loop E cfg (polls + 1) ?st = Some res" using step eq ss ready True False by auto
          then have "seg_safe E sc R ?d ?st (snd res)" using ih inv by (simp add: drain_inv_def)
          moreover have "seg_safe E sc R ?d st ?st"
            using wait unfolding seg_safe_def wait_ok_def s [symmetric] by simp blast
          ultimately show ?thesis by (rule seg_safe_trans [rotated])
        qed
      next
        case False
        obtain ra s2 where ba: "build_authority E cfg ready s = (ra, s2)" by fastforce
        have s2: "fs_file s2 q = fs_file s q" if "fst q = ?d" for q
          by (rule build_authority_other [OF ba]) (use that cfg in \<open>auto simp: drain_paths_ok_def\<close>)
        show ?thesis
        proof (cases ra)
          case (Inl e)
          then show ?thesis using step eq ss ready False ba same [of s2] s2 by auto
        next
          case (Inr scores)
          let ?st = "st \<lparr> ds_fs := s2 \<rparr>"
          obtain rd st3 where dr: "drain_ready E cfg scores ready ?st = (rd, st3)" by fastforce
          have inv': "drain_inv sc R Q ?st" using inv by (simp add: drain_inv_def)
          note d = drain_ready_safe [OF T C cfg inv' sealed_segments_paths [OF ss [unfolded ready]] dr]
          have upto: "seg_safe E sc R ?d st st3" using same [of s2] s2 d seg_safe_trans by blast
          show ?thesis
          proof (cases rd)
            case (Inl e)
            then show ?thesis using step eq ss ready False ba \<open>ra = Inr scores\<close> dr upto by auto
          next
            case (Inr u)
            then have "loop E cfg polls st3 = Some res" using step eq ss ready False ba \<open>ra = Inr scores\<close> dr by auto
            then have "seg_safe E sc R ?d st3 (snd res)" using ih d Inr by blast
            then show ?thesis using upto seg_safe_trans by blast
          qed
        qed
      qed
    qed
  qed
  then show ?thesis using inv by simp
qed

section \<open>A healthy disk\<close>

text \<open>With no failing operation the pass over one segment succeeds, and stays in that case.\<close>

lemma readable_quiet: "readable s \<Longrightarrow> fs_answers s = []"
  by (simp add: readable_def)

lemma replace_file_readable:
  assumes "replace_file p ext bs s = (r, s')" "readable s"
  shows "readable s' \<and> set (fs_dirs s) \<subseteq> set (fs_dirs s')"
  using assms
  by (auto simp: replace_file_def Let_def state_then_def create_dir_all_def file_write_def fs_rename_def fs_call_def
      readable_def fs_set_def fs_delete_def split: if_splits option.splits sum.splits prod.splits)

lemma file_read_readable: "file_read p s = (r, s') \<Longrightarrow> readable s \<Longrightarrow> s' = s"
  by (auto simp: file_read_def fs_call_def readable_def split: option.splits)

lemma history_record_readable:
  assumes "history_record C p now n tot s = (r, s')" "readable s"
  shows "readable s' \<and> set (fs_dirs s) \<subseteq> set (fs_dirs s')"
proof -
  obtain h s1 where l: "history_load C p s = (h, s1)" by fastforce
  then have "s1 = s" using file_read_readable [OF _ assms(2)]
    by (auto simp: history_load_def split: prod.splits sum.splits)
  moreover obtain bs r2 s2 where "replace_file p (str ''json.tmp'') bs s1 = (r2, s2)" "s' = s2"
    using assms(1) l by (auto simp: history_record_def Let_def split: prod.splits sum.splits)
  ultimately show ?thesis using replace_file_readable assms(2) by blast
qed

lemma retire_readable:
  assumes "readable s" "fs_file s p = Some bs"
  shows "\<exists>s'. retire p ad s = (Inr (), s') \<and> readable s' \<and> set (fs_dirs s) \<subseteq> set (fs_dirs s')"
proof (cases ad)
  case None
  then show ?thesis using assms by (simp add: retire_def remove_file_def fs_call_def readable_def fs_delete_def)
next
  case (Some d)
  then show ?thesis using assms
    by (cases "fst p = d"; cases p)
      (auto simp: retire_def create_dir_all_def fs_rename_def fs_call_def readable_def fs_set_def fs_delete_def)
qed

text \<open>A file holds the frames of a list of documents; it is a whole number of frames.\<close>

definition segment_holds :: "document codec \<Rightarrow> fs \<Rightarrow> path \<Rightarrow> document list \<Rightarrow> bool" where
  "segment_holds C s p ds \<longleftrightarrow> (\<exists>bs. fs_file s p = Some bs \<and> frames_of C ds = Some bs)"

definition segment_ok :: "document codec \<Rightarrow> fs \<Rightarrow> path \<Rightarrow> bool" where
  "segment_ok C s p \<longleftrightarrow> (\<exists>bs ds. fs_file s p = Some bs \<and> frames_of C ds = Some bs)"

lemma segments_hold: "\<forall>p \<in> set ps. segment_ok C s p \<Longrightarrow> \<exists>dss. list_all2 (segment_holds C s) ps dss"
proof (induction ps)
  case Nil
  show ?case by (rule exI [of _ "[]"]) simp
next
  case (Cons p ps)
  obtain dss where "list_all2 (segment_holds C s) ps dss" using Cons by auto
  moreover obtain ds where "segment_holds C s p ds" using Cons.prems by (auto simp: segment_ok_def segment_holds_def)
  ultimately have "list_all2 (segment_holds C s) (p # ps) (ds # dss)" by simp
  then show ?case by blast
qed

lemma segments_hold_ok: "list_all2 (segment_holds C s) ps dss \<Longrightarrow> \<forall>p \<in> set ps. segment_ok C s p"
proof (induction rule: list_all2_induct)
  case (Cons p ps ds dss)
  then show ?case by (auto simp: segment_ok_def segment_holds_def)
qed simp

lemma graph_paths_readable:
  assumes "codec_ok C"
  shows "readable s \<Longrightarrow> \<forall>p \<in> set ps. segment_ok C s p \<Longrightarrow>
    \<exists>g' s'. graph_paths C ps g s = (Inr g', s') \<and> readable s' \<and> fs_files s' = fs_files s \<and> fs_dirs s' = fs_dirs s"
proof (induction ps arbitrary: g s)
  case Nil
  then show ?case by simp
next
  case (Cons p ps)
  obtain bs ds where p: "fs_file s p = Some bs" "frames_of C ds = Some bs"
    using Cons.prems(2) by (auto simp: segment_ok_def)
  have a: "fs_answers s = []" "list_all (\<lambda>a. \<forall>e. a \<noteq> Fails e) (fs_read_answers s)"
    using Cons.prems(1) by (simp_all add: readable_iff)
  have v: "\<exists>g'. visit_all graph_visit ds g = (Inr (), g')" for g
    by (induction ds arbitrary: g) (simp_all add: graph_visit_def)
  obtain s1 where s1: "for_each_document C p graph_visit g s =
      (case visit_all graph_visit ds g of (Inr _, x) \<Rightarrow> (Inr (length ds), x, s1) | (Inl e, x) \<Rightarrow> (Inl e, x, s1))"
    "fs_files s1 = fs_files s" "fs_dirs s1 = fs_dirs s" "fs_answers s1 = []"
    "list_all (\<lambda>a. \<forall>e. a \<noteq> Fails e) (fs_read_answers s1)"
    by (rule for_each_document_segment [OF assms p a])
  have "readable s1" using s1 by (simp add: readable_iff)
  moreover have "\<forall>p \<in> set ps. segment_ok C s1 p" using Cons.prems(2) s1(2) by (simp add: segment_ok_def fs_file_def)
  ultimately show ?case using Cons.IH s1 v [of g] by fastforce
qed

lemma build_authority_readable:
  assumes "codec_ok (de_codec E)" "readable s" "\<forall>p \<in> set ps. segment_ok (de_codec E) s p"
  obtains scores s' where "build_authority E cfg ps s = (Inr scores, s')" "readable s'" "set (fs_dirs s) \<subseteq> set (fs_dirs s')"
proof -
  let ?p = "dc_host_authority_path cfg"
  obtain m s1 where l: "load_host_inlinks (de_hosts E) ?p s = (m, s1)" by fastforce
  then have s1: "s1 = s" using file_read_readable [OF _ assms(2)]
    by (auto simp: load_host_inlinks_def split: prod.splits sum.splits)
  obtain g s2 where g: "graph_paths (de_codec E) ps (link_graph_new (dc_graph_limits cfg) m) s = (Inr g, s2)"
    "readable s2" "fs_dirs s2 = fs_dirs s"
    using graph_paths_readable [OF assms] by blast
  obtain scores g' where fin: "graph_finish (de_float E) g = (scores, g')" by fastforce
  obtain r3 s3 where w: "save_host_inlinks (de_hosts E) ?p (lg_host_inlinks g') s2 = (r3, s3)" by fastforce
  have "readable s3 \<and> set (fs_dirs s2) \<subseteq> set (fs_dirs s3)"
    using w replace_file_readable g(2) unfolding save_host_inlinks_def Let_def by blast
  then show thesis using that l s1 g fin w by (simp add: build_authority_def)
qed

text \<open>An index that answers every call.\<close>

definition tantivy_live :: "('w, 's, 'g) tantivy_api \<Rightarrow> bool" where
  "tantivy_live T \<longleftrightarrow> (\<forall>row w. \<exists>w'. tv_add_document T row w = (Inr (), w')) \<and>
     (\<forall>w. \<exists>w'. tv_commit T w = (Inr (), w')) \<and> (\<forall>w. \<exists>n. tv_num_docs T w = Inr n)"

lemma tantivy_live_calls:
  assumes "tantivy_live T"
  shows "\<exists>w'. writer_commit T (dw, w) = (Inr (), dw \<lparr> dw_pending := 0 \<rparr>, w')" "\<exists>n. writer_doc_count T (dw, w) = Inr n"
proof -
  obtain w' n where "tv_commit T w = (Inr (), w')" "tv_num_docs T w = Inr n"
    using assms unfolding tantivy_live_def by blast
  then show "\<exists>w'. writer_commit T (dw, w) = (Inr (), dw \<lparr> dw_pending := 0 \<rparr>, w')" "\<exists>n. writer_doc_count T (dw, w) = Inr n"
    by (simp_all add: writer_commit_def writer_doc_count_def tv_result_def)
qed

lemma index_visit_live:
  assumes "tantivy_live (de_tantivy E)"
  shows "\<exists>st'. index_visit E cfg scores d st = (Inr (), st')"
proof -
  let ?T = "de_tantivy E"
  obtain dw w where st: "st = (dw, w)" by (cases st)
  obtain w' where "tv_add_document ?T (doc_row (de_widen E) (dw_schema dw) d (score_of E scores d))
      (tv_delete_term ?T (is_url (dw_schema dw)) (doc_url d) w) = (Inr (), w')"
    using assms unfolding tantivy_live_def by blast
  then obtain st1 where "add_or_update ?T (de_widen E) d (score_of E scores d) st = (Inr (), st1)"
    by (simp add: st add_or_update_def Let_def tv_result_def)
  moreover obtain st2 where "writer_commit ?T st1 = (Inr (), st2)"
    using tantivy_live_calls(1) [OF assms] by (metis prod.exhaust)
  ultimately show ?thesis
    by (simp add: index_visit_write [of E cfg scores d st undefined undefined undefined] rows.put_then_def map_err_def)
qed

lemma visit_all_live:
  assumes "tantivy_live (de_tantivy E)"
  shows "\<exists>st'. visit_all (index_visit E cfg scores) ds st = (Inr (), st')"
proof (induction ds arbitrary: st)
  case (Cons d ds)
  obtain st1 where "index_visit E cfg scores d st = (Inr (), st1)" using index_visit_live [OF assms] by blast
  then show ?case using Cons.IH [of st1] by simp
qed simp

text \<open>What a segment, and a list of segments, does to the writer: every document is added, then
  what is pending is committed.\<close>

definition index_segment ::
    "('b, 's, 't, 'w, 'f, 'g) drain_env \<Rightarrow> drain_config \<Rightarrow> (rstr \<Rightarrow> 'f doc_scores option) \<Rightarrow> document list \<Rightarrow>
     's doc_writer \<times> 'w \<Rightarrow> (indexer_error + unit) \<times> 's doc_writer \<times> 'w" where
  "index_segment E cfg scores ds x =
     state_then (visit_all (index_visit E cfg scores) ds x) (\<lambda>_ x.
       case writer_commit (de_tantivy E) x of (r, x) \<Rightarrow> (map_err IdxIndex r, x))"

fun index_segments ::
    "('b, 's, 't, 'w, 'f, 'g) drain_env \<Rightarrow> drain_config \<Rightarrow> (rstr \<Rightarrow> 'f doc_scores option) \<Rightarrow> document list list \<Rightarrow>
     's doc_writer \<times> 'w \<Rightarrow> (indexer_error + unit) \<times> 's doc_writer \<times> 'w" where
  "index_segments E cfg scores [] x = (Inr (), x)"
| "index_segments E cfg scores (ds # dss) x =
     state_then (index_segment E cfg scores ds x) (\<lambda>_ x. index_segments E cfg scores dss x)"

lemma drain_segment_live:
  assumes T: "tantivy_live (de_tantivy E)" and C: "codec_ok (de_codec E)" and cfg: "drain_paths_ok cfg"
    and path: "fst path = dc_spool_dir cfg" and p: "segment_holds (de_codec E) (ds_fs st) path ds" and s: "readable (ds_fs st)"
  obtains st' where "drain_segment E cfg scores path st = (Inr (), st')" "readable (ds_fs st')"
    "set (fs_dirs (ds_fs st)) \<subseteq> set (fs_dirs (ds_fs st'))" "fs_file (ds_fs st') path = None"
    "\<forall>q. fst q = dc_spool_dir cfg \<longrightarrow> q \<noteq> path \<longrightarrow> fs_file (ds_fs st') q = fs_file (ds_fs st) q"
    "index_segment E cfg scores ds (ds_writer st, ds_index st) = (Inr (), ds_writer st', ds_index st')"
proof -
  let ?visit = "index_visit E cfg scores" and ?x = "(ds_writer st, ds_index st)"
  obtain bs where p: "fs_file (ds_fs st) path = Some bs" "frames_of (de_codec E) ds = Some bs"
    using p by (auto simp: segment_holds_def)
  obtain before where before: "writer_doc_count (de_tantivy E) ?x = Inr before"
    using tantivy_live_calls(2) [OF T] by blast
  obtain dw w where v: "visit_all ?visit ds ?x = (Inr (), dw, w)" using visit_all_live [OF T] by (metis prod.exhaust)
  have a: "fs_answers (ds_fs st) = []" "list_all (\<lambda>a. \<forall>e. a \<noteq> Fails e) (fs_read_answers (ds_fs st))"
    using s by (simp_all add: readable_iff)
  obtain s1 where s1: "for_each_document (de_codec E) path ?visit ?x (ds_fs st) =
      (case visit_all ?visit ds ?x of (Inr _, x) \<Rightarrow> (Inr (length ds), x, s1) | (Inl e, x) \<Rightarrow> (Inl e, x, s1))"
    "fs_files s1 = fs_files (ds_fs st)" "fs_dirs s1 = fs_dirs (ds_fs st)" "fs_answers s1 = []"
    "list_all (\<lambda>a. \<forall>e. a \<noteq> Fails e) (fs_read_answers s1)"
    by (rule for_each_document_segment [OF C p a])
  have r1: "readable s1" using s1 by (simp add: readable_iff)
  have f1: "fs_file s1 = fs_file (ds_fs st)" using s1(2) by (simp add: fs_file_def fun_eq_iff)
  obtain w2 where c: "writer_commit (de_tantivy E) (dw, w) = (Inr (), dw \<lparr> dw_pending := 0 \<rparr>, w2)"
    using tantivy_live_calls(1) [OF T] by blast
  obtain n where n: "writer_doc_count (de_tantivy E) (dw \<lparr> dw_pending := 0 \<rparr>, w2) = Inr n"
    using tantivy_live_calls(2) [OF T] by blast
  obtain s2 where ret: "retire path (dc_archive_dir cfg) s1 = (Inr (), s2)" "readable s2" "set (fs_dirs s1) \<subseteq> set (fs_dirs s2)"
    using retire_readable [OF r1, of path bs] f1 p(1) by metis
  have arch: "path \<noteq> (d, snd path)" if "dc_archive_dir cfg = Some d" for d
    using that cfg path unfolding drain_paths_ok_def by (metis fst_conv)
  have gone: "fs_file s2 path = None" by (rule retire_done [OF ret(1) arch])
  have other: "fs_file s2 q = fs_file s1 q" if "q \<noteq> path" "fst q = dc_spool_dir cfg" for q
    by (rule retire_other [OF ret(1) that(1)]) (use that(2) cfg in \<open>auto simp: drain_paths_ok_def\<close>)
  let ?rep = "(ds_report st) \<lparr> rp_segments := rp_segments (ds_report st) + 1, rp_documents := rp_documents (ds_report st) + length ds \<rparr>"
  obtain rh s3 where h: "history_record (de_history E) (dc_history_path cfg) (de_clock E (rp_segments ?rep)) (n - before) n s2 = (rh, s3)"
    by fastforce
  have kept: "fs_file s3 q = fs_file s2 q" if "fst q = dc_spool_dir cfg" for q
    by (rule history_record_other [OF h]) (use that cfg in \<open>auto simp: drain_paths_ok_def\<close>)
  have "drain_segment E cfg scores path st =
      (Inr (), \<lparr> ds_writer = dw \<lparr> dw_pending := 0 \<rparr>, ds_index = w2, ds_fs = s3, ds_report = ?rep \<rparr>)"
    using before v s1(1) c n ret(1) h by (simp add: drain_segment_def Let_def)
  then show thesis
    by (rule that)
      (use history_record_readable [OF h ret(2)] ret(3) s1(3) gone other kept f1 path v c in
        \<open>auto simp: index_segment_def\<close>)
qed

lemma drain_ready_live:
  assumes T: "tantivy_live (de_tantivy E)" and C: "codec_ok (de_codec E)" and cfg: "drain_paths_ok cfg"
  shows "distinct ps \<Longrightarrow> \<forall>p \<in> set ps. fst p = dc_spool_dir cfg \<Longrightarrow>
    list_all2 (segment_holds (de_codec E) (ds_fs st)) ps dss \<Longrightarrow> readable (ds_fs st) \<Longrightarrow>
    \<exists>st'. drain_ready E cfg scores ps st = (Inr (), st') \<and> readable (ds_fs st') \<and>
      set (fs_dirs (ds_fs st)) \<subseteq> set (fs_dirs (ds_fs st')) \<and> (\<forall>p \<in> set ps. fs_file (ds_fs st') p = None) \<and>
      (\<forall>q. fst q = dc_spool_dir cfg \<longrightarrow> q \<notin> set ps \<longrightarrow> fs_file (ds_fs st') q = fs_file (ds_fs st) q) \<and>
      index_segments E cfg scores dss (ds_writer st, ds_index st) = (Inr (), ds_writer st', ds_index st')"
proof (induction ps arbitrary: st dss)
  case Nil
  then show ?case by simp
next
  case (Cons p ps)
  obtain ds dss' where dss: "dss = ds # dss'" "segment_holds (de_codec E) (ds_fs st) p ds"
    "list_all2 (segment_holds (de_codec E) (ds_fs st)) ps dss'"
    using Cons.prems(3) by (auto simp: list_all2_Cons1)
  have p: "fst p = dc_spool_dir cfg" and ps: "\<forall>p \<in> set ps. fst p = dc_spool_dir cfg" and d: "distinct ps" "p \<notin> set ps"
    using Cons.prems(1,2) by simp_all
  obtain st1 where s1: "drain_segment E cfg scores p st = (Inr (), st1)" "readable (ds_fs st1)"
    "set (fs_dirs (ds_fs st)) \<subseteq> set (fs_dirs (ds_fs st1))" "fs_file (ds_fs st1) p = None"
    "\<forall>q. fst q = dc_spool_dir cfg \<longrightarrow> q \<noteq> p \<longrightarrow> fs_file (ds_fs st1) q = fs_file (ds_fs st) q"
    "index_segment E cfg scores ds (ds_writer st, ds_index st) = (Inr (), ds_writer st1, ds_index st1)"
    by (rule drain_segment_live [OF T C cfg p dss(2) Cons.prems(4)])
  have "list_all2 (segment_holds (de_codec E) (ds_fs st1)) ps dss'"
    using dss(3)
  proof (rule list.rel_mono_strong)
    fix q x assume "q \<in> set ps" "segment_holds (de_codec E) (ds_fs st) q x"
    moreover from this have "q \<noteq> p" "fst q = dc_spool_dir cfg" using d(2) ps by auto
    then have "fs_file (ds_fs st1) q = fs_file (ds_fs st) q" using s1(5) by blast
    ultimately show "segment_holds (de_codec E) (ds_fs st1) q x" by (simp add: segment_holds_def)
  qed
  then obtain st2 where s2: "drain_ready E cfg scores ps st1 = (Inr (), st2)" "readable (ds_fs st2)"
    "set (fs_dirs (ds_fs st1)) \<subseteq> set (fs_dirs (ds_fs st2))" "\<forall>p \<in> set ps. fs_file (ds_fs st2) p = None"
    "\<forall>q. fst q = dc_spool_dir cfg \<longrightarrow> q \<notin> set ps \<longrightarrow> fs_file (ds_fs st2) q = fs_file (ds_fs st1) q"
    "index_segments E cfg scores dss' (ds_writer st1, ds_index st1) = (Inr (), ds_writer st2, ds_index st2)"
    using Cons.IH [OF d(1) ps _ s1(2)] by blast
  have "fs_file (ds_fs st2) p = None" using s2(5) p d(2) s1(4) by metis
  moreover have "drain_ready E cfg scores (p # ps) st = (Inr (), st2)" using s1(1) s2(1) by simp
  moreover have "index_segments E cfg scores dss (ds_writer st, ds_index st) = (Inr (), ds_writer st2, ds_index st2)"
    using s1(6) s2(6) by (simp add: dss(1))
  ultimately show ?case using s1(3,5) s2(2-5) by auto
qed

text \<open>After segments the committed index holds the rows of all their documents.\<close>

lemma index_segment_rows:
  assumes "tantivy_ok (de_tantivy E) R Q" "writer_inv sc R Q x" "index_segment E cfg scores ds x = (Inr u, x')"
  shows "writer_inv sc R Q x'" "R (snd x') = virtual_rows R Q (snd x')"
    "rows_map sc (R (snd x')) = put_docs E sc scores ds (rows_map sc (virtual_rows R Q (snd x)))"
proof -
  obtain x1 where v: "visit_all (index_visit E cfg scores) ds x = (Inr (), x1)"
    "writer_commit (de_tantivy E) x1 = (Inr (), x')"
    using assms(3) by (auto simp: index_segment_def map_err_Inr_iff split: prod.splits dest!: state_then_Inr_iff [THEN iffD1])
  note i = visit_all_indexed [OF assms(1) v(1) assms(2)]
  note c = writer_commit_inv [OF assms(1) _ v(2), of sc]
  show "writer_inv sc R Q x'" "R (snd x') = virtual_rows R Q (snd x')"
    "rows_map sc (R (snd x')) = put_docs E sc scores ds (rows_map sc (virtual_rows R Q (snd x)))"
    using i c by simp_all
qed

lemma index_segments_rows:
  assumes "tantivy_ok (de_tantivy E) R Q"
  shows "index_segments E cfg scores dss x = (Inr u, x') \<Longrightarrow> writer_inv sc R Q x \<Longrightarrow>
    R (snd x) = virtual_rows R Q (snd x) \<Longrightarrow>
    rows_map sc (R (snd x')) = put_docs E sc scores (concat dss) (rows_map sc (R (snd x))) \<and> plain_rows sc (R (snd x'))"
proof (induction dss arbitrary: x)
  case Nil
  then show ?case by (simp add: writer_inv_def)
next
  case (Cons ds dss)
  obtain u1 x1 where x1: "index_segment E cfg scores ds x = (Inr u1, x1)"
    "index_segments E cfg scores dss x1 = (Inr u, x')"
    using Cons.prems(1) by (auto dest!: state_then_Inr_iff [THEN iffD1])
  note r = index_segment_rows [OF assms Cons.prems(2) x1(1)]
  show ?case using Cons.IH [OF x1(2) r(1,2)] r(3) Cons.prems(3) by simp
qed

section \<open>A single pass\<close>

text \<open>The listing of the spool on a disk that answers.\<close>

lemma sealed_segments_readable:
  assumes "readable s" "d \<in> set (fs_dirs s)"
  shows "sealed_segments d s = (Inr (sort_key segment_sort_key (map (Pair d) (filter is_sealed (fs_names s d)))), s)"
  using assms by (simp add: sealed_segments_def read_dir_def fs_call_def readable_quiet)

lemma sealed_segments_listed:
  assumes "readable s" "d \<in> set (fs_dirs s)" "sealed_segments d s = (Inr ps, s)"
  shows "set ps = Pair d ` set (filter is_sealed (fs_names s d))" "distinct ps" "\<forall>p \<in> set ps. fst p = d"
  using sealed_segments_readable [OF assms(1,2)] assms(3) distinct_fs_names
  by (auto simp: distinct_map inj_on_def)

lemma drain_once_pass:
  assumes "dc_once cfg" "tantivy_live (de_tantivy E)" "codec_ok (de_codec E)" "drain_paths_ok cfg" "readable (ds_fs st)"
    and "dc_spool_dir cfg \<in> set (fs_dirs (ds_fs st))"
    and "sealed_segments (dc_spool_dir cfg) (ds_fs st) = (Inr ps, ds_fs st)"
    and "list_all2 (segment_holds (de_codec E) (ds_fs st)) ps dss"
  obtains st' scores where "drain_loop E cfg polls st = Some (Inr (), st')"
    "filter is_sealed (fs_names (ds_fs st') (dc_spool_dir cfg)) = []"
    "index_segments E cfg scores dss (ds_writer st, ds_index st) = (Inr (), ds_writer st', ds_index st')"
proof -
  let ?d = "dc_spool_dir cfg" and ?C = "de_codec E"
  let ?sealed = "\<lambda>s. filter is_sealed (fs_names s ?d)"
  note list = sealed_segments_listed [OF assms(5,6,7)]
  show thesis
  proof (cases "ps = []")
    case True
    then have "drain_loop E cfg polls st = Some (Inr (), st)" "dss = []" "?sealed (ds_fs st) = []"
      using assms(1,7,8) list(1) by (simp_all add: drain_loop.simps)
    then show thesis using that [of st] by simp
  next
    case False
    obtain scores s1 where ba: "build_authority E cfg ps (ds_fs st) = (Inr scores, s1)" "readable s1"
      "set (fs_dirs (ds_fs st)) \<subseteq> set (fs_dirs s1)"
      by (rule build_authority_readable [OF assms(3,5) segments_hold_ok [OF assms(8)]])
    have s1: "fs_file s1 q = fs_file (ds_fs st) q" if "fst q = ?d" for q
      by (rule build_authority_other [OF ba(1)]) (use that assms(4) in \<open>auto simp: drain_paths_ok_def\<close>)
    let ?st = "st \<lparr> ds_fs := s1 \<rparr>"
    have sel: "ds_fs ?st = s1" "ds_writer ?st = ds_writer st" "ds_index ?st = ds_index st" by simp_all
    have holds: "list_all2 (segment_holds ?C (ds_fs ?st)) ps dss" unfolding sel
      using assms(8) by (rule list.rel_mono_strong) (use s1 list(3) in \<open>simp add: segment_holds_def\<close>)
    have "readable (ds_fs ?st)" using ba(2) by simp
    from drain_ready_live [OF assms(2-4) list(2,3) holds this, of scores, unfolded sel]
    obtain st2 where dr: "drain_ready E cfg scores ps ?st = (Inr (), st2)" "readable (ds_fs st2)"
      "set (fs_dirs s1) \<subseteq> set (fs_dirs (ds_fs st2))" "\<forall>p \<in> set ps. fs_file (ds_fs st2) p = None"
      "\<forall>q. fst q = ?d \<longrightarrow> q \<notin> set ps \<longrightarrow> fs_file (ds_fs st2) q = fs_file s1 q"
      "index_segments E cfg scores dss (ds_writer st, ds_index st) = (Inr (), ds_writer st2, ds_index st2)" by blast
    have none: "\<not> is_sealed n" if "n \<in> set (fs_names (ds_fs st2) ?d)" for n
    proof
      assume n: "is_sealed n"
      have f: "fs_file (ds_fs st2) (?d, n) \<noteq> None" using that by (simp add: fs_names_iff)
      then have "(?d, n) \<notin> set ps" using dr(4) by metis
      moreover from this have "fs_file (ds_fs st) (?d, n) \<noteq> None" using dr(5) s1 f by simp
      ultimately show False using n list(1) by (simp add: fs_names_iff)
    qed
    then have none: "?sealed (ds_fs st2) = []" by (simp add: filter_empty_conv)
    have "?d \<in> set (fs_dirs (ds_fs st2))" using assms(6) ba(3) dr(3) by blast
    then have "drain_loop E cfg polls st2 = Some (Inr (), st2)"
      using assms(1) sealed_segments_readable [OF dr(2)] none by (simp add: drain_loop.simps [of E cfg polls st2])
    then have "drain_loop E cfg polls st = Some (Inr (), st2)"
      using False assms(7) ba(1) dr(1) by (simp add: drain_loop.simps [of E cfg polls st])
    then show thesis using none dr(6) by (rule that)
  qed
qed

lemma drain_once_rows:
  assumes "dc_once cfg" "tantivy_ok (de_tantivy E) R Q" "tantivy_live (de_tantivy E)" "codec_ok (de_codec E)"
    and "drain_paths_ok cfg" "schema_fields (dw_schema (ds_writer st))" "Q (ds_index st) = []"
    and "plain_rows (dw_schema (ds_writer st)) (R (ds_index st))" "readable (ds_fs st)"
    and "dc_spool_dir cfg \<in> set (fs_dirs (ds_fs st))"
    and "sealed_segments (dc_spool_dir cfg) (ds_fs st) = (Inr ps, ds_fs st)"
    and "list_all2 (segment_holds (de_codec E) (ds_fs st)) ps dss"
  obtains st' scores where "drain_loop E cfg polls st = Some (Inr (), st')"
    "filter is_sealed (fs_names (ds_fs st') (dc_spool_dir cfg)) = []"
    "rows_map (dw_schema (ds_writer st)) (R (ds_index st')) =
       put_docs E (dw_schema (ds_writer st)) scores (concat dss) (rows_map (dw_schema (ds_writer st)) (R (ds_index st)))"
    "plain_rows (dw_schema (ds_writer st)) (R (ds_index st'))"
proof -
  let ?sc = "dw_schema (ds_writer st)" and ?x = "(ds_writer st, ds_index st)"
  obtain st' scores where r: "drain_loop E cfg polls st = Some (Inr (), st')"
    "filter is_sealed (fs_names (ds_fs st') (dc_spool_dir cfg)) = []"
    "index_segments E cfg scores dss ?x = (Inr (), ds_writer st', ds_index st')"
    by (rule drain_once_pass [OF assms(1,3-5,9-12)])
  have v: "virtual_rows R Q (ds_index st) = R (ds_index st)" using assms(7) by (simp add: virtual_rows_def apply_ops_def)
  then have "writer_inv ?sc R Q ?x" using assms(6,8) by (simp add: writer_inv_def)
  from index_segments_rows [OF assms(2) r(3) this] v show thesis by (intro that [OF r(1,2)]) simp_all
qed

text \<open>Run with \<open>once\<close> on a disk and an index that answer, over a spool whose sealed segments are
  well formed, the loop ends without an error, leaves no sealed segment, and has committed the URL of
  every document of every one of them.\<close>

theorem drain_once_complete:
  assumes "dc_once cfg" "tantivy_ok (de_tantivy E) R Q" "tantivy_live (de_tantivy E)" "codec_ok (de_codec E)"
    and "drain_paths_ok cfg" "schema_fields (dw_schema (ds_writer st))" "Q (ds_index st) = []"
    and "plain_rows (dw_schema (ds_writer st)) (R (ds_index st))" "readable (ds_fs st)"
    and "dc_spool_dir cfg \<in> set (fs_dirs (ds_fs st))"
    and "\<forall>n \<in> set (fs_names (ds_fs st) (dc_spool_dir cfg)). is_sealed n \<longrightarrow>
      segment_ok (de_codec E) (ds_fs st) (dc_spool_dir cfg, n)"
  shows "\<exists>st'. drain_loop E cfg polls st = Some (Inr (), st') \<and>
    filter is_sealed (fs_names (ds_fs st') (dc_spool_dir cfg)) = [] \<and>
    (\<forall>n \<in> set (fs_names (ds_fs st) (dc_spool_dir cfg)). is_sealed n \<longrightarrow>
      (\<forall>ds. frames_of (de_codec E) ds = fs_file (ds_fs st) (dc_spool_dir cfg, n) \<longrightarrow>
         doc_url ` set ds \<subseteq> committed_urls (dw_schema (ds_writer st)) R (ds_index st')))"
proof -
  let ?d = "dc_spool_dir cfg" and ?sc = "dw_schema (ds_writer st)" and ?C = "de_codec E"
  obtain ps where ps: "sealed_segments ?d (ds_fs st) = (Inr ps, ds_fs st)"
    using sealed_segments_readable [OF assms(9,10)] by blast
  note list = sealed_segments_listed [OF assms(9,10) ps]
  have "\<forall>p \<in> set ps. segment_ok ?C (ds_fs st) p" using assms(11) list(1) by auto
  then obtain dss where dss: "list_all2 (segment_holds ?C (ds_fs st)) ps dss" using segments_hold by blast
  obtain st' scores where r: "drain_loop E cfg polls st = Some (Inr (), st')" "filter is_sealed (fs_names (ds_fs st') ?d) = []"
    "rows_map ?sc (R (ds_index st')) = put_docs E ?sc scores (concat dss) (rows_map ?sc (R (ds_index st)))"
    by (rule drain_once_rows [OF assms(1-10) ps dss])
  have "doc_url ` set ds \<subseteq> committed_urls ?sc R (ds_index st')"
    if n: "n \<in> set (fs_names (ds_fs st) ?d)" "is_sealed n" "frames_of ?C ds = fs_file (ds_fs st) (?d, n)" for n ds
  proof -
    have "(?d, n) \<in> set ps" using n(1,2) list(1) by simp
    then obtain ds' where ds': "ds' \<in> set dss" "segment_holds ?C (ds_fs st) (?d, n) ds'"
      using dss by (metis in_set_conv_nth list_all2_conv_all_nth)
    then have "ds = ds'" using n(3) frames_of_inj [OF assms(4)] by (auto simp: segment_holds_def)
    then show ?thesis using ds'(1) r(3) by (auto simp: committed_urls_def)
  qed
  then show ?thesis using r(1,2) by blast
qed

section \<open>The properties\<close>

text \<open>C6: however the indexer's loop ends, with an error of the disk or of the index included, every
  well-formed segment of the spool that was there when it started is still there as it was, or every
  document in it has its URL in the committed index; and no URL that was committed is lost.\<close>

theorem drain_never_loses:
  assumes "drain_loop E cfg polls st = Some (r, st')" "tantivy_ok (de_tantivy E) R Q" "codec_ok (de_codec E)"
    and "drain_paths_ok cfg" "wait_ok E (dc_spool_dir cfg)" "schema_fields (dw_schema (ds_writer st))"
    and "Q (ds_index st) = []" "plain_rows (dw_schema (ds_writer st)) (R (ds_index st))"
    and "fs_file (ds_fs st) (dc_spool_dir cfg, name) = Some bs" "frames_of (de_codec E) ds = Some bs"
  shows "(fs_file (ds_fs st') (dc_spool_dir cfg, name) = Some bs \<or>
      doc_url ` set ds \<subseteq> committed_urls (dw_schema (ds_writer st)) R (ds_index st')) \<and>
    committed_urls (dw_schema (ds_writer st)) R (ds_index st) \<subseteq> committed_urls (dw_schema (ds_writer st)) R (ds_index st')"
proof -
  have "drain_inv (dw_schema (ds_writer st)) R Q st"
    using assms(6-8) by (simp add: drain_inv_def writer_inv_def virtual_rows_def apply_ops_def)
  from drain_loop_safe [OF assms(1-5) this] assms(9,10) show ?thesis
    unfolding seg_safe_def by (metis fst_conv)
qed

section \<open>A concrete pass\<close>

definition toy_json :: "'a codec" where
  "toy_json = \<lparr> encode = (\<lambda>_. Inl ''unsupported''), decode = (\<lambda>_. Inl ''unsupported'') \<rparr>"

definition toy_drain_env ::
    "(toy_schema, toy_schema, field_decl option,
      real row list \<times> real index_op list, real, real) drain_env" where
  "toy_drain_env = \<lparr> de_schema = toy_schema_api, de_tantivy = toy_tantivy, de_codec = toy_codec,
     de_history = toy_json, de_hosts = toy_json, de_float = exact_ops, de_widen = (\<lambda>x. x),
     de_clock = (\<lambda>n. 0), de_wait = (\<lambda>n s. s), de_log_info = True \<rparr>"

definition toy_drain_config :: drain_config where
  "toy_drain_config = drain_config_default \<lparr> dc_spool_dir := str ''s'', dc_once := True \<rparr>"

definition toy_drain_state :: "(toy_schema, real row list \<times> real index_op list) drain_state" where
  "toy_drain_state = \<lparr> ds_writer = toy_dw, ds_index = ([], []), ds_fs = toy_disk,
     ds_report = \<lparr> rp_segments = 0, rp_documents = 0, rp_doc_count = 0 \<rparr> \<rparr>"

lemma toy_drain_ok:
  "dc_once toy_drain_config" "tantivy_ok (de_tantivy toy_drain_env) fst snd" "tantivy_live (de_tantivy toy_drain_env)"
  "codec_ok (de_codec toy_drain_env)" "drain_paths_ok toy_drain_config"
  "schema_fields (dw_schema (ds_writer toy_drain_state))" "snd (ds_index toy_drain_state) = []"
  "plain_rows (dw_schema (ds_writer toy_drain_state)) (fst (ds_index toy_drain_state))" "readable (ds_fs toy_drain_state)"
  "dc_spool_dir toy_drain_config \<in> set (fs_dirs (ds_fs toy_drain_state))"
  "wait_ok toy_drain_env (dc_spool_dir toy_drain_config)"
proof -
  show "schema_fields (dw_schema (ds_writer toy_drain_state))"
    using schema_build_laws(1) [OF toy_schema_ok] by (simp add: toy_drain_state_def toy_dw_def)
  show "tantivy_live (de_tantivy toy_drain_env)"
    by (simp add: tantivy_live_def toy_drain_env_def toy_tantivy_def split_beta)
qed (simp_all add: toy_drain_config_def drain_config_default_def toy_drain_env_def toy_tantivy_ok toy_codec_ok
    drain_paths_ok_def toy_drain_state_def plain_rows_def readable_def toy_disk_def wait_ok_def)

lemma le_one: "le_bytes 4 (Suc 0) = [Suc 0, 0, 0, 0]"
proof -
  have four: "(4 :: nat) = Suc (Suc (Suc (Suc 0)))" by simp
  show ?thesis unfolding four le_bytes.simps by simp
qed

lemma toy_drain_segment:
  "fs_names (ds_fs toy_drain_state) (dc_spool_dir toy_drain_config) = [sealed_segment_name 3]"
  "fs_file (ds_fs toy_drain_state) (dc_spool_dir toy_drain_config, sealed_segment_name 3) = Some [1, 0, 0, 0, 120]"
  "frames_of (de_codec toy_drain_env) [toy_doc [120]] = Some [1, 0, 0, 0, 120]"
  by (simp_all add: fs_names_def toy_drain_state_def toy_disk_def toy_drain_config_def fs_file_def toy_drain_env_def
      toy_codec_def frame_of_def toy_doc_def document_new_def u32_max_def le_one)

lemma toy_drain_segments_ok:
  "\<forall>n \<in> set (fs_names (ds_fs toy_drain_state) (dc_spool_dir toy_drain_config)). is_sealed n \<longrightarrow>
     segment_ok (de_codec toy_drain_env) (ds_fs toy_drain_state) (dc_spool_dir toy_drain_config, n)"
proof
  fix n assume "n \<in> set (fs_names (ds_fs toy_drain_state) (dc_spool_dir toy_drain_config))"
  then have n: "n = sealed_segment_name 3" using toy_drain_segment(1) by simp
  show "is_sealed n \<longrightarrow> segment_ok (de_codec toy_drain_env) (ds_fs toy_drain_state) (dc_spool_dir toy_drain_config, n)"
    unfolding n segment_ok_def using toy_drain_segment(2,3) by blast
qed

theorem drain_never_loses_witness:
  "\<exists>st'. drain_loop toy_drain_env toy_drain_config 0 toy_drain_state = Some (Inr (), st') \<and>
     (fs_file (ds_fs st') (str ''s'', sealed_segment_name 3) = Some [1, 0, 0, 0, 120] \<or>
      [120] \<in> committed_urls (dw_schema toy_dw) fst (ds_index st'))"
proof -
  obtain st' where run: "drain_loop toy_drain_env toy_drain_config 0 toy_drain_state = Some (Inr (), st')"
    using drain_once_complete [OF toy_drain_ok(1-10) toy_drain_segments_ok] by blast
  from drain_never_loses [OF run toy_drain_ok(2,4,5,11,6,7,8) toy_drain_segment(2,3)] run
  show ?thesis
    by (auto simp: toy_drain_state_def toy_drain_config_def toy_doc_def document_new_def)
qed

theorem drain_once_complete_witness:
  "\<exists>st'. drain_loop toy_drain_env toy_drain_config 0 toy_drain_state = Some (Inr (), st') \<and>
     [120] \<in> committed_urls (dw_schema toy_dw) fst (ds_index st')"
proof -
  have f: "frames_of (de_codec toy_drain_env) [toy_doc [120]] =
      fs_file (ds_fs toy_drain_state) (dc_spool_dir toy_drain_config, sealed_segment_name 3)"
    using toy_drain_segment by simp
  obtain st' where "drain_loop toy_drain_env toy_drain_config 0 toy_drain_state = Some (Inr (), st')"
    "doc_url ` set [toy_doc [120]] \<subseteq> committed_urls (dw_schema (ds_writer toy_drain_state)) fst (ds_index st')"
    using drain_once_complete [OF toy_drain_ok(1-10) toy_drain_segments_ok, of 0] f toy_drain_segment(1) is_sealed_sealed
    by (metis list.set_intros(1))
  then show ?thesis by (auto simp: toy_drain_state_def toy_doc_def document_new_def)
qed

end
