(* ===== verification/Pipeline.thy ===== *)
theory Pipeline
  imports Crawl_Example Drain Search_Engine
begin

text \<open>
  The crawler, the indexer and the search core together: what a crawl has archived is what the
  indexer, run once on the spool it leaves, puts into the index, and every hit of a search on that
  index is a page of the crawl.
\<close>

section \<open>Each program and what it finds\<close>

text \<open>A crawl from a sound database, fresh or with the queue of an earlier crawl, with the seeds of the
  command line and of the seed file, that ended well, into a spool without sealed segments, whose
  segments and WARC files are numbered below \<open>b\<close>.\<close>

definition crawl_done ::
    "'d rocks_open \<Rightarrow> client_api \<Rightarrow> rstr \<Rightarrow> ('u, 'd, 'b, 'w) crawl_env \<Rightarrow> 'd kv_view \<Rightarrow> crawler_cli \<Rightarrow> nat \<Rightarrow> fs \<Rightarrow> nat \<Rightarrow>
     settings \<Rightarrow> event list \<Rightarrow> ('d, 'b) loop_state \<Rightarrow> bool" where
  "crawl_done B H version C V cli k f b S evs ls \<longleftrightarrow>
     (\<exists>ls0 f'. crawl_begin B H version C cli f = (Inr (S, ls0), f') \<and> crawl_run C cli S ls0 evs ls) \<and>
     begins_sound B C V cli f k \<and> (\<exists>stats. ls_phase ls = Ended (Inr stats)) \<and>
     numbered_below parse_segment_sequence (cc_spool_dir cli) b f \<and> numbered_below parse_warc_sequence (cc_warc_dir cli) b f \<and>
     0 < b \<and> b + length (archived_pages C S evs) + 1 < u64_max \<and>
     fst (cc_stats_path cli) \<noteq> cc_spool_dir cli \<and> fst (cc_bloom_path cli) \<noteq> cc_spool_dir cli \<and>
     filter is_sealed (fs_names f (cc_spool_dir cli)) = [] \<and> codec_ok (se_codec (ce_storage C))"

text \<open>An indexer about to make a single pass, on a disk and an index that answer, with nothing
  uncommitted.\<close>

definition indexer_ready ::
    "('b, 's, 't, 'w, 'f, 'g) drain_env \<Rightarrow> drain_config \<Rightarrow> ('w \<Rightarrow> 'g row list) \<Rightarrow> ('w \<Rightarrow> 'g index_op list) \<Rightarrow>
     ('s, 'w) drain_state \<Rightarrow> bool" where
  "indexer_ready E cfg R Q st \<longleftrightarrow> dc_once cfg \<and> drain_paths_ok cfg \<and> codec_ok (de_codec E) \<and>
     tantivy_ok (de_tantivy E) R Q \<and> tantivy_live (de_tantivy E) \<and> schema_fields (dw_schema (ds_writer st)) \<and>
     Q (ds_index st) = [] \<and> plain_rows (dw_schema (ds_writer st)) (R (ds_index st)) \<and>
     readable (ds_fs st) \<and> dc_spool_dir cfg \<in> set (fs_dirs (ds_fs st))"

text \<open>The indexer works on the spool the crawl has left, in the same encoding.\<close>

definition follows_crawl ::
    "('u, 'd, 'c, 'v) crawl_env \<Rightarrow> crawler_cli \<Rightarrow> ('d, 'c) loop_state \<Rightarrow> ('b, 's, 't, 'w, 'f, 'g) drain_env \<Rightarrow> drain_config \<Rightarrow>
     ('s, 'w) drain_state \<Rightarrow> bool" where
  "follows_crawl C cli ls E cfg st \<longleftrightarrow> fs_files (ds_fs st) = fs_files (cs_fs (ls_state ls)) \<and>
     dc_spool_dir cfg = cc_spool_dir cli \<and> de_codec E = se_codec (ce_storage C)"

lemma crawl_then_drain:
  assumes "crawl_done B H version C V cli k f b S evs ls" "indexer_ready E cfg R Q st" "follows_crawl C cli ls E cfg st"
  obtains st' scores where "drain_loop E cfg polls st = Some (Inr (), st')"
    "filter is_sealed (fs_names (ds_fs st') (dc_spool_dir cfg)) = []"
    "rows_map (dw_schema (ds_writer st)) (R (ds_index st')) =
       put_docs E (dw_schema (ds_writer st)) scores (map snd (archived_pages C S evs))
         (rows_map (dw_schema (ds_writer st)) (R (ds_index st)))"
    "plain_rows (dw_schema (ds_writer st)) (R (ds_index st'))"
proof -
  note c = assms(1) [unfolded crawl_done_def] and i = assms(2) [unfolded indexer_ready_def]
    and l = assms(3) [unfolded follows_crawl_def]
  obtain ls0 f' stats where start: "crawl_begin B H version C cli f = (Inr (S, ls0), f')"
    and fresh: "begins_sound B C V cli f k" and run: "crawl_run C cli S ls0 evs ls" and ended: "ls_phase ls = Ended (Inr stats)"
    using c by blast
  have n: "numbered_below parse_segment_sequence (cc_spool_dir cli) b f" "numbered_below parse_warc_sequence (cc_warc_dir cli) b f"
    "0 < b" "b + length (archived_pages C S evs) + 1 < u64_max" "fst (cc_stats_path cli) \<noteq> cc_spool_dir cli"
    "fst (cc_bloom_path cli) \<noteq> cc_spool_dir cli" "filter is_sealed (fs_names f (cc_spool_dir cli)) = []"
    using c by blast+
  have disk: "fs_files (ds_fs st) = fs_files (cs_fs (ls_state ls))" "cc_spool_dir cli \<in> set (fs_dirs (ds_fs st))"
    "readable (ds_fs st)" using i l by auto
  obtain ps dss where ps: "sealed_segments (cc_spool_dir cli) (ds_fs st) = (Inr ps, ds_fs st)"
    "list_all2 (\<lambda>p ds. \<exists>bs. fs_file (ds_fs st) p = Some bs \<and> frames_of (se_codec (ce_storage C)) ds = Some bs) ps dss"
    "concat dss = map snd (archived_pages C S evs)"
    by (rule crawl_ended_listed [OF start fresh run ended n disk])
  have spool: "sealed_segments (dc_spool_dir cfg) (ds_fs st) = (Inr ps, ds_fs st)" using ps(1) l by simp
  have holds: "list_all2 (segment_holds (de_codec E) (ds_fs st)) ps dss"
    using ps(2) l by (simp add: segment_holds_def [abs_def])
  show thesis
    by (rule drain_once_rows [where E = E and cfg = cfg and R = R and Q = Q and st = st and ps = ps and dss = dss and polls = polls])
      (use i spool holds ps(3) that in auto)
qed

text \<open>C2: after a crawl that ended well, from a fresh database or continuing an earlier crawl, with seeds
  from the command line or a seed file, a run of the indexer over the spool it
  left ends without an error, leaves no segment behind, and the committed index has, for every URL
  among the pages the crawl archived, the row of the last of its pages, and every other row as it
  was before.\<close>

theorem crawl_to_index:
  assumes "crawl_done B H version C V cli k f b S evs ls" "indexer_ready E cfg R Q st" "follows_crawl C cli ls E cfg st"
  shows "\<exists>st' scores. drain_loop E cfg polls st = Some (Inr (), st') \<and>
    filter is_sealed (fs_names (ds_fs st') (dc_spool_dir cfg)) = [] \<and>
    rows_map (dw_schema (ds_writer st)) (R (ds_index st')) =
      put_docs E (dw_schema (ds_writer st)) scores (map snd (archived_pages C S evs))
        (rows_map (dw_schema (ds_writer st)) (R (ds_index st)))"
  by (rule crawl_then_drain [OF assms, of polls]) blast

section \<open>Searching what was crawled\<close>

lemma doc_row_fields:
  assumes "schema_fields sc"
  shows "field_text (doc_row widen sc d s) (is_url sc) = doc_url d" "field_text (doc_row widen sc d s) (is_title sc) = doc_title d"
    "field_i64 (doc_row widen sc d s) (is_fetched_at sc) = doc_fetched_at d"
  using assms by (auto simp: schema_fields_def field_text_def field_i64_def doc_row_def)

text \<open>C1: every hit of a search on the index of a crawl is a page of that crawl: when the index was
  empty before the indexer ran on the spool the crawl left, each hit the engine answers, from its
  cache or not, has the URL, the title and the fetch time of a document the crawl archived.\<close>

theorem crawl_to_search:
  assumes "crawl_done B H version C V cli k f b S evs ls" "indexer_ready E cfg R Q st" "follows_crawl C cli ls E cfg st"
    and "R (ds_index st) = []" "drain_loop E cfg polls st = Some (Inr (), st')" "dw_schema (ds_writer st) = schema_build SA"
    and "cache_ok CA content" "reader_ok A R" "open_with_cache SA A CA index_dir capacity (ds_index st') = Inr eng"
    and "engine_search A CA query limit offset elapsed (ds_index st') eng = (Inr out, eng')" "h \<in> set (so_hits out)"
  shows "\<exists>(page, d) \<in> set (archived_pages C S evs).
    hit_url h = doc_url d \<and> hit_title h = doc_title d \<and> hit_fetched_at h = doc_fetched_at d"
proof -
  let ?sc = "schema_build SA"
  obtain st1 scores where d: "drain_loop E cfg polls st = Some (Inr (), st1)"
    "rows_map ?sc (R (ds_index st1)) = put_docs E ?sc scores (map snd (archived_pages C S evs)) (rows_map ?sc [])"
    "plain_rows ?sc (R (ds_index st1))"
    by (rule crawl_then_drain [OF assms(1-3), of polls, unfolded assms(4,6)])
  obtain r where r: "r \<in> set (R (ds_index st'))" "shows_row ?sc h r"
    by (rule fresh_engine_hits [OF assms(7-11)])
  have none: "rows_map ?sc [] u = None" for u by (simp add: rows_map_def)
  have "st1 = st'" using assms(5) d(1) by simp
  then obtain u where u: "row_url ?sc r = Some u" "rows_map ?sc (R (ds_index st')) u = Some r"
    using rows_map_row [OF d(3)] r(1) d(3) by (auto simp: plain_rows_def)
  then obtain d' where "d' \<in> set (map snd (archived_pages C S evs))" "r = doc_row (de_widen E) ?sc d' (score_of E scores d')"
    using put_docs_from [of E ?sc scores "map snd (archived_pages C S evs)" "rows_map ?sc []" u r] d(2) \<open>st1 = st'\<close>
    by (auto simp: none)
  moreover have "schema_fields ?sc" using assms(2,6) by (simp add: indexer_ready_def)
  ultimately show ?thesis using r(2) by (auto simp: shows_row_def doc_row_fields)
qed

section \<open>A page crawled, indexed and found\<close>

text \<open>The crawl of \<open>Crawl_Example\<close>, and the indexer on an empty index after it.\<close>

definition ex_drain_env ::
    "(toy_schema, toy_schema, field_decl option,
      real row list \<times> real index_op list, real, real) drain_env" where
  "ex_drain_env = toy_drain_env \<lparr> de_codec := ex_codec \<rparr>"

definition ex_drain_state :: "fs \<Rightarrow> (toy_schema, real row list \<times> real index_op list) drain_state" where
  "ex_drain_state s = toy_drain_state \<lparr> ds_fs := s \<rparr>"

lemma ex_drain_sel [simp]:
  "de_codec ex_drain_env = ex_codec" "de_tantivy ex_drain_env = de_tantivy toy_drain_env"
  "ds_fs (ex_drain_state s) = s" "ds_writer (ex_drain_state s) = ds_writer toy_drain_state"
  "ds_index (ex_drain_state s) = ds_index toy_drain_state"
  by (simp_all add: ex_drain_env_def ex_drain_state_def)

lemma ex_pipeline:
  obtains evs ls s where "crawl_done ex_rocks ex_client [] ex_env mini_view ex_cli 1 ex_disk 1 ex_settings evs ls"
    "indexer_ready ex_drain_env toy_drain_config fst snd (ex_drain_state s)"
    "follows_crawl ex_env ex_cli ls ex_drain_env toy_drain_config (ex_drain_state s)"
    "archived_pages ex_env ex_settings evs = [(toy_page, ex_doc)]"
proof -
  obtain w f where b: "crawl_begin ex_rocks ex_client [] ex_env ex_cli ex_disk = (Inr (ex_settings, ex_loop0 w f), f)"
    "live ex_config (w, f)" by (rule ex_begin)
  obtain evs ls where r: "crawl_run ex_env ex_cli ex_settings (ex_loop0 w f) evs ls" "ls_phase ls = Ended (Inr ex_done)"
    "evs = [Quiet, Quiet, Dispatched ex_job, Finished ex_out, Quiet, Quiet, Absorbed 0 ex_out, Quiet, Quiet, Quiet]"
    by (rule ex_run_end [OF b(2)])
  have pages: "archived_pages ex_env ex_settings evs = [(toy_page, ex_doc)]"
    by (simp add: r(3) archived_pages_def archived_by_def dropped_offsite_def ex_onsite ex_out_def ex_page_document
        List.map_filter_simps)
  let ?s = "\<lparr> fs_files = fs_files (cs_fs (ls_state ls)), fs_dirs = [str ''s''], fs_answers = [], fs_write_faults = [],
    fs_read_answers = [] \<rparr>"
  have dirs: "cc_spool_dir ex_cli = str ''s''" "cc_warc_dir ex_cli = str ''w''" "fst (cc_stats_path ex_cli) = str ''d''"
    "fst (cc_bloom_path ex_cli) = str ''d''" "dc_spool_dir toy_drain_config = str ''s''"
    by (simp_all add: ex_cli_def toy_drain_config_def)
  have apart: "str ''d'' \<noteq> str ''s''" by simp
  have "str ''s'' \<noteq> str ''e''" "str ''w'' \<noteq> str ''e''" by simp_all
  then have names: "fs_names ex_disk (str ''s'') = []" "fs_names ex_disk (str ''w'') = []"
    by (simp_all add: ex_disk_def fs_names_def del: str_simps)
  have codec: "codec_ok ex_codec" by (simp add: codec_ok_def ex_codec_def)
  have "crawl_done ex_rocks ex_client [] ex_env mini_view ex_cli 1 ex_disk 1 ex_settings evs ls"
    unfolding crawl_done_def pages using apart b(1) r(1,2) begins_fresh_sound [OF ex_begins_fresh] codec
    by (auto simp: numbered_below_def names dirs u64_max_def simp del: str_simps)
  moreover have "indexer_ready ex_drain_env toy_drain_config fst snd (ex_drain_state ?s)"
    using toy_drain_ok codec by (simp add: indexer_ready_def dirs readable_def del: str_simps)
  moreover have "follows_crawl ex_env ex_cli ls ex_drain_env toy_drain_config (ex_drain_state ?s)"
    by (simp add: follows_crawl_def dirs del: str_simps)
  ultimately show thesis using pages by (rule that)
qed

lemma ex_index:
  "rows_map sc (fst (ds_index (ex_drain_state s))) = Map.empty" "dw_schema (ds_writer (ex_drain_state s)) = dw_schema toy_dw"
  "doc_url ex_doc = ex_final"
  by (simp_all add: toy_drain_state_def rows_map_def fun_eq_iff ex_doc_def document_new_def)

theorem crawl_to_index_witness:
  "\<exists>s st'. drain_loop ex_drain_env toy_drain_config 0 (ex_drain_state s) = Some (Inr (), st') \<and>
     dom (rows_map (dw_schema toy_dw) (fst (ds_index st'))) = {ex_final}"
proof -
  obtain evs ls s where p: "crawl_done ex_rocks ex_client [] ex_env mini_view ex_cli 1 ex_disk 1 ex_settings evs ls"
    "indexer_ready ex_drain_env toy_drain_config fst snd (ex_drain_state s)"
    "follows_crawl ex_env ex_cli ls ex_drain_env toy_drain_config (ex_drain_state s)"
    "archived_pages ex_env ex_settings evs = [(toy_page, ex_doc)]"
    by (rule ex_pipeline)
  obtain st' scores where "drain_loop ex_drain_env toy_drain_config 0 (ex_drain_state s) = Some (Inr (), st')"
    "rows_map (dw_schema toy_dw) (fst (ds_index st')) = put_docs ex_drain_env (dw_schema toy_dw) scores [ex_doc] Map.empty"
    using crawl_to_index [OF p(1-3), of 0] unfolding p(4) ex_index by auto
  moreover from this(2) have "dom (rows_map (dw_schema toy_dw) (fst (ds_index st'))) = {ex_final}"
    by (simp only: dom_put_docs) (simp add: ex_index(3))
  ultimately show ?thesis by blast
qed

text \<open>A search engine over the rows of the toy index: every query finds all of them.\<close>

definition row_query ::
    "(real row list \<times> real index_op list, toy_schema, real row list, unit, nat, real, real) query_api" where
  "row_query = \<lparr> qa_has_meta = (\<lambda>_ _. True), qa_open_in_dir = (\<lambda>_ _. Inr (is_schema (schema_build toy_schema_api))),
     qa_reload = (\<lambda>w. Inr (fst w)), qa_segments = (\<lambda>v. []), qa_num_docs = length,
     qa_parse = (\<lambda>_ _ _. Inr ()), qa_all_query = (), qa_count = (\<lambda>v q. Inr (length v)),
     qa_top = (\<lambda>v q limit offset. Inr (take limit (drop offset (map (Pair 1) [0..<length v])))),
     qa_snippets = (\<lambda>_ _ _. Inr (\<lambda>_ _. [])), qa_doc = (\<lambda>v a. if a < length v then Inr (v ! a) else Inl ''no document''),
     qa_zero = 0, qa_narrow = (\<lambda>x. x), qa_hash = length \<rparr>"

lemma row_reader_ok: "reader_ok row_query fst"
  by (auto simp: reader_ok_def row_query_def split: if_splits)

theorem crawl_to_search_witness:
  "\<exists>w eng out eng'. open_with_cache toy_schema_api row_query toy_cache (str ''d'') 8 w = Inr eng \<and>
     engine_search row_query toy_cache (str ''hi'') 10 0 1 w eng = (Inr out, eng') \<and> map hit_url (so_hits out) = [ex_final]"
proof -
  let ?sc = "schema_build toy_schema_api"
  obtain evs ls s where p: "crawl_done ex_rocks ex_client [] ex_env mini_view ex_cli 1 ex_disk 1 ex_settings evs ls"
    "indexer_ready ex_drain_env toy_drain_config fst snd (ex_drain_state s)"
    "follows_crawl ex_env ex_cli ls ex_drain_env toy_drain_config (ex_drain_state s)"
    "archived_pages ex_env ex_settings evs = [(toy_page, ex_doc)]"
    by (rule ex_pipeline)
  have sc: "dw_schema toy_dw = ?sc" by (simp add: toy_dw_def)
  obtain st' scores where d: "drain_loop ex_drain_env toy_drain_config 0 (ex_drain_state s) = Some (Inr (), st')"
    "rows_map ?sc (fst (ds_index st')) = put_docs ex_drain_env ?sc scores [ex_doc] Map.empty"
    "plain_rows ?sc (fst (ds_index st'))"
    by (rule crawl_then_drain [OF p(1-3), of 0, unfolded p(4) ex_index sc list.map snd_conv])
  let ?w = "ds_index st'"
  have "dom (rows_map ?sc (fst ?w)) = {ex_final}" unfolding d(2) dom_put_docs by (simp add: ex_index(3))
  then have "length (fst ?w) = 1" using rows_map_dom [OF d(3)] by simp
  then obtain r where r: "fst ?w = [r]" by (auto simp: length_Suc_conv)
  have compat: "is_compatible_with toy_schema_api ?sc (is_schema ?sc)"
    using schema_build_compatible [OF toy_schema_ok] by blast
  obtain eng where o: "open_with_cache toy_schema_api row_query toy_cache (str ''d'') 8 ?w = Inr eng"
    "eng_cache eng = []" "eng_schema eng = ?sc"
    using compat by (simp add: open_with_cache_def row_query_def toy_cache_def Let_def)
  obtain out eng' h where s: "engine_search row_query toy_cache (str ''hi'') 10 0 1 ?w eng = (Inr out, eng')" "so_hits out = [h]"
    by (simp add: engine_search_def search_page_def choose_query_def r o row_query_def toy_cache_def Let_def del: str_simps)
  have w: "fst (ds_index (ex_drain_state s)) = []" by (simp add: toy_drain_state_def)
  have "dw_schema (ds_writer (ex_drain_state s)) = ?sc" by (simp add: toy_drain_state_def sc)
  from crawl_to_search [OF p(1-3) w d(1) this toy_cache_ok row_reader_ok o(1) s(1), of h]
  have "hit_url h = ex_final" by (simp add: s(2) p(4) ex_index(3))
  then have "map hit_url (so_hits out) = [ex_final]" by (simp only: s(2) list.map)
  with o(1) s(1) show ?thesis by (intro exI conjI)
qed

end
