(* ===== verification/Spec2Isabelle.thy ===== *)
theory Spec2Isabelle
  imports Policy Robots_Cache Fetcher Python_Api Sitemap Pipeline
begin

text \<open>
  \<^bold>\<open>MJLsearch\<close> is a web search engine in four Rust crates: a crawler, an indexer, the search core
  with its Python extension, and what they share. This development translates them function by
  function. Data are records and datatypes with the fields and the variants of the source, every
  operation is an executable function, and an error is a value: \<open>'e + 'a\<close> is Rust's \<open>Result\<close>,
  with \<open>Inl\<close> for \<open>Err\<close>, and an operation that changes state returns its result and the new state
  (\<open>state_then\<close> of \<open>Prelude\<close> is the \<open>?\<close> operator over it).

  \<^bold>\<open>The program.\<close> The crawler (\<open>crates/crawler\<close>) takes URLs from a frontier kept in RocksDB, visits
  them in parallel tasks under the rules of each site's \<open>robots.txt\<close>, and for every page writes a
  WARC record and a document. Documents go to the indexer (\<open>crates/indexer\<close>) through the spool, a
  directory of segment files that are renamed when they are complete (\<open>crates/common\<close>). The indexer
  reads sealed segments, scores their pages by their links, writes them to the index, commits, and
  only then retires the segments. The search core (\<open>crates/search-core\<close>) reads the index and
  answers queries behind a page cache, for Python.

  \<^bold>\<open>Theories.\<close>

  \<^item> \<open>Prelude\<close>, \<open>Rstring\<close>: results, machine integers (saturating, wrapping, casts), strings as lists
    of code points with UTF-8, trimming, searching and number formats. \<open>Float_Text\<close>: the float
    syntax of a \<open>Crawl-delay\<close>, on rationals.

  \<^item> \<open>Documents\<close>, \<open>Frames\<close> (\<open>common/src/document.rs\<close>, \<open>spool.rs\<close>): documents, frontier keys, segment
    names, frames over readers and writers that may stop short, be interrupted or fail. \<open>Fs\<close>: the
    part of \<open>std::fs\<close> in use, where every call takes its answer from a list of faults. \<open>Atomic\<close>: the
    files that are written beside and renamed.

  \<^item> \<open>Url\<close>, \<open>Policy\<close> (\<open>crawler/src/policy.rs\<close>): canonical URLs, page filter, scope of a crawl.
    \<open>Robots\<close>, \<open>Robots_Cache\<close> (\<open>robots.rs\<close>): rules, matcher, parser and the cache of rules.
    \<open>Sitemap\<close> (\<open>sitemap.rs\<close>). \<open>Entities\<close>, \<open>Parser\<close> (\<open>parser.rs\<close>): the handlers over the events of a
    tokenizer, white space, character references, links.

  \<^item> \<open>Crawl_Error\<close> (\<open>lib.rs\<close>), \<open>Db\<close> (\<open>db.rs\<close>), \<open>Frontier\<close> (\<open>frontier.rs\<close>): the persistent queue with
    the politeness state of the hosts. \<open>Dedup\<close> (\<open>dedup.rs\<close>): the filter of seen URLs.
    \<open>Fetcher\<close> (\<open>fetcher.rs\<close>): attempts, retries with their delays, responses and decoding.

  \<^item> \<open>Calendar\<close>, \<open>Storage\<close>, \<open>Archive\<close> (\<open>storage.rs\<close>): dates, the archive writer, and whole runs of it.

  \<^item> \<open>Crawl_Visit\<close>, \<open>Crawl_Absorb\<close>, \<open>Crawl_Schedule\<close>, \<open>Crawl_Loop\<close>, \<open>Crawl_Safety\<close>, \<open>Crawl_Start\<close>,
    \<open>Crawl_Ends\<close>, \<open>Crawl_Archive\<close> (\<open>crawler/src/main.rs\<close>): a visit, the absorption of its outcome, the
    loop as the step relation \<open>crawl_step\<close> over what the network, the clock, the scheduler and the
    operator may do, its start, how it ends, and what holds of all runs. \<open>Crawl_Example\<close> runs a crawl
    of one page.

  \<^item> \<open>Index_Spool\<close>, \<open>Handoff\<close>, \<open>Link_Graph\<close>, \<open>History\<close>, \<open>Drain\<close> (\<open>indexer/src/spool.rs\<close>, \<open>graph.rs\<close>,
    \<open>history.rs\<close>, \<open>drain.rs\<close>, \<open>main.rs\<close>): reading and retiring segments, the crawler's writer against
    the indexer's reader, authority scores, the growth timeline, the drain loop.

  \<^item> \<open>Index_Writer\<close> (\<open>search-core/src/schema.rs\<close>, \<open>index_writer.rs\<close>), \<open>Search_Engine\<close> (\<open>search.rs\<close>),
    \<open>Python_Api\<close> (\<open>python_api.rs\<close>): the schema and the write path, queries and the cache, the
    process-wide handle.

  \<^item> \<open>Pipeline\<close>: the three programs one after the other, from the seeds of a crawl to the hits of a
    search.

  \<^bold>\<open>Parameters.\<close> Code that is not part of the repository is an argument of the definitions, a record
  of functions: the \<open>url\<close> crate (\<open>url_api\<close>), RocksDB (\<open>kv_api\<close>, \<open>rocks_open\<close>), the Bloom filter
  (\<open>bloom_api\<close>), postcard and serde (\<open>codec\<close>), the HTTP client with its decoders (\<open>fetch_env\<close>,
  \<open>client_api\<close>), zstd and the hash (\<open>storage_env\<close>), the HTML tokenizer (\<open>ve_rewriter\<close>), tantivy
  (\<open>tantivy_api\<close>, \<open>query_api\<close>), the page cache (\<open>cache_api\<close>) and floating point (a record of
  operations). What the program relies on is a named predicate (\<open>url_ok\<close>, \<open>kv_ok\<close>, \<open>codec_ok\<close>,
  \<open>bloom_ok\<close>, \<open>cache_ok\<close> and so on) that states the documented behaviour; each is shown to hold of a
  concrete function (\<open>mini_url\<close>, \<open>mini_kv\<close>, \<open>list_bloom\<close>, ...), on which the properties are also
  evaluated.

  \<^bold>\<open>What is shown.\<close> For the whole: what a crawl archives is what the indexer commits, row for row, and
  every hit of a search on that index is a page of the crawl. For a crawl: no URL is visited twice, no visit leaves the scope or the depth,
  the accounting of visits is exact and bounded, a page is asked for only if the rules in force
  allow it, a crawl that ends well leaves for the indexer exactly the pages it has counted, one that
  is told to stop does stop, and from every state it reaches it can come to its end. For
  the frontier: jobs are conserved, a deferred host is left alone through whatever operations follow, restarts are exact even after a
  failed write, a pop always returns. For the archive and the spool: runs are exact, names are never
  reused, torn tails are read as far as they go. For the indexer: nothing is retired before it is
  committed, whatever fails, and a healthy drain ends with everything committed; ranks are
  conserved and bounded; the index is a map from URLs to rows, which have the fields of the schema. For the search core: the cache is
  invisible, pages tile the ranked list, one engine is published. Parsers and printers of every
  format are related by round trips; optimised routines by equivalences with plain ones. Some
  theorems state where the code falls short of its documentation, for instance
  \<open>glob_matches_anchored_incomplete\<close> and \<open>warc_rolls_every_page\<close>.

  \<^bold>\<open>Interfaces.\<close> The locales \<open>job_queue\<close> (interpreted on the frontier), \<open>seen_set\<close> (on the filter of
  seen URLs), \<open>segment_format\<close> (on the frames), \<open>row_store\<close> (on the index writer) and \<open>memo_cache\<close> (on the
  page cache of the search engine) state what their clients use. \<open>atomic_save\<close> is the contract of a file that is replaced whole, and
  \<open>saved_value\<close> extends it with the load that reads it back; the filter and the counts of the hosts
  are interpretations of the second, the timeline and the progress file of the first.

  \<^bold>\<open>Termination and bounds.\<close> Loops of the code are structural recursion or functions with a
  measure. \<open>pop_loop\<close> and \<open>drain_loop\<close>, whose ends depend on their environment, are partial functions
  into \<open>option\<close>; that they return is proved (\<open>pop_ready_returns\<close>, \<open>drain_once_complete\<close>). The crawl
  loop is a step relation, because it may run as long as there are pages; its shutdown is shown to
  be well founded (\<open>shutdown_terminates\<close>). Integers are \<open>nat\<close> and
  \<open>int\<close> with the wrap-around, the saturation and the casts of the code written out; a release build
  is assumed, in which unchecked addition wraps. Theorems that need counters below their limits say
  so (\<open>has_room\<close>, \<open>countable\<close>, \<open>u64_max\<close>). \<open>begins_sound\<close> says what a crawl starts from: a database as
  a crawl leaves it, and a bound on the seeds, those of the seed file included as the crawl reads it.

  \<^bold>\<open>Not modelled.\<close> Log lines; the parsing of the command line by \<open>clap\<close> (its options and defaults are
  records); the registration of the Python functions by PyO3; the memory and the scheduling of tokio, beyond the order in which
  tasks end; the panic of a crawl started without workers; the tests. A crash between two calls is covered where a property speaks of a state on
  disk (\<open>filter_saves_durable\<close>, \<open>drain_never_loses\<close>, \<open>frontier_restart_exact\<close>).
\<close>

end
